(* ===== verification/Prelude.thy ===== *)
theory Prelude
  imports Main "HOL-Library.Word"
begin

text \<open>
  Shared vocabulary of the development: the machine types of the code, the byte-order helpers of
  \<open>src/base/bytes.cpp\<close>, the named collections the component theories add to, and the
  interface of a self-delimiting byte codec together with its lifting to sequences.
\<close>

unbundle bit_operations_syntax

section \<open>Types\<close>

text \<open>\<open>unsigned char\<close>, and the 32-bit \<open>int\<close> / \<open>unsigned\<close> as words; a C \<open>int\<close> whose
  value never leaves its range is modelled as the mathematical \<open>int\<close>.\<close>

type_synonym byte = "8 word"
type_synonym i32 = "32 word"
type_synonym u64 = "64 word"

named_theorems wire_simps "evaluation rules of the wire formats"
named_theorems frame_simps "fields that an operation leaves alone"

section \<open>Conversions\<close>

text \<open>The conversion of an \<open>int\<close> to \<open>unsigned char\<close>.\<close>

definition to_byte :: "int \<Rightarrow> byte" where
  "to_byte x = word_of_int x"

lemma uint_to_byte: "0 \<le> x \<Longrightarrow> x < 256 \<Longrightarrow> uint (to_byte x) = x"
  by (simp add: to_byte_def uint_word_of_int)

lemma to_byte_uint [simp]: "to_byte (uint b) = b"
  by (simp add: to_byte_def)

lemma uint_byte_bound: "0 \<le> uint (b :: byte)" "uint (b :: byte) < 256"
  using uint_lt2p [of b] by simp_all

text \<open>The big-endian helpers of \<open>bytes.cpp\<close>.\<close>

definition bytes_be_to_uint :: "byte list \<Rightarrow> i32" where
  "bytes_be_to_uint bs =
     push_bit 24 (ucast (bs ! 0)) OR push_bit 16 (ucast (bs ! 1)) OR
     push_bit 8 (ucast (bs ! 2)) OR ucast (bs ! 3)"

definition uint_to_bytes_be :: "i32 \<Rightarrow> byte list" where
  "uint_to_bytes_be v =
     [ucast (drop_bit 24 v), ucast (drop_bit 16 v), ucast (drop_bit 8 v), ucast v]"

text \<open>\<open>time_freq()\<close>: ticks of the clock per second.\<close>

definition time_freq :: int where "time_freq = 1000000000"

section \<open>Generic lemmas\<close>

lemma option_bind_Some_iff:
  "(case x of None \<Rightarrow> None | Some a \<Rightarrow> f a) = Some r \<longleftrightarrow> (\<exists>a. x = Some a \<and> f a = Some r)"
  by (cases x) auto

text \<open>Numeral masks bit by bit; \<open>k\<close> ones are \<open>mask k\<close>.\<close>

lemma mask_numerals:
  "(3 :: int) = mask 2" "(0x0F :: int) = mask 4" "(0x3F :: int) = mask 6" "(0x7F :: int) = mask 7"
  "(0xFF :: int) = mask 8"
  by (simp_all add: mask_eq_exp_minus_1)

lemma single_bit_numerals:
  "(0x40 :: int) = push_bit 6 1" "(0x80 :: int) = push_bit 7 1"
  by (simp_all add: push_bit_eq_mult)

lemma high_mask_numeral: "(0xC0 :: int) = push_bit 6 (mask 2)"
  by (simp add: push_bit_eq_mult mask_eq_exp_minus_1)

lemma bit_numerals:
  "bit (3 :: int) k \<longleftrightarrow> k < 2" "bit (0x0F :: int) k \<longleftrightarrow> k < 4"
  "bit (0x3F :: int) k \<longleftrightarrow> k < 6" "bit (0x7F :: int) k \<longleftrightarrow> k < 7"
  "bit (0xFF :: int) k \<longleftrightarrow> k < 8"
  "bit (0x40 :: int) k \<longleftrightarrow> k = 6" "bit (0x80 :: int) k \<longleftrightarrow> k = 7"
  "bit (0xC0 :: int) k \<longleftrightarrow> 6 \<le> k \<and> k - 6 < 2"
  by (auto simp only: mask_numerals single_bit_numerals high_mask_numeral bit_mask_iff bit_push_bit_iff bit_1_iff
      possible_bit_int simp_thms)

lemma or_eq_add:
  fixes a x :: int
  assumes "2 ^ n dvd a" "0 \<le> x" "x < 2 ^ n"
  shows "a OR x = a + x"
proof -
  obtain q where q: "a = push_bit n q" using assms(1) by (auto simp: push_bit_eq_mult dvd_def mult.commute)
  have x: "x = take_bit n x" using assms(2,3) by (simp add: take_bit_int_eq_self)
  have "a AND x = 0"
    unfolding q by (subst x, rule bit_eqI) (auto simp: bit_simps)
  then show ?thesis by (simp add: disjunctive_add_eq_or)
qed

section \<open>Interface: a self-delimiting codec\<close>

text \<open>
  \<open>enc x\<close> is the text (bytes or characters) of a value that \<open>valid\<close> admits; \<open>dec\<close> reads one value from the
  front of a byte string and hands back the rest, or fails.
\<close>

locale codec =
  fixes valid :: "'a \<Rightarrow> bool"
    and enc :: "'a \<Rightarrow> 'c list"
    and dec :: "'c list \<Rightarrow> ('a \<times> 'c list) option"
  assumes dec_enc: "valid x \<Longrightarrow> dec (enc x @ rest) = Some (x, rest)"
begin

lemma enc_prefix_free:
  assumes "valid x" "valid y" "enc x @ r = enc y @ s"
  shows "x = y \<and> r = s"
proof -
  have "Some (x, r) = dec (enc x @ r)" by (rule dec_enc [OF assms(1), symmetric])
  also have "\<dots> = dec (enc y @ s)" by (rule arg_cong [OF assms(3)])
  also have "\<dots> = Some (y, s)" by (rule dec_enc [OF assms(2)])
  finally show ?thesis by simp
qed

lemma enc_inj: "valid x \<Longrightarrow> valid y \<Longrightarrow> enc x = enc y \<Longrightarrow> x = y"
  using enc_prefix_free [of x y "[]" "[]"] by simp

end

section \<open>Interface: a queue\<close>

text \<open>
  \<open>entries q\<close> are the entries from the oldest to the newest; \<open>push q n\<close> asks for an entry of size \<open>n\<close> and may
  fail. \<open>pop_while\<close> is the loop that drops the oldest entries as long as they satisfy a predicate; its fuel
  is a bound on their number.
\<close>

fun pop_while :: "nat \<Rightarrow> ('q \<Rightarrow> 'e option) \<Rightarrow> ('q \<Rightarrow> 'q) \<Rightarrow> ('e \<Rightarrow> bool) \<Rightarrow> 'q \<Rightarrow> 'q" where
  "pop_while 0 first pop P q = q"
| "pop_while (Suc n) first pop P q =
     (case first q of
        None \<Rightarrow> q
      | Some e \<Rightarrow> if P e then pop_while n first pop P (pop q) else q)"

locale fifo =
  fixes ok :: "'q \<Rightarrow> bool"
    and entries :: "'q \<Rightarrow> 'e list"
    and first :: "'q \<Rightarrow> 'e option"
    and pop :: "'q \<Rightarrow> 'q"
    and push :: "'q \<Rightarrow> nat \<Rightarrow> 'q \<times> 'e option"
  assumes first_entries: "ok q \<Longrightarrow> first q = (case entries q of [] \<Rightarrow> None | e # _ \<Rightarrow> Some e)"
    and pop_entries: "ok q \<Longrightarrow> ok (pop q) \<and> entries (pop q) = tl (entries q)"
    and push_entries: "ok q \<Longrightarrow> ok (fst (push q n)) \<and>
      entries (fst (push q n)) = entries q @ (case snd (push q n) of None \<Rightarrow> [] | Some e \<Rightarrow> [e])"
begin

lemma pop_while_entries:
  "ok q \<Longrightarrow> length (entries q) \<le> n \<Longrightarrow>
   ok (pop_while n first pop P q) \<and> entries (pop_while n first pop P q) = dropWhile P (entries q)"
proof (induction n arbitrary: q)
  case (Suc n)
  show ?case
  proof (cases "entries q")
    case Nil
    then show ?thesis using Suc.prems(1) by (simp add: first_entries)
  next
    case (Cons e es)
    then show ?thesis
      using Suc.prems pop_entries [OF Suc.prems(1)] Suc.IH [of "pop q"] by (simp add: first_entries)
  qed
qed simp

lemma first_in: "ok q \<Longrightarrow> first q = Some e \<Longrightarrow> e \<in> set (entries q)"
  by (auto simp: first_entries split: list.splits)

end

end
