(* ===== verification/VarInt.thy ===== *)
theory VarInt
  imports Prelude
begin

text \<open>
  \<open>CVariableInt\<close> (\<open>src/engine/shared/compression.h\<close> and \<open>compression.cpp\<close>): the packed
  integers of the network protocol and of the demo and snapshot streams. A destination pointer
  with the room left becomes the room; the returned end pointer becomes the bytes written.
  A null result is \<open>None\<close>.
\<close>

definition MAX_BYTES_PACKED :: nat where
  "MAX_BYTES_PACKED = 5"

section \<open>Packing one integer\<close>

text \<open>The loop \<open>while(i)\<close> of \<open>Pack\<close>: \<open>cur\<close> is the byte the destination points at. The
  value is non-negative here, so \<open>>>\<close> is the logical shift.\<close>

function pack_loop :: "byte \<Rightarrow> i32 \<Rightarrow> int \<Rightarrow> byte list option" where
  "pack_loop cur i room =
     (if i = 0 then Some [cur]
      else if room \<le> 0 then None
      else map_option ((#) (cur OR 0x80))
             (pack_loop (ucast (i AND 0x7F)) (drop_bit 7 i) (room - 1)))"
  by pat_completeness auto
termination
proof (relation "measure (\<lambda>(c, i, r). unat i)", goal_cases)
  case 1
  then show ?case by simp
next
  case (2 cur i room)
  then have "0 < unat i" by (simp add: unat_gt_0)
  then show ?case by (simp, subst unat_drop_bit_eq, simp add: drop_bit_eq_div)
qed

declare pack_loop.simps [simp del]

definition Pack :: "i32 \<Rightarrow> int \<Rightarrow> byte list option" where
  "Pack i room =
     (if room \<le> 0 then None
      else let sign = (if i <s 0 then 0x40 else 0);
               v = (if i <s 0 then NOT i else i)
           in pack_loop (sign OR ucast (v AND 0x3F)) (drop_bit 6 v) (room - 1))"

section \<open>Unpacking one integer\<close>

definition unpack_steps :: "(i32 \<times> nat) list" where
  "unpack_steps = [(0x7F, 6), (0x7F, 13), (0x7F, 20), (0x0F, 27)]"

fun unpack_loop :: "(i32 \<times> nat) list \<Rightarrow> byte \<Rightarrow> i32 \<Rightarrow> byte list \<Rightarrow> (i32 \<times> byte list) option" where
  "unpack_loop [] b acc src = Some (acc, src)"
| "unpack_loop ((m, s) # ms) b acc src =
     (if b AND 0x80 = 0 then Some (acc, src)
      else case src of
          [] \<Rightarrow> None
        | c # cs \<Rightarrow> unpack_loop ms c (acc OR push_bit s (ucast c AND m)) cs)"

definition Unpack :: "byte list \<Rightarrow> (i32 \<times> byte list) option" where
  "Unpack src =
     (case src of
        [] \<Rightarrow> None
      | b # bs \<Rightarrow>
          let sign = (ucast (drop_bit 6 b) :: i32) AND 1
          in map_option (\<lambda>(v, rest). (v XOR (- sign), rest))
               (unpack_loop unpack_steps b (ucast (b AND 0x3F)) bs))"

section \<open>Buffers\<close>

text \<open>\<open>Compress\<close> and \<open>Decompress\<close>: an array of integers against a byte string, with the
  destination capacity in bytes. \<open>-1\<close> is \<open>None\<close>.\<close>

fun Compress :: "i32 list \<Rightarrow> int \<Rightarrow> byte list option" where
  "Compress [] room = Some []"
| "Compress (i # is) room =
     (case Pack i room of
        None \<Rightarrow> None
      | Some bs \<Rightarrow> map_option ((@) bs) (Compress is (room - int (length bs))))"

text \<open>The capacity is a number of integers, \<open>DstSize / sizeof(int)\<close>.\<close>

lemma unpack_loop_shorter:
  "unpack_loop ms b acc src = Some (v, rest) \<Longrightarrow> length rest \<le> length src"
  by (induction ms b acc src rule: unpack_loop.induct) (auto split: if_splits list.splits)

lemma Unpack_shorter: "Unpack src = Some (v, rest) \<Longrightarrow> length rest < length src"
  by (auto simp: Unpack_def Let_def less_Suc_eq_le dest: unpack_loop_shorter split: list.splits)

function Decompress_loop :: "byte list \<Rightarrow> nat \<Rightarrow> i32 list option" where
  "Decompress_loop src cap =
     (if src = [] then Some []
      else if cap = 0 then None
      else case Unpack src of
          None \<Rightarrow> None
        | Some (v, rest) \<Rightarrow> map_option ((#) v) (Decompress_loop rest (cap - 1)))"
  by pat_completeness auto
termination
  by (relation "measure (\<lambda>(src, cap). cap)") auto

declare Decompress_loop.simps [simp del]

definition Decompress :: "byte list \<Rightarrow> nat \<Rightarrow> i32 list option" where
  "Decompress src dst_size = Decompress_loop src (dst_size div 4)"

section \<open>Round trip of one integer\<close>

lemma pack_loop_0 [simp]: "pack_loop c 0 r = Some [c]"
  by (simp add: pack_loop.simps)

lemma pack_loop_step:
  "i \<noteq> 0 \<Longrightarrow> 0 < r \<Longrightarrow>
   pack_loop c i r = map_option ((#) (c OR 0x80)) (pack_loop (ucast (i AND 0x7F)) (drop_bit 7 i) (r - 1))"
  by (subst pack_loop.simps) auto

lemma ucast_low_OR: "(ucast ((c OR 0x80 :: byte)) :: i32) AND 0x7F = ucast c AND 0x7F"
  by (rule bit_word_eqI) (auto simp: bit_simps bit_numerals)

lemma push_bit_split:
  "push_bit s (i AND 0x7F) OR push_bit (s + 7) (drop_bit 7 i) = push_bit s (i :: i32)"
proof (rule bit_word_eqI)
  fix n assume "n < LENGTH(32)"
  show "bit (push_bit s (i AND 0x7F) OR push_bit (s + 7) (drop_bit 7 i)) n = bit (push_bit s i) n"
    by (cases "s + 7 \<le> n") (auto simp: bit_simps bit_numerals)
qed

text \<open>
  The two loops agree one step at a time: if the rest of the steps \<open>ms\<close> reads what remains of
  the value above seven bits, one more step reads the whole value.
\<close>

definition reads_back :: "(i32 \<times> nat) list \<Rightarrow> nat \<Rightarrow> i32 \<Rightarrow> bool" where
  "reads_back ms s i \<longleftrightarrow>
     (\<forall>cur room acc bs rest. pack_loop cur i room = Some bs \<longrightarrow> cur AND 0x80 = 0 \<longrightarrow>
        (\<exists>b tl. bs = b # tl \<and> (ucast b :: i32) AND 0x7F = ucast cur AND 0x7F \<and>
           (i \<noteq> 0 \<longrightarrow> b = cur OR 0x80) \<and> (i = 0 \<longrightarrow> b = cur) \<and>
           unpack_loop ms b acc (tl @ rest) = Some (acc OR push_bit s i, rest)))"

lemma reads_back_0: "reads_back ms s 0"
  by (cases ms) (auto simp: reads_back_def)

lemma byte_with_80: "(c OR 0x80) AND 0x80 \<noteq> (0 :: byte)"
proof
  assume "(c OR 0x80) AND 0x80 = 0"
  then have "bit ((c OR 0x80) AND 0x80) 7 = bit (0 :: byte) 7" by simp
  then show False by (simp add: bit_simps bit_numerals)
qed

lemma ucast_7F_no_80: "(ucast (i AND 0x7F :: i32) :: byte) AND 0x80 = 0"
  by (rule bit_word_eqI) (auto simp: bit_simps bit_numerals)

lemma ucast_ucast_7F: "(ucast (ucast (i AND 0x7F :: i32) :: byte) :: i32) AND 0x7F = i AND 0x7F"
  by (rule bit_word_eqI) (auto simp: bit_simps bit_numerals)

lemma reads_back_step:
  assumes mask: "\<And>c :: i32. c AND 0x7F = i AND 0x7F \<Longrightarrow> c AND m = i AND 0x7F"
    and IH: "reads_back ms (s + 7) (drop_bit 7 i)"
  shows "reads_back ((m, s) # ms) s i"
  unfolding reads_back_def
proof (intro allI impI)
  fix cur room acc bs rest
  assume p: "pack_loop cur i room = Some bs" and c: "cur AND 0x80 = 0"
  show "\<exists>b tl. bs = b # tl \<and> (ucast b :: i32) AND 0x7F = ucast cur AND 0x7F \<and>
           (i \<noteq> 0 \<longrightarrow> b = cur OR 0x80) \<and> (i = 0 \<longrightarrow> b = cur) \<and>
           unpack_loop ((m, s) # ms) b acc (tl @ rest) = Some (acc OR push_bit s i, rest)"
  proof (cases "i = 0")
    case True
    with p c show ?thesis by auto
  next
    case False
    with p have r: "0 < room" by (subst (asm) pack_loop.simps) (auto split: if_splits)
    let ?n = "ucast (i AND 0x7F) :: byte"
    have "map_option ((#) (cur OR 0x80)) (pack_loop ?n (drop_bit 7 i) (room - 1)) = Some bs"
      using p by (simp only: pack_loop_step [OF False r])
    then obtain bs' where p': "pack_loop ?n (drop_bit 7 i) (room - 1) = Some bs'"
      and bs: "bs = (cur OR 0x80) # bs'" by (auto simp only: map_option_eq_Some)
    from IH [unfolded reads_back_def, rule_format, OF p' ucast_7F_no_80,
        of "acc OR push_bit s (i AND 0x7F)" rest]
    obtain b tl where b: "bs' = b # tl" "(ucast b :: i32) AND 0x7F = ucast ?n AND 0x7F"
      and u: "unpack_loop ms b (acc OR push_bit s (i AND 0x7F)) (tl @ rest) =
        Some ((acc OR push_bit s (i AND 0x7F)) OR push_bit (s + 7) (drop_bit 7 i), rest)"
      by (elim exE conjE) (rule that)
    have m: "ucast b AND m = i AND 0x7F"
      using b(2) by (intro mask) (simp only: ucast_ucast_7F)
    have "unpack_loop ((m, s) # ms) (cur OR 0x80) acc (bs' @ rest) =
        unpack_loop ms b (acc OR push_bit s (i AND 0x7F)) (tl @ rest)"
      by (simp only: unpack_loop.simps b(1) append_Cons list.case byte_with_80 if_False m)
    then have "unpack_loop ((m, s) # ms) (cur OR 0x80) acc (bs' @ rest) =
        Some (acc OR push_bit s i, rest)"
      by (simp only: u or.assoc push_bit_split)
    with bs False show ?thesis
      by (intro exI [of _ "cur OR 0x80"] exI [of _ bs']) (simp only: ucast_low_OR simp_thms)
  qed
qed

lemma mask_last:
  assumes "drop_bit 4 i = (0 :: i32)" and "c AND 0x7F = i AND 0x7F"
  shows "c AND 0x0F = i AND 0x7F"
proof (rule bit_word_eqI)
  fix n assume n: "n < LENGTH(32)"
  have "bit (drop_bit 4 i) (n - 4) = False" by (simp add: assms(1))
  then have hi: "4 \<le> n \<Longrightarrow> \<not> bit i n" by (simp add: bit_simps)
  have "bit (c AND 0x7F) n = bit (i AND 0x7F) n" by (simp only: assms(2))
  then show "bit (c AND 0x0F) n = bit (i AND 0x7F) n"
    using hi n by (cases "4 \<le> n") (auto simp: bit_simps bit_numerals)
qed

lemma reads_back_all:
  assumes "drop_bit 25 i = (0 :: i32)"
  shows "reads_back unpack_steps 6 i"
proof -
  have d2: "drop_bit 4 (drop_bit 7 (drop_bit 7 (drop_bit 7 i))) = 0"
    using assms by (simp only: drop_bit_drop_bit) simp
  have "drop_bit 7 (drop_bit 7 (drop_bit 7 (drop_bit 7 i))) =
      drop_bit 3 (drop_bit 4 (drop_bit 7 (drop_bit 7 (drop_bit 7 i))))"
    by (simp only: drop_bit_drop_bit) simp
  with d2 have d: "drop_bit 7 (drop_bit 7 (drop_bit 7 (drop_bit 7 i))) = 0"
    by (simp only: drop_bit_of_0)
  have r4: "reads_back [] 34 (drop_bit 7 (drop_bit 7 (drop_bit 7 (drop_bit 7 i))))"
    unfolding d by (rule reads_back_0)
  have r3: "reads_back [(0x0F, 27)] 27 (drop_bit 7 (drop_bit 7 (drop_bit 7 i)))"
    by (rule reads_back_step, erule mask_last [OF d2]) (use r4 in simp)
  have r2: "reads_back [(0x7F, 20), (0x0F, 27)] 20 (drop_bit 7 (drop_bit 7 i))"
    by (rule reads_back_step) (use r3 in simp_all)
  have r1: "reads_back [(0x7F, 13), (0x7F, 20), (0x0F, 27)] 13 (drop_bit 7 i)"
    by (rule reads_back_step) (use r2 in simp_all)
  show ?thesis
    unfolding unpack_steps_def by (rule reads_back_step) (use r1 in simp_all)
qed

text \<open>The magnitude \<open>Pack\<close> writes: 31 bits at most, so five bytes always suffice.\<close>

lemma sless_0_bit: "(i :: i32) <s 0 \<longleftrightarrow> bit i 31"
  using bit_last_iff [of i] by (simp add: word_sless_alt)

lemma magnitude_31:
  "drop_bit 31 (if (i :: i32) <s 0 then NOT i else i) = 0"
proof (rule bit_word_eqI)
  fix n assume "n < LENGTH(32)"
  show "bit (drop_bit 31 (if i <s 0 then NOT i else i)) n = bit (0 :: i32) n"
    by (cases "n = 0") (auto simp: bit_simps sless_0_bit dest: bit_imp_le_length)
qed

lemma magnitude_25: "drop_bit 25 (drop_bit 6 (if (i :: i32) <s 0 then NOT i else i)) = 0"
  using magnitude_31 [of i] by (simp only: drop_bit_drop_bit) simp

lemma low6_split: "(v AND 0x3F) OR push_bit 6 (drop_bit 6 v) = (v :: i32)"
proof (rule bit_word_eqI)
  fix n assume "n < LENGTH(32)"
  show "bit ((v AND 0x3F) OR push_bit 6 (drop_bit 6 v)) n = bit v n"
    using \<open>n < LENGTH(32)\<close> by (cases "6 \<le> n") (auto simp: bit_simps bit_numerals)
qed

lemma first_byte:
  fixes v :: i32 and cur b :: byte
  assumes "cur = (if neg then 0x40 else 0) OR ucast (v AND 0x3F)" and "b = cur \<or> b = cur OR 0x80"
  shows "cur AND 0x80 = 0" and "ucast (b AND 0x3F) = v AND 0x3F"
    and "(ucast (drop_bit 6 b) :: i32) AND 1 = (if neg then 1 else 0)"
proof -
  show "cur AND 0x80 = 0"
    unfolding assms(1) by (rule bit_word_eqI) (auto simp: bit_simps bit_numerals)
  show "ucast (b AND 0x3F) = v AND 0x3F"
    using assms(2) unfolding assms(1)
    by (intro bit_word_eqI) (auto simp: bit_simps bit_numerals split: if_splits)
  show "(ucast (drop_bit 6 b) :: i32) AND 1 = (if neg then 1 else 0)"
    using assms(2) unfolding assms(1)
    by (intro bit_word_eqI) (auto simp: bit_simps bit_numerals split: if_splits)
qed

lemma Unpack_Pack:
  assumes "Pack i room = Some bs"
  shows "Unpack (bs @ rest) = Some (i, rest)"
proof -
  let ?neg = "i <s 0" and ?v = "if i <s 0 then NOT i else i"
  define cur :: byte where "cur = (if ?neg then 0x40 else 0) OR ucast (?v AND 0x3F)"
  have p: "pack_loop cur (drop_bit 6 ?v) (room - 1) = Some bs"
    using assms by (simp add: Pack_def Let_def cur_def split: if_splits)
  have c: "cur AND 0x80 = 0" by (rule first_byte(1) [OF cur_def, of cur]) simp
  from reads_back_all [OF magnitude_25 [of i], unfolded reads_back_def, rule_format, OF p c,
      of "?v AND 0x3F" rest]
  obtain b tl where b: "bs = b # tl" "b = cur \<or> b = cur OR 0x80"
    and u: "unpack_loop unpack_steps b (?v AND 0x3F) (tl @ rest) =
      Some ((?v AND 0x3F) OR push_bit 6 (drop_bit 6 ?v), rest)"
    by (elim exE conjE) (rule that, assumption, metis, assumption)
  have "Unpack (bs @ rest) = Some (?v XOR (- (if ?neg then 1 else 0)), rest)"
    by (simp only: Unpack_def b(1) append_Cons list.case Let_def first_byte(2,3) [OF cur_def b(2)]
        u low6_split option.map prod.case)
  then show ?thesis by (auto simp: xor_one_eq)
qed

text \<open>Room and length: the loop writes one byte per seven bits left, whatever the room.\<close>

lemma pack_loop_room:
  "pack_loop cur i room = Some bs \<Longrightarrow> 0 \<le> room \<Longrightarrow>
   int (length bs) \<le> room + 1 \<and> (\<forall>r'. int (length bs) \<le> r' + 1 \<longrightarrow> pack_loop cur i r' = Some bs)"
proof (induction cur i room arbitrary: bs rule: pack_loop.induct)
  case (1 cur i room)
  show ?case
  proof (cases "i = 0")
    case True
    with "1.prems" show ?thesis by auto
  next
    case False
    with "1.prems"(1) have r: "0 < room" by (subst (asm) pack_loop.simps) (auto split: if_splits)
    have "map_option ((#) (cur OR 0x80)) (pack_loop (ucast (i AND 0x7F)) (drop_bit 7 i) (room - 1)) = Some bs"
      using "1.prems"(1) by (simp only: pack_loop_step [OF False r])
    then obtain bs' where bs: "bs = (cur OR 0x80) # bs'"
      and rec: "pack_loop (ucast (i AND 0x7F)) (drop_bit 7 i) (room - 1) = Some bs'"
      by (auto simp only: map_option_eq_Some)
    have IH: "int (length bs') \<le> room - 1 + 1"
      "\<And>r'. int (length bs') \<le> r' + 1 \<Longrightarrow> pack_loop (ucast (i AND 0x7F)) (drop_bit 7 i) r' = Some bs'"
      using "1.IH" [OF False _ rec] r by auto
    have "bs' \<noteq> []"
      using rec by (subst (asm) pack_loop.simps) (auto split: if_splits)
    then have "0 < length bs'" by simp
    have "pack_loop cur i r' = Some bs" if "int (length bs) \<le> r' + 1" for r'
    proof -
      have r': "0 < r'" using \<open>0 < length bs'\<close> that bs by (cases bs') auto
      show ?thesis using IH(2) [of "r' - 1"] that by (simp add: bs pack_loop_step [OF False r'])
    qed
    then show ?thesis using IH(1) by (simp add: bs)
  qed
qed

lemma pack_loop_total:
  "drop_bit (7 * n) i = 0 \<Longrightarrow> int n \<le> room \<Longrightarrow>
   \<exists>bs. pack_loop cur i room = Some bs \<and> length bs \<le> n + 1"
proof (induction n arbitrary: cur i room)
  case 0
  then show ?case by simp
next
  case (Suc n)
  show ?case
  proof (cases "i = 0")
    case True
    then show ?thesis by simp
  next
    case False
    have "drop_bit (7 * n) (drop_bit 7 i) = 0"
      using Suc.prems(1) by (simp add: drop_bit_drop_bit add.commute)
    from Suc.IH [OF this, of "room - 1" "ucast (i AND 0x7F)"] Suc.prems(2) False
    show ?thesis by (auto simp: pack_loop_step)
  qed
qed

section \<open>The packed form and buffers\<close>

text \<open>The packed form of an integer, independent of the room; \<open>Pack\<close> writes exactly it, when it fits.\<close>

definition packed :: "i32 \<Rightarrow> byte list" where
  "packed i = the (Pack i 5)"

lemma Pack_5:
  obtains bs where "Pack i 5 = Some bs" "0 < length bs" "length bs \<le> 5"
proof -
  let ?v = "if i <s 0 then NOT i else i"
  define cur :: byte where "cur = (if i <s 0 then 0x40 else 0) OR ucast (?v AND 0x3F)"
  have "drop_bit (7 * 4) (drop_bit 6 ?v) = drop_bit 3 (drop_bit 25 (drop_bit 6 ?v))"
    by (simp only: drop_bit_drop_bit) simp
  then have "drop_bit (7 * 4) (drop_bit 6 ?v) = 0" by (simp only: magnitude_25 drop_bit_of_0)
  from pack_loop_total [OF this, of 4 cur] obtain bs
    where bs: "pack_loop cur (drop_bit 6 ?v) 4 = Some bs" "length bs \<le> 5" by auto
  have "bs \<noteq> []" using bs(1) by (subst (asm) pack_loop.simps) (auto split: if_splits)
  moreover have "Pack i 5 = Some bs" using bs(1) by (simp add: Pack_def Let_def cur_def)
  ultimately show ?thesis using bs(2) that by simp
qed

lemma Pack_packed: "Pack i 5 = Some (packed i)"
  by (rule Pack_5 [of i]) (simp add: packed_def)

lemma length_packed: "0 < length (packed i)" "length (packed i) \<le> MAX_BYTES_PACKED"
  by (rule Pack_5 [of i], simp add: packed_def MAX_BYTES_PACKED_def)+

lemma Pack_room:
  assumes "Pack i room = Some bs"
  shows "int (length bs) \<le> room" and "int (length bs) \<le> r' \<Longrightarrow> Pack i r' = Some bs"
proof -
  let ?v = "if i <s 0 then NOT i else i"
  define cur :: byte where "cur = (if i <s 0 then 0x40 else 0) OR ucast (?v AND 0x3F)"
  have r: "0 < room" and p: "pack_loop cur (drop_bit 6 ?v) (room - 1) = Some bs"
    using assms by (auto simp: Pack_def Let_def cur_def split: if_splits)
  have ne: "bs \<noteq> []" using p by (subst (asm) pack_loop.simps) (auto split: if_splits)
  note room = pack_loop_room [OF p]
  show "int (length bs) \<le> room" using room r by simp
  assume "int (length bs) \<le> r'"
  with ne have "0 < r'" by (cases bs) auto
  moreover have "pack_loop cur (drop_bit 6 ?v) (r' - 1) = Some bs"
    using room r \<open>int (length bs) \<le> r'\<close> by simp
  ultimately show "Pack i r' = Some bs" by (simp add: Pack_def Let_def cur_def)
qed

lemma Pack_eq:
  "Pack i room = (if int (length (packed i)) \<le> room then Some (packed i) else None)"
proof (cases "Pack i room")
  case None
  then show ?thesis using Pack_room(2) [OF Pack_packed, of i room] by auto
next
  case (Some bs)
  have "Pack i 5 = Some bs" if "int (length bs) \<le> 5" using Pack_room(2) [OF Some that] .
  moreover have "int (length bs) \<le> 5"
  proof (rule ccontr)
    assume "\<not> int (length bs) \<le> 5"
    then have "int (length (packed i)) \<le> room"
      using Pack_room(1) [OF Some] length_packed(2) [of i] by (simp add: MAX_BYTES_PACKED_def)
    from Pack_room(2) [OF Pack_packed this] Some \<open>\<not> int (length bs) \<le> 5\<close> length_packed(2) [of i]
    show False by (simp add: MAX_BYTES_PACKED_def)
  qed
  ultimately have "bs = packed i" by (simp add: packed_def)
  then show ?thesis using Some Pack_room(1) [OF Some] by simp
qed

interpretation varint: codec "\<lambda>_. True" packed Unpack
  by unfold_locales (rule Unpack_Pack [OF Pack_packed])

lemma Compress_eq:
  "Compress is room =
     (if is = [] \<or> int (length (concat (map packed is))) \<le> room
      then Some (concat (map packed is)) else None)"
proof (induction "is" arbitrary: room)
  case Nil
  then show ?case by simp
next
  case (Cons i "is")
  show ?case
    using length_packed(1) [of i] by (auto simp: Pack_eq Cons.IH)
qed

lemma Decompress_loop_packed:
  "Decompress_loop (concat (map packed is)) cap = (if length is \<le> cap then Some is else None)"
proof (induction "is" arbitrary: cap)
  case Nil
  then show ?case by (simp add: Decompress_loop.simps)
next
  case (Cons i "is")
  have "packed i @ concat (map packed is) \<noteq> []" using length_packed(1) [of i] by auto
  then show ?case
    using Cons.IH [of "cap - 1"]
    by (auto simp: Decompress_loop.simps [of "packed i @ concat (map packed is)"] varint.dec_enc)
qed

section \<open>Properties\<close>

text \<open>C32. Packing an integer with \<open>CVariableInt::Pack\<close> and reading it back with \<open>Unpack\<close> gives the
  integer and leaves exactly the bytes that followed it, for every 32-bit value and any room;
  the packed form has between one and \<open>MAX_BYTES_PACKED\<close> bytes and never exceeds the room.\<close>

theorem varint_roundtrip:
  assumes "Pack i room = Some bs"
  shows "Unpack (bs @ rest) = Some (i, rest) \<and>
    0 < length bs \<and> length bs \<le> MAX_BYTES_PACKED \<and> int (length bs) \<le> room"
  using assms length_packed [of i]
  by (auto simp: Pack_eq varint.dec_enc split: if_splits)

theorem varint_roundtrip_witness:
  "Pack 1000 2 = Some [0xA8, 0x0F] \<and> Unpack ([0xA8, 0x0F] @ [7]) = Some (1000, [7])"
proof -
  have p: "Pack 1000 2 = Some [0xA8, 0x0F]"
    by (simp add: Pack_def pack_loop.simps word_sless_alt)
  show ?thesis using varint_roundtrip [OF p, of "[7]"] p by simp
qed

text \<open>A buffer of integers survives \<open>Compress\<close> followed by \<open>Decompress\<close>: whenever the
  compressed form fits its destination and the target holds that many integers, decompression
  returns them all; with a smaller target it reports the error.\<close>

theorem compress_roundtrip:
  assumes "Compress is room = Some bs"
  shows "Decompress bs dst_size = (if length is \<le> dst_size div 4 then Some is else None)"
proof -
  have "bs = concat (map packed is)"
    using assms by (simp add: Compress_eq split: if_splits)
  then show ?thesis by (simp add: Decompress_def Decompress_loop_packed)
qed

theorem compress_roundtrip_witness:
  "Compress [1000, - 3] 3 = Some [0xA8, 0x0F, 0x42] \<and> Decompress [0xA8, 0x0F, 0x42] 8 = Some [1000, - 3]"
proof -
  have c: "Compress [1000, - 3] 3 = Some [0xA8, 0x0F, 0x42]"
    by (simp add: Pack_def pack_loop.simps word_sless_alt)
  show ?thesis using compress_roundtrip [OF c, of 8] c by simp
qed

end
