(* ===== verification/Strings.thy ===== *)
theory Strings
  imports Prelude
begin

text \<open>
  The string routines of \<open>src/base/str.cpp\<close> that the protocol and the server rely on. A C string
  is the list of its bytes before the terminator: the terminator reads as the byte 0 at the end of
  the list. A pointer into a string is the rest of the list from there. Routines that fill a
  buffer of a given size return the string they leave in it.
\<close>

type_synonym cstring = "byte list"

definition wf_cstring :: "cstring \<Rightarrow> bool" where
  "wf_cstring s \<longleftrightarrow> 0 \<notin> set s"

section \<open>UTF-8\<close>

definition str_utf8_encode :: "int \<Rightarrow> byte list" where
  "str_utf8_encode chr =
     (if chr \<le> 0x7F then [to_byte chr]
      else if chr \<le> 0x7FF then
        [to_byte (0xC0 OR (drop_bit 6 chr AND 0x1F)),
         to_byte (0x80 OR (chr AND 0x3F))]
      else if chr \<le> 0xFFFF then
        [to_byte (0xE0 OR (drop_bit 12 chr AND 0x0F)),
         to_byte (0x80 OR (drop_bit 6 chr AND 0x3F)),
         to_byte (0x80 OR (chr AND 0x3F))]
      else if chr \<le> 0x10FFFF then
        [to_byte (0xF0 OR (drop_bit 18 chr AND 0x07)),
         to_byte (0x80 OR (drop_bit 12 chr AND 0x3F)),
         to_byte (0x80 OR (drop_bit 6 chr AND 0x3F)),
         to_byte (0x80 OR (chr AND 0x3F))]
      else [])"

text \<open>The loop of \<open>str_utf8_decode\<close> once a lead byte has been read: the byte that does not fit is
  given back (\<open>str_byte_rewind\<close>), and so is the terminator, which is below every lower boundary.\<close>

fun utf8_tail :: "int \<Rightarrow> int \<Rightarrow> int \<Rightarrow> nat \<Rightarrow> nat \<Rightarrow> cstring \<Rightarrow> int \<times> cstring" where
  "utf8_tail lower upper code seen needed [] = (-1, [])"
| "utf8_tail lower upper code seen needed (b # bs) =
     (if \<not> (lower \<le> uint b \<and> uint b \<le> upper) then (-1, b # bs)
      else let seen = seen + 1;
               code = code + push_bit (6 * (needed - seen)) (uint b - 0x80)
           in if seen \<noteq> needed then utf8_tail 0x80 0xBF code seen needed bs
              else (code, bs))"

definition str_utf8_decode :: "cstring \<Rightarrow> int \<times> cstring" where
  "str_utf8_decode s =
     (case s of
        [] \<Rightarrow> (0, [])
      | b # bs \<Rightarrow>
          let v = uint b in
          if v \<le> 0x7F then (v, bs)
          else if 0xC2 \<le> v \<and> v \<le> 0xDF then
            utf8_tail 0x80 0xBF (push_bit 6 (v - 0xC0)) 0 1 bs
          else if 0xE0 \<le> v \<and> v \<le> 0xEF then
            utf8_tail (if v = 0xE0 then 0xA0 else 0x80) (if v = 0xED then 0x9F else 0xBF)
              (push_bit 12 (v - 0xE0)) 0 2 bs
          else if 0xF0 \<le> v \<and> v \<le> 0xF4 then
            utf8_tail (if v = 0xF0 then 0x90 else 0x80) (if v = 0xF4 then 0x8F else 0xBF)
              (push_bit 18 (v - 0xF0)) 0 3 bs
          else (-1, bs))"

lemma utf8_tail_shorter: "length (snd (utf8_tail lo hi c n k s)) \<le> length s"
  by (induction s arbitrary: lo hi c n) (auto simp: Let_def intro: le_SucI)

lemma str_utf8_decode_shorter:
  "s \<noteq> [] \<Longrightarrow> length (snd (str_utf8_decode s)) < length s"
  by (auto simp: str_utf8_decode_def Let_def less_Suc_eq_le utf8_tail_shorter split: list.splits)

lemma str_utf8_decode_Nil [simp]: "str_utf8_decode [] = (0, [])"
  by (simp add: str_utf8_decode_def)

lemma utf8_tail_suffix: "set (snd (utf8_tail lo hi c n k s)) \<subseteq> set s"
  by (induction s arbitrary: lo hi c n) (simp_all add: Let_def subset_insertI2)

lemma utf8_decode_suffix: "set (snd (str_utf8_decode s)) \<subseteq> set s"
proof (cases s)
  case (Cons b bs)
  have "set (snd (utf8_tail lo hi c n k bs)) \<subseteq> insert b (set bs)" for lo hi c n k
    using utf8_tail_suffix by (rule subset_insertI2)
  then show ?thesis by (simp add: Cons str_utf8_decode_def Let_def subset_insertI)
qed simp

text \<open>\<open>str_utf8_check\<close>: decode until the terminator; any error ends it.\<close>

function str_utf8_check :: "cstring \<Rightarrow> bool" where
  "str_utf8_check s =
     (let (code, rest) = str_utf8_decode s
      in if code = 0 then True
         else if code = -1 then False
         else str_utf8_check rest)"
  by pat_completeness auto
termination
proof (relation "measure length", goal_cases)
  case 1
  then show ?case by simp
next
  case (2 s p code rest)
  then show ?case using str_utf8_decode_shorter [of s] by (cases "s = []") (auto dest: sym)
qed

declare str_utf8_check.simps [simp del]

definition str_utf8_isspace :: "int \<Rightarrow> bool" where
  "str_utf8_isspace code \<longleftrightarrow>
     code \<le> 0x0020 \<or> code = 0x0085 \<or> code = 0x00A0 \<or> code = 0x034F \<or>
     code = 0x115F \<or> code = 0x1160 \<or> code = 0x1680 \<or> code = 0x180E \<or>
     (code \<ge> 0x2000 \<and> code \<le> 0x200F) \<or> (code \<ge> 0x2028 \<and> code \<le> 0x202F) \<or>
     (code \<ge> 0x205F \<and> code \<le> 0x2064) \<or> (code \<ge> 0x206A \<and> code \<le> 0x206F) \<or>
     code = 0x2800 \<or> code = 0x3000 \<or> code = 0x3164 \<or>
     (code \<ge> 0xFE00 \<and> code \<le> 0xFE0F) \<or> code = 0xFEFF \<or> code = 0xFFA0 \<or>
     (code \<ge> 0xFFF9 \<and> code \<le> 0xFFFC)"

function str_utf8_skip_whitespaces :: "cstring \<Rightarrow> cstring" where
  "str_utf8_skip_whitespaces s =
     (if s = [] then []
      else let (code, rest) = str_utf8_decode s
           in if \<not> str_utf8_isspace code then s else str_utf8_skip_whitespaces rest)"
  by pat_completeness auto
termination
proof (relation "measure length", goal_cases)
  case 1
  then show ?case by simp
next
  case (2 s p code rest)
  then show ?case using str_utf8_decode_shorter [of s] by (cases "str_utf8_decode s") auto
qed

declare str_utf8_skip_whitespaces.simps [simp del]

section \<open>Arithmetic of the encoder\<close>

lemma and_low_masks:
  "c AND 0x3F = c mod 64" "c AND 0x1F = c mod 32" "c AND 0x0F = c mod 16" "c AND 0x07 = c mod 8"
  for c :: int
proof -
  have "c AND mask n = c mod 2 ^ n" for n by (simp add: take_bit_eq_mask [symmetric] take_bit_eq_mod)
  from this [of 6] this [of 5] this [of 4] this [of 3]
  show "c AND 0x3F = c mod 64" "c AND 0x1F = c mod 32" "c AND 0x0F = c mod 16" "c AND 0x07 = c mod 8"
    by (simp_all add: mask_eq_exp_minus_1)
qed

lemma lead_bytes:
  fixes x :: int
  assumes "0 \<le> x"
  shows "x < 64 \<Longrightarrow> 0x80 OR x = 0x80 + x" "x < 32 \<Longrightarrow> 0xC0 OR x = 0xC0 + x"
    "x < 16 \<Longrightarrow> 0xE0 OR x = 0xE0 + x" "x < 8 \<Longrightarrow> 0xF0 OR x = 0xF0 + x"
  using assms or_eq_add [where n = 6 and a = "0x80" and x = x] or_eq_add [where n = 5 and a = "0xC0" and x = x] or_eq_add [where n = 4 and a = "0xE0" and x = x]
    or_eq_add [where n = 3 and a = "0xF0" and x = x] by simp_all

lemma drop_bits:
  "drop_bit 6 c = c div 64" "drop_bit 12 c = c div 4096" "drop_bit 18 c = c div 262144"
  "push_bit 6 c = c * 64" "push_bit 12 c = c * 4096" "push_bit 18 c = c * 262144"
  for c :: int
  by (simp_all add: drop_bit_eq_div push_bit_eq_mult)

lemmas utf8_arith = and_low_masks lead_bytes drop_bits

section \<open>Decoding inverts encoding\<close>

text \<open>The code points a C string can hold: Unicode scalar values other than NUL.\<close>

definition scalar :: "int \<Rightarrow> bool" where
  "scalar c \<longleftrightarrow> 0 < c \<and> c \<le> 0x10FFFF \<and> \<not> (0xD800 \<le> c \<and> c \<le> 0xDFFF)"

lemma encode_eq:
  "0 \<le> c \<Longrightarrow> c \<le> 0x10FFFF \<Longrightarrow> str_utf8_encode c =
    map to_byte
     (if c \<le> 0x7F then [c]
      else if c \<le> 0x7FF then [0xC0 + c div 64, 0x80 + c mod 64]
      else if c \<le> 0xFFFF then [0xE0 + c div 4096, 0x80 + c div 64 mod 64, 0x80 + c mod 64]
      else [0xF0 + c div 262144, 0x80 + c div 4096 mod 64, 0x80 + c div 64 mod 64, 0x80 + c mod 64])"
  by (auto simp: str_utf8_encode_def utf8_arith)

lemma utf8_tail_1:
  "utf8_tail lo hi c 0 1 (b # bs) =
     (if lo \<le> uint b \<and> uint b \<le> hi then (c + (uint b - 0x80), bs) else (-1, b # bs))"
  by simp

lemma utf8_tail_2:
  "utf8_tail lo hi c 0 2 (b # bs) =
     (if lo \<le> uint b \<and> uint b \<le> hi then utf8_tail 0x80 0xBF (c + (uint b - 0x80) * 64) 1 2 bs
      else (-1, b # bs))"
  "utf8_tail lo hi c 1 2 (b # bs) =
     (if lo \<le> uint b \<and> uint b \<le> hi then (c + (uint b - 0x80), bs) else (-1, b # bs))"
  by (simp_all add: push_bit_eq_mult numeral_2_eq_2)

lemma utf8_tail_3:
  "utf8_tail lo hi c 0 3 (b # bs) =
     (if lo \<le> uint b \<and> uint b \<le> hi then utf8_tail 0x80 0xBF (c + (uint b - 0x80) * 4096) 1 3 bs
      else (-1, b # bs))"
  "utf8_tail lo hi c 1 3 (b # bs) =
     (if lo \<le> uint b \<and> uint b \<le> hi then utf8_tail 0x80 0xBF (c + (uint b - 0x80) * 64) 2 3 bs
      else (-1, b # bs))"
  "utf8_tail lo hi c 2 3 (b # bs) =
     (if lo \<le> uint b \<and> uint b \<le> hi then (c + (uint b - 0x80), bs) else (-1, b # bs))"
  by (simp_all add: push_bit_eq_mult numeral_2_eq_2 numeral_3_eq_3)

lemmas utf8_tail_eqs = utf8_tail_1 [unfolded One_nat_def] utf8_tail_2 [unfolded One_nat_def]
  utf8_tail_3 [unfolded One_nat_def]

text \<open>Reading a well-formed two-, three- or four-byte sequence.\<close>

lemma decode_2:
  assumes "2 \<le> x" "x < 32" "0 \<le> z" "z < 64"
  shows "str_utf8_decode (to_byte (0xC0 + x) # to_byte (0x80 + z) # r) = (x * 64 + z, r)"
  using assms
  by (simp add: str_utf8_decode_def Let_def uint_to_byte utf8_tail_eqs drop_bits del: utf8_tail.simps)

lemma decode_3:
  assumes "0 \<le> x" "x < 16" "0 \<le> y" "y < 64" "0 \<le> z" "z < 64"
    and "x \<noteq> 0 \<or> 32 \<le> y" "x \<noteq> 13 \<or> y < 32"
  shows "str_utf8_decode (to_byte (0xE0 + x) # to_byte (0x80 + y) # to_byte (0x80 + z) # r) =
    (x * 4096 + y * 64 + z, r)"
  using assms
  by (auto simp: str_utf8_decode_def Let_def uint_to_byte utf8_tail_eqs drop_bits simp del: utf8_tail.simps)

lemma decode_4:
  assumes "0 \<le> w" "w \<le> 4" "0 \<le> x" "x < 64" "0 \<le> y" "y < 64" "0 \<le> z" "z < 64"
    and "w \<noteq> 0 \<or> 16 \<le> x" "w \<noteq> 4 \<or> x < 16"
  shows "str_utf8_decode (to_byte (0xF0 + w) # to_byte (0x80 + x) # to_byte (0x80 + y) #
      to_byte (0x80 + z) # r) = (w * 262144 + x * 4096 + y * 64 + z, r)"
  using assms
  by (auto simp: str_utf8_decode_def Let_def uint_to_byte utf8_tail_eqs drop_bits simp del: utf8_tail.simps)

lemma div_chain: "c div 4096 = c div 64 div 64" "c div 262144 = c div 4096 div 64" for c :: int
  using zdiv_zmult2_eq [of 64 c 64] zdiv_zmult2_eq [of 64 c 4096] by simp_all

lemma split_code:
  fixes c :: int
  shows "c div 64 * 64 + c mod 64 = c"
    and "c div 4096 * 4096 + c div 64 mod 64 * 64 + c mod 64 = c"
    and "c div 262144 * 262144 + c div 4096 mod 64 * 4096 + c div 64 mod 64 * 64 + c mod 64 = c"
proof -
  have a: "c div 64 * 64 + c mod 64 = c" by (rule div_mult_mod_eq)
  have b: "c div 4096 * 64 + c div 64 mod 64 = c div 64"
    using div_mult_mod_eq [of "c div 64" 64] by (simp only: div_chain(1))
  have d: "c div 262144 * 64 + c div 4096 mod 64 = c div 4096"
    using div_mult_mod_eq [of "c div 4096" 64] by (simp only: div_chain(2))
  show "c div 64 * 64 + c mod 64 = c" by (rule a)
  show "c div 4096 * 4096 + c div 64 mod 64 * 64 + c mod 64 = c" using a b by linarith
  show "c div 262144 * 262144 + c div 4096 mod 64 * 4096 + c div 64 mod 64 * 64 + c mod 64 = c"
    using a b d by linarith
qed

lemma decode_encode:
  assumes "scalar c"
  shows "str_utf8_decode (str_utf8_encode c @ rest) = (c, rest)"
proof -
  have c: "0 < c" "c \<le> 0x10FFFF" "\<not> (0xD800 \<le> c \<and> c \<le> 0xDFFF)"
    using assms by (auto simp: scalar_def)
  consider "c \<le> 0x7F" | "0x7F < c" "c \<le> 0x7FF" | "0x7FF < c" "c \<le> 0xFFFF" | "0xFFFF < c" by linarith
  then show ?thesis
  proof cases
    case 1
    then show ?thesis using c by (simp add: encode_eq str_utf8_decode_def uint_to_byte)
  next
    case 2
    then have "2 \<le> c div 64" "c div 64 < 32" by simp_all
    from decode_2 [OF this, of "c mod 64" rest] show ?thesis
      using 2 by (simp add: encode_eq)
  next
    case 3
    have x: "0 \<le> c div 4096" "c div 4096 < 16" using 3 by simp_all
    have u: "c div 4096 * 64 + c div 64 mod 64 = c div 64"
      using div_mult_mod_eq [of "c div 64" 64] by (simp only: div_chain(1))
    have "32 \<le> c div 64" using 3 by simp
    moreover have "c div 64 < 864 \<or> 896 \<le> c div 64" using c(3) by auto
    moreover have "c div 64 mod 64 < 64" by simp
    ultimately have y: "c div 4096 \<noteq> 0 \<or> 32 \<le> c div 64 mod 64"
        "c div 4096 \<noteq> 13 \<or> c div 64 mod 64 < 32"
      using u by linarith+
    from decode_3 [OF x _ _ _ _ y, of "c mod 64" rest] show ?thesis
      using 3 c by (simp add: encode_eq split_code)
  next
    case 4
    have x: "0 \<le> c div 262144" "c div 262144 \<le> 4" using 4 c by simp_all
    have u: "c div 262144 * 64 + c div 4096 mod 64 = c div 4096"
      using div_mult_mod_eq [of "c div 4096" 64] by (simp only: div_chain(2))
    have "16 \<le> c div 4096" "c div 4096 \<le> 271" using 4 c by simp_all
    then have y: "c div 262144 \<noteq> 0 \<or> 16 \<le> c div 4096 mod 64"
        "c div 262144 \<noteq> 4 \<or> c div 4096 mod 64 < 16"
      using u by linarith+
    from decode_4 [OF x _ _ _ _ _ _ y, of "c div 64 mod 64" "c mod 64" rest] show ?thesis
      using 4 c by (simp add: encode_eq split_code)
  qed
qed

text \<open>The converse: whatever the decoder accepts is the encoding of a scalar value (no overlong
  forms, no surrogates, nothing above U+10FFFF), and the rest of the string follows.\<close>

lemma digits64:
  fixes x y z w :: int
  assumes "0 \<le> z" "z < 64"
  shows "(x * 64 + z) div 64 = x" "(x * 64 + z) mod 64 = z"
  using assms by simp_all

lemma utf8_tail_1D:
  assumes "utf8_tail lo hi c 0 1 s = (d, r)" "d \<noteq> -1"
  obtains z where "s = z # r" "lo \<le> uint z" "uint z \<le> hi" "d = c + (uint z - 0x80)"
  using assms by (cases s) (auto simp: utf8_tail_eqs simp del: utf8_tail.simps(2) split: if_splits)

lemma utf8_tail_2D:
  assumes "utf8_tail lo hi c 0 2 s = (d, r)" "d \<noteq> -1"
  obtains y z where "s = y # z # r" "lo \<le> uint y" "uint y \<le> hi" "0x80 \<le> uint z" "uint z \<le> 0xBF"
    "d = c + (uint y - 0x80) * 64 + (uint z - 0x80)"
proof (cases s)
  case Nil
  then show ?thesis using assms by simp
next
  case (Cons y s')
  then show ?thesis using assms that
    by (cases s') (auto simp: utf8_tail_eqs simp del: utf8_tail.simps(2) split: if_splits)
qed

lemma utf8_tail_3D:
  assumes "utf8_tail lo hi c 0 3 s = (d, r)" "d \<noteq> -1"
  obtains x y z where "s = x # y # z # r" "lo \<le> uint x" "uint x \<le> hi"
    "0x80 \<le> uint y" "uint y \<le> 0xBF" "0x80 \<le> uint z" "uint z \<le> 0xBF"
    "d = c + (uint x - 0x80) * 4096 + (uint y - 0x80) * 64 + (uint z - 0x80)"
proof (cases s)
  case Nil
  then show ?thesis using assms by simp
next
  case (Cons x s')
  show ?thesis
  proof (cases s')
    case Nil
    then show ?thesis using assms Cons
      by (auto simp: utf8_tail_eqs simp del: utf8_tail.simps(2) split: if_splits)
  next
    case (Cons y s'')
    then show ?thesis using assms \<open>s = x # s'\<close> that
      by (cases s'') (auto simp: utf8_tail_eqs simp del: utf8_tail.simps(2) split: if_splits)
  qed
qed

lemma to_byte_eq_iff: "0 \<le> x \<Longrightarrow> x < 256 \<Longrightarrow> to_byte x = b \<longleftrightarrow> uint b = x"
  by (auto simp: uint_to_byte)

lemma decode_sound:
  assumes d: "str_utf8_decode s = (c, r)" and s: "s \<noteq> []" "hd s \<noteq> 0" and c: "c \<noteq> -1"
  shows "scalar c \<and> s = str_utf8_encode c @ r"
proof (cases s)
  case Nil
  with s show ?thesis by simp
next
  case (Cons b bs)
  with s have "b \<noteq> 0" by simp
  then have "uint b \<noteq> 0" by (metis uint_0_eq word_uint_eq_iff)
  let ?v = "uint b"
  have v: "0 \<le> ?v" "?v < 256" by (rule uint_byte_bound)+
  consider "?v \<le> 0x7F" | "0xC2 \<le> ?v" "?v \<le> 0xDF" | "0xE0 \<le> ?v" "?v \<le> 0xEF" | "0xF0 \<le> ?v" "?v \<le> 0xF4"
    | "\<not> ?v \<le> 0x7F" "\<not> (0xC2 \<le> ?v \<and> ?v \<le> 0xDF)" "\<not> (0xE0 \<le> ?v \<and> ?v \<le> 0xEF)"
      "\<not> (0xF0 \<le> ?v \<and> ?v \<le> 0xF4)"
    by blast
  then show ?thesis
  proof cases
    case 1
    then have "c = ?v" "r = bs" using d by (auto simp: str_utf8_decode_def Cons Let_def)
    moreover from this \<open>uint b \<noteq> 0\<close> v(1) have "0 < c" by linarith
    ultimately show ?thesis using 1 Cons by (simp add: scalar_def encode_eq)
  next
    case 2
    then have "utf8_tail 0x80 0xBF ((?v - 0xC0) * 64) 0 1 bs = (c, r)"
      using d by (simp add: str_utf8_decode_def Cons Let_def drop_bits)
    from utf8_tail_1D [OF this c] obtain z where z: "bs = z # r" "0x80 \<le> uint z" "uint z \<le> 0xBF"
      "c = (?v - 0xC0) * 64 + (uint z - 0x80)" .
    have "c div 64 = ?v - 0xC0" "c mod 64 = uint z - 0x80" using z digits64 [of "uint z - 0x80" "?v - 0xC0"] by simp_all
    moreover have "0x7F < c" "c \<le> 0x7FF" using z(2-4) 2 by simp_all
    ultimately show ?thesis using Cons z(1) by (simp add: scalar_def encode_eq)
  next
    case 3
    let ?lo = "if ?v = 0xE0 then 0xA0 else 0x80 :: int" and ?hi = "if ?v = 0xED then 0x9F else 0xBF :: int"
    have "utf8_tail ?lo ?hi ((?v - 0xE0) * 4096) 0 2 bs = (c, r)"
      using d 3 by (simp add: str_utf8_decode_def Cons Let_def drop_bits)
    from utf8_tail_2D [OF this c] obtain y z where z: "bs = y # z # r" "?lo \<le> uint y" "uint y \<le> ?hi"
      "0x80 \<le> uint z" "uint z \<le> 0xBF" "c = (?v - 0xE0) * 4096 + (uint y - 0x80) * 64 + (uint z - 0x80)" .
    let ?u = "(?v - 0xE0) * 64 + (uint y - 0x80)"
    have y: "0x80 \<le> uint y" "uint y \<le> 0xBF" using z(2,3) by (auto split: if_splits)
    have "c = ?u * 64 + (uint z - 0x80)" using z(6) by simp
    then have u: "c div 64 = ?u" "c mod 64 = uint z - 0x80"
      using digits64 [of "uint z - 0x80" ?u] z(4,5) by simp_all
    have w: "c div 4096 = ?v - 0xE0" "c div 64 mod 64 = uint y - 0x80"
      unfolding div_chain(1) u(1) using digits64 [of "uint y - 0x80" "?v - 0xE0"] y by simp_all
    have "0x7FF < c" "c \<le> 0xFFFF" "\<not> (0xD800 \<le> c \<and> c \<le> 0xDFFF)"
      using z(2-6) 3 y by (auto split: if_splits)
    then have "str_utf8_encode c = map to_byte [0xE0 + c div 4096, 0x80 + c div 64 mod 64, 0x80 + c mod 64]"
      and "scalar c" by (simp_all add: scalar_def encode_eq)
    then have "str_utf8_encode c = [b, y, z]" unfolding w u(2) by simp
    then show ?thesis using Cons z(1) \<open>scalar c\<close> by simp
  next
    case 4
    let ?lo = "if ?v = 0xF0 then 0x90 else 0x80 :: int" and ?hi = "if ?v = 0xF4 then 0x8F else 0xBF :: int"
    have "utf8_tail ?lo ?hi ((?v - 0xF0) * 262144) 0 3 bs = (c, r)"
      using d 4 by (simp add: str_utf8_decode_def Cons Let_def drop_bits)
    from utf8_tail_3D [OF this c] obtain x y z where z: "bs = x # y # z # r" "?lo \<le> uint x" "uint x \<le> ?hi"
      "0x80 \<le> uint y" "uint y \<le> 0xBF" "0x80 \<le> uint z" "uint z \<le> 0xBF"
      "c = (?v - 0xF0) * 262144 + (uint x - 0x80) * 4096 + (uint y - 0x80) * 64 + (uint z - 0x80)" .
    let ?t = "(?v - 0xF0) * 64 + (uint x - 0x80)"
    let ?u = "?t * 64 + (uint y - 0x80)"
    have x: "0x80 \<le> uint x" "uint x \<le> 0xBF" using z(2,3) by (auto split: if_splits)
    have "c = ?u * 64 + (uint z - 0x80)" using z(8) by simp
    then have u: "c div 64 = ?u" "c mod 64 = uint z - 0x80"
      using digits64 [of "uint z - 0x80" ?u] z(6,7) by simp_all
    have w: "c div 4096 = ?t" "c div 64 mod 64 = uint y - 0x80"
      unfolding div_chain(1) u(1) using digits64 [of "uint y - 0x80" ?t] z(4,5) by simp_all
    have t: "c div 262144 = ?v - 0xF0" "c div 4096 mod 64 = uint x - 0x80"
      unfolding div_chain(2) w(1) using digits64 [of "uint x - 0x80" "?v - 0xF0"] x by simp_all
    have "0xFFFF < c" "c \<le> 0x10FFFF"
      using z(2-8) 4 x by (auto split: if_splits)
    then have "str_utf8_encode c =
        map to_byte [0xF0 + c div 262144, 0x80 + c div 4096 mod 64, 0x80 + c div 64 mod 64, 0x80 + c mod 64]"
      and "scalar c" by (simp_all add: scalar_def encode_eq)
    then have "str_utf8_encode c = [b, x, y, z]" unfolding t w(2) u(2) by simp
    then show ?thesis using Cons z(1) \<open>scalar c\<close> by simp
  next
    case 5
    then have "str_utf8_decode s = (-1, bs)"
      by (simp only: str_utf8_decode_def Cons list.case Let_def if_False)
    with d c show ?thesis by simp
  qed
qed

section \<open>Whole strings\<close>

abbreviation encode_string :: "int list \<Rightarrow> cstring" where
  "encode_string cs \<equiv> concat (map str_utf8_encode cs)"

lemma encode_bytes:
  assumes "scalar c"
  obtains b t where "str_utf8_encode c = map to_byte (b # t)" "0 < b" "b < 256" "b < 0x80 \<or> 0xC0 \<le> b"
    "\<forall>x \<in> set t. 0x80 \<le> x \<and> x < 0xC0"
proof -
  have c: "0 < c" "c \<le> 0x10FFFF" using assms by (auto simp: scalar_def)
  note e = encode_eq [of c, OF less_imp_le, OF c]
  consider "c \<le> 0x7F" | "0x7F < c" "c \<le> 0x7FF" | "0x7FF < c" "c \<le> 0xFFFF" | "0xFFFF < c" by linarith
  then show ?thesis
  proof cases
    case 1
    then show ?thesis using c by (intro that [of c "[]"]) (simp_all add: e)
  next
    case 2
    then have "0 \<le> c div 64" "c div 64 < 32" by simp_all
    then show ?thesis using 2
      by (intro that [of "0xC0 + c div 64" "[0x80 + c mod 64]"]) (simp_all add: e)
  next
    case 3
    then have "0 \<le> c div 4096" "c div 4096 < 16" by simp_all
    then show ?thesis using 3
      by (intro that [of "0xE0 + c div 4096" "[0x80 + c div 64 mod 64, 0x80 + c mod 64]"]) (simp_all add: e)
  next
    case 4
    then have "0 \<le> c div 262144" "c div 262144 < 8" using c by simp_all
    then show ?thesis using 4
      by (intro that [of "0xF0 + c div 262144" "[0x80 + c div 4096 mod 64, 0x80 + c div 64 mod 64, 0x80 + c mod 64]"])
        (simp_all add: e)
  qed
qed

lemma encode_nonzero:
  assumes "scalar c"
  shows "0 \<notin> set (str_utf8_encode c)" and "str_utf8_encode c \<noteq> []"
proof -
  obtain b t where e: "str_utf8_encode c = map to_byte (b # t)" and b: "0 < b" "b < 256"
    and t: "\<forall>x \<in> set t. 0x80 \<le> x \<and> x < 0xC0"
    by (rule encode_bytes [OF assms])
  have nz: "to_byte x \<noteq> 0" if "0 < x" "x < 256" for x
    using that uint_to_byte [of x] by auto
  have "to_byte x \<noteq> 0" if "x \<in> set (b # t)" for x
    using that b t by (intro nz) fastforce+
  then show "0 \<notin> set (str_utf8_encode c)" unfolding e by force
  show "str_utf8_encode c \<noteq> []" by (simp add: e)
qed

lemma decode_zero: "str_utf8_decode s = (0, r) \<Longrightarrow> s = [] \<or> hd s = 0"
  using decode_sound [of s 0 r] by (auto simp: scalar_def)

lemma str_utf8_check_step:
  assumes "scalar c"
  shows "str_utf8_check (str_utf8_encode c @ s) = str_utf8_check s"
proof -
  have "c \<noteq> 0" "c \<noteq> -1" using assms by (auto simp: scalar_def)
  then show ?thesis
    by (subst str_utf8_check.simps) (simp add: decode_encode assms)
qed

lemma str_utf8_check_encode: "list_all scalar cs \<Longrightarrow> str_utf8_check (encode_string cs)"
  by (induction cs) (simp_all add: str_utf8_check_step, simp add: str_utf8_check.simps)

lemma str_utf8_check_decompose:
  "str_utf8_check s \<Longrightarrow> wf_cstring s \<Longrightarrow> \<exists>cs. list_all scalar cs \<and> s = encode_string cs"
proof (induction s rule: str_utf8_check.induct)
  case (1 s)
  obtain c r where d: "str_utf8_decode s = (c, r)" by (cases "str_utf8_decode s") auto
  show ?case
  proof (cases "s = []")
    case True
    then show ?thesis by (intro exI [of _ "[]"]) simp
  next
    case False
    with "1.prems"(2) have hd: "hd s \<noteq> 0" by (cases s) (auto simp: wf_cstring_def)
    with False d have c0: "c \<noteq> 0" using decode_zero by blast
    have "if c = -1 then False else str_utf8_check r"
      using "1.prems"(1) d c0 by (subst (asm) str_utf8_check.simps) simp
    then have c: "c \<noteq> -1" and r: "str_utf8_check r" by (auto split: if_splits)
    from decode_sound [OF d False hd c] have s: "scalar c" "s = str_utf8_encode c @ r" by auto
    have "wf_cstring r" using "1.prems"(2) s(2) by (auto simp: wf_cstring_def)
    from "1.IH" [OF d [symmetric] refl c0 c r this]
    obtain cs where "list_all scalar cs" "r = encode_string cs" by blast
    then show ?thesis using s by (intro exI [of _ "c # cs"]) simp
  qed
qed

lemma str_utf8_check_iff:
  "wf_cstring s \<Longrightarrow> str_utf8_check s \<longleftrightarrow> (\<exists>cs. list_all scalar cs \<and> s = encode_string cs)"
  using str_utf8_check_decompose str_utf8_check_encode by blast

lemma wf_encode_string: "list_all scalar cs \<Longrightarrow> wf_cstring (encode_string cs)"
  by (induction cs) (auto simp: wf_cstring_def encode_nonzero)

section \<open>Properties\<close>

text \<open>C33. The UTF-8 decoder accepts exactly the encodings of Unicode scalar values: decoding the
  encoding of a scalar value gives it back together with the bytes that follow, and whenever
  decoding the front of a non-empty string succeeds, the front is the one canonical encoding of the
  scalar value returned (so overlong forms and surrogates are rejected).\<close>

theorem utf8_decode_exact:
  "(\<forall>c rest. scalar c \<longrightarrow> str_utf8_decode (str_utf8_encode c @ rest) = (c, rest)) \<and>
   (\<forall>s c r. s \<noteq> [] \<longrightarrow> hd s \<noteq> 0 \<longrightarrow> str_utf8_decode s = (c, r) \<longrightarrow> c \<noteq> -1 \<longrightarrow>
      scalar c \<and> s = str_utf8_encode c @ r)"
  using decode_encode decode_sound by blast

theorem utf8_decode_exact_witness:
  "str_utf8_decode ([0xC3, 0xA9] @ [65]) = (0xE9, [65]) \<and> str_utf8_encode 0xE9 = [0xC3, 0xA9]"
proof -
  have e: "str_utf8_encode 0xE9 = [0xC3, 0xA9]"
    by (simp add: str_utf8_encode_def to_byte_def)
  have "scalar 0xE9" by (simp add: scalar_def)
  then have "str_utf8_decode (str_utf8_encode 0xE9 @ [65]) = (0xE9, [65])"
    using utf8_decode_exact by blast
  then show ?thesis by (simp only: e simp_thms)
qed

text \<open>\<open>str_utf8_check\<close> accepts a C string exactly when it is the encoding of a sequence of
  scalar values.\<close>

theorem utf8_check_exact:
  assumes "wf_cstring s"
  shows "str_utf8_check s \<longleftrightarrow> (\<exists>cs. list_all scalar cs \<and> s = encode_string cs)"
  using assms by (rule str_utf8_check_iff)

theorem utf8_check_exact_witness:
  "str_utf8_check [0x41, 0xC3, 0xA9] \<and> \<not> str_utf8_check [0xC0, 0x80]"
proof -
  have w: "wf_cstring [0x41, 0xC3, 0xA9]" "wf_cstring [0xC0, 0x80]" by (simp_all add: wf_cstring_def)
  have "[0x41, 0xC3, 0xA9] = encode_string [0x41, 0xE9]" "list_all scalar [0x41, 0xE9]"
    by (simp_all add: str_utf8_encode_def to_byte_def scalar_def)
  then have "\<exists>cs. list_all scalar cs \<and> [0x41, 0xC3, 0xA9] = encode_string cs" by blast
  then have "str_utf8_check [0x41, 0xC3, 0xA9]" using utf8_check_exact [OF w(1)] by simp
  moreover have "\<not> str_utf8_check [0xC0, 0x80]"
    by (simp add: str_utf8_check.simps str_utf8_decode_def)
  ultimately show ?thesis by simp
qed

end
