(* ===== verification/CStrings.thy ===== *)
theory CStrings
  imports Strings
begin

text \<open>
  Buffer and clean-up routines of \<open>src/base/str.cpp\<close>: bounded copies that keep the text valid
  UTF-8, sanitising, whitespace normalisation, token lists and hexadecimal data. A routine that
  fills a buffer of \<open>dst_size\<close> bytes returns the string it leaves there.
\<close>

text \<open>\<open>mem_comp\<close> (\<open>memcmp\<close>) of two blocks of one length.\<close>

fun mem_comp :: "byte list \<Rightarrow> byte list \<Rightarrow> int" where
  "mem_comp (a # as) (b # bs) = (if a = b then mem_comp as bs else uint a - uint b)"
| "mem_comp _ _ = 0"

lemma mem_comp_eq: "length as = length bs \<Longrightarrow> mem_comp as bs = 0 \<longleftrightarrow> as = bs"
  by (induction as bs rule: mem_comp.induct) (auto simp: word_uint_eq_iff)

lemma mem_comp_refl [simp]: "mem_comp as as = 0"
  by (induction as) auto

lemma mem_comp_le: "length as = length bs \<Longrightarrow> mem_comp as bs \<le> 0 \<longleftrightarrow> lexordp_eq as bs"
  by (induction as bs rule: mem_comp.induct) (auto simp: word_less_def word_uint_eq_iff)

lemma mem_comp_ge: "length as = length bs \<Longrightarrow> 0 \<le> mem_comp as bs \<longleftrightarrow> lexordp_eq bs as"
  by (induction as bs rule: mem_comp.induct) (auto simp: word_less_def word_uint_eq_iff)

lemma mem_comp_append:
  "length as = length cs \<Longrightarrow> mem_comp (as @ bs) (cs @ ds) = (if as = cs then mem_comp bs ds else mem_comp as cs)"
  by (induction as cs rule: mem_comp.induct) (auto simp: word_less_def word_uint_eq_iff)

section \<open>Copies\<close>

definition str_utf8_isstart :: "byte \<Rightarrow> bool" where
  "str_utf8_isstart c \<longleftrightarrow> \<not> (c AND 0xC0 = 0x80)"

fun str_utf8_rewind :: "cstring \<Rightarrow> nat \<Rightarrow> nat" where
  "str_utf8_rewind str 0 = 0"
| "str_utf8_rewind str (Suc cursor) =
     (if str_utf8_isstart (str ! cursor) then cursor else str_utf8_rewind str cursor)"

definition str_utf8_fix_truncation :: "cstring \<Rightarrow> cstring" where
  "str_utf8_fix_truncation str =
     (let len = length str in
      if len > 0 then
        let last_char_index = str_utf8_rewind str len in
        if fst (str_utf8_decode (drop last_char_index str)) = -1 then take last_char_index str
        else str
      else str)"

definition str_copy :: "cstring \<Rightarrow> nat \<Rightarrow> cstring" where
  "str_copy src dst_size = str_utf8_fix_truncation (take (dst_size - 1) src)"

text \<open>\<open>str_append\<close>: the loop copies source bytes while there is room, the terminator is then forced
  into the last byte of the buffer.\<close>

fun str_append_loop :: "nat \<Rightarrow> cstring \<Rightarrow> cstring" where
  "str_append_loop 0 src = []"
| "str_append_loop (Suc room) [] = []"
| "str_append_loop (Suc room) (c # cs) = c # str_append_loop room cs"

definition str_append :: "cstring \<Rightarrow> cstring \<Rightarrow> nat \<Rightarrow> cstring" where
  "str_append dst src dst_size =
     str_utf8_fix_truncation (take (dst_size - 1) (dst @ str_append_loop (dst_size - length dst) src))"

definition str_truncate :: "nat \<Rightarrow> cstring \<Rightarrow> nat \<Rightarrow> cstring" where
  "str_truncate dst_size src truncation_len =
     (let size = (if truncation_len < dst_size then truncation_len + 1 else dst_size)
      in str_copy src size)"

section \<open>Sanitising\<close>

definition str_has_cc :: "cstring \<Rightarrow> bool" where
  "str_has_cc str = list_ex (\<lambda>s. s < 32) str"

definition str_sanitize_cc :: "cstring \<Rightarrow> cstring" where
  "str_sanitize_cc str = map (\<lambda>s. if s < 32 then 32 else s) str"

text \<open>13, 10 and 9 are carriage return, line feed and tab.\<close>

definition str_sanitize :: "cstring \<Rightarrow> cstring" where
  "str_sanitize str =
     map (\<lambda>s. if s < 32 \<and> \<not> s = 13 \<and> \<not> s = 10 \<and> \<not> s = 9 then 32 else s) str"

text \<open>The characters a file name may not hold, as byte values: backslash, slash, bar, colon, star,
  question mark, less, greater and the double quote.\<close>

definition str_sanitize_filename :: "cstring \<Rightarrow> cstring" where
  "str_sanitize_filename str =
     map (\<lambda>s. if s \<le> 0x1F \<or> s = 0x7F \<or> s = 92 \<or> s = 47 \<or> s = 124 \<or> s = 58 \<or>
                s = 42 \<or> s = 63 \<or> s = 60 \<or> s = 62 \<or> s = 34 then 32 else s) str"

section \<open>White space\<close>

definition str_isspace :: "byte \<Rightarrow> bool" where
  "str_isspace c \<longleftrightarrow> c = 32 \<or> c = 10 \<or> c = 13 \<or> c = 9"

fun str_skip_whitespaces :: "cstring \<Rightarrow> cstring" where
  "str_skip_whitespaces [] = []"
| "str_skip_whitespaces (c # cs) = (if str_isspace c then str_skip_whitespaces cs else c # cs)"

fun str_skip_to_whitespace :: "cstring \<Rightarrow> cstring" where
  "str_skip_to_whitespace [] = []"
| "str_skip_to_whitespace (c # cs) = (if \<not> str_isspace c then str_skip_to_whitespace cs else c # cs)"

fun trim_words_loop :: "cstring \<Rightarrow> nat \<Rightarrow> cstring" where
  "trim_words_loop s 0 = s"
| "trim_words_loop [] (Suc words) = []"
| "trim_words_loop (c # cs) (Suc words) =
     trim_words_loop cs
       (if str_isspace c \<and> \<not> (cs \<noteq> [] \<and> str_isspace (hd cs)) then words else Suc words)"

definition str_trim_words :: "cstring \<Rightarrow> nat \<Rightarrow> cstring" where
  "str_trim_words str words = trim_words_loop (str_skip_whitespaces str) words"

text \<open>\<open>str_clean_whitespaces\<close>: the read pointer skips spaces, remembering whether it skipped any;
  a run of spaces before more text is written as one space.\<close>

fun skip_spaces :: "cstring \<Rightarrow> bool \<Rightarrow> cstring \<times> bool" where
  "skip_spaces [] found = ([], found)"
| "skip_spaces (c # cs) found = (if c = 32 then skip_spaces cs True else (c # cs, found))"

lemma skip_spaces_shorter: "skip_spaces s f = (r, g) \<Longrightarrow> length r \<le> length s"
  by (induction s f rule: skip_spaces.induct) (auto split: if_splits)

function clean_loop :: "cstring \<Rightarrow> cstring" where
  "clean_loop read =
     (let (rest, found_whitespace) = skip_spaces read False in
      case rest of
        [] \<Rightarrow> []
      | c # cs \<Rightarrow> (if found_whitespace then [32] else []) @ c # clean_loop cs)"
  by pat_completeness auto
termination
  by (relation "measure length") (auto dest!: skip_spaces_shorter [OF sym])

declare clean_loop.simps [simp del]

definition str_clean_whitespaces :: "cstring \<Rightarrow> cstring" where
  "str_clean_whitespaces str = clean_loop (fst (skip_spaces str False))"

section \<open>Numbers and case\<close>

definition str_uppercase :: "byte \<Rightarrow> byte" where
  "str_uppercase c = (if 97 \<le> c \<and> c \<le> 122 then 65 + (c - 97) else c)"

definition str_isnum :: "byte \<Rightarrow> bool" where
  "str_isnum c \<longleftrightarrow> 48 \<le> c \<and> c \<le> 57"

fun str_isallnum :: "cstring \<Rightarrow> bool" where
  "str_isallnum [] = True"
| "str_isallnum (c # cs) = (if \<not> str_isnum c then False else str_isallnum cs)"

fun str_isallnum_hex :: "cstring \<Rightarrow> bool" where
  "str_isallnum_hex [] = True"
| "str_isallnum_hex (c # cs) =
     (if \<not> str_isnum c \<and> \<not> (97 \<le> c \<and> c \<le> 102) \<and> \<not> (65 \<le> c \<and> c \<le> 70) then False
      else str_isallnum_hex cs)"

section \<open>Token lists\<close>

definition str_token_get :: "cstring \<Rightarrow> byte set \<Rightarrow> (cstring \<times> nat) option" where
  "str_token_get str delim =
     (let len = length (takeWhile (\<lambda>c. c \<in> delim) str);
          str = (if len > 1 then drop 1 str else drop len str)
      in if str = [] then None
         else Some (str, length (takeWhile (\<lambda>c. c \<notin> delim) str)))"

text \<open>\<open>str_next_token\<close>: the token copied to the buffer and the position after it.\<close>

definition str_next_token :: "cstring \<Rightarrow> byte set \<Rightarrow> nat \<Rightarrow> (cstring \<times> cstring) option" where
  "str_next_token str delim buffer_size =
     (case str_token_get str delim of
        None \<Rightarrow> None
      | Some (tok, len) \<Rightarrow>
          let len = (if buffer_size > len then len else buffer_size - 1)
          in Some (take len tok, drop len tok))"

section \<open>Hexadecimal\<close>

definition hexval :: "byte \<Rightarrow> int" where
  "hexval x =
     (if 48 \<le> x \<and> x \<le> 57 then uint x - 48
      else if 97 \<le> x \<and> x \<le> 102 then uint x - 97 + 10
      else if 65 \<le> x \<and> x \<le> 70 then uint x - 65 + 10
      else -1)"

text \<open>\<open>byteval\<close> reads two digits; a missing one reads the terminator, which is no digit.\<close>

definition byteval :: "cstring \<Rightarrow> byte option" where
  "byteval hex =
     (let v1 = hexval (case hex of [] \<Rightarrow> 0 | a # _ \<Rightarrow> a);
          v2 = hexval (case hex of a # b # _ \<Rightarrow> b | _ \<Rightarrow> 0)
      in if v1 < 0 \<or> v2 < 0 then None else Some (to_byte (v1 * 16 + v2)))"

text \<open>\<open>str_hex_decode\<close> reports 2 for a wrong length and 1 for a bad digit.\<close>

fun hex_decode_loop :: "nat \<Rightarrow> cstring \<Rightarrow> int + byte list" where
  "hex_decode_loop 0 src = Inr []"
| "hex_decode_loop (Suc n) src =
     (case byteval src of
        None \<Rightarrow> Inl 1
      | Some b \<Rightarrow> map_sum id ((#) b) (hex_decode_loop n (drop 2 src)))"

definition str_hex_decode :: "nat \<Rightarrow> cstring \<Rightarrow> int + byte list" where
  "str_hex_decode dst_size src =
     (let slen = length src; len = slen div 2 in
      if slen \<noteq> dst_size * 2 then Inl 2 else hex_decode_loop (min len dst_size) src)"

definition hex_digit :: "byte \<Rightarrow> byte" where
  "hex_digit n = (if n < 10 then 48 + n else 65 + (n - 10))"

fun str_hex_loop :: "byte list \<Rightarrow> int \<Rightarrow> int \<Rightarrow> cstring" where
  "str_hex_loop [] dst_index dst_size = []"
| "str_hex_loop (d # ds) dst_index dst_size =
     (if dst_index < dst_size - 3
      then hex_digit (drop_bit 4 d) # hex_digit (d AND 0xF) # 32 #
           str_hex_loop ds (dst_index + 3) dst_size
      else [])"

definition str_hex :: "int \<Rightarrow> byte list \<Rightarrow> cstring" where
  "str_hex dst_size data = str_hex_loop data 0 dst_size"

section \<open>Copies of valid text stay valid\<close>

lemma isstart_iff: "str_utf8_isstart b \<longleftrightarrow> uint b < 0x80 \<or> 0xC0 \<le> uint b"
proof -
  have "b AND 0xC0 = push_bit 6 (drop_bit 6 b)"
  proof (rule bit_word_eqI)
    fix n assume "n < LENGTH(8)"
    then show "bit (b AND 0xC0) n = bit (push_bit 6 (drop_bit 6 b)) n"
      by (auto simp: bit_simps bit_numerals)
  qed
  moreover have "uint (push_bit 6 (drop_bit 6 b)) = uint b div 64 * 64"
  proof -
    have "uint (push_bit 6 (drop_bit 6 b)) = take_bit 8 (push_bit 6 (drop_bit 6 (take_bit 8 (uint b))))"
      by (simp add: unsigned_push_bit_eq unsigned_drop_bit_eq)
    also have "\<dots> = take_bit 8 (uint b div 64 * 64)"
      using uint_byte_bound [of b] by (simp add: take_bit_int_eq_self drop_bits)
    also have "\<dots> = uint b div 64 * 64"
      using uint_byte_bound [of b] by (intro take_bit_int_eq_self) (simp_all add: pos_imp_zdiv_nonneg_iff)
    finally show ?thesis .
  qed
  ultimately have "uint (b AND 0xC0) = uint b div 64 * 64" by (simp only:)
  moreover have "b AND 0xC0 = 0x80 \<longleftrightarrow> uint (b AND 0xC0) = 0x80"
    using word_uint_eq_iff [of "b AND 0xC0" "0x80"] by (simp only: uint_numeral) simp
  ultimately have "b AND 0xC0 = 0x80 \<longleftrightarrow> uint b div 64 * 64 = 0x80" by (simp only:)
  then show ?thesis
    unfolding str_utf8_isstart_def using uint_byte_bound [of b] by (simp only:) presburger
qed

lemma encode_shape:
  assumes "scalar c"
  shows "\<exists>b t. str_utf8_encode c = b # t \<and> str_utf8_isstart b \<and> (\<forall>x \<in> set t. \<not> str_utf8_isstart x)"
proof -
  obtain b t where e: "str_utf8_encode c = map to_byte (b # t)" and b: "0 < b" "b < 256" "b < 0x80 \<or> 0xC0 \<le> b"
    and t: "\<forall>x \<in> set t. 0x80 \<le> x \<and> x < 0xC0"
    by (rule encode_bytes [OF assms])
  have "str_utf8_isstart (to_byte b)" using b by (simp add: isstart_iff uint_to_byte)
  moreover have "\<forall>x \<in> set (map to_byte t). \<not> str_utf8_isstart x"
    using t by (auto simp: isstart_iff uint_to_byte)
  ultimately show ?thesis using e by auto
qed

lemma rewind_to_start:
  assumes "str_utf8_isstart b" "\<And>x. x \<in> set t \<Longrightarrow> \<not> str_utf8_isstart x"
  shows "str_utf8_rewind (p @ b # t) (length p + 1 + length t) = length p"
proof -
  have "str_utf8_rewind (p @ b # t) (length p + 1 + k) = length p" if "k \<le> length t" for k
    using that
  proof (induction k)
    case 0
    then show ?case by (simp add: assms(1))
  next
    case (Suc k)
    have "(p @ b # t) ! (length p + 1 + k) = t ! k" by (simp add: nth_append)
    then show ?case using Suc assms(2) [of "t ! k"] by simp
  qed
  then show ?thesis by simp
qed

lemma decode_truncated:
  assumes c: "scalar c" and e: "str_utf8_encode c = q @ t" and q: "q \<noteq> []" and t: "t \<noteq> []"
  shows "fst (str_utf8_decode q) = -1"
proof (rule ccontr)
  assume n: "fst (str_utf8_decode q) \<noteq> -1"
  obtain d r where d: "str_utf8_decode q = (d, r)" by (cases "str_utf8_decode q")
  have "hd q \<noteq> 0" using encode_nonzero(1) [OF c] e q by (cases q) auto
  from decode_sound [OF d q this] n d have q': "scalar d" "q = str_utf8_encode d @ r" by auto
  have "str_utf8_decode (str_utf8_encode c @ []) = (d, r @ t)"
    using e q'(2) decode_encode [OF q'(1), of "r @ t"] by simp
  then show False using decode_encode [OF c, of "[]"] t by simp
qed

lemma fix_truncation_tail:
  assumes c: "scalar c" and e: "str_utf8_encode c = q @ t" and q: "q \<noteq> []"
  shows "str_utf8_fix_truncation (p @ q) = (if t = [] then p @ q else p)"
proof -
  obtain b u where bu: "str_utf8_encode c = b # u" "str_utf8_isstart b" "\<And>x. x \<in> set u \<Longrightarrow> \<not> str_utf8_isstart x"
    using encode_shape [OF c] by metis
  obtain v where v: "q = b # v" "set v \<subseteq> set u"
    using bu(1) e q by (cases q) auto
  have nv: "\<not> str_utf8_isstart x" if "x \<in> set v" for x using that bu(3) v(2) by blast
  have rw: "str_utf8_rewind (p @ q) (length (p @ q)) = length p"
    using rewind_to_start [OF bu(2) nv, of v p] v(1) by simp
  show ?thesis
  proof (cases "t = []")
    case True
    then have "str_utf8_decode q = (c, [])" using decode_encode [OF c, of "[]"] e by simp
    moreover have "c \<noteq> -1" using c by (auto simp: scalar_def)
    ultimately show ?thesis using True rw by (simp add: str_utf8_fix_truncation_def Let_def)
  next
    case False
    then show ?thesis using rw decode_truncated [OF c e q False] v
      by (simp add: str_utf8_fix_truncation_def Let_def)
  qed
qed

lemma take_encode_string:
  "list_all scalar cs \<Longrightarrow> \<exists>k q t. take m (encode_string cs) = encode_string (take k cs) @ q \<and>
     (q = [] \<or> (k < length cs \<and> str_utf8_encode (cs ! k) = q @ t \<and> t \<noteq> []))"
proof (induction cs arbitrary: m)
  case Nil
  then show ?case by simp
next
  case (Cons c cs)
  show ?case
  proof (cases "length (str_utf8_encode c) \<le> m")
    case True
    obtain k q t where k: "take (m - length (str_utf8_encode c)) (encode_string cs) = encode_string (take k cs) @ q"
      "q = [] \<or> (k < length cs \<and> str_utf8_encode (cs ! k) = q @ t \<and> t \<noteq> [])"
      using Cons.IH [of "m - length (str_utf8_encode c)"] Cons.prems by auto
    then show ?thesis using True
      by (intro exI [of _ "Suc k"] exI [of _ q] exI [of _ t]) auto
  next
    case False
    then show ?thesis
      by (intro exI [of _ 0] exI [of _ "take m (str_utf8_encode c)"] exI [of _ "drop m (str_utf8_encode c)"]) simp
  qed
qed

lemma fix_truncation_encode_string:
  "list_all scalar cs \<Longrightarrow> str_utf8_fix_truncation (encode_string cs) = encode_string cs"
proof (induction cs rule: rev_induct)
  case Nil
  then show ?case by (simp add: str_utf8_fix_truncation_def)
next
  case (snoc c cs)
  then show ?case
    using fix_truncation_tail [of c "str_utf8_encode c" "[]" "encode_string cs"] encode_nonzero(2) [of c]
    by simp
qed

lemma fix_truncation_take:
  assumes "list_all scalar cs"
  shows "\<exists>k. str_utf8_fix_truncation (take m (encode_string cs)) = encode_string (take k cs)"
proof -
  obtain k q t where k: "take m (encode_string cs) = encode_string (take k cs) @ q"
    "q = [] \<or> (k < length cs \<and> str_utf8_encode (cs ! k) = q @ t \<and> t \<noteq> [])"
    using take_encode_string [OF assms] by blast
  show ?thesis
  proof (cases "q = []")
    case True
    have "list_all scalar (take k cs)" using assms by (simp add: list_all_iff) (meson in_set_takeD)
    then show ?thesis using k(1) True fix_truncation_encode_string by auto
  next
    case False
    with k(2) have "k < length cs" "str_utf8_encode (cs ! k) = q @ t" "t \<noteq> []" by auto
    moreover from this assms have "scalar (cs ! k)" by (simp add: list_all_length)
    ultimately show ?thesis using k(1) False fix_truncation_tail [of "cs ! k" q t] by auto
  qed
qed

lemma fix_truncation_length: "length (str_utf8_fix_truncation s) \<le> length s"
  by (simp add: str_utf8_fix_truncation_def Let_def)

lemma str_append_loop_eq: "str_append_loop n src = take n src"
  by (induction n src rule: str_append_loop.induct) auto

lemma str_copy_fits: "list_all scalar cs \<Longrightarrow> length (encode_string cs) < n \<Longrightarrow>
    str_copy (encode_string cs) n = encode_string cs"
  by (simp add: str_copy_def fix_truncation_encode_string)

lemma str_copy_valid:
  assumes "wf_cstring src" "str_utf8_check src" "0 < dst_size"
  shows "\<exists>rest. src = str_copy src dst_size @ rest" and "str_utf8_check (str_copy src dst_size)"
    and "length (str_copy src dst_size) < dst_size"
    and "length src < dst_size \<Longrightarrow> str_copy src dst_size = src"
proof -
  obtain cs where cs: "list_all scalar cs" "src = encode_string cs"
    using assms(1,2) str_utf8_check_iff by blast
  obtain k where k: "str_copy src dst_size = encode_string (take k cs)"
    using fix_truncation_take [OF cs(1), of "dst_size - 1"] cs(2) by (auto simp: str_copy_def)
  have "encode_string cs = encode_string (take k cs) @ encode_string (drop k cs)"
    by (simp add: flip: concat_append map_append)
  then show "\<exists>rest. src = str_copy src dst_size @ rest" using k cs(2) by auto
  have "list_all scalar (take k cs)" using cs(1) by (simp add: list_all_iff) (meson in_set_takeD)
  then show "str_utf8_check (str_copy src dst_size)" using k str_utf8_check_encode by simp
  have "length (str_copy src dst_size) \<le> length (take (dst_size - 1) src)"
    unfolding str_copy_def by (rule fix_truncation_length)
  also have "\<dots> \<le> dst_size - 1" by simp
  finally show "length (str_copy src dst_size) < dst_size" using assms(3) by linarith
  show "length src < dst_size \<Longrightarrow> str_copy src dst_size = src"
    using str_copy_fits cs by simp
qed

section \<open>Clean-up\<close>

lemma sanitize_encode:
  assumes "scalar c" "\<And>b. 32 \<le> b \<Longrightarrow> f b = b" "\<And>b. b < 32 \<Longrightarrow> f b = b \<or> f b = 32"
  shows "\<exists>d. scalar d \<and> map f (str_utf8_encode c) = str_utf8_encode d"
proof (cases "c \<le> 0x7F")
  case True
  have c: "0 < c" using assms(1) by (simp add: scalar_def)
  then have e: "str_utf8_encode c = [to_byte c]" using True by (simp add: str_utf8_encode_def)
  have "f (to_byte c) = to_byte c \<or> f (to_byte c) = 32" using assms(2,3) by (meson not_le)
  moreover have "str_utf8_encode 32 = [32]" by (simp add: str_utf8_encode_def to_byte_def)
  moreover have "scalar 32" by (simp add: scalar_def)
  ultimately show ?thesis using e assms(1) by auto
next
  case False
  have c: "0 < c" "c \<le> 0x10FFFF" using assms(1) by (auto simp: scalar_def)
  obtain b t where e: "str_utf8_encode c = map to_byte (b # t)" "0 < b" "b < 256" "b < 0x80 \<or> 0xC0 \<le> b"
    and t: "\<forall>x \<in> set t. 0x80 \<le> x \<and> x < 0xC0"
    by (rule encode_bytes [OF assms(1)])
  have "c < 0x80" if "b < 0x80"
    using e(1) decode_encode [OF assms(1), of "[]"] that e(2)
    by (cases t) (auto simp: str_utf8_decode_def uint_to_byte)
  then have b: "0xC0 \<le> b" using e(4) False by linarith
  have big: "f (to_byte x) = to_byte x" if "128 \<le> x" "x < 256" for x
    using that by (intro assms(2)) (simp add: word_le_def uint_to_byte)
  have "map f (map to_byte (b # t)) = map to_byte (b # t)"
    using b e(3) t by (auto intro!: big)
  then show ?thesis using assms(1) e(1) by auto
qed

lemma sanitize_encode_string:
  assumes "\<And>b. 32 \<le> b \<Longrightarrow> f b = b" "\<And>b. b < 32 \<Longrightarrow> f b = b \<or> f b = 32"
  shows "list_all scalar cs \<Longrightarrow> \<exists>ds. list_all scalar ds \<and> map f (encode_string cs) = encode_string ds"
proof (induction cs)
  case Nil
  show ?case by (intro exI [of _ "[]"]) simp
next
  case (Cons c cs)
  then obtain ds where "list_all scalar ds" "map f (encode_string cs) = encode_string ds" by auto
  moreover obtain d where "scalar d" "map f (str_utf8_encode c) = str_utf8_encode d"
    using sanitize_encode [of c f] Cons.prems assms by auto
  ultimately show ?case by (intro exI [of _ "d # ds"]) simp
qed

lemma sanitize_valid:
  assumes "wf_cstring s" "str_utf8_check s"
  shows "str_utf8_check (str_sanitize s)" "str_utf8_check (str_sanitize_cc s)"
    "wf_cstring (str_sanitize s)" "wf_cstring (str_sanitize_cc s)"
proof -
  obtain cs where cs: "list_all scalar cs" "s = encode_string cs"
    using assms str_utf8_check_iff by blast
  let ?f = "\<lambda>s :: byte. if s < 32 \<and> \<not> s = 13 \<and> \<not> s = 10 \<and> \<not> s = 9 then 32 else s"
  let ?g = "\<lambda>s :: byte. if s < 32 then 32 else s"
  have "32 \<le> b \<Longrightarrow> ?f b = b" "b < 32 \<Longrightarrow> ?f b = b \<or> ?f b = 32" for b by auto
  then obtain ds where "list_all scalar ds" "str_sanitize s = encode_string ds"
    using sanitize_encode_string [of ?f cs] cs unfolding str_sanitize_def by blast
  then show "str_utf8_check (str_sanitize s)" "wf_cstring (str_sanitize s)"
    using str_utf8_check_encode wf_encode_string by auto
  have "32 \<le> b \<Longrightarrow> ?g b = b" "b < 32 \<Longrightarrow> ?g b = b \<or> ?g b = 32" for b by auto
  then obtain ds where "list_all scalar ds" "str_sanitize_cc s = encode_string ds"
    using sanitize_encode_string [of ?g cs] cs unfolding str_sanitize_cc_def by blast
  then show "str_utf8_check (str_sanitize_cc s)" "wf_cstring (str_sanitize_cc s)"
    using str_utf8_check_encode wf_encode_string by auto
qed

lemma sanitize_cc_no_cc: "\<not> str_has_cc (str_sanitize_cc s)"
  by (induction s) (auto simp: str_has_cc_def str_sanitize_cc_def not_less)

lemma sanitize_idem: "str_sanitize (str_sanitize s) = str_sanitize s"
  "str_sanitize_cc (str_sanitize_cc s) = str_sanitize_cc s"
  by (auto simp: str_sanitize_def str_sanitize_cc_def)

lemma skip_spaces_eq:
  "skip_spaces s f = (dropWhile (\<lambda>c. c = 32) s, f \<or> (s \<noteq> [] \<and> hd s = 32))"
  by (induction s f rule: skip_spaces.induct) auto

lemma clean_loop_Nil [simp]: "clean_loop [] = []"
  by (simp add: clean_loop.simps skip_spaces_eq)

lemma clean_loop_Cons:
  "c \<noteq> 32 \<Longrightarrow> clean_loop (c # cs) = c # clean_loop cs"
  by (simp add: clean_loop.simps [of "c # cs"] skip_spaces_eq)

lemma clean_loop_space:
  "clean_loop (32 # cs) =
     (case dropWhile (\<lambda>c. c = 32) cs of [] \<Rightarrow> [] | d # ds \<Rightarrow> 32 # d # clean_loop ds)"
  by (simp add: clean_loop.simps [of "32 # cs"] skip_spaces_eq del: dropWhile_eq_Nil_conv split: list.splits)

text \<open>No two spaces in a row and none at the end.\<close>

fun single_spaced :: "cstring \<Rightarrow> bool" where
  "single_spaced [] = True"
| "single_spaced [c] = (c \<noteq> 32)"
| "single_spaced (a # b # r) = (\<not> (a = 32 \<and> b = 32) \<and> single_spaced (b # r))"

lemma single_spaced_Cons: "c \<noteq> 32 \<Longrightarrow> single_spaced (c # r) = single_spaced r"
  by (cases r) auto

lemma clean_loop_shape:
  "single_spaced (clean_loop s) \<and> filter (\<lambda>c. c \<noteq> 32) (clean_loop s) = filter (\<lambda>c. c \<noteq> 32) s"
proof (induction s rule: length_induct)
  case (1 s)
  show ?case
  proof (cases s)
    case Nil
    then show ?thesis by simp
  next
    case (Cons c cs)
    show ?thesis
    proof (cases "c = 32")
      case False
      then show ?thesis using 1 Cons by (simp add: clean_loop_Cons single_spaced_Cons)
    next
      case True
      have f: "filter (\<lambda>c. c \<noteq> 32) cs = filter (\<lambda>c. c \<noteq> 32) (dropWhile (\<lambda>c. c = 32) cs)"
        by (induction cs) auto
      show ?thesis
      proof (cases "dropWhile (\<lambda>c. c = 32) cs")
        case Nil
        then show ?thesis using \<open>s = c # cs\<close> True f
          by (simp add: clean_loop_space del: dropWhile_eq_Nil_conv)
      next
        case (Cons d ds)
        then have d: "d \<noteq> 32" using hd_dropWhile [of "\<lambda>c. c = 32" cs] by simp
        have "length ds < length s"
          using Cons \<open>s = c # cs\<close> length_dropWhile_le [of "\<lambda>c. c = 32" cs] by simp
        then show ?thesis using 1 Cons \<open>s = c # cs\<close> True d f
          by (simp add: clean_loop_space single_spaced_Cons)
      qed
    qed
  qed
qed

lemma clean_loop_fixed: "single_spaced r \<Longrightarrow> clean_loop r = r"
proof (induction r rule: single_spaced.induct)
  case (2 c)
  then show ?case by (simp add: clean_loop_Cons)
next
  case (3 a b r)
  show ?case
  proof (cases "a = 32")
    case True
    then have b: "b \<noteq> 32" using 3 by simp
    then show ?thesis using 3 True by (simp add: clean_loop_space clean_loop_Cons)
  next
    case False
    then show ?thesis using 3 by (simp add: clean_loop_Cons)
  qed
qed simp

lemma clean_hd: "r = str_clean_whitespaces s \<Longrightarrow> r \<noteq> [] \<Longrightarrow> hd r \<noteq> 32"
proof -
  assume r: "r = str_clean_whitespaces s" "r \<noteq> []"
  show "hd r \<noteq> 32"
  proof (cases "dropWhile (\<lambda>c. c = 32) s")
    case Nil
    then show ?thesis using r
      by (simp add: str_clean_whitespaces_def skip_spaces_eq del: dropWhile_eq_Nil_conv)
  next
    case (Cons d ds)
    then have "d \<noteq> 32" using hd_dropWhile [of "\<lambda>c. c = 32" s] by simp
    then show ?thesis using r Cons by (simp add: str_clean_whitespaces_def skip_spaces_eq clean_loop_Cons)
  qed
qed

section \<open>Properties\<close>

text \<open>\<open>str_copy\<close> of valid UTF-8 text into a buffer leaves a prefix of the text that is again
  valid UTF-8 and fits with its terminator; a text that fits is copied whole.\<close>

theorem str_copy_keeps_utf8:
  assumes "wf_cstring src" "str_utf8_check src" "0 < dst_size"
  shows "(\<exists>rest. src = str_copy src dst_size @ rest) \<and> str_utf8_check (str_copy src dst_size) \<and>
    length (str_copy src dst_size) < dst_size \<and> (length src < dst_size \<longrightarrow> str_copy src dst_size = src)"
  using str_copy_valid [OF assms] by blast

theorem str_copy_keeps_utf8_witness:
  "str_utf8_check (str_copy [0x41, 0xC3, 0xA9] 3) \<and> str_copy [0x41, 0xC3, 0xA9] 3 = [0x41]"
proof -
  have "wf_cstring [0x41, 0xC3, 0xA9]" by (simp add: wf_cstring_def)
  moreover have "str_utf8_check [0x41, 0xC3, 0xA9]"
    by (simp add: str_utf8_check.simps str_utf8_decode_def push_bit_eq_mult)
  ultimately have "str_utf8_check (str_copy [0x41, 0xC3, 0xA9] 3)"
    using str_copy_keeps_utf8 [of "[0x41, 0xC3, 0xA9]" 3] by simp
  moreover have "str_copy [0x41, 0xC3, 0xA9] 3 = [0x41]"
    by (simp add: str_copy_def str_utf8_fix_truncation_def Let_def str_utf8_isstart_def
        str_utf8_decode_def)
  ultimately show ?thesis by simp
qed

text \<open>\<open>str_clean_whitespaces\<close> leaves the text single-spaced: no leading space, no trailing
  space, no two spaces in a row; the other bytes are kept in order, and cleaning again changes
  nothing.\<close>

theorem clean_whitespaces_normal:
  "single_spaced (str_clean_whitespaces s) \<and>
   take 1 (str_clean_whitespaces s) \<noteq> [32] \<and>
   filter (\<lambda>c. c \<noteq> 32) (str_clean_whitespaces s) = filter (\<lambda>c. c \<noteq> 32) s \<and>
   str_clean_whitespaces (str_clean_whitespaces s) = str_clean_whitespaces s"
proof -
  let ?r = "str_clean_whitespaces s"
  have r: "?r = clean_loop (dropWhile (\<lambda>c. c = 32) s)"
    by (simp add: str_clean_whitespaces_def skip_spaces_eq)
  have f: "filter (\<lambda>c. c \<noteq> 32) s = filter (\<lambda>c. c \<noteq> 32) (dropWhile (\<lambda>c. c = 32) s)"
    by (induction s) auto
  have ss: "single_spaced ?r" using clean_loop_shape r by simp
  have hd: "?r = [] \<or> hd ?r \<noteq> 32" using clean_hd by blast
  then have "dropWhile (\<lambda>c. c = 32) ?r = ?r" by (cases ?r) auto
  then have "str_clean_whitespaces ?r = clean_loop ?r"
    by (simp add: str_clean_whitespaces_def skip_spaces_eq)
  then have "str_clean_whitespaces ?r = ?r" using clean_loop_fixed [OF ss] by simp
  moreover have "take 1 ?r \<noteq> [32]" using hd by (cases ?r) auto
  ultimately show ?thesis using ss f clean_loop_shape r by simp
qed

end
