(* ===== verification/Packer.thy ===== *)
theory Packer
  imports VarInt CStrings
begin

text \<open>
  \<open>CAbstractPacker\<close> and \<open>CUnpacker\<close> (\<open>src/engine/shared/packer.cpp\<close>): the message buffers of
  the protocol. The packer's state is the buffer size, the bytes written so far (so
  \<open>m_pCurrent - m_pBuffer\<close> is their number) and the sticky error flag. The unpacker's state is the
  bytes before and after the read position, and its flag: reading a string sanitises it in place,
  so the bytes before the position can differ from the ones received.
\<close>

record packer =
  m_BufferSize :: nat
  m_Written :: "byte list"
  m_PError :: bool

definition packer_room :: "packer \<Rightarrow> int" where
  "packer_room p = int (m_BufferSize p) - int (length (m_Written p))"

definition packer_Reset :: "packer \<Rightarrow> packer" where
  "packer_Reset p = p\<lparr>m_Written := [], m_PError := False\<rparr>"

definition AddInt :: "packer \<Rightarrow> i32 \<Rightarrow> packer" where
  "AddInt p i =
     (if m_PError p then p
      else case Pack i (packer_room p) of
          None \<Rightarrow> p\<lparr>m_PError := True\<rparr>
        | Some bs \<Rightarrow> p\<lparr>m_Written := m_Written p @ bs\<rparr>)"

text \<open>The loop of \<open>AddString\<close>: \<open>None\<close> is the error exit, which rolls the position back; an invalid
  byte sequence is replaced by U+FFFD.\<close>

function AddString_loop :: "cstring \<Rightarrow> int \<Rightarrow> int \<Rightarrow> bool \<Rightarrow> byte list option" where
  "AddString_loop pStr limit room allow_truncation =
     (if pStr = [] then Some []
      else let (code, rest) = str_utf8_decode pStr;
               codepoint = (if code = -1 then 0xfffd else code);
               encoded = str_utf8_encode codepoint;
               len = int (length encoded)
           in if limit < len then (if allow_truncation then Some [] else None)
              else if len + 1 > room then None
              else map_option ((@) encoded)
                     (AddString_loop rest (limit - len) (room - len) allow_truncation))"
  by pat_completeness auto
termination
proof (relation "measure (\<lambda>(s, _, _, _). length s)", goal_cases)
  case 1
  then show ?case by simp
next
  case (2 s limit room allow p code rest cp e len)
  then show ?case using str_utf8_decode_shorter [of s] by (auto dest: sym)
qed

declare AddString_loop.simps [simp del]

text \<open>The terminator is written without a check of its own: the loop has checked for it, unless it
  wrote nothing.\<close>

definition AddString :: "packer \<Rightarrow> cstring \<Rightarrow> int \<Rightarrow> bool \<Rightarrow> packer" where
  "AddString p pStr limit allow_truncation =
     (if m_PError p then p
      else let limit = (if limit \<le> 0 then int (m_BufferSize p) else limit)
           in case AddString_loop pStr limit (packer_room p) allow_truncation of
                None \<Rightarrow> p\<lparr>m_PError := True\<rparr>
              | Some bs \<Rightarrow> p\<lparr>m_Written := m_Written p @ bs @ [0]\<rparr>)"

definition AddRaw :: "packer \<Rightarrow> byte list \<Rightarrow> packer" where
  "AddRaw p data =
     (if m_PError p then p
      else if int (length data) > packer_room p then p\<lparr>m_PError := True\<rparr>
      else p\<lparr>m_Written := m_Written p @ data\<rparr>)"

definition PACKER_BUFFER_SIZE :: nat where
  "PACKER_BUFFER_SIZE = 1024 * 2"

definition CPacker :: packer where
  "CPacker = packer_Reset \<lparr>m_BufferSize = PACKER_BUFFER_SIZE, m_Written = [], m_PError = False\<rparr>"

section \<open>The unpacker\<close>

record unpacker =
  m_Before :: "byte list"
  m_Rest :: "byte list"
  m_UError :: bool

definition unpacker_Reset :: "byte list \<Rightarrow> unpacker" where
  "unpacker_Reset data = \<lparr>m_Before = [], m_Rest = data, m_UError = False\<rparr>"

definition CompleteData :: "unpacker \<Rightarrow> byte list" where
  "CompleteData u = m_Before u @ m_Rest u"

text \<open>Move the read position forward by \<open>n\<close> bytes.\<close>

definition advance :: "unpacker \<Rightarrow> nat \<Rightarrow> unpacker" where
  "advance u n = u\<lparr>m_Before := m_Before u @ take n (m_Rest u), m_Rest := drop n (m_Rest u)\<rparr>"

definition GetInt :: "unpacker \<Rightarrow> unpacker \<times> i32" where
  "GetInt u =
     (if m_UError u then (u, 0)
      else if m_Rest u = [] then (u\<lparr>m_UError := True\<rparr>, 0)
      else case Unpack (m_Rest u) of
          None \<Rightarrow> (u\<lparr>m_UError := True\<rparr>, 0)
        | Some (i, rest) \<Rightarrow> (advance u (length (m_Rest u) - length rest), i))"

definition GetIntOrDefault :: "unpacker \<Rightarrow> i32 \<Rightarrow> unpacker \<times> i32" where
  "GetIntOrDefault u dflt =
     (if m_UError u then (u, 0) else if m_Rest u = [] then (u, dflt) else GetInt u)"

text \<open>\<open>mem_copy\<close> into an \<open>int\<close>: the byte order of the machine, little endian.\<close>

definition le_int :: "byte list \<Rightarrow> i32" where
  "le_int bs = ucast (bs ! 0) OR push_bit 8 (ucast (bs ! 1)) OR push_bit 16 (ucast (bs ! 2)) OR
     push_bit 24 (ucast (bs ! 3))"

definition GetUncompressedInt :: "unpacker \<Rightarrow> unpacker \<times> i32" where
  "GetUncompressedInt u =
     (if m_UError u then (u, 0)
      else if length (m_Rest u) < 4 then (u\<lparr>m_UError := True\<rparr>, 0)
      else (advance u 4, le_int (take 4 (m_Rest u))))"

definition GetUncompressedIntOrDefault :: "unpacker \<Rightarrow> i32 \<Rightarrow> unpacker \<times> i32" where
  "GetUncompressedIntOrDefault u dflt =
     (if m_UError u then (u, 0) else if m_Rest u = [] then (u, dflt) else GetUncompressedInt u)"

definition SANITIZE :: int where "SANITIZE = 1"
definition SANITIZE_CC :: int where "SANITIZE_CC = 2"
definition SKIP_START_WHITESPACES :: int where "SKIP_START_WHITESPACES = 4"

text \<open>\<open>GetString\<close>: the string up to its terminator. Without a terminator the position ends up at the
  end of the data; invalid UTF-8 is an error after the string has been skipped.\<close>

definition GetString :: "unpacker \<Rightarrow> int \<Rightarrow> unpacker \<times> cstring" where
  "GetString u sanitize_type =
     (if m_UError u then (u, [])
      else if m_Rest u = [] then (u\<lparr>m_UError := True\<rparr>, [])
      else let pPtr = takeWhile (\<lambda>b. b \<noteq> 0) (m_Rest u); n = length pPtr in
        if n = length (m_Rest u) then ((advance u n)\<lparr>m_UError := True\<rparr>, [])
        else let u' = advance u (n + 1) in
          if \<not> str_utf8_check pPtr then (u'\<lparr>m_UError := True\<rparr>, [])
          else let str = (if sanitize_type AND SANITIZE \<noteq> 0 then str_sanitize pPtr
                          else if sanitize_type AND SANITIZE_CC \<noteq> 0 then str_sanitize_cc pPtr
                          else pPtr);
                   u' = u'\<lparr>m_Before := m_Before u @ str @ [0]\<rparr>
               in (u', if sanitize_type AND SKIP_START_WHITESPACES \<noteq> 0
                       then str_utf8_skip_whitespaces str else str))"

definition GetRaw :: "unpacker \<Rightarrow> int \<Rightarrow> unpacker \<times> byte list option" where
  "GetRaw u n =
     (if m_UError u then (u, None)
      else if n < 0 \<or> n > int (length (m_Rest u)) then (u\<lparr>m_UError := True\<rparr>, None)
      else (advance u (nat n), Some (take (nat n) (m_Rest u))))"

section \<open>Strings on the wire\<close>

text \<open>The text a receiver may see: a C string of valid UTF-8 that sanitising leaves alone.\<close>

definition wire_text :: "cstring \<Rightarrow> bool" where
  "wire_text s \<longleftrightarrow> wf_cstring s \<and> str_utf8_check s \<and> str_sanitize s = s"

lemma AddString_loop_Nil [simp]: "AddString_loop [] limit room al = Some []"
  by (simp add: AddString_loop.simps)

lemma AddString_loop_step:
  assumes "scalar c"
  shows "AddString_loop (str_utf8_encode c @ s) limit room al =
     (let len = int (length (str_utf8_encode c)) in
      if limit < len then (if al then Some [] else None)
      else if len + 1 > room then None
      else map_option ((@) (str_utf8_encode c)) (AddString_loop s (limit - len) (room - len) al))"
  using assms encode_nonzero(2) [OF assms]
  by (subst AddString_loop.simps) (auto simp: decode_encode scalar_def Let_def)

lemma AddString_loop_exact:
  "list_all scalar cs \<Longrightarrow> int (length (encode_string cs)) \<le> limit \<Longrightarrow>
   int (length (encode_string cs)) + 1 \<le> room \<Longrightarrow>
   AddString_loop (encode_string cs) limit room al = Some (encode_string cs)"
proof (induction cs arbitrary: limit room)
  case Nil
  then show ?case by simp
next
  case (Cons c cs)
  then show ?case by (simp add: AddString_loop_step Let_def)
qed

text \<open>Whatever bytes are given, what is written is valid UTF-8, within the limit and the room.\<close>

lemma replacement_scalar: "scalar 0xfffd"
  by (simp add: scalar_def)

lemma AddString_loop_valid:
  "wf_cstring s \<Longrightarrow> AddString_loop s limit room al = Some bs \<Longrightarrow> 0 \<le> limit \<Longrightarrow>
   (\<exists>ds. list_all scalar ds \<and> bs = encode_string ds) \<and> int (length bs) \<le> limit \<and>
   (bs \<noteq> [] \<longrightarrow> int (length bs) + 1 \<le> room)"
proof (induction s limit room al arbitrary: bs rule: AddString_loop.induct)
  case (1 s limit room al)
  show ?case
  proof (cases "s = []")
    case True
    then show ?thesis using "1.prems" by (auto intro!: exI [of _ "[]"])
  next
    case False
    obtain code rest where d: "str_utf8_decode s = (code, rest)" by (cases "str_utf8_decode s")
    define cp where "cp = (if code = -1 then 0xfffd else code)"
    have hd: "hd s \<noteq> 0" using "1.prems"(1) False by (cases s) (auto simp: wf_cstring_def)
    have cp: "scalar cp"
      using decode_sound [OF d False hd] replacement_scalar by (auto simp: cp_def)
    have wf: "wf_cstring rest"
    proof -
      have "set rest \<subseteq> set s"
        using utf8_decode_suffix [of s] d by auto
      then show ?thesis using "1.prems"(1) by (auto simp: wf_cstring_def)
    qed
    let ?e = "str_utf8_encode cp" and ?len = "int (length (str_utf8_encode cp))"
    show ?thesis
    proof (cases "limit < ?len \<or> ?len + 1 > room")
      case True
      then have "bs = []" using "1.prems"(2) d False
        by (subst (asm) AddString_loop.simps) (auto simp: Let_def cp_def split: if_splits)
      then show ?thesis using "1.prems"(3) by (auto intro!: exI [of _ "[]"])
    next
      case fits: False
      then obtain bs' where bs': "AddString_loop rest (limit - ?len) (room - ?len) al = Some bs'" "bs = ?e @ bs'"
        using "1.prems"(2) d False
        by (subst (asm) AddString_loop.simps) (auto simp: Let_def cp_def split: if_splits)
      have "(\<exists>ds. list_all scalar ds \<and> bs' = encode_string ds) \<and> int (length bs') \<le> limit - ?len \<and>
          (bs' \<noteq> [] \<longrightarrow> int (length bs') + 1 \<le> room - ?len)"
        by (rule "1.IH" [OF False d [symmetric] refl cp_def refl refl _ _ wf bs'(1)]) (use fits in auto)
      then obtain ds where ds: "list_all scalar ds" "bs' = encode_string ds"
        and len: "int (length bs') \<le> limit - ?len" "bs' \<noteq> [] \<longrightarrow> int (length bs') + 1 \<le> room - ?len" by blast
      have "bs = encode_string (cp # ds)" "list_all scalar (cp # ds)" using bs'(2) ds cp by simp_all
      moreover have "int (length bs) \<le> limit" "int (length bs) + 1 \<le> room"
        using bs'(2) len fits by (cases "bs' = []"; simp)+
      ultimately show ?thesis by blast
    qed
  qed
qed

section \<open>Messages: fields written and read back\<close>

text \<open>The fields a message is made of, in the order the code adds them.\<close>

datatype field = FInt i32 | FString cstring | FRaw "byte list"

fun add_field :: "packer \<Rightarrow> field \<Rightarrow> packer" where
  "add_field p (FInt i) = AddInt p i"
| "add_field p (FString s) = AddString p s 0 True"
| "add_field p (FRaw d) = AddRaw p d"

text \<open>The receiver knows the kind of each field, and the size of the raw ones.\<close>

fun get_field :: "unpacker \<Rightarrow> field \<Rightarrow> unpacker \<times> field" where
  "get_field u (FInt _) = (let (u', i) = GetInt u in (u', FInt i))"
| "get_field u (FString _) = (let (u', s) = GetString u SANITIZE in (u', FString s))"
| "get_field u (FRaw d) =
     (let (u', r) = GetRaw u (int (length d)) in (u', FRaw (case r of None \<Rightarrow> [] | Some x \<Rightarrow> x)))"

fun get_fields :: "unpacker \<Rightarrow> field list \<Rightarrow> unpacker \<times> field list" where
  "get_fields u [] = (u, [])"
| "get_fields u (f # fs) =
     (let (u', g) = get_field u f; (u'', gs) = get_fields u' fs in (u'', g # gs))"

fun field_bytes :: "field \<Rightarrow> byte list" where
  "field_bytes (FInt i) = packed i"
| "field_bytes (FString s) = s @ [0]"
| "field_bytes (FRaw d) = d"

fun field_ok :: "field \<Rightarrow> bool" where
  "field_ok (FInt i) = True"
| "field_ok (FString s) = wire_text s"
| "field_ok (FRaw d) = True"

lemma add_field_fits:
  assumes "field_ok f" "\<not> m_PError p" "length (m_Written p) + length (field_bytes f) \<le> m_BufferSize p"
  shows "add_field p f = p\<lparr>m_Written := m_Written p @ field_bytes f\<rparr>"
proof (cases f)
  case (FInt i)
  then show ?thesis using assms by (simp add: AddInt_def Pack_eq packer_room_def)
next
  case (FString s)
  then obtain cs where cs: "list_all scalar cs" "s = encode_string cs"
    using assms(1) str_utf8_check_iff by (auto simp: wire_text_def)
  have "AddString_loop s (int (m_BufferSize p)) (packer_room p) True = Some s"
    unfolding cs(2) by (rule AddString_loop_exact [OF cs(1)])
      (use assms(3) FString cs(2) in \<open>simp_all add: packer_room_def\<close>)
  then show ?thesis using assms FString by (simp add: AddString_def)
next
  case (FRaw d)
  then show ?thesis using assms by (simp add: AddRaw_def packer_room_def)
qed

lemma add_fields_fit:
  "list_all field_ok fs \<Longrightarrow> \<not> m_PError p \<Longrightarrow>
   length (m_Written p) + length (concat (map field_bytes fs)) \<le> m_BufferSize p \<Longrightarrow>
   foldl add_field p fs = p\<lparr>m_Written := m_Written p @ concat (map field_bytes fs)\<rparr>"
proof (induction fs arbitrary: p)
  case Nil
  then show ?case by simp
next
  case (Cons f fs)
  have "add_field p f = p\<lparr>m_Written := m_Written p @ field_bytes f\<rparr>"
    using Cons.prems by (intro add_field_fits) auto
  then show ?case using Cons by simp
qed

lemma advance_take:
  "m_Rest u = bs @ rest \<Longrightarrow> advance u (length bs) = u\<lparr>m_Before := m_Before u @ bs, m_Rest := rest\<rparr>"
  by (simp add: advance_def)

lemma takeWhile_cstring: "wf_cstring s \<Longrightarrow> takeWhile (\<lambda>b. b \<noteq> 0) (s @ 0 # rest) = s"
  by (induction s) (auto simp: wf_cstring_def)

lemma get_field_bytes:
  assumes "field_ok f" "\<not> m_UError u" "m_Rest u = field_bytes f @ rest"
  shows "get_field u f = (u\<lparr>m_Before := m_Before u @ field_bytes f, m_Rest := rest\<rparr>, f)"
proof (cases f)
  case (FInt i)
  then show ?thesis using assms length_packed(1) [of i] advance_take [OF assms(3)]
    by (auto simp: GetInt_def varint.dec_enc)
next
  case (FString s)
  then have s: "wf_cstring s" "str_utf8_check s" "str_sanitize s = s" using assms(1) by (auto simp: wire_text_def)
  have "advance u (Suc (length s)) = u\<lparr>m_Before := m_Before u @ s @ [0], m_Rest := rest\<rparr>"
    using advance_take [OF assms(3)] FString by simp
  then show ?thesis using FString assms s takeWhile_cstring [OF s(1), of rest]
    by (simp add: GetString_def Let_def SANITIZE_def SKIP_START_WHITESPACES_def)
next
  case (FRaw d)
  then show ?thesis using assms advance_take [OF assms(3)] by (simp add: GetRaw_def)
qed

lemma get_fields_bytes:
  "list_all field_ok fs \<Longrightarrow> \<not> m_UError u \<Longrightarrow> m_Rest u = concat (map field_bytes fs) @ rest \<Longrightarrow>
   get_fields u fs = (u\<lparr>m_Before := m_Before u @ concat (map field_bytes fs), m_Rest := rest\<rparr>, fs)"
proof (induction fs arbitrary: u)
  case Nil
  then show ?case by simp
next
  case (Cons f fs)
  have "get_field u f = (u\<lparr>m_Before := m_Before u @ field_bytes f,
      m_Rest := concat (map field_bytes fs) @ rest\<rparr>, f)"
    using Cons.prems by (intro get_field_bytes) auto
  then show ?case using Cons by (simp add: Let_def)
qed

text \<open>The packer operations keep the buffer and never shrink what has been written.\<close>

definition within_buffer :: "packer \<Rightarrow> bool" where
  "within_buffer p \<longleftrightarrow> length (m_Written p) \<le> m_BufferSize p"

lemma add_field_frame [frame_simps]: "m_BufferSize (add_field p f) = m_BufferSize p"
  by (cases f) (auto simp: AddInt_def AddString_def AddRaw_def Let_def split: option.splits)

lemma add_field_sticky: "m_PError p \<Longrightarrow> add_field p f = p"
  by (cases f) (simp_all add: AddInt_def AddString_def AddRaw_def)

lemma AddString_cases:
  assumes "wf_cstring s"
  shows "AddString p s limit al = p \<and> m_PError p \<or>
    AddString p s limit al = p\<lparr>m_PError := True\<rparr> \<or>
    (\<exists>bs. (\<exists>ds. list_all scalar ds \<and> bs = encode_string ds) \<and>
       AddString p s limit al = p\<lparr>m_Written := m_Written p @ bs @ [0]\<rparr> \<and>
       (bs \<noteq> [] \<longrightarrow> int (length bs) + 1 \<le> packer_room p))"
proof (cases "m_PError p")
  case True
  then show ?thesis by (simp add: AddString_def)
next
  case False
  let ?l = "if limit \<le> 0 then int (m_BufferSize p) else limit"
  show ?thesis
  proof (cases "AddString_loop s ?l (packer_room p) al")
    case None
    then show ?thesis using False by (simp add: AddString_def Let_def)
  next
    case (Some bs)
    have "0 \<le> ?l" by simp
    from AddString_loop_valid [OF assms Some this]
    obtain ds where "list_all scalar ds" "bs = encode_string ds" "bs \<noteq> [] \<longrightarrow> int (length bs) + 1 \<le> packer_room p"
      by blast
    then show ?thesis using False Some by (auto simp: AddString_def Let_def)
  qed
qed

section \<open>Properties\<close>



text \<open>Packing stays inside the buffer with one exception: on a packer within its buffer, every
  operation leaves it within its buffer, unless it is \<open>AddString\<close> on a buffer that is exactly full and
  no character gets written; then the unchecked terminator lands one byte behind the buffer.\<close>

theorem packer_bounds:
  assumes "within_buffer p" "\<forall>s. f = FString s \<longrightarrow> wf_cstring s"
  shows "within_buffer (add_field p f) \<or>
    (\<exists>s. f = FString s \<and> packer_room p = 0 \<and> m_Written (add_field p f) = m_Written p @ [0])"
proof (cases f)
  case (FInt i)
  then show ?thesis using assms(1)
    by (auto simp: AddInt_def Pack_eq within_buffer_def packer_room_def)
next
  case (FString s)
  with assms(2) have "wf_cstring s" by simp
  from AddString_cases [OF this, of p 0 True] consider
      "AddString p s 0 True = p \<or> AddString p s 0 True = p\<lparr>m_PError := True\<rparr>"
    | bs where "AddString p s 0 True = p\<lparr>m_Written := m_Written p @ bs @ [0]\<rparr>"
        "bs \<noteq> [] \<longrightarrow> int (length bs) + 1 \<le> packer_room p"
    by blast
  then show ?thesis
  proof cases
    case 1
    then show ?thesis using FString assms(1) by (auto simp: within_buffer_def)
  next
    case 2
    then show ?thesis using FString assms(1)
      by (cases "bs = []") (auto simp: within_buffer_def packer_room_def)
  qed
next
  case (FRaw d)
  then show ?thesis using assms(1) by (auto simp: AddRaw_def within_buffer_def packer_room_def)
qed

theorem packer_bounds_witness:
  "within_buffer (add_field CPacker (FInt 5)) \<or>
    (\<exists>s. FInt 5 = FString s \<and> packer_room CPacker = 0 \<and> m_Written (add_field CPacker (FInt 5)) = m_Written CPacker @ [0])"
proof -
  have "within_buffer CPacker" by (simp add: within_buffer_def CPacker_def packer_Reset_def)
  then show ?thesis using packer_bounds [of CPacker "FInt 5"] by simp
qed

text \<open>C34. The exception is real: on a full buffer without an error, adding the empty string reports no
  error and writes the terminator behind the buffer.\<close>

theorem AddString_writes_past_end:
  assumes "\<not> m_PError p" "length (m_Written p) = m_BufferSize p"
  shows "\<not> m_PError (AddString p [] limit al) \<and>
    length (m_Written (AddString p [] limit al)) = m_BufferSize (AddString p [] limit al) + 1"
  using assms by (simp add: AddString_def)

theorem AddString_writes_past_end_witness:
  "length (m_Written (AddString \<lparr>m_BufferSize = 1, m_Written = [7], m_PError = False\<rparr> [] 0 True)) = 2"
  using AddString_writes_past_end [of "\<lparr>m_BufferSize = 1, m_Written = [7], m_PError = False\<rparr>" 0 True]
  by (simp add: AddString_def)

end
