(* ===== verification/Huffman.thy ===== *)
theory Huffman
  imports Prelude
begin

text \<open>
  \<open>CHuffman\<close> (\<open>src/engine/shared/huffman.cpp\<close>): the static Huffman code every packet is
  compressed with. The node array is a list of nodes, a node pointer an index into it; the lookup
  table holds an index per ten-bit value. Sizes that the code keeps in pointers are list lengths.
\<close>

definition HUFFMAN_EOF_SYMBOL :: nat where "HUFFMAN_EOF_SYMBOL = 256"
definition HUFFMAN_MAX_SYMBOLS :: nat where "HUFFMAN_MAX_SYMBOLS = 257"
definition HUFFMAN_MAX_NODES :: nat where "HUFFMAN_MAX_NODES = 513"
definition HUFFMAN_LUTBITS :: nat where "HUFFMAN_LUTBITS = 10"
definition HUFFMAN_LUTSIZE :: nat where "HUFFMAN_LUTSIZE = 1024"
definition NO_LEAF :: nat where "NO_LEAF = 0xffff"

lemmas huffman_sizes = HUFFMAN_EOF_SYMBOL_def HUFFMAN_MAX_SYMBOLS_def HUFFMAN_MAX_NODES_def
  HUFFMAN_LUTBITS_def HUFFMAN_LUTSIZE_def NO_LEAF_def

record hnode =
  m_Bits :: i32
  m_NumBits :: nat
  m_Leaf0 :: nat
  m_Leaf1 :: nat
  m_Symbol :: byte

definition zero_node :: hnode where
  "zero_node = \<lparr>m_Bits = 0, m_NumBits = 0, m_Leaf0 = 0, m_Leaf1 = 0, m_Symbol = 0\<rparr>"

definition ms_aFreqTable :: "int list" where
  "ms_aFreqTable =
   [2 ^ 30, 4545, 2657, 431, 1950, 919, 444, 482, 2244, 617, 838, 542, 715, 1814, 304, 240, 754,
    212, 647, 186, 283, 131, 146, 166, 543, 164, 167, 136, 179, 859, 363, 113, 157, 154, 204,
    108, 137, 180, 202, 176, 872, 404, 168, 134, 151, 111, 113, 109, 120, 126, 129, 100, 41, 20,
    16, 22, 18, 18, 17, 19, 16, 37, 13, 21, 362, 166, 99, 78, 95, 88, 81, 70, 83, 284, 91, 187,
    77, 68, 52, 68, 59, 66, 61, 638, 71, 157, 50, 46, 69, 43, 11, 24, 13, 19, 10, 12, 12, 20,
    14, 9, 20, 20, 10, 10, 15, 15, 12, 12, 7, 19, 15, 14, 13, 18, 35, 19, 17, 14, 8, 5, 15, 17,
    9, 15, 14, 18, 8, 10, 2173, 134, 157, 68, 188, 60, 170, 60, 194, 62, 175, 71, 148, 67, 167,
    78, 211, 67, 156, 69, 1674, 90, 174, 53, 147, 89, 181, 51, 174, 63, 163, 80, 167, 94, 128,
    122, 223, 153, 218, 77, 200, 110, 190, 73, 174, 69, 145, 66, 277, 143, 141, 60, 136, 53,
    180, 57, 142, 57, 158, 61, 166, 112, 152, 92, 26, 22, 21, 28, 20, 26, 30, 21, 32, 27, 20,
    17, 23, 21, 30, 22, 22, 21, 27, 25, 17, 27, 23, 18, 39, 26, 15, 21, 12, 18, 18, 27, 20, 18,
    15, 19, 11, 17, 33, 12, 18, 15, 19, 18, 16, 26, 17, 18, 9, 10, 25, 22, 22, 17, 20, 16, 6,
    16, 15, 20, 14, 18, 24, 335, 1]"

section \<open>Building the tree\<close>

text \<open>A node still without a parent: its frequency and its index in the node array.\<close>

record construct_node =
  m_NodeId :: nat
  m_Frequency :: int

text \<open>\<open>std::stable_sort\<close> with \<open>CompareNodesByFrequencyDesc\<close>: descending frequencies, equal ones in
  their old order.\<close>

definition sort_by_frequency_desc :: "construct_node list \<Rightarrow> construct_node list" where
  "sort_by_frequency_desc = sort_key (\<lambda>n. - m_Frequency n)"

text \<open>The loop of \<open>ConstructTree\<close>: the two rarest nodes are the last two; the last one becomes leaf 0,
  the one before it leaf 1 of the new node, which takes the place of the latter.\<close>

definition merge_last :: "construct_node list \<Rightarrow> nat \<Rightarrow> construct_node list" where
  "merge_last left num =
     (let n = length left; a = left ! (n - 1); b = left ! (n - 2)
      in (take (n - 1) left)[n - 2 := b\<lparr>m_NodeId := num, m_Frequency := m_Frequency a + m_Frequency b\<rparr>])"

lemma length_merge_last [simp]: "length (merge_last left num) = length left - 1"
  by (simp add: merge_last_def Let_def)

lemma length_sort_desc [simp]: "length (sort_by_frequency_desc left) = length left"
  by (simp add: sort_by_frequency_desc_def)

function ConstructTree_loop ::
  "hnode list \<Rightarrow> construct_node list \<Rightarrow> nat \<Rightarrow> hnode list \<times> nat" where
  "ConstructTree_loop nodes left num =
     (if length left > 1 then
        let left = sort_by_frequency_desc left;
            n = length left;
            node = (nodes ! num)\<lparr>m_NumBits := 0, m_Leaf0 := m_NodeId (left ! (n - 1)),
                                 m_Leaf1 := m_NodeId (left ! (n - 2))\<rparr>
        in ConstructTree_loop (nodes[num := node]) (merge_last left num) (num + 1)
      else (nodes, num))"
  by pat_completeness auto
termination
  by (relation "measure (\<lambda>(nodes, left, num). length left)") auto

declare ConstructTree_loop.simps [simp del]

text \<open>\<open>SetBitsRecursive\<close>: the fuel bounds the depth; a tree over the node array is never deeper
  than the array is long.\<close>

fun SetBitsRecursive :: "nat \<Rightarrow> hnode list \<Rightarrow> nat \<Rightarrow> i32 \<Rightarrow> nat \<Rightarrow> hnode list" where
  "SetBitsRecursive 0 nodes i bits depth = nodes"
| "SetBitsRecursive (Suc fuel) nodes i bits depth =
     (let nodes = (if m_Leaf1 (nodes ! i) \<noteq> NO_LEAF
                   then SetBitsRecursive fuel nodes (m_Leaf1 (nodes ! i)) (bits OR push_bit depth 1) (depth + 1)
                   else nodes);
          nodes = (if m_Leaf0 (nodes ! i) \<noteq> NO_LEAF
                   then SetBitsRecursive fuel nodes (m_Leaf0 (nodes ! i)) bits (depth + 1)
                   else nodes)
      in if m_NumBits (nodes ! i) \<noteq> 0
         then nodes[i := (nodes ! i)\<lparr>m_Bits := bits, m_NumBits := depth\<rparr>]
         else nodes)"

definition symbol_node :: "nat \<Rightarrow> hnode" where
  "symbol_node i = \<lparr>m_Bits = 0, m_NumBits = 0xFFFFFFFF, m_Leaf0 = NO_LEAF, m_Leaf1 = NO_LEAF,
     m_Symbol = of_nat i\<rparr>"

definition ConstructTree :: "hnode list \<Rightarrow> int list \<Rightarrow> hnode list \<times> nat" where
  "ConstructTree nodes frequencies =
     (let nodes = map symbol_node [0..<HUFFMAN_MAX_SYMBOLS] @ drop HUFFMAN_MAX_SYMBOLS nodes;
          left = map (\<lambda>i. \<lparr>m_NodeId = i, m_Frequency = frequencies ! i\<rparr>) [0..<HUFFMAN_MAX_SYMBOLS];
          (nodes, num) = ConstructTree_loop nodes left HUFFMAN_MAX_SYMBOLS;
          start = num - 1
      in (SetBitsRecursive HUFFMAN_MAX_NODES nodes start 0 0, start))"

text \<open>One entry of the lookup table: at most ten steps down, stopping at a symbol.\<close>

fun lut_walk :: "nat \<Rightarrow> hnode list \<Rightarrow> nat \<Rightarrow> i32 \<Rightarrow> nat" where
  "lut_walk 0 nodes i bits = i"
| "lut_walk (Suc k) nodes i bits =
     (let i' = (if bits AND 1 = 1 then m_Leaf1 (nodes ! i) else m_Leaf0 (nodes ! i));
          bits = drop_bit 1 bits
      in if m_NumBits (nodes ! i') \<noteq> 0 then i' else lut_walk k nodes i' bits)"

record huffman =
  m_aNodes :: "hnode list"
  m_apDecodeLut :: "nat list"
  m_StartNode :: nat

definition huffman_Init :: "int list \<Rightarrow> huffman" where
  "huffman_Init frequencies =
     (let (nodes, start) = ConstructTree (replicate HUFFMAN_MAX_NODES zero_node) frequencies
      in \<lparr>m_aNodes = nodes,
          m_apDecodeLut = map (\<lambda>i. lut_walk HUFFMAN_LUTBITS nodes start (of_nat i)) [0..<HUFFMAN_LUTSIZE],
          m_StartNode = start\<rparr>)"

section \<open>Compression\<close>

text \<open>The bit buffer (\<open>uint64_t\<close>), the number of bits in it and the bytes written so far. Storing all
  eight bytes of the buffer when there is headroom counts only the full ones; bytes stored past the
  count are overwritten later or not part of the result.\<close>

definition load_symbol :: "huffman \<Rightarrow> nat \<Rightarrow> u64 \<times> nat \<Rightarrow> u64 \<times> nat" where
  "load_symbol h symb = (\<lambda>(bits, bitcount).
     (bits OR push_bit bitcount (ucast (m_Bits (m_aNodes h ! symb))),
      bitcount + m_NumBits (m_aNodes h ! symb)))"

definition le_bytes :: "u64 \<Rightarrow> nat \<Rightarrow> byte list" where
  "le_bytes bits n = map (\<lambda>i. ucast (drop_bit (i * 8) bits)) [0..<n]"

fun write_bytewise :: "nat \<Rightarrow> u64 \<Rightarrow> nat \<Rightarrow> byte list \<Rightarrow> (u64 \<times> nat \<times> byte list) option" where
  "write_bytewise room bits bitcount out =
     (if bitcount \<ge> 8 then
        if room = 0 then None
        else write_bytewise (room - 1) (drop_bit 8 bits) (bitcount - 8) (out @ [ucast (bits AND 0xff)])
      else Some (bits, bitcount, out))"

declare write_bytewise.simps [simp del]

definition write_bits :: "nat \<Rightarrow> u64 \<times> nat \<times> byte list \<Rightarrow> (u64 \<times> nat \<times> byte list) option" where
  "write_bits output_size = (\<lambda>(bits, bitcount, out).
     let room = output_size - length out in
     if room \<ge> 8 then
       Some (drop_bit (bitcount div 8 * 8) bits, bitcount mod 8, out @ le_bytes bits (bitcount div 8))
     else write_bytewise room bits bitcount out)"

text \<open>Load and write every input symbol, then the end symbol.\<close>

fun compress_loop ::
  "huffman \<Rightarrow> nat list \<Rightarrow> nat \<Rightarrow> u64 \<times> nat \<times> byte list \<Rightarrow> (u64 \<times> nat \<times> byte list) option" where
  "compress_loop h [] output_size st = Some st"
| "compress_loop h (symb # symbs) output_size (bits, bitcount, out) =
     (let (bits, bitcount) = load_symbol h symb (bits, bitcount) in
      case write_bits output_size (bits, bitcount, out) of
        None \<Rightarrow> None
      | Some st \<Rightarrow> compress_loop h symbs output_size st)"

definition huffman_Compress :: "huffman \<Rightarrow> byte list \<Rightarrow> nat \<Rightarrow> byte list option" where
  "huffman_Compress h input output_size =
     (case compress_loop h (map unat input @ [HUFFMAN_EOF_SYMBOL]) output_size (0, 0, []) of
        None \<Rightarrow> None
      | Some (bits, bitcount, out) \<Rightarrow>
          if bitcount \<noteq> 0 then
            if length out = output_size then None else Some (out @ [ucast bits])
          else Some out)"

section \<open>Decompression\<close>

text \<open>The bit buffer is 32 bits wide and so is its count, which wraps.\<close>

function fill_bits :: "i32 \<Rightarrow> i32 \<Rightarrow> byte list \<Rightarrow> i32 \<times> i32 \<times> byte list" where
  "fill_bits bits bitcount src =
     (case src of
        [] \<Rightarrow> (bits, bitcount, [])
      | b # bs \<Rightarrow>
          if bitcount < 24 then fill_bits (bits OR push_bit (unat bitcount) (ucast b)) (bitcount + 8) bs
          else (bits, bitcount, src))"
  by pat_completeness auto
termination
  by (relation "measure (\<lambda>(bits, n, src). length src)") auto

declare fill_bits.simps [simp del]

text \<open>Walking the tree bit by bit; the fuel bounds the depth. \<open>None\<close> is the decoding error.\<close>

fun walk_tree :: "nat \<Rightarrow> hnode list \<Rightarrow> nat \<Rightarrow> i32 \<Rightarrow> i32 \<Rightarrow> (nat \<times> i32 \<times> i32) option" where
  "walk_tree 0 nodes i bits bitcount = None"
| "walk_tree (Suc fuel) nodes i bits bitcount =
     (let i = (if bits AND 1 = 1 then m_Leaf1 (nodes ! i) else m_Leaf0 (nodes ! i));
          bitcount = bitcount - 1;
          bits = drop_bit 1 bits
      in if m_NumBits (nodes ! i) \<noteq> 0 then Some (i, bits, bitcount)
         else if bitcount = 0 then None
         else walk_tree fuel nodes i bits bitcount)"

definition lut_entry :: "huffman \<Rightarrow> i32 \<Rightarrow> nat" where
  "lut_entry h bits = m_apDecodeLut h ! unat (bits AND 0x3FF)"

text \<open>One pass of the outer loop: the node decoded and the state after it.\<close>

definition decode_symbol :: "huffman \<Rightarrow> i32 \<times> i32 \<times> byte list \<Rightarrow> (nat \<times> i32 \<times> i32 \<times> byte list) option" where
  "decode_symbol h = (\<lambda>(bits, bitcount, src).
     let early = (if bitcount \<ge> 10 then Some (lut_entry h bits) else None);
         (bits, bitcount, src) = fill_bits bits bitcount src;
         i = (case early of Some i \<Rightarrow> i | None \<Rightarrow> lut_entry h bits);
         num_bits = m_NumBits (m_aNodes h ! i)
     in if num_bits \<noteq> 0 then
          if unat bitcount < num_bits then None
          else Some (i, drop_bit num_bits bits, bitcount - of_nat num_bits, src)
        else if bitcount < 10 then None
        else case walk_tree HUFFMAN_MAX_NODES (m_aNodes h) i (drop_bit 10 bits) (bitcount - 10) of
            None \<Rightarrow> None
          | Some (i, bits, bitcount) \<Rightarrow> Some (i, bits, bitcount, src))"

text \<open>The outer loop: \<open>room\<close> is what is left of the output buffer, so it ends.\<close>

fun decompress_loop :: "huffman \<Rightarrow> nat \<Rightarrow> i32 \<times> i32 \<times> byte list \<Rightarrow> byte list option" where
  "decompress_loop h room st =
     (case decode_symbol h st of
        None \<Rightarrow> None
      | Some (i, st') \<Rightarrow>
          if i = HUFFMAN_EOF_SYMBOL then Some []
          else if room = 0 then None
          else map_option ((#) (m_Symbol (m_aNodes h ! i))) (decompress_loop h (room - 1) st'))"

declare decompress_loop.simps [simp del]

definition huffman_Decompress :: "huffman \<Rightarrow> byte list \<Rightarrow> nat \<Rightarrow> byte list option" where
  "huffman_Decompress h input output_size = decompress_loop h output_size (0, 0, input)"

end
