(* ===== verification/HuffmanTree.thy ===== *)
theory HuffmanTree
  imports Huffman "HOL-Library.Multiset"
begin

text \<open>
  What \<open>CHuffman::ConstructTree\<close> builds: the node array represents a binary tree whose leaves are the
  257 symbols, each once, and no leaf is deeper than 22. The depth bound uses the order in which the
  two rarest trees are merged: the children of every tree are no heavier than any other tree, so
  weights grow at least like the Fibonacci numbers with the height.
\<close>

section \<open>Trees\<close>

text \<open>A tree over node indices; a leaf's index is its symbol.\<close>

datatype htree = HLeaf nat | HNode nat htree htree

fun root :: "htree \<Rightarrow> nat" where
  "root (HLeaf i) = i"
| "root (HNode i l r) = i"

fun ids :: "htree \<Rightarrow> nat list" where
  "ids (HLeaf i) = [i]"
| "ids (HNode i l r) = i # ids l @ ids r"

fun leaves :: "htree \<Rightarrow> nat list" where
  "leaves (HLeaf i) = [i]"
| "leaves (HNode i l r) = leaves l @ leaves r"

fun height :: "htree \<Rightarrow> nat" where
  "height (HLeaf i) = 0"
| "height (HNode i l r) = Suc (max (height l) (height r))"

text \<open>The tree is what the node array holds below \<open>root t\<close>.\<close>

fun rep :: "hnode list \<Rightarrow> htree \<Rightarrow> bool" where
  "rep nodes (HLeaf i) \<longleftrightarrow> i < HUFFMAN_MAX_SYMBOLS \<and> m_NumBits (nodes ! i) \<noteq> 0 \<and>
     m_Leaf0 (nodes ! i) = NO_LEAF \<and> m_Leaf1 (nodes ! i) = NO_LEAF"
| "rep nodes (HNode i l r) \<longleftrightarrow> HUFFMAN_MAX_SYMBOLS \<le> i \<and> i < length nodes \<and> m_NumBits (nodes ! i) = 0 \<and>
     m_Leaf0 (nodes ! i) = root l \<and> m_Leaf1 (nodes ! i) = root r \<and> rep nodes l \<and> rep nodes r"

lemma rep_cong:
  "(\<And>i. i \<in> set (ids t) \<Longrightarrow> nodes' ! i = nodes ! i) \<Longrightarrow> length nodes' = length nodes \<Longrightarrow>
   rep nodes' t \<longleftrightarrow> rep nodes t"
  by (induction t) auto

lemma root_in_ids [simp]: "root t \<in> set (ids t)"
  by (cases t) auto

lemma leaves_subset_ids: "set (leaves t) \<subseteq> set (ids t)"
  by (induction t) auto

section \<open>The merging loop on trees\<close>

text \<open>The same merges on pairs of a frequency and the tree below the node.\<close>

fun merge_trees :: "nat \<Rightarrow> (int \<times> htree) list \<Rightarrow> (int \<times> htree) list" where
  "merge_trees num qs =
     (let qs = sort_key (\<lambda>q. - fst q) qs; n = length qs; a = qs ! (n - 1); b = qs ! (n - 2)
      in take (n - 2) qs @ [(fst a + fst b, HNode num (snd a) (snd b))])"

declare merge_trees.simps [simp del]

fun grow :: "nat \<Rightarrow> nat \<Rightarrow> (int \<times> htree) list \<Rightarrow> (int \<times> htree) list" where
  "grow 0 num qs = qs"
| "grow (Suc k) num qs = grow k (num + 1) (merge_trees num qs)"

definition node_of :: "int \<times> htree \<Rightarrow> construct_node" where
  "node_of q = \<lparr>m_NodeId = root (snd q), m_Frequency = fst q\<rparr>"

lemma map_insort_key: "map g (insort_key (f \<circ> g) x xs) = insort_key f (g x) (map g xs)"
  by (induction xs) auto

lemma map_sort_key: "map g (sort_key (f \<circ> g) xs) = sort_key f (map g xs)"
proof (induction xs)
  case (Cons x xs)
  then show ?case by (simp add: map_insort_key del: comp_apply)
qed simp

lemma sort_node_of:
  "sort_by_frequency_desc (map node_of qs) = map node_of (sort_key (\<lambda>q. - fst q) qs)"
  using map_sort_key [of node_of "\<lambda>n. - m_Frequency n" qs]
  by (simp add: sort_by_frequency_desc_def comp_def node_of_def)

lemma take_update_last:
  "length xs = Suc (Suc k) \<Longrightarrow> (take (Suc k) xs)[k := y] = take k xs @ [y]"
  by (simp add: list_eq_iff_nth_eq nth_append nth_list_update)

text \<open>The two last trees of the sorted list, and the rest.\<close>

lemma split_last_two:
  assumes "length qs = Suc (Suc k)"
  obtains rest b a where "sort_key f qs = rest @ [b, a]" "length rest = k"
proof -
  let ?qs = "sort_key f qs"
  have len: "length ?qs = Suc (Suc k)" using assms by simp
  have "?qs = take k ?qs @ drop k ?qs" by simp
  moreover have "length (drop k ?qs) = Suc (Suc 0)" using len by simp
  then obtain b a where "drop k ?qs = [b, a]" by (auto simp only: length_Suc_conv length_0_conv)
  ultimately show thesis using that [of "take k ?qs" b a] len by simp
qed

lemma merge_trees_split:
  assumes "sort_key (\<lambda>q. - fst q) qs = rest @ [b, a]"
  shows "merge_trees num qs = rest @ [(fst a + fst b, HNode num (snd a) (snd b))]"
  by (simp add: merge_trees.simps assms Let_def nth_append)

lemma merge_last_node_of:
  assumes "sort_key (\<lambda>q. - fst q) qs = rest @ [b, a]"
  shows "merge_last (sort_by_frequency_desc (map node_of qs)) num = map node_of (merge_trees num qs)"
  by (simp add: merge_trees_split [OF assms] sort_node_of assms merge_last_def Let_def nth_append
      take_update_last) (simp add: node_of_def list_update_append)

abbreviation forest_ids :: "(int \<times> htree) list \<Rightarrow> nat set" where
  "forest_ids qs \<equiv> \<Union>q\<in>set qs. set (ids (snd q))"

lemma set_sorted_split:
  assumes "sort_key f qs = rest @ [b, a]"
  shows "set qs = insert a (insert b (set rest))"
proof -
  have "set qs = set (sort_key f qs)" by simp
  then show ?thesis by (simp only: assms) auto
qed

lemma merge_trees_ids:
  assumes "sort_key (\<lambda>q. - fst q) qs = rest @ [b, a]"
  shows "forest_ids (merge_trees num qs) = insert num (forest_ids qs)"
  by (auto simp: merge_trees_split [OF assms] set_sorted_split [OF assms])

text \<open>The loop of the code builds what \<open>grow\<close> describes.\<close>

lemma ConstructTree_loop_grow:
  assumes "length qs = Suc k" "num + k \<le> length nodes" "HUFFMAN_MAX_SYMBOLS \<le> num"
    "\<forall>q\<in>set qs. rep nodes (snd q)" "forest_ids qs \<subseteq> {..<num}"
  shows "\<exists>nodes'. ConstructTree_loop nodes (map node_of qs) num = (nodes', num + k) \<and>
    length nodes' = length nodes \<and> (\<forall>q\<in>set (grow k num qs). rep nodes' (snd q)) \<and>
    (\<forall>i<num. nodes' ! i = nodes ! i)"
  using assms
proof (induction k arbitrary: qs num nodes)
  case 0
  then show ?case by (simp add: ConstructTree_loop.simps)
next
  case (Suc k)
  obtain rest b a where s: "sort_key (\<lambda>q. - fst q) qs = rest @ [b, a]" "length rest = k"
    using split_last_two [OF Suc.prems(1)] by blast
  let ?node = "(nodes ! num)\<lparr>m_NumBits := 0, m_Leaf0 := root (snd a), m_Leaf1 := root (snd b)\<rparr>"
  let ?nodes = "nodes[num := ?node]"
  let ?qs = "merge_trees num qs"
  have num: "num < length nodes" using Suc.prems(2) by simp
  have loop: "ConstructTree_loop nodes (map node_of qs) num =
      ConstructTree_loop ?nodes (map node_of ?qs) (num + 1)"
    by (subst ConstructTree_loop.simps)
      (simp add: Suc.prems(1) Let_def merge_last_node_of [OF s(1)],
       simp add: sort_node_of s nth_append node_of_def)
  have old: "rep ?nodes (snd q)" if "q \<in> set qs" for q
  proof -
    have "num \<notin> set (ids (snd q))" using Suc.prems(5) that by auto
    then have "\<And>i. i \<in> set (ids (snd q)) \<Longrightarrow> ?nodes ! i = nodes ! i" by (metis nth_list_update_neq)
    then have "rep ?nodes (snd q) \<longleftrightarrow> rep nodes (snd q)" by (rule rep_cong) simp_all
    then show ?thesis using Suc.prems(4) that by blast
  qed
  have "\<forall>q\<in>set ?qs. rep ?nodes (snd q)"
    using old num Suc.prems(3) by (auto simp: merge_trees_split [OF s(1)] set_sorted_split [OF s(1)])
  moreover have "forest_ids ?qs \<subseteq> {..<num + 1}"
    using Suc.prems(5) by (auto simp: merge_trees_ids [OF s(1)])
  moreover have "length ?qs = Suc k" using s by (simp add: merge_trees_split [OF s(1)])
  ultimately have "\<exists>nodes'. ConstructTree_loop ?nodes (map node_of ?qs) (num + 1) = (nodes', num + 1 + k) \<and>
      length nodes' = length ?nodes \<and> (\<forall>q\<in>set (grow k (num + 1) ?qs). rep nodes' (snd q)) \<and>
      (\<forall>i<num + 1. nodes' ! i = ?nodes ! i)"
    using Suc.prems(2,3) by (intro Suc.IH) simp_all
  then show ?case by (auto simp: loop)
qed

lemma length_grow: "length qs = Suc k \<Longrightarrow> length (grow k num qs) = 1"
proof (induction k arbitrary: qs num)
  case (Suc k)
  obtain rest b a where s: "sort_key (\<lambda>q. - fst q) qs = rest @ [b, a]" "length rest = k"
    using split_last_two [OF Suc.prems] by blast
  then show ?case using Suc.IH by (simp add: merge_trees_split [OF s(1)])
qed simp

section \<open>Every symbol is a leaf, once\<close>

abbreviation forest_leaves :: "(int \<times> htree) list \<Rightarrow> nat list" where
  "forest_leaves qs \<equiv> concat (map (\<lambda>q. leaves (snd q)) qs)"

abbreviation forest_id_list :: "(int \<times> htree) list \<Rightarrow> nat list" where
  "forest_id_list qs \<equiv> concat (map (\<lambda>q. ids (snd q)) qs)"

lemma mset_concat_map_sort:
  assumes "sort_key f qs = rest @ [b, a]"
  shows "mset (concat (map g qs)) = mset (concat (map g rest)) + mset (g b) + mset (g a)"
proof -
  have "mset (concat (map g qs)) = (\<Sum>q\<in>#mset qs. mset (g q))"
    by (simp add: mset_concat comp_def flip: sum_mset_sum_list mset_map)
  also have "mset qs = mset (rest @ [b, a])" using assms by (metis mset_sort)
  also have "(\<Sum>q\<in>#mset (rest @ [b, a]). mset (g q)) = mset (concat (map g (rest @ [b, a])))"
    by (simp add: mset_concat comp_def flip: sum_mset_sum_list mset_map)
  finally show ?thesis by (simp add: add.assoc)
qed

lemma grow_leaves:
  "length qs = Suc k \<Longrightarrow> mset (forest_leaves (grow k num qs)) = mset (forest_leaves qs)"
proof (induction k arbitrary: qs num)
  case (Suc k)
  obtain rest b a where s: "sort_key (\<lambda>q. - fst q) qs = rest @ [b, a]" "length rest = k"
    using split_last_two [OF Suc.prems] by blast
  show ?case using Suc.IH s
    by (simp add: mset_concat_map_sort [OF s(1)] merge_trees_split [OF s(1)] add.commute add.left_commute)
qed simp

lemma grow_ids:
  assumes "length qs = Suc k" "distinct (forest_id_list qs)" "forest_ids qs \<subseteq> {..<num}"
  shows "distinct (forest_id_list (grow k num qs))"
  using assms
proof (induction k arbitrary: qs num)
  case (Suc k)
  obtain rest b a where s: "sort_key (\<lambda>q. - fst q) qs = rest @ [b, a]" "length rest = k"
    using split_last_two [OF Suc.prems(1)] by blast
  have "mset (forest_id_list (merge_trees num qs)) = mset (num # forest_id_list qs)"
    by (simp add: mset_concat_map_sort [OF s(1)] merge_trees_split [OF s(1)] add.commute add.left_commute)
  then have "distinct (forest_id_list (merge_trees num qs)) \<longleftrightarrow> distinct (num # forest_id_list qs)"
    by (rule mset_eq_imp_distinct_iff)
  also have "\<dots>" using Suc.prems(2,3) by auto
  finally have d: "distinct (forest_id_list (merge_trees num qs))" .
  have "length (merge_trees num qs) = Suc k" using s by (simp add: merge_trees_split [OF s(1)])
  moreover have "forest_ids (merge_trees num qs) \<subseteq> {..<num + 1}"
    using Suc.prems(3) by (auto simp: merge_trees_ids [OF s(1)])
  ultimately have "distinct (forest_id_list (grow k (num + 1) (merge_trees num qs)))"
    using d by (intro Suc.IH)
  then show ?case by (simp only: grow.simps)
qed (simp only: grow.simps)

section \<open>The depth of the tree\<close>

fun weight :: "(nat \<Rightarrow> int) \<Rightarrow> htree \<Rightarrow> int" where
  "weight fr (HLeaf i) = fr i"
| "weight fr (HNode i l r) = weight fr l + weight fr r"

text \<open>No child of the tree is heavier than \<open>m\<close>.\<close>

fun kids_le :: "(nat \<Rightarrow> int) \<Rightarrow> int \<Rightarrow> htree \<Rightarrow> bool" where
  "kids_le fr m (HLeaf i) \<longleftrightarrow> True"
| "kids_le fr m (HNode i l r) \<longleftrightarrow> weight fr l \<le> m \<and> weight fr r \<le> m"

text \<open>Siblings are no lighter than each other's children.\<close>

fun siblings :: "(nat \<Rightarrow> int) \<Rightarrow> htree \<Rightarrow> bool" where
  "siblings fr (HLeaf i) \<longleftrightarrow> True"
| "siblings fr (HNode i l r) \<longleftrightarrow> kids_le fr (weight fr r) l \<and> kids_le fr (weight fr l) r \<and>
     siblings fr l \<and> siblings fr r"

fun min_weight :: "nat \<Rightarrow> int" where
  "min_weight 0 = 1"
| "min_weight (Suc 0) = 2"
| "min_weight (Suc (Suc h)) = min_weight (Suc h) + min_weight h"

lemma weight_pos: "\<forall>i\<in>set (leaves t). 1 \<le> fr i \<Longrightarrow> 1 \<le> weight fr t"
proof (induction t)
  case (HNode i l r)
  then show ?case by (simp add: ball_Un)
qed simp

lemma min_weight_pos: "1 \<le> min_weight h"
  by (induction h rule: min_weight.induct) auto

lemma min_weight_Suc: "min_weight h \<le> min_weight (Suc h)"
  by (cases h) (use min_weight_pos in \<open>auto intro: order_trans [of 0 1]\<close>)

lemma min_weight_mono: "h \<le> h' \<Longrightarrow> min_weight h \<le> min_weight h'"
  by (rule lift_Suc_mono_le) (rule min_weight_Suc)

lemma high_sibling:
  assumes "Suc h \<le> height t" "min_weight (height t) \<le> weight fr t" "kids_le fr m t"
    "\<And>t'. t' \<in> (case t of HLeaf _ \<Rightarrow> {} | HNode _ l r \<Rightarrow> {l, r}) \<Longrightarrow> min_weight (height t') \<le> weight fr t'"
  shows "min_weight h \<le> m"
proof (cases t)
  case (HNode i l r)
  obtain u where u: "u = l \<or> u = r" "h \<le> height u"
    using assms(1) HNode by (auto simp: max_def split: if_splits)
  have "min_weight h \<le> min_weight (height u)" by (rule min_weight_mono [OF u(2)])
  also have "\<dots> \<le> weight fr u" using assms(4) [of u] u(1) HNode by auto
  also have "\<dots> \<le> m" using assms(3) u(1) HNode by auto
  finally show ?thesis .
qed (use assms(1) in simp)

text \<open>A tree of height \<open>h\<close> weighs at least \<open>min_weight h\<close>, and its heavier child at least
  \<open>min_weight (h - 1)\<close>.\<close>

lemma weight_min_weight:
  assumes "siblings fr t" "\<forall>i\<in>set (leaves t). 1 \<le> fr i"
  shows "min_weight (height t) \<le> weight fr t"
  using assms
proof (induction t rule: measure_induct_rule [of size])
  case (less t)
  show ?case
  proof (cases t)
    case (HNode i l r)
    have l: "min_weight (height l) \<le> weight fr l" and r: "min_weight (height r) \<le> weight fr r"
      using less HNode by auto
    have pos: "1 \<le> weight fr l" "1 \<le> weight fr r"
      using less.prems(2) HNode weight_pos by auto
    have kids: "kids_le fr (weight fr r) l" "kids_le fr (weight fr l) r"
      using less.prems(1) HNode by auto
    have sub: "min_weight (height t') \<le> weight fr t'"
      if "t' \<in> (case u of HLeaf _ \<Rightarrow> {} | HNode _ l r \<Rightarrow> {l, r})" "u = l \<or> u = r" for t' u
      using that less HNode by (cases u) (auto split: htree.splits)
    show ?thesis
    proof (cases "max (height l) (height r)")
      case 0
      then show ?thesis using pos HNode by simp
    next
      case (Suc h)
      have "min_weight h \<le> min (weight fr l) (weight fr r) \<and>
          min_weight (Suc h) \<le> max (weight fr l) (weight fr r)"
      proof (cases "height l = Suc h")
        case True
        have "min_weight h \<le> weight fr r"
          by (rule high_sibling [of h l fr, OF _ l kids(1)]) (use True sub in auto)
        then show ?thesis using l True min_weight_Suc [of h] by (auto simp: min_def max_def)
      next
        case False
        then have hr: "height r = Suc h" using Suc by (auto simp: max_def split: if_splits)
        have "min_weight h \<le> weight fr l"
          by (rule high_sibling [of h r fr, OF _ r kids(2)]) (use hr sub in auto)
        then show ?thesis using r hr min_weight_Suc [of h] by (auto simp: min_def max_def)
      qed
      then show ?thesis using HNode Suc by (auto simp: min_def max_def split: if_splits)
    qed
  qed (use less.prems in simp)
qed

text \<open>The invariant of the merging loop.\<close>

definition ordered_forest :: "(nat \<Rightarrow> int) \<Rightarrow> (int \<times> htree) list \<Rightarrow> bool" where
  "ordered_forest fr qs \<longleftrightarrow> (\<forall>q\<in>set qs. fst q = weight fr (snd q) \<and> 0 \<le> fst q \<and> siblings fr (snd q)) \<and>
     (\<forall>q\<in>set qs. \<forall>q'\<in>set qs. kids_le fr (fst q') (snd q))"

lemma kids_le_mono: "kids_le fr m t \<Longrightarrow> m \<le> m' \<Longrightarrow> kids_le fr m' t"
  by (cases t) auto

lemma ordered_merge:
  assumes "ordered_forest fr qs" "sort_key (\<lambda>q. - fst q) qs = rest @ [b, a]"
  shows "ordered_forest fr (merge_trees num qs)"
proof -
  have "sorted (map (\<lambda>q. - fst q) (rest @ [b, a]))"
    using sorted_sort_key [of "\<lambda>q. - fst q" qs] by (simp add: assms(2))
  then have ord: "fst a \<le> fst b" "\<And>q. q \<in> set rest \<Longrightarrow> fst b \<le> fst q"
    by (auto simp: sorted_append)
  note inv = assms(1) [unfolded ordered_forest_def set_sorted_split [OF assms(2)]]
  let ?new = "(fst a + fst b, HNode num (snd a) (snd b))"
  have "fst q = weight fr (snd q) \<and> 0 \<le> fst q \<and> siblings fr (snd q)" if "q \<in> set (rest @ [?new])" for q
    using that inv by auto
  moreover have "kids_le fr (fst q') (snd q)" if q: "q \<in> set (rest @ [?new])" "q' \<in> set (rest @ [?new])" for q q'
  proof (cases "q = ?new")
    case True
    have "0 \<le> fst a" using inv by blast
    then have "fst b \<le> fst q'" using q(2) ord(1) ord(2) [of q'] by auto
    then have "fst a \<le> fst q' \<and> fst b \<le> fst q'" using ord(1) by auto
    then show ?thesis using True inv by auto
  next
    case False
    then have "q \<in> set rest" using q(1) by auto
    then have k: "kids_le fr (fst b) (snd q)" "q' \<in> set rest \<Longrightarrow> kids_le fr (fst q') (snd q)"
      using inv by auto
    have "0 \<le> fst a" using inv by blast
    then have "kids_le fr (fst a + fst b) (snd q)" by (intro kids_le_mono [OF k(1)]) simp
    then show ?thesis using q(2) k(2) by auto
  qed
  ultimately show ?thesis unfolding ordered_forest_def merge_trees_split [OF assms(2)] by blast
qed

lemma ordered_grow: "length qs = Suc k \<Longrightarrow> ordered_forest fr qs \<Longrightarrow> ordered_forest fr (grow k num qs)"
proof (induction k arbitrary: qs num)
  case (Suc k)
  obtain rest b a where s: "sort_key (\<lambda>q. - fst q) qs = rest @ [b, a]" "length rest = k"
    using split_last_two [OF Suc.prems(1)] by blast
  show ?case using Suc.IH ordered_merge [OF Suc.prems(2) s(1)] s
    by (simp add: merge_trees_split [OF s(1)])
qed simp

section \<open>The finished tree\<close>

definition start_forest :: "int list \<Rightarrow> (int \<times> htree) list" where
  "start_forest frequencies = map (\<lambda>i. (frequencies ! i, HLeaf i)) [0..<HUFFMAN_MAX_SYMBOLS]"

definition symbol_nodes :: "hnode list" where
  "symbol_nodes = map symbol_node [0..<HUFFMAN_MAX_SYMBOLS] @
     drop HUFFMAN_MAX_SYMBOLS (replicate HUFFMAN_MAX_NODES zero_node)"

lemma huffman_size_eqs: "HUFFMAN_MAX_NODES = HUFFMAN_MAX_SYMBOLS + 256"
  by (simp add: huffman_sizes)

lemma length_symbol_nodes: "length symbol_nodes = HUFFMAN_MAX_NODES"
  by (simp add: symbol_nodes_def huffman_size_eqs)

lemma nth_symbol_nodes: "i < HUFFMAN_MAX_SYMBOLS \<Longrightarrow> symbol_nodes ! i = symbol_node i"
  by (simp add: symbol_nodes_def nth_append)

text \<open>The tree of a frequency table, and the nodes before \<open>SetBitsRecursive\<close>.\<close>

definition huffman_tree :: "int list \<Rightarrow> htree" where
  "huffman_tree frequencies = snd (hd (grow 256 HUFFMAN_MAX_SYMBOLS (start_forest frequencies)))"

definition linked_nodes :: "int list \<Rightarrow> hnode list" where
  "linked_nodes frequencies =
     fst (ConstructTree_loop symbol_nodes (map node_of (start_forest frequencies)) HUFFMAN_MAX_SYMBOLS)"

lemma start_forest_facts:
  "length (start_forest fr) = Suc 256" "forest_ids (start_forest fr) \<subseteq> {..<HUFFMAN_MAX_SYMBOLS}"
  "distinct (forest_id_list (start_forest fr))" "forest_leaves (start_forest fr) = [0..<HUFFMAN_MAX_SYMBOLS]"
  "\<forall>q\<in>set (start_forest fr). rep symbol_nodes (snd q)"
proof -
  have l: "concat (map (\<lambda>q. [root (snd q)]) (start_forest fr)) = [0..<HUFFMAN_MAX_SYMBOLS]"
    by (simp add: start_forest_def comp_def)
  have "map (\<lambda>q. ids (snd q)) (start_forest fr) = map (\<lambda>q. [root (snd q)]) (start_forest fr)"
    "map (\<lambda>q. leaves (snd q)) (start_forest fr) = map (\<lambda>q. [root (snd q)]) (start_forest fr)"
    by (simp_all add: start_forest_def comp_def del: map_eq_conv)
  with l show "distinct (forest_id_list (start_forest fr))"
      "forest_leaves (start_forest fr) = [0..<HUFFMAN_MAX_SYMBOLS]"
    by (simp_all only: distinct_upt)
qed (auto simp: start_forest_def HUFFMAN_MAX_SYMBOLS_def nth_symbol_nodes symbol_node_def)

lemma grow_singleton: "\<exists>q. grow 256 HUFFMAN_MAX_SYMBOLS (start_forest fr) = [q]"
  using length_grow [OF start_forest_facts(1)] by (simp add: length_Suc_conv)

lemma huffman_tree_eq: "grow 256 HUFFMAN_MAX_SYMBOLS (start_forest fr) = [q] \<Longrightarrow> huffman_tree fr = snd q"
  by (simp add: huffman_tree_def)

lemma linked_nodes_rep:
  "ConstructTree_loop symbol_nodes (map node_of (start_forest fr)) HUFFMAN_MAX_SYMBOLS =
     (linked_nodes fr, HUFFMAN_MAX_NODES) \<and>
   length (linked_nodes fr) = HUFFMAN_MAX_NODES \<and> rep (linked_nodes fr) (huffman_tree fr) \<and>
   (\<forall>i<HUFFMAN_MAX_SYMBOLS. linked_nodes fr ! i = symbol_node i)"
proof -
  obtain q where q: "grow 256 HUFFMAN_MAX_SYMBOLS (start_forest fr) = [q]" using grow_singleton by blast
  have "HUFFMAN_MAX_SYMBOLS + 256 \<le> length symbol_nodes"
    by (simp add: length_symbol_nodes huffman_sizes)
  from ConstructTree_loop_grow [OF start_forest_facts(1) this order_refl start_forest_facts(5,2)]
  obtain nodes' where n: "ConstructTree_loop symbol_nodes (map node_of (start_forest fr)) HUFFMAN_MAX_SYMBOLS =
      (nodes', HUFFMAN_MAX_SYMBOLS + 256)" "length nodes' = length symbol_nodes"
      "\<forall>q\<in>set (grow 256 HUFFMAN_MAX_SYMBOLS (start_forest fr)). rep nodes' (snd q)"
      "\<forall>i<HUFFMAN_MAX_SYMBOLS. nodes' ! i = symbol_nodes ! i" by blast
  then have "linked_nodes fr = nodes'" by (simp add: linked_nodes_def)
  moreover have "rep nodes' (huffman_tree fr)" using n(3) q by (simp add: huffman_tree_eq [OF q])
  moreover have "\<forall>i<HUFFMAN_MAX_SYMBOLS. nodes' ! i = symbol_node i"
    using n(4) by (simp add: nth_symbol_nodes)
  ultimately show ?thesis using n(1,2) by (simp add: length_symbol_nodes huffman_size_eqs)
qed

lemma huffman_tree_leaves: "mset (leaves (huffman_tree fr)) = mset [0..<HUFFMAN_MAX_SYMBOLS]"
proof -
  obtain q where q: "grow 256 HUFFMAN_MAX_SYMBOLS (start_forest fr) = [q]" using grow_singleton by blast
  show ?thesis
    using grow_leaves [OF start_forest_facts(1), of HUFFMAN_MAX_SYMBOLS fr] q
    by (simp add: huffman_tree_eq [OF q] start_forest_facts(4))
qed

lemma set_huffman_leaves: "set (leaves (huffman_tree fr)) = {..<HUFFMAN_MAX_SYMBOLS}"
  using arg_cong [OF huffman_tree_leaves, of set_mset] by (simp add: atLeast0LessThan)

lemma distinct_huffman_ids: "distinct (ids (huffman_tree fr))"
proof -
  obtain q where q: "grow 256 HUFFMAN_MAX_SYMBOLS (start_forest fr) = [q]" using grow_singleton by blast
  have "distinct (forest_id_list (grow 256 HUFFMAN_MAX_SYMBOLS (start_forest fr)))"
    by (rule grow_ids [OF start_forest_facts(1,3,2)])
  then show ?thesis by (simp add: q huffman_tree_eq [OF q])
qed

lemma grow_root:
  "length qs = Suc (Suc k) \<Longrightarrow> \<exists>f l r. grow (Suc k) num qs = [(f, HNode (num + k) l r)]"
proof (induction k arbitrary: qs num)
  case 0
  obtain rest b a where s: "sort_key (\<lambda>q. - fst q) qs = rest @ [b, a]" "length rest = 0"
    using split_last_two [OF "0.prems"] by blast
  then show ?case by (simp add: merge_trees_split [OF s(1)])
next
  case (Suc k)
  obtain rest b a where s: "sort_key (\<lambda>q. - fst q) qs = rest @ [b, a]" "length rest = Suc k"
    using split_last_two [OF Suc.prems] by blast
  have "length (merge_trees num qs) = Suc (Suc k)" using s by (simp add: merge_trees_split [OF s(1)])
  from Suc.IH [OF this, of "num + 1"] show ?case by simp
qed

lemma huffman_tree_root: "\<exists>l r. huffman_tree fr = HNode (HUFFMAN_MAX_NODES - 1) l r"
proof -
  have "Suc 255 = 256" by simp
  then obtain f l r where "grow 256 HUFFMAN_MAX_SYMBOLS (start_forest fr) = [(f, HNode (HUFFMAN_MAX_SYMBOLS + 255) l r)]"
    using grow_root [of "start_forest fr" 255 HUFFMAN_MAX_SYMBOLS] start_forest_facts(1) by metis
  then show ?thesis by (simp add: huffman_tree_def huffman_size_eqs)
qed

section \<open>The depth of the tree for the table of the code\<close>

abbreviation table_freq :: "nat \<Rightarrow> int" where
  "table_freq i \<equiv> ms_aFreqTable ! i"

lemma table_facts:
  "length ms_aFreqTable = HUFFMAN_MAX_SYMBOLS" "list_all (\<lambda>f. 1 \<le> f) ms_aFreqTable"
  "ms_aFreqTable ! 0 = 2 ^ 30" "sum_list ms_aFreqTable = 2 ^ 30 + 44895"
  by (simp_all add: ms_aFreqTable_def HUFFMAN_MAX_SYMBOLS_def)

lemma table_freq_pos: "i < HUFFMAN_MAX_SYMBOLS \<Longrightarrow> 1 \<le> table_freq i"
  using table_facts(1,2) by (simp add: list_all_length)

lemma weight_sum: "weight fr t = (\<Sum>i\<in>#mset (leaves t). fr i)"
  by (induction t) simp_all

lemma weight_nonneg: "\<forall>i\<in>set (leaves t). 0 \<le> fr i \<Longrightarrow> 0 \<le> weight fr t"
  by (induction t) auto

lemma weight_leaf_le:
  "i \<in> set (leaves t) \<Longrightarrow> \<forall>j\<in>set (leaves t). 0 \<le> fr j \<Longrightarrow> fr i \<le> weight fr t"
proof (induction t)
  case (HNode n l r)
  have "0 \<le> weight fr l" "0 \<le> weight fr r" using HNode.prems(2) weight_nonneg by simp_all
  then show ?case using HNode by auto
qed simp

lemma start_forest_ordered: "ordered_forest table_freq (start_forest ms_aFreqTable)"
proof -
  have "0 \<le> table_freq i" if "i < HUFFMAN_MAX_SYMBOLS" for i using table_freq_pos [OF that] by simp
  then show ?thesis by (auto simp: ordered_forest_def start_forest_def)
qed

lemma huffman_siblings: "siblings table_freq (huffman_tree ms_aFreqTable)"
proof -
  obtain q where q: "grow 256 HUFFMAN_MAX_SYMBOLS (start_forest ms_aFreqTable) = [q]" using grow_singleton by blast
  have "ordered_forest table_freq (grow 256 HUFFMAN_MAX_SYMBOLS (start_forest ms_aFreqTable))"
    by (rule ordered_grow [OF start_forest_facts(1) start_forest_ordered])
  then show ?thesis by (simp add: q huffman_tree_eq [OF q] ordered_forest_def)
qed

lemma huffman_weight: "weight table_freq (huffman_tree ms_aFreqTable) = 2 ^ 30 + 44895"
proof -
  have "weight table_freq (huffman_tree ms_aFreqTable) = sum_list (map table_freq [0..<HUFFMAN_MAX_SYMBOLS])"
    by (simp only: weight_sum huffman_tree_leaves) (simp only: mset_map [symmetric] sum_mset_sum_list)
  also have "map table_freq [0..<HUFFMAN_MAX_SYMBOLS] = ms_aFreqTable"
    by (simp only: table_facts(1) [symmetric] map_nth)
  finally show ?thesis by (simp only: table_facts(4))
qed

lemma light_tree_height:
  assumes "siblings fr t" "\<forall>i\<in>set (leaves t). 1 \<le> fr i" "weight fr t \<le> 44895"
  shows "height t \<le> 21"
proof (rule ccontr)
  assume "\<not> height t \<le> 21"
  then have "min_weight 22 \<le> min_weight (height t)" by (intro min_weight_mono) simp
  also have "\<dots> \<le> weight fr t" by (rule weight_min_weight [OF assms(1,2)])
  finally show False using assms(3) by (simp add: eval_nat_numeral)
qed

lemma heavy_leaf:
  assumes "0 \<in> set (leaves t)" "\<forall>i\<in>set (leaves t). 1 \<le> table_freq i" "kids_le table_freq 44895 t"
  shows "height t = 0"
proof (cases t)
  case (HNode n l r)
  obtain u where u: "u = l \<or> u = r" "0 \<in> set (leaves u)" using assms(1) HNode by auto
  have "\<forall>i\<in>set (leaves u). 0 \<le> table_freq i" using assms(2) u(1) HNode by force
  from weight_leaf_le [OF u(2) this] have "2 ^ 30 \<le> weight table_freq u" by (simp add: table_facts(3))
  then show ?thesis using assms(3) u(1) HNode by auto
qed simp

lemma huffman_height: "height (huffman_tree ms_aFreqTable) \<le> 22"
proof -
  obtain n l r where t: "huffman_tree ms_aFreqTable = HNode n l r" using huffman_tree_root by blast
  have pos: "\<forall>i\<in>set (leaves l) \<union> set (leaves r). 1 \<le> table_freq i"
    using set_huffman_leaves [of ms_aFreqTable] table_freq_pos by (auto simp: t)
  have sib: "siblings table_freq l" "siblings table_freq r"
      "kids_le table_freq (weight table_freq r) l" "kids_le table_freq (weight table_freq l) r"
    using huffman_siblings by (simp_all add: t)
  have sum: "weight table_freq l + weight table_freq r = 2 ^ 30 + 44895"
    using huffman_weight by (simp add: t)
  have "0 < HUFFMAN_MAX_SYMBOLS" by (simp add: HUFFMAN_MAX_SYMBOLS_def)
  then have "0 \<in> set (leaves (huffman_tree ms_aFreqTable))"
    by (simp only: set_huffman_leaves lessThan_iff)
  then have "0 \<in> set (leaves l) \<or> 0 \<in> set (leaves r)"
    by (simp only: t leaves.simps set_append Un_iff)
  moreover have heavy: "2 ^ 30 \<le> weight table_freq u" if "0 \<in> set (leaves u)" "u = l \<or> u = r" for u
  proof -
    have "\<forall>i\<in>set (leaves u). 0 \<le> table_freq i" using pos that(2) by force
    from weight_leaf_le [OF that(1) this] show ?thesis by (simp add: table_facts(3))
  qed
  ultimately consider "0 \<in> set (leaves l)" "2 ^ 30 \<le> weight table_freq l"
    | "0 \<in> set (leaves r)" "2 ^ 30 \<le> weight table_freq r" by blast
  then show ?thesis
  proof cases
    case 1
    have w: "weight table_freq r \<le> 44895" using 1(2) sum by linarith
    have "height r \<le> 21" by (rule light_tree_height [OF sib(2) _ w]) (use pos in blast)
    moreover have "height l = 0"
      by (rule heavy_leaf [OF 1(1) _ kids_le_mono [OF sib(3) w]]) (use pos in blast)
    ultimately show ?thesis by (simp add: t)
  next
    case 2
    have w: "weight table_freq l \<le> 44895" using 2(2) sum by linarith
    have "height l \<le> 21" by (rule light_tree_height [OF sib(1) _ w]) (use pos in blast)
    moreover have "height r = 0"
      by (rule heavy_leaf [OF 2(1) _ kids_le_mono [OF sib(4) w]]) (use pos in blast)
    ultimately show ?thesis by (simp add: t)
  qed
qed

end
