(* ===== verification/HuffmanCode.thy ===== *)
theory HuffmanCode
  imports HuffmanTree
begin

text \<open>
  From the tree to the code: \<open>SetBitsRecursive\<close> stores in every symbol's node the path to it, and the
  lookup table stores where the first ten bits lead. The locale \<open>huffman_code\<close> collects what the coder
  needs of an initialised \<open>CHuffman\<close>; it is interpreted on \<open>huffman_Init ms_aFreqTable\<close>.
\<close>

section \<open>Bit lists\<close>

definition low_bits :: "'a::len word \<Rightarrow> nat \<Rightarrow> bool list" where
  "low_bits w n = map (bit w) [0..<n]"

lemma length_low_bits [simp]: "length (low_bits w n) = n"
  by (simp add: low_bits_def)

lemma nth_low_bits: "i < n \<Longrightarrow> low_bits w n ! i = bit w i"
  by (simp add: low_bits_def)

lemma low_bits_0 [simp]: "low_bits w 0 = []"
  by (simp add: low_bits_def)

lemma low_bits_eq_iff: "low_bits v n = low_bits w n \<longleftrightarrow> (\<forall>i<n. bit v i = bit w i)"
  by (auto simp: low_bits_def list_eq_iff_nth_eq)

lemma low_bits_add: "low_bits w (m + n) = low_bits w m @ low_bits (drop_bit m w) n"
  by (simp add: low_bits_def list_eq_iff_nth_eq nth_append bit_simps)

lemma low_bits_Suc: "low_bits w (Suc n) = bit w 0 # low_bits (drop_bit 1 w) n"
  using low_bits_add [of w 1 n] by (simp add: low_bits_def)

lemma take_low_bits: "take k (low_bits w n) = low_bits w (min k n)"
  by (simp add: low_bits_def list_eq_iff_nth_eq)

lemma drop_low_bits: "drop k (low_bits w n) = low_bits (drop_bit k w) (n - k)"
  by (simp add: low_bits_def list_eq_iff_nth_eq bit_simps)

definition bytes_bits :: "byte list \<Rightarrow> bool list" where
  "bytes_bits bs = concat (map (\<lambda>b. low_bits b 8) bs)"

lemma bytes_bits_simps [simp]:
  "bytes_bits [] = []" "bytes_bits (b # bs) = low_bits b 8 @ bytes_bits bs"
  "bytes_bits (as @ bs) = bytes_bits as @ bytes_bits bs"
  by (simp_all add: bytes_bits_def)

lemma length_bytes_bits: "length (bytes_bits bs) = 8 * length bs"
  by (induction bs) auto

text \<open>No bit at or above the position is set.\<close>

definition bits_below :: "'a::len word \<Rightarrow> nat \<Rightarrow> bool" where
  "bits_below w n \<longleftrightarrow> (\<forall>i\<ge>n. \<not> bit w i)"

definition word_of_bits :: "bool list \<Rightarrow> i32" where
  "word_of_bits p = horner_sum of_bool 2 p"

lemma bit_word_of_bits: "bit (word_of_bits p) n \<longleftrightarrow> n < 32 \<and> n < length p \<and> p ! n"
  by (simp add: word_of_bits_def bit_horner_sum_bit_word_iff)

section \<open>Codes of a tree\<close>

fun codes :: "htree \<Rightarrow> (nat \<times> bool list) list" where
  "codes (HLeaf i) = [(i, [])]"
| "codes (HNode n l r) = map (apsnd (Cons False)) (codes l) @ map (apsnd (Cons True)) (codes r)"

fun descend :: "htree \<Rightarrow> bool list \<Rightarrow> htree" where
  "descend t [] = t"
| "descend (HLeaf i) (b # p) = HLeaf i"
| "descend (HNode n l r) (b # p) = descend (if b then r else l) p"

lemma descend_HLeaf [simp]: "descend (HLeaf i) p = HLeaf i"
  by (cases p) auto

lemma map_fst_codes: "map fst (codes t) = leaves t"
  by (induction t) (simp_all add: comp_def)

lemma code_length: "(i, p) \<in> set (codes t) \<Longrightarrow> length p \<le> height t"
  by (induction t arbitrary: p) (auto simp: le_max_iff_disj)

lemma code_descend: "(i, p) \<in> set (codes t) \<Longrightarrow> descend t (p @ q) = HLeaf i"
  by (induction t arbitrary: p) auto

lemma code_split:
  "(i, p @ q) \<in> set (codes t) \<Longrightarrow> q \<noteq> [] \<Longrightarrow>
   \<exists>n l r. descend t p = HNode n l r \<and> (i, q) \<in> set (codes (HNode n l r))"
proof (induction t arbitrary: p)
  case (HNode n l r)
  show ?case
  proof (cases p)
    case Nil
    then show ?thesis using HNode.prems by auto
  next
    case (Cons b p')
    then have "(i, p' @ q) \<in> set (codes (if b then r else l))" using HNode.prems(1) by auto
    then show ?thesis using HNode Cons by (cases b) auto
  qed
qed auto

lemma code_nonempty: "(i, p) \<in> set (codes (HNode n l r)) \<Longrightarrow> p \<noteq> []"
  by auto

lemma rep_descend: "rep nodes t \<Longrightarrow> rep nodes (descend t p)"
  by (induction t p rule: descend.induct) auto

section \<open>Setting the bits\<close>

lemma rep_root_no_leaf: "rep nodes t \<Longrightarrow> length nodes = HUFFMAN_MAX_NODES \<Longrightarrow> root t \<noteq> NO_LEAF"
  by (cases t) (auto simp: huffman_sizes)

lemma rep_leaf_symbol: "rep nodes t \<Longrightarrow> i \<in> set (leaves t) \<Longrightarrow> i < HUFFMAN_MAX_SYMBOLS"
  by (induction t) auto

lemma rep_leaf_in_range: "rep nodes t \<Longrightarrow> length nodes = HUFFMAN_MAX_NODES \<Longrightarrow> i \<in> set (leaves t) \<Longrightarrow> i < length nodes"
  using rep_leaf_symbol [of nodes t i] by (simp add: huffman_size_eqs)

lemma bits_step:
  "(bits OR push_bit d (of_bool b)) OR push_bit (Suc d) (word_of_bits p) =
   bits OR push_bit d (word_of_bits (b # p))"
proof (rule bit_word_eqI)
  fix n assume n: "n < LENGTH(32)"
  show "bit ((bits OR push_bit d (of_bool b)) OR push_bit (Suc d) (word_of_bits p)) n =
      bit (bits OR push_bit d (word_of_bits (b # p))) n"
  proof (cases "n < d")
    case True
    then show ?thesis by (simp add: bit_or_iff bit_push_bit_iff del: push_bit_Suc)
  next
    case False
    then obtain k where "n = d + k" using le_Suc_ex [of d n] by auto
    then show ?thesis using n
      by (cases k) (auto simp: bit_or_iff bit_push_bit_iff bit_word_of_bits bit_of_bool_iff simp del: push_bit_Suc)
  qed
qed

definition set_code :: "i32 \<Rightarrow> nat \<Rightarrow> bool list \<Rightarrow> hnode \<Rightarrow> hnode" where
  "set_code bits depth p nd = nd\<lparr>m_Bits := bits OR push_bit depth (word_of_bits p), m_NumBits := depth + length p\<rparr>"

lemma set_code_Cons:
  "set_code (bits OR push_bit depth 1) (Suc depth) p = set_code bits depth (True # p)"
  "set_code bits (Suc depth) p = set_code bits depth (False # p)"
  using bits_step [of bits depth True p] bits_step [of bits depth False p]
  by (auto simp: set_code_def)

lemma SetBitsRecursive_codes:
  assumes "rep nodes t" "distinct (ids t)" "height t < fuel" "length nodes = HUFFMAN_MAX_NODES"
  shows "length (SetBitsRecursive fuel nodes (root t) bits depth) = length nodes \<and>
    (\<forall>j. j \<notin> set (leaves t) \<longrightarrow> SetBitsRecursive fuel nodes (root t) bits depth ! j = nodes ! j) \<and>
    (\<forall>i p. (i, p) \<in> set (codes t) \<longrightarrow>
       SetBitsRecursive fuel nodes (root t) bits depth ! i = set_code bits depth p (nodes ! i))"
  using assms
proof (induction t arbitrary: nodes fuel bits depth)
  case (HLeaf i)
  then obtain f where "fuel = Suc f" by (cases fuel) auto
  moreover have "i < length nodes" using HLeaf rep_leaf_in_range [of nodes "HLeaf i"] by auto
  ultimately show ?case using HLeaf by (simp add: set_code_def word_of_bits_def)
next
  case (HNode n l r)
  then obtain f where f: "fuel = Suc f" by (cases fuel) auto
  let ?n1 = "SetBitsRecursive f nodes (root r) (bits OR push_bit depth 1) (Suc depth)"
  let ?n2 = "SetBitsRecursive f ?n1 (root l) bits (Suc depth)"
  have hs: "height l < f" "height r < f" using HNode.prems(3) f by auto
  have reps: "rep nodes l" "rep nodes r" and dist: "distinct (ids l)" "distinct (ids r)"
      "set (ids l) \<inter> set (ids r) = {}" "n \<notin> set (ids l)" "n \<notin> set (ids r)"
    using HNode.prems(1,2) by auto
  have noleaf: "root l \<noteq> NO_LEAF" "root r \<noteq> NO_LEAF"
    using rep_root_no_leaf reps HNode.prems(4) by blast+
  note r = HNode.IH(2) [OF reps(2) dist(2) hs(2) HNode.prems(4), of "bits OR push_bit depth 1" "Suc depth"]
  note r_len = r [THEN conjunct1] and r_out = r [THEN conjunct2, THEN conjunct1, rule_format]
    and r_in = r [THEN conjunct2, THEN conjunct2, rule_format]
  have sub: "set (leaves l) \<subseteq> set (ids l)" "set (leaves r) \<subseteq> set (ids r)"
    by (rule leaves_subset_ids)+
  have "rep ?n1 l \<longleftrightarrow> rep nodes l"
  proof (rule rep_cong)
    fix i assume "i \<in> set (ids l)"
    then have "i \<notin> set (leaves r)" using dist(3) sub by blast
    then show "?n1 ! i = nodes ! i" by (rule r_out)
  qed (rule r_len)
  then have repl: "rep ?n1 l" using reps(1) by simp
  have len1: "length ?n1 = HUFFMAN_MAX_NODES" using r_len HNode.prems(4) by (rule trans)
  note l = HNode.IH(1) [OF repl dist(1) hs(1) len1, of bits "Suc depth"]
  note l_len = l [THEN conjunct1] and l_out = l [THEN conjunct2, THEN conjunct1, rule_format]
    and l_in = l [THEN conjunct2, THEN conjunct2, rule_format]
  have nl: "n \<notin> set (leaves l)" "n \<notin> set (leaves r)" using dist(4,5) sub by blast+
  note n = trans [OF l_out [OF nl(1)] r_out [OF nl(2)]] r_out [OF nl(2)]
  have eq: "SetBitsRecursive fuel nodes (root (HNode n l r)) bits depth = ?n2"
  proof -
    have "m_Leaf0 (nodes ! n) = root l" "m_Leaf1 (nodes ! n) = root r" "m_NumBits (nodes ! n) = 0"
      using HNode.prems(1) by simp_all
    then show ?thesis using noleaf n
      by (simp only: f root.simps SetBitsRecursive.simps Let_def not_False_eq_True if_True if_False simp_thms
          Suc_eq_plus1 [symmetric])
  qed
  have lcodes: "(i, p) \<in> set (codes t) \<Longrightarrow> i \<in> set (leaves t)" for i p t
    using map_fst_codes [of t] by (metis fst_conv image_eqI set_map)
  have "?n2 ! i = set_code bits depth p (nodes ! i)" if "(i, p) \<in> set (codes (HNode n l r))" for i p
  proof -
    from that consider q where "p = False # q" "(i, q) \<in> set (codes l)"
      | q where "p = True # q" "(i, q) \<in> set (codes r)" by auto
    then show ?thesis
    proof cases
      case 1
      have "?n2 ! i = set_code bits (Suc depth) q (?n1 ! i)" by (rule l_in [OF 1(2)])
      moreover have "i \<notin> set (leaves r)" using lcodes [OF 1(2)] sub dist(3) by blast
      then have "?n1 ! i = nodes ! i" by (rule r_out)
      ultimately show ?thesis by (simp only: 1(1) set_code_Cons(2))
    next
      case 2
      have "i \<notin> set (leaves l)" using lcodes [OF 2(2)] sub dist(3) by blast
      then have "?n2 ! i = ?n1 ! i" by (rule l_out)
      also have "\<dots> = set_code (bits OR push_bit depth 1) (Suc depth) q (nodes ! i)"
        by (rule r_in [OF 2(2)])
      finally show ?thesis by (simp only: 2(1) set_code_Cons(1))
    qed
  qed
  moreover have "?n2 ! j = nodes ! j" if "j \<notin> set (leaves (HNode n l r))" for j
  proof -
    have "j \<notin> set (leaves l)" "j \<notin> set (leaves r)" using that by auto
    then show ?thesis using trans [OF l_out r_out] by blast
  qed
  moreover have "length ?n2 = length nodes" using l_len r_len by (rule trans)
  ultimately show ?case unfolding eq by blast
qed

section \<open>What the coder relies on\<close>

text \<open>\<open>T\<close> is the tree in the node array; every symbol's node holds the path to it.\<close>

locale huffman_code =
  fixes h :: huffman and T :: htree
  assumes tree: "rep (m_aNodes h) T" "height T \<le> 24" "\<exists>n l r. T = HNode n l r" "m_StartNode h = root T"
    and symbols: "mset (leaves T) = mset [0..<HUFFMAN_MAX_SYMBOLS]"
    and coded: "(i, p) \<in> set (codes T) \<Longrightarrow>
      m_Bits (m_aNodes h ! i) = word_of_bits p \<and> m_NumBits (m_aNodes h ! i) = length p \<and>
      m_Symbol (m_aNodes h ! i) = of_nat i"
    and lut: "k < HUFFMAN_LUTSIZE \<Longrightarrow>
      m_apDecodeLut h ! k = lut_walk HUFFMAN_LUTBITS (m_aNodes h) (m_StartNode h) (of_nat k)"

text \<open>\<open>rep\<close> only sees the links and whether a node is a symbol.\<close>

lemma rep_transfer:
  assumes "rep nodes t" "length nodes' = length nodes"
    "\<And>i. i \<in> set (ids t) \<Longrightarrow> m_Leaf0 (nodes' ! i) = m_Leaf0 (nodes ! i) \<and>
      m_Leaf1 (nodes' ! i) = m_Leaf1 (nodes ! i) \<and> (m_NumBits (nodes' ! i) = 0 \<longleftrightarrow> m_NumBits (nodes ! i) = 0)"
  shows "rep nodes' t"
  using assms by (induction t) auto

lemma inner_ids: "rep nodes t \<Longrightarrow> i \<in> set (ids t) \<Longrightarrow> i \<notin> set (leaves t) \<Longrightarrow> HUFFMAN_MAX_SYMBOLS \<le> i"
  by (induction t) auto

lemma leaf_code: "i \<in> set (leaves t) \<Longrightarrow> \<exists>p. (i, p) \<in> set (codes t)"
  using map_fst_codes [of t] by (metis imageE list.set_map prod.collapse)

lemma code_leaf: "(i, p) \<in> set (codes t) \<Longrightarrow> i \<in> set (leaves t)"
  using map_fst_codes [of t] by (metis fst_conv image_eqI list.set_map)

definition coded_nodes :: "int list \<Rightarrow> hnode list" where
  "coded_nodes fr = SetBitsRecursive HUFFMAN_MAX_NODES (linked_nodes fr) (HUFFMAN_MAX_NODES - 1) 0 0"

lemma ConstructTree_eq:
  "ConstructTree (replicate HUFFMAN_MAX_NODES zero_node) fr = (coded_nodes fr, HUFFMAN_MAX_NODES - 1)"
proof -
  have "map (\<lambda>i. \<lparr>m_NodeId = i, m_Frequency = fr ! i\<rparr>) [0..<HUFFMAN_MAX_SYMBOLS] = map node_of (start_forest fr)"
    by (simp add: start_forest_def node_of_def)
  then show ?thesis
    unfolding ConstructTree_def Let_def symbol_nodes_def [symmetric]
    by (simp add: linked_nodes_rep coded_nodes_def)
qed

lemma coded_nodes_facts:
  assumes "height (huffman_tree fr) < HUFFMAN_MAX_NODES"
  shows "length (coded_nodes fr) = HUFFMAN_MAX_NODES" "rep (coded_nodes fr) (huffman_tree fr)"
    "(i, p) \<in> set (codes (huffman_tree fr)) \<Longrightarrow> coded_nodes fr ! i = set_code 0 0 p (symbol_node i)"
proof -
  let ?t = "huffman_tree fr" and ?nodes = "linked_nodes fr" and ?N = "coded_nodes fr"
  note lr = linked_nodes_rep [of fr, THEN conjunct2]
  obtain l r where t: "?t = HNode (HUFFMAN_MAX_NODES - 1) l r" using huffman_tree_root by blast
  have start: "HUFFMAN_MAX_NODES - 1 = root ?t" by (simp add: t)
  note sb = SetBitsRecursive_codes [OF lr [THEN conjunct2, THEN conjunct1] distinct_huffman_ids assms
      lr [THEN conjunct1], of 0 0, folded start, folded coded_nodes_def]
  show len: "length ?N = HUFFMAN_MAX_NODES" using sb lr by simp
  have code: "?N ! i = set_code 0 0 p (symbol_node i)" if "(i, p) \<in> set (codes ?t)" for i p
  proof -
    have "i < HUFFMAN_MAX_SYMBOLS" using code_leaf [OF that] by (simp add: set_huffman_leaves)
    then have "?nodes ! i = symbol_node i" using lr by blast
    then show ?thesis using sb that by simp
  qed
  show "(i, p) \<in> set (codes ?t) \<Longrightarrow> ?N ! i = set_code 0 0 p (symbol_node i)" by (rule code)
  show "rep ?N ?t"
  proof (rule rep_transfer [of ?nodes])
    show "rep ?nodes ?t" using lr by blast
    show "length ?N = length ?nodes" using sb by blast
    fix i assume "i \<in> set (ids ?t)"
    show "m_Leaf0 (?N ! i) = m_Leaf0 (?nodes ! i) \<and> m_Leaf1 (?N ! i) = m_Leaf1 (?nodes ! i) \<and>
        (m_NumBits (?N ! i) = 0 \<longleftrightarrow> m_NumBits (?nodes ! i) = 0)"
    proof (cases "i \<in> set (leaves ?t)")
      case True
      obtain p where p: "(i, p) \<in> set (codes ?t)" using leaf_code [OF True] by blast
      have "p \<noteq> []" using p code_nonempty unfolding t by blast
      moreover have "?nodes ! i = symbol_node i" using True lr by (simp add: set_huffman_leaves)
      ultimately show ?thesis using code [OF p] by (simp add: set_code_def symbol_node_def)
    next
      case False
      then have "?N ! i = ?nodes ! i" using sb by blast
      then show ?thesis by simp
    qed
  qed
qed

lemma table_code:
  "height (huffman_tree ms_aFreqTable) < HUFFMAN_MAX_NODES"
  using huffman_height by (simp add: HUFFMAN_MAX_NODES_def)

lemma huffman_Init_fields:
  "m_aNodes (huffman_Init fr) = coded_nodes fr" "m_StartNode (huffman_Init fr) = HUFFMAN_MAX_NODES - 1"
  "k < HUFFMAN_LUTSIZE \<Longrightarrow> m_apDecodeLut (huffman_Init fr) ! k =
     lut_walk HUFFMAN_LUTBITS (coded_nodes fr) (HUFFMAN_MAX_NODES - 1) (of_nat k)"
  by (simp_all add: huffman_Init_def ConstructTree_eq)

interpretation ddnet: huffman_code "huffman_Init ms_aFreqTable" "huffman_tree ms_aFreqTable"
proof
  show "rep (m_aNodes (huffman_Init ms_aFreqTable)) (huffman_tree ms_aFreqTable)"
    unfolding huffman_Init_fields by (rule coded_nodes_facts [OF table_code])
  show "height (huffman_tree ms_aFreqTable) \<le> 24" using huffman_height by simp
  show "\<exists>n l r. huffman_tree ms_aFreqTable = HNode n l r" using huffman_tree_root by blast
  show "m_StartNode (huffman_Init ms_aFreqTable) = root (huffman_tree ms_aFreqTable)"
    using huffman_tree_root [of ms_aFreqTable] by (auto simp: huffman_Init_fields)
  show "mset (leaves (huffman_tree ms_aFreqTable)) = mset [0..<HUFFMAN_MAX_SYMBOLS]"
    by (rule huffman_tree_leaves)
  fix i p assume "(i, p) \<in> set (codes (huffman_tree ms_aFreqTable))"
  from coded_nodes_facts(3) [OF table_code this]
  show "m_Bits (m_aNodes (huffman_Init ms_aFreqTable) ! i) = word_of_bits p \<and>
      m_NumBits (m_aNodes (huffman_Init ms_aFreqTable) ! i) = length p \<and>
      m_Symbol (m_aNodes (huffman_Init ms_aFreqTable) ! i) = of_nat i"
    by (simp add: huffman_Init_fields set_code_def symbol_node_def)
next
  fix k assume "k < HUFFMAN_LUTSIZE"
  then show "m_apDecodeLut (huffman_Init ms_aFreqTable) ! k =
      lut_walk HUFFMAN_LUTBITS (m_aNodes (huffman_Init ms_aFreqTable)) (m_StartNode (huffman_Init ms_aFreqTable)) (of_nat k)"
    by (simp add: huffman_Init_fields)
qed

end
