(* ===== verification/HuffmanRoundtrip.thy ===== *)
theory HuffmanRoundtrip
  imports HuffmanCode
begin

text \<open>
  The coder over a valid code: what \<open>Compress\<close> writes are the codes of the symbols one after the other,
  the last byte filled with zeros, and \<open>Decompress\<close> reads them back whatever the fill level of its
  bit buffer. The lemmas are proved once for \<open>huffman_code\<close>; the properties are about the table of the
  code.
\<close>

section \<open>Writing bits\<close>

lemma le_bytes_Suc: "le_bytes bits (Suc n) = ucast bits # le_bytes (drop_bit 8 bits) n"
proof -
  have "le_bytes bits (Suc n) = ucast (drop_bit 0 bits) # map (\<lambda>i. ucast (drop_bit (Suc i * 8) bits)) [0..<n]"
    by (simp add: le_bytes_def map_upt_Suc del: upt_Suc)
  then show ?thesis by (simp add: le_bytes_def add.commute)
qed

lemma length_le_bytes [simp]: "length (le_bytes bits n) = n"
  by (simp add: le_bytes_def)

lemma low_bits_ucast_byte: "low_bits (ucast (bits :: u64) :: byte) 8 = low_bits bits 8"
  by (simp add: low_bits_eq_iff [symmetric] low_bits_def bit_simps)

lemma le_bytes_bits: "bytes_bits (le_bytes bits n) = low_bits bits (8 * n)"
proof (induction n arbitrary: bits)
  case 0
  then show ?case by (simp add: le_bytes_def)
next
  case (Suc n)
  then show ?case
    using low_bits_add [of bits 8 "8 * n"] by (simp add: le_bytes_Suc low_bits_ucast_byte)
qed

lemma write_bytewise_eq:
  "write_bytewise room bits bc out =
     (if bc div 8 \<le> room
      then Some (drop_bit (bc div 8 * 8) bits, bc mod 8, out @ le_bytes bits (bc div 8)) else None)"
proof (induction room bits bc out rule: write_bytewise.induct)
  case (1 room bits bc out)
  show ?case
  proof (cases "8 \<le> bc")
    case True
    then have q: "bc div 8 = Suc ((bc - 8) div 8)" "bc mod 8 = (bc - 8) mod 8"
      by (simp_all add: le_div_geq le_mod_geq)
    have m: "bits AND 255 = take_bit 8 bits" by (simp add: take_bit_eq_mask mask_eq_exp_minus_1)
    have u: "ucast (bits AND 255) = (ucast bits :: byte)"
      by (rule bit_word_eqI) (simp add: m bit_simps)
    show ?thesis using 1 True
      by (cases room) (simp_all add: write_bytewise.simps [of _ bits bc out] q le_bytes_Suc u
          drop_bit_drop_bit add.commute [of 8])
  next
    case False
    then show ?thesis by (simp add: write_bytewise.simps [of _ bits bc out] le_bytes_def)
  qed
qed

text \<open>With or without headroom the same full bytes are written.\<close>

lemma write_bits_eq:
  assumes "bc < 64" "length out \<le> sz"
  shows "write_bits sz (bits, bc, out) =
     (if length out + bc div 8 \<le> sz
      then Some (drop_bit (bc div 8 * 8) bits, bc mod 8, out @ le_bytes bits (bc div 8)) else None)"
proof -
  have "bc div 8 < 8" using assms(1) by (simp add: less_mult_imp_div_less)
  then show ?thesis using assms(2) by (auto simp: write_bits_def Let_def write_bytewise_eq)
qed

section \<open>Reading bits\<close>

text \<open>What is left to read: the bits of the buffer, then the source.\<close>

definition stream :: "i32 \<times> i32 \<times> byte list \<Rightarrow> bool list" where
  "stream = (\<lambda>(bits, bc, src). low_bits bits (unat bc) @ bytes_bits src)"

definition buffer_ok :: "i32 \<times> i32 \<times> byte list \<Rightarrow> bool" where
  "buffer_ok = (\<lambda>(bits, bc, src). unat bc \<le> 31 \<and> bits_below bits (unat bc))"

lemma low_bits_fill:
  assumes "bits_below bits n" "n + 8 \<le> 32"
  shows "low_bits (bits OR push_bit n (ucast (b :: byte)) :: i32) (n + 8) = low_bits bits n @ low_bits b 8"
    "bits_below (bits OR push_bit n (ucast b) :: i32) (n + 8)"
    "low_bits (bits OR push_bit n (ucast b) :: i32) n = low_bits bits n"
proof -
  show "bits_below (bits OR push_bit n (ucast b) :: i32) (n + 8)"
    using assms by (auto simp: bits_below_def bit_simps dest: bit_imp_le_length)
  show low: "low_bits (bits OR push_bit n (ucast b) :: i32) n = low_bits bits n"
    by (auto simp: low_bits_eq_iff bit_simps)
  have "low_bits (drop_bit n (bits OR push_bit n (ucast b) :: i32)) 8 = low_bits b 8"
    using assms by (auto simp: low_bits_def bits_below_def bit_simps)
  then show "low_bits (bits OR push_bit n (ucast b) :: i32) (n + 8) = low_bits bits n @ low_bits b 8"
    by (simp add: low_bits_add low)
qed

lemma fill_bits_spec:
  assumes "fill_bits bits bc src = (bits', bc', src')" "buffer_ok (bits, bc, src)"
  shows "stream (bits', bc', src') = stream (bits, bc, src) \<and> buffer_ok (bits', bc', src') \<and>
    low_bits bits' (unat bc) = low_bits bits (unat bc) \<and> unat bc \<le> unat bc' \<and> (24 \<le> unat bc' \<or> src' = [])"
  using assms
proof (induction bits bc src rule: fill_bits.induct)
  case (1 bits bc src)
  show ?case
  proof (cases src)
    case Nil
    then show ?thesis using "1.prems" by (auto simp: fill_bits.simps [of _ _ "[]"])
  next
    case (Cons b bs)
    show ?thesis
    proof (cases "bc < 24")
      case True
      let ?bits = "bits OR push_bit (unat bc) (ucast b)"
      have n: "unat bc < 24" using True by (simp add: word_less_nat_alt)
      then have u: "unat (bc + 8) = unat bc + 8" by (simp add: unat_word_ariths)
      have below: "bits_below bits (unat bc)" using "1.prems"(2) by (simp add: buffer_ok_def)
      note f = low_bits_fill [OF below, of b]
      have "fill_bits ?bits (bc + 8) bs = (bits', bc', src')"
        using "1.prems"(1) Cons True by (simp add: fill_bits.simps [of _ _ "b # bs"])
      moreover have "buffer_ok (?bits, bc + 8, bs)" using f n by (simp add: buffer_ok_def u)
      ultimately have IH: "stream (bits', bc', src') = stream (?bits, bc + 8, bs) \<and> buffer_ok (bits', bc', src') \<and>
          low_bits bits' (unat bc + 8) = low_bits ?bits (unat bc + 8) \<and> unat bc + 8 \<le> unat bc' \<and>
          (24 \<le> unat bc' \<or> src' = [])"
        using "1.IH" [OF Cons True] u by simp
      have "stream (?bits, bc + 8, bs) = stream (bits, bc, src)"
        using f n by (simp add: stream_def u Cons)
      moreover have "low_bits bits' (unat bc) = low_bits bits (unat bc)"
      proof -
        have "low_bits bits' (unat bc) = take (unat bc) (low_bits bits' (unat bc + 8))"
          by (simp add: take_low_bits)
        also have "\<dots> = low_bits ?bits (unat bc)" using IH by (simp add: take_low_bits)
        finally show ?thesis using f n by simp
      qed
      ultimately show ?thesis using IH by simp
    next
      case False
      then show ?thesis using "1.prems" Cons
        by (auto simp: fill_bits.simps [of _ _ "b # bs"] word_less_nat_alt)
    qed
  qed
qed

text \<open>Taking bits from the buffer.\<close>

lemma drop_buffer:
  assumes "buffer_ok (bits, bc, src)" "n \<le> unat bc"
  shows "buffer_ok (drop_bit n bits, bc - of_nat n, src)"
    "stream (drop_bit n bits, bc - of_nat n, src) = drop n (stream (bits, bc, src))"
    "unat (bc - of_nat n) = unat bc - n"
proof -
  have "unat bc < 2 ^ 32" using unsigned_less [of bc] by simp
  then have "n < 2 ^ 32" using assms(2) by (rule le_less_trans [rotated])
  then have "unat (of_nat n :: i32) = n" by (simp add: unsigned_of_nat take_bit_nat_eq_self)
  then show u: "unat (bc - of_nat n) = unat bc - n"
    using assms(2) by (metis unat_sub word_le_nat_alt)
  show "buffer_ok (drop_bit n bits, bc - of_nat n, src)"
    using assms by (auto simp: buffer_ok_def u bits_below_def bit_simps)
  show "stream (drop_bit n bits, bc - of_nat n, src) = drop n (stream (bits, bc, src))"
    using assms(2) by (simp add: stream_def u drop_low_bits)
qed

lemma bit_0_odd: "(bits :: i32) AND 1 = 1 \<longleftrightarrow> bit bits 0"
  by (simp add: bit_0 and_one_eq odd_iff_mod_2_eq_one)

lemma lut_walk_descend:
  assumes "rep nodes (HNode n l r)"
  shows "lut_walk k nodes n bits = root (descend (HNode n l r) (low_bits bits k))"
  using assms
proof (induction k arbitrary: n l r bits)
  case (Suc k)
  let ?t = "if bit bits 0 then r else l"
  have r: "rep nodes ?t" "root ?t = (if bit bits 0 then m_Leaf1 (nodes ! n) else m_Leaf0 (nodes ! n))"
    using Suc.prems by auto
  show ?case
  proof (cases ?t)
    case (HLeaf i)
    then show ?thesis using r by (simp add: Let_def bit_0_odd low_bits_Suc)
  next
    case (HNode n' l' r')
    then show ?thesis using r Suc.IH [of n' l' r' "drop_bit 1 bits"]
      by (simp add: Let_def bit_0_odd low_bits_Suc)
  qed
qed simp

text \<open>The walk below the ten bits of the table.\<close>

lemma walk_tree_code:
  assumes "rep nodes (HNode n l r)" "(i, p) \<in> set (codes (HNode n l r))" "length p \<le> fuel"
    "buffer_ok (bits, bc, src)" "low_bits bits (unat bc) = p @ q"
  shows "walk_tree fuel nodes n bits bc = Some (i, drop_bit (length p) bits, bc - of_nat (length p))"
  using assms
proof (induction fuel arbitrary: n l r p bits bc)
  case 0
  then show ?case using code_nonempty [OF "0.prems"(2)] by simp
next
  case (Suc fuel)
  obtain b p' where p: "p = b # p'" using code_nonempty [OF Suc.prems(2)] by (cases p) auto
  let ?t = "if b then r else l"
  have code: "(i, p') \<in> set (codes ?t)" using Suc.prems(2) p by auto
  have len: "unat bc = Suc (length p' + length q)"
    using arg_cong [OF Suc.prems(5), of length] p by simp
  have b: "b = bit bits 0" "low_bits (drop_bit 1 bits) (length p' + length q) = p' @ q"
    using Suc.prems(5) p by (simp_all add: len low_bits_Suc)
  have one: "unat (bc - 1) = length p' + length q"
    using drop_buffer(3) [OF Suc.prems(4), of 1] len by simp
  have ok: "buffer_ok (drop_bit 1 bits, bc - 1, src)"
    using drop_buffer(1) [OF Suc.prems(4), of 1] len by simp
  have t: "rep nodes ?t" "root ?t = (if bits AND 1 = 1 then m_Leaf1 (nodes ! n) else m_Leaf0 (nodes ! n))"
    using Suc.prems(1) b(1) by (auto simp: bit_0_odd)
  show ?case
  proof (cases ?t)
    case (HLeaf j)
    then have "j = i" "p' = []" using code by auto
    then show ?thesis using t HLeaf by (simp add: Let_def p)
  next
    case (HNode n' l' r')
    have p': "p' \<noteq> []" using code HNode code_nonempty by metis
    have "bc - 1 \<noteq> 0" using one p' by (metis add_is_0 length_0_conv unat_0)
    moreover have "walk_tree fuel nodes n' (drop_bit 1 bits) (bc - 1) =
        Some (i, drop_bit (length p') (drop_bit 1 bits), bc - 1 - of_nat (length p'))"
      by (rule Suc.IH [OF _ _ _ ok]) (use t code HNode Suc.prems(3) p b one in auto)
    ultimately show ?thesis using t HNode by (simp add: Let_def p drop_bit_drop_bit algebra_simps)
  qed
qed

context huffman_code
begin

definition code_of :: "nat \<Rightarrow> bool list" where
  "code_of i = the (map_of (codes T) i)"

definition code_string :: "nat list \<Rightarrow> bool list" where
  "code_string is = concat (map code_of is)"

lemma code_string_simps [simp]:
  "code_string [] = []" "code_string (i # is) = code_of i @ code_string is"
  "code_string (is @ js) = code_string is @ code_string js"
  by (simp_all add: code_string_def)

lemma code_of_in: "i < HUFFMAN_MAX_SYMBOLS \<Longrightarrow> (i, code_of i) \<in> set (codes T)"
proof -
  assume "i < HUFFMAN_MAX_SYMBOLS"
  then have "i \<in> set (leaves T)"
    using arg_cong [OF symbols, of set_mset] by (simp add: atLeast0LessThan)
  then have "i \<in> set (map fst (codes T))" by (simp only: map_fst_codes)
  then obtain p where "map_of (codes T) i = Some p"
    by (cases "map_of (codes T) i") (auto simp: map_of_eq_None_iff)
  then show ?thesis by (simp add: code_of_def map_of_SomeD)
qed

lemma code_of_length: "i < HUFFMAN_MAX_SYMBOLS \<Longrightarrow> 0 < length (code_of i) \<and> length (code_of i) \<le> 24"
  using code_of_in [of i] code_length [of i "code_of i" T] tree(2,3) code_nonempty by fastforce

lemma lut_entry_descend: "lut_entry h bits = root (descend T (low_bits bits 10))"
proof -
  obtain n l r where T: "T = HNode n l r" using tree(3) by blast
  have m: "bits AND 0x3FF = take_bit 10 bits" by (simp add: take_bit_eq_mask mask_eq_exp_minus_1)
  have "unat (bits AND 0x3FF) < HUFFMAN_LUTSIZE"
    unfolding m by (simp add: HUFFMAN_LUTSIZE_def unsigned_take_bit_eq take_bit_nat_less_exp [of 10, simplified])
  then have "lut_entry h bits = lut_walk 10 (m_aNodes h) n (bits AND 0x3FF)"
    by (simp add: lut_entry_def lut tree(4) T HUFFMAN_LUTBITS_def)
  also have "\<dots> = root (descend T (low_bits (bits AND 0x3FF) 10))"
    using tree(1) unfolding T by (rule lut_walk_descend)
  also have "low_bits (bits AND 0x3FF) 10 = low_bits bits 10"
    unfolding m by (auto simp: low_bits_eq_iff bit_simps)
  finally show ?thesis .
qed

lemma decode_symbol_code:
  assumes "stream st = code_of i @ rest" "i < HUFFMAN_MAX_SYMBOLS" "buffer_ok st"
  shows "\<exists>st'. decode_symbol h st = Some (i, st') \<and> stream st' = rest \<and> buffer_ok st'"
proof -
  obtain bits bc src where st: "st = (bits, bc, src)" by (cases st)
  obtain bits' bc' src' where f: "fill_bits bits bc src = (bits', bc', src')"
    by (cases "fill_bits bits bc src")
  define p where "p = code_of i"
  note p = code_of_in [OF assms(2), folded p_def] code_of_length [OF assms(2), folded p_def]
  note fs = fill_bits_spec [OF f assms(3) [unfolded st]]
  have stream': "stream (bits', bc', src') = p @ rest" using fs assms(1) by (simp add: st p_def)
  have ok: "buffer_ok (bits', bc', src')" using fs by simp
  obtain q where q: "low_bits bits' (unat bc') = p @ q"
  proof (cases "src' = []")
    case True
    then show thesis using that stream' by (simp add: stream_def)
  next
    case False
    then have "length p \<le> unat bc'" using fs p(2) by linarith
    moreover have "take (length p) (stream (bits', bc', src')) = p" using stream' by simp
    ultimately have "take (length p) (low_bits bits' (unat bc')) = p" by (simp add: stream_def)
    then show thesis using that by (metis append_take_drop_id)
  qed
  have enough: "length p \<le> unat bc'" using arg_cong [OF q, of length] by simp
  have entry: "(case if bc \<ge> 10 then Some (lut_entry h bits) else None of
      Some i \<Rightarrow> i | None \<Rightarrow> lut_entry h bits') = root (descend T (low_bits bits' 10))"
  proof (cases "bc \<ge> 10")
    case True
    then have "10 \<le> unat bc" by (simp add: word_le_nat_alt)
    then have "take 10 (low_bits bits' (unat bc)) = take 10 (low_bits bits (unat bc))" using fs by simp
    then have "low_bits bits 10 = low_bits bits' 10" using \<open>10 \<le> unat bc\<close> by (simp add: take_low_bits min_def)
    then show ?thesis using True by (simp add: lut_entry_descend)
  qed (simp add: lut_entry_descend)
  let ?N = "m_aNodes h"
  have result: "stream (drop_bit (length p) bits', bc' - of_nat (length p), src') = rest"
    "buffer_ok (drop_bit (length p) bits', bc' - of_nat (length p), src')"
    using drop_buffer [OF ok enough] stream' by simp_all
  show ?thesis
  proof (cases "length p \<le> 10")
    case True
    have "\<exists>q'. low_bits bits' 10 = p @ q'"
    proof -
      have "take (length p) (low_bits bits' 10) = take (length p) (low_bits bits' (unat bc'))"
        using True enough by (simp add: take_low_bits min_def)
      then show ?thesis using q by (metis append_eq_conv_conj append_take_drop_id)
    qed
    then have "root (descend T (low_bits bits' 10)) = i" using code_descend [OF p(1)] by auto
    moreover have "m_NumBits (?N ! i) = length p" using coded [OF p(1)] by simp
    ultimately have "decode_symbol h st = Some (i, drop_bit (length p) bits', bc' - of_nat (length p), src')"
      using p(2) enough entry by (simp add: decode_symbol_def st f Let_def)
    then show ?thesis using result by blast
  next
    case False
    define p1 p2 where "p1 = take 10 p" and "p2 = drop 10 p"
    have p12: "p = p1 @ p2" "length p1 = 10" "p2 \<noteq> []" using False by (simp_all add: p1_def p2_def)
    obtain n l r where n: "descend T p1 = HNode n l r" "(i, p2) \<in> set (codes (HNode n l r))"
      using code_split [of i p1 p2 T] p(1) p12(3) unfolding p12(1) by blast
    have ten: "10 \<le> unat bc'" using False enough by simp
    have "low_bits bits' 10 = take 10 (low_bits bits' (unat bc'))" using ten by (simp add: take_low_bits)
    then have low: "low_bits bits' 10 = p1" using q p12 by simp
    have rep: "rep ?N (HNode n l r)" using rep_descend [OF tree(1), of p1] n(1) by simp
    note d = drop_buffer [OF ok ten]
    have "low_bits (drop_bit 10 bits') (unat (bc' - 10)) = p2 @ q"
      using q p12 d(3) by (simp flip: drop_low_bits)
    then have "walk_tree HUFFMAN_MAX_NODES ?N n (drop_bit 10 bits') (bc' - 10) =
        Some (i, drop_bit (length p2) (drop_bit 10 bits'), bc' - 10 - of_nat (length p2))"
      by (intro walk_tree_code [OF rep n(2) _ d(1) [simplified]])
        (use p p12 in \<open>simp_all add: HUFFMAN_MAX_NODES_def\<close>)
    moreover have "drop_bit (length p2) (drop_bit 10 bits') = drop_bit (length p) bits'"
      "bc' - 10 - of_nat (length p2) = bc' - of_nat (length p)"
      using p12 by (simp_all add: drop_bit_drop_bit add.commute algebra_simps)
    moreover have "\<not> bc' < 10" using ten by (simp add: word_less_nat_alt)
    moreover have "m_NumBits (?N ! n) = 0" using rep by simp
    ultimately have "decode_symbol h st = Some (i, drop_bit (length p) bits', bc' - of_nat (length p), src')"
      using entry low n(1) by (simp add: decode_symbol_def st f Let_def)
    then show ?thesis using result by blast
  qed
qed

text \<open>Decoding the codes of a text, the end symbol and whatever follows.\<close>

lemma decompress_loop_code:
  assumes "stream st = code_string (map unat data @ [HUFFMAN_EOF_SYMBOL]) @ pad" "buffer_ok st"
  shows "decompress_loop h room st = (if length data \<le> room then Some data else None)"
  using assms
proof (induction data arbitrary: st room)
  case Nil
  have "HUFFMAN_EOF_SYMBOL < HUFFMAN_MAX_SYMBOLS" by (simp add: huffman_sizes)
  from decode_symbol_code [OF _ this Nil.prems(2)] Nil.prems(1)
  show ?case by (auto simp: decompress_loop.simps [of h room st])
next
  case (Cons b data)
  have b: "unat b < 256" using unsigned_less [of b] by simp
  then have sym: "unat b < HUFFMAN_MAX_SYMBOLS" "unat b \<noteq> HUFFMAN_EOF_SYMBOL" by (simp_all add: huffman_sizes)
  obtain st' where st': "decode_symbol h st = Some (unat b, st')" "buffer_ok st'"
      "stream st' = code_string (map unat data @ [HUFFMAN_EOF_SYMBOL]) @ pad"
    using decode_symbol_code [OF _ sym(1) Cons.prems(2)] Cons.prems(1) by auto
  have "m_Symbol (m_aNodes h ! unat b) = b" using coded [OF code_of_in [OF sym(1)]] by simp
  then show ?case
    using st'(1) sym(2) Cons.IH [OF st'(3,2)]
    by (cases room) (simp_all add: decompress_loop.simps [of h _ st])
qed

text \<open>Encoding: the bytes written and the bits still in the buffer.\<close>

definition written :: "u64 \<times> nat \<times> byte list \<Rightarrow> bool list" where
  "written = (\<lambda>(bits, bc, out). bytes_bits out @ low_bits bits bc)"

lemma load_symbol_code:
  assumes "i < HUFFMAN_MAX_SYMBOLS" "bits_below bits bc" "bc < 8"
  obtains bits' where "load_symbol h i (bits, bc) = (bits', bc + length (code_of i))"
    "low_bits bits' (bc + length (code_of i)) = low_bits bits bc @ code_of i"
    "bits_below bits' (bc + length (code_of i))"
proof -
  let ?p = "code_of i" and ?w = "word_of_bits (code_of i)"
  let ?bits = "bits OR push_bit bc (ucast ?w)"
  note c = coded [OF code_of_in [OF assms(1)]]
  have len: "length ?p \<le> 24" using code_of_length [OF assms(1)] by simp
  have bit: "bit (ucast ?w :: u64) k \<longleftrightarrow> k < length ?p \<and> ?p ! k" for k
    using len by (auto simp: bit_simps bit_word_of_bits)
  have "low_bits ?bits (bc + length ?p) ! k = (low_bits bits bc @ ?p) ! k" if "k < bc + length ?p" for k
  proof (cases "k < bc")
    case True
    then show ?thesis using that by (simp add: nth_low_bits nth_append bit_or_iff bit_push_bit_iff)
  next
    case False
    then have "\<not> bit bits k" using assms(2) by (simp add: bits_below_def)
    then show ?thesis using that False len assms(3)
      by (auto simp add: nth_low_bits nth_append bit_or_iff bit_push_bit_iff bit)
  qed
  then have "low_bits ?bits (bc + length ?p) = low_bits bits bc @ ?p"
    by (simp add: list_eq_iff_nth_eq)
  moreover have "bits_below ?bits (bc + length ?p)"
    using assms(2) by (auto simp: bits_below_def bit_or_iff bit_push_bit_iff bit)
  ultimately show thesis using that [of ?bits] c by (simp add: load_symbol_def)
qed

lemma compress_loop_code:
  assumes "\<forall>i\<in>set is. i < HUFFMAN_MAX_SYMBOLS" "bits_below bits bc" "bc < 8" "length out \<le> sz"
  defines "tot \<equiv> bc + length (code_string is)"
  shows "if length out + tot div 8 \<le> sz
    then \<exists>bits' out'. compress_loop h is sz (bits, bc, out) = Some (bits', tot mod 8, out') \<and>
      written (bits', tot mod 8, out') = written (bits, bc, out) @ code_string is \<and>
      bits_below bits' (tot mod 8) \<and> length out' = length out + tot div 8
    else compress_loop h is sz (bits, bc, out) = None"
  using assms(1-4) unfolding tot_def
proof (induction "is" arbitrary: bits bc out)
  case Nil
  then show ?case by simp
next
  case (Cons i "is")
  have i: "i < HUFFMAN_MAX_SYMBOLS" "\<forall>i\<in>set is. i < HUFFMAN_MAX_SYMBOLS" using Cons.prems(1) by auto
  let ?n = "bc + length (code_of i)" and ?rest = "length (code_string is)"
  obtain bits1 where l: "load_symbol h i (bits, bc) = (bits1, ?n)"
      "low_bits bits1 ?n = low_bits bits bc @ code_of i" "bits_below bits1 ?n"
    using load_symbol_code [OF i(1) Cons.prems(2,3)] by blast
  have n: "?n < 64" using code_of_length [OF i(1)] Cons.prems(3) by simp
  note w = write_bits_eq [OF n Cons.prems(4), of bits1]
  define m where "m = bc + length (code_string (i # is))"
  have m: "m = ?n + ?rest" by (simp add: m_def)
  have q: "m div 8 = ?n div 8 + (?n mod 8 + ?rest) div 8" "(?n mod 8 + ?rest) mod 8 = m mod 8"
    by (simp_all add: m div_add1_eq [of ?n ?rest] div_add1_eq [of "?n mod 8" ?rest] mod_add_left_eq)
  let ?out = "out @ le_bytes bits1 (?n div 8)" and ?bits = "drop_bit (?n div 8 * 8) bits1"
  show ?case
  proof (cases "length out + ?n div 8 \<le> sz")
    case False
    then have "\<not> length out + m div 8 \<le> sz" by (simp add: q)
    then show ?thesis using l(1) w False unfolding m_def [symmetric] by simp
  next
    case True
    have "low_bits bits1 ?n = low_bits bits1 (8 * (?n div 8)) @ low_bits ?bits (?n mod 8)"
      using low_bits_add [of bits1 "8 * (?n div 8)" "?n mod 8"] by (simp add: mult.commute)
    then have wr: "written (?bits, ?n mod 8, ?out) = written (bits, bc, out) @ code_of i"
      by (simp add: written_def le_bytes_bits l(2) [symmetric])
    have "bits_below ?bits (?n mod 8)"
    proof -
      have "?n \<le> k + ?n div 8 * 8" if "?n mod 8 \<le> k" for k
        using that div_mult_mod_eq [of ?n 8] by linarith
      then show ?thesis using l(3) by (auto simp: bits_below_def bit_drop_bit_eq add.commute)
    qed
    note IH = Cons.IH [OF i(2) this, of ?out]
    have s: "length ?out + (?n mod 8 + ?rest) div 8 = length out + m div 8" by (simp add: q)
    have c: "written (bits, bc, out) @ code_string (i # is) = (written (bits, bc, out) @ code_of i) @ code_string is"
      by simp
    have step: "compress_loop h (i # is) sz (bits, bc, out) = compress_loop h is sz (?bits, ?n mod 8, ?out)"
      using l(1) w True by simp
    have "length ?out \<le> sz" "?n mod 8 < 8" using True by simp_all
    from IH [OF this(2,1), unfolded s q(2) wr] show ?thesis
      unfolding step m_def [symmetric] c .
  qed
qed

definition encoded_size :: "byte list \<Rightarrow> nat" where
  "encoded_size data = (length (code_string (map unat data @ [HUFFMAN_EOF_SYMBOL])) + 7) div 8"

lemma unat_symbols: "\<forall>i\<in>set (map unat (data :: byte list) @ [HUFFMAN_EOF_SYMBOL]). i < HUFFMAN_MAX_SYMBOLS"
proof -
  have "unat (b :: byte) < 2 ^ 8" for b
    using uint_byte_bound(2) [of b] nat_less_iff [of "uint b" 256] by simp
  then have "unat (b :: byte) < 257" for b by (rule less_trans) simp
  then show ?thesis by (auto simp: huffman_sizes)
qed

lemma huffman_Compress_code:
  "if encoded_size data \<le> sz
   then \<exists>c k. huffman_Compress h data sz = Some c \<and> length c = encoded_size data \<and>
     bytes_bits c = code_string (map unat data @ [HUFFMAN_EOF_SYMBOL]) @ replicate k False
   else huffman_Compress h data sz = None"
proof -
  let ?is = "map unat data @ [HUFFMAN_EOF_SYMBOL]" and ?start = "(0, 0, []) :: u64 \<times> nat \<times> byte list"
  define n where "n = length (code_string ?is)"
  have below: "bits_below (0 :: u64) 0" by (simp add: bits_below_def)
  note loop = compress_loop_code [OF unat_symbols below, of "[]" sz data, folded n_def, simplified]
  have esz: "encoded_size data = n div 8 + (if n mod 8 = 0 then 0 else 1)"
    unfolding encoded_size_def n_def [symmetric] by presburger
  show ?thesis
  proof (cases "n div 8 \<le> sz")
    case False
    then show ?thesis using loop esz by (simp add: huffman_Compress_def)
  next
    case True
    then obtain bits out where c: "compress_loop h ?is sz ?start = Some (bits, n mod 8, out)"
        "written (bits, n mod 8, out) = code_string ?is" "bits_below bits (n mod 8)" "length out = n div 8"
      using loop by (auto simp: written_def)
    show ?thesis
    proof (cases "n mod 8 = 0")
      case True
      then have "huffman_Compress h data sz = Some out" using c(1) by (simp add: huffman_Compress_def)
      moreover have "bytes_bits out = code_string ?is @ replicate 0 False"
        using c(2) True by (simp add: written_def)
      ultimately show ?thesis using \<open>n div 8 \<le> sz\<close> c(4) True unfolding esz by auto
    next
      case False
      have "low_bits bits 8 = low_bits bits (n mod 8) @ low_bits (drop_bit (n mod 8) bits) (8 - n mod 8)"
        using low_bits_add [of bits "n mod 8" "8 - n mod 8"] by simp
      also have "low_bits (drop_bit (n mod 8) bits) (8 - n mod 8) = replicate (8 - n mod 8) False"
        using c(3) by (simp add: low_bits_def list_eq_iff_nth_eq bits_below_def bit_drop_bit_eq)
      finally have "bytes_bits (out @ [ucast bits]) = code_string ?is @ replicate (8 - n mod 8) False"
        using c(2) by (simp add: written_def low_bits_ucast_byte)
      then show ?thesis using False c(1,4) \<open>n div 8 \<le> sz\<close> unfolding esz
        by (auto simp: huffman_Compress_def)
    qed
  qed
qed

lemma huffman_Decompress_code:
  assumes "bytes_bits c = code_string (map unat data @ [HUFFMAN_EOF_SYMBOL]) @ pad"
  shows "huffman_Decompress h c room = (if length data \<le> room then Some data else None)"
proof -
  have "stream (0, 0, c) = code_string (map unat data @ [HUFFMAN_EOF_SYMBOL]) @ pad"
    using assms by (simp add: stream_def)
  moreover have "buffer_ok (0, 0, c)" by (simp add: buffer_ok_def bits_below_def)
  ultimately show ?thesis unfolding huffman_Decompress_def by (rule decompress_loop_code)
qed

lemma compress_decompress:
  assumes "huffman_Compress h data sz = Some c"
  shows "huffman_Decompress h c room = (if length data \<le> room then Some data else None)" "length c \<le> sz"
  using huffman_Compress_code [of data sz] assms huffman_Decompress_code by (auto split: if_splits)

lemma encoded_size_le: "encoded_size data \<le> 3 * (length data + 1)"
proof -
  have "length (code_string is) \<le> 24 * length is" if "\<forall>i\<in>set is. i < HUFFMAN_MAX_SYMBOLS" for "is"
    using that
  proof (induction "is")
    case (Cons i "is")
    then show ?case using code_of_length [of i] by simp
  qed simp
  from this [OF unat_symbols, of data]
  have "length (code_string (map unat data @ [HUFFMAN_EOF_SYMBOL])) \<le> 8 * (3 * (length data + 1))" by simp
  then show ?thesis unfolding encoded_size_def by linarith
qed

lemma compress_succeeds:
  assumes "3 * (length data + 1) \<le> sz"
  shows "\<exists>c. huffman_Compress h data sz = Some c"
  using huffman_Compress_code [of data sz] encoded_size_le [of data] assms by (auto split: if_splits)

end

section \<open>Properties\<close>



text \<open>Compression of a payload of \<open>n\<close> bytes always succeeds when the target has \<open>3 * (n + 1)\<close> bytes:
  no symbol takes more than 22 bits.\<close>

theorem huffman_compress_total:
  assumes "3 * (length data + 1) \<le> sz"
  shows "\<exists>c. huffman_Compress (huffman_Init ms_aFreqTable) data sz = Some c \<and> length c \<le> 3 * (length data + 1)"
proof -
  obtain c where c: "huffman_Compress (huffman_Init ms_aFreqTable) data sz = Some c"
    using ddnet.compress_succeeds [OF assms] by blast
  moreover have "length c = ddnet.encoded_size data"
    using ddnet.huffman_Compress_code [of data sz] c by (auto split: if_splits)
  ultimately show ?thesis using ddnet.encoded_size_le [of data] by auto
qed

theorem huffman_compress_total_witness:
  "\<exists>c. huffman_Compress (huffman_Init ms_aFreqTable) [1] 6 = Some c \<and> length c \<le> 6"
  using huffman_compress_total [of "[1]" 6] by simp

text \<open>With eight bytes of headroom the coder stores its whole bit buffer and counts only the full
  bytes; this gives the bytes, the remaining bits and the count of the bounds-checked loop.\<close>

theorem write_bits_fast_path:
  assumes "bc < 64" "length out + 8 \<le> sz"
  shows "write_bits sz (bits, bc, out) = write_bytewise (sz - length out) bits bc out"
proof -
  have "bc div 8 < 8" using assms(1) by (simp add: less_mult_imp_div_less)
  then show ?thesis using assms by (simp add: write_bits_eq write_bytewise_eq)
qed

theorem write_bits_fast_path_witness:
  "write_bits 8 (0x1FF, 9, []) = write_bytewise 8 0x1FF 9 []"
  using write_bits_fast_path [of 9 "[]" 8 "0x1FF"] by simp

end
