(* ===== verification/NetPacket.thy ===== *)
theory NetPacket
  imports HuffmanRoundtrip
begin

text \<open>
  The packet layer of \<open>src/engine/shared/network.cpp\<close>: security tokens, the chunk header, the
  packet header with its 0.6 and 0.7 layouts, compression of the payload, connectionless packets,
  control messages and the token cache. A buffer together with its size is a list of bytes; a
  datagram handed to \<open>net_udp_send\<close> is the list of its bytes. \<open>None\<close> as the result of a send is a
  failed \<open>dbg_assert\<close>, which ends the program.
\<close>

section \<open>Constants\<close>

definition NET_MAX_PACKETSIZE :: nat where "NET_MAX_PACKETSIZE = 1400"
definition NET_PACKETHEADERSIZE :: nat where "NET_PACKETHEADERSIZE = 3"
definition NET_MAX_CHUNK_SIZE :: int where "NET_MAX_CHUNK_SIZE = 1023"
definition NET_MAX_CHUNKHEADERSIZE :: nat where "NET_MAX_CHUNKHEADERSIZE = 3"
definition NET_CONNLESS_EXTRA_SIZE :: nat where "NET_CONNLESS_EXTRA_SIZE = 4"
definition NET_MAX_CONNLESS_PAYLOAD :: nat where "NET_MAX_CONNLESS_PAYLOAD = 1394"
definition NET_MAX_SEQUENCE :: int where "NET_MAX_SEQUENCE = 1024"
definition NET_MAX_PACKET_CHUNKS :: int where "NET_MAX_PACKET_CHUNKS = 0xFF"
definition CHUNK_DATA_SIZE :: nat where "CHUNK_DATA_SIZE = NET_MAX_PACKETSIZE - NET_PACKETHEADERSIZE"

definition NET_PACKETFLAG_UNUSED :: int where "NET_PACKETFLAG_UNUSED = 1"
definition NET_PACKETFLAG_CONTROL :: int where "NET_PACKETFLAG_CONTROL = 4"
definition NET_PACKETFLAG_CONNLESS :: int where "NET_PACKETFLAG_CONNLESS = 8"
definition NET_PACKETFLAG_RESEND :: int where "NET_PACKETFLAG_RESEND = 16"
definition NET_PACKETFLAG_COMPRESSION :: int where "NET_PACKETFLAG_COMPRESSION = 32"
definition NET_PACKETFLAG_EXTENDED :: int where "NET_PACKETFLAG_EXTENDED = 64"

definition NET_CHUNKFLAG_VITAL :: int where "NET_CHUNKFLAG_VITAL = 1"
definition NET_CHUNKFLAG_RESEND :: int where "NET_CHUNKFLAG_RESEND = 2"

definition NET_CTRLMSG_KEEPALIVE :: int where "NET_CTRLMSG_KEEPALIVE = 0"
definition NET_CTRLMSG_CONNECT :: int where "NET_CTRLMSG_CONNECT = 1"
definition NET_CTRLMSG_CONNECTACCEPT :: int where "NET_CTRLMSG_CONNECTACCEPT = 2"
definition NET_CTRLMSG_ACCEPT :: int where "NET_CTRLMSG_ACCEPT = 3"
definition NET_CTRLMSG_CLOSE :: int where "NET_CTRLMSG_CLOSE = 4"
definition NET_CTRLMSG_TOKEN :: int where "NET_CTRLMSG_TOKEN = 5"

lemmas net_sizes = NET_MAX_PACKETSIZE_def NET_PACKETHEADERSIZE_def NET_MAX_CHUNK_SIZE_def
  NET_MAX_CHUNKHEADERSIZE_def NET_CONNLESS_EXTRA_SIZE_def NET_MAX_CONNLESS_PAYLOAD_def
  NET_MAX_SEQUENCE_def NET_MAX_PACKET_CHUNKS_def CHUNK_DATA_SIZE_def

lemmas net_flags = NET_PACKETFLAG_UNUSED_def NET_PACKETFLAG_CONTROL_def NET_PACKETFLAG_CONNLESS_def
  NET_PACKETFLAG_RESEND_def NET_PACKETFLAG_COMPRESSION_def NET_PACKETFLAG_EXTENDED_def
  NET_CHUNKFLAG_VITAL_def NET_CHUNKFLAG_RESEND_def

lemmas net_ctrl = NET_CTRLMSG_KEEPALIVE_def NET_CTRLMSG_CONNECT_def NET_CTRLMSG_CONNECTACCEPT_def
  NET_CTRLMSG_ACCEPT_def NET_CTRLMSG_CLOSE_def NET_CTRLMSG_TOKEN_def

text \<open>\<open>Flags & Mask\<close> as a condition.\<close>

definition has_flag :: "int \<Rightarrow> int \<Rightarrow> bool" where
  "has_flag flags m \<longleftrightarrow> flags AND m \<noteq> 0"

section \<open>Addresses and tokens\<close>

record netaddr =
  na_type :: int
  na_ip :: "byte list"
  na_port :: int

type_synonym token = i32

definition NET_SECURITY_TOKEN_UNKNOWN :: token where "NET_SECURITY_TOKEN_UNKNOWN = - 1"
definition NET_SECURITY_TOKEN_UNSUPPORTED :: token where "NET_SECURITY_TOKEN_UNSUPPORTED = 0"
definition NET_TOKEN_NONE :: token where "NET_TOKEN_NONE = 0xffffffff"

definition SECURITY_TOKEN_MAGIC :: "byte list" where
  "SECURITY_TOKEN_MAGIC = [84, 75, 69, 78]"

definition ToSecurityToken :: "byte list \<Rightarrow> token" where
  "ToSecurityToken bs = bytes_be_to_uint bs"

definition WriteSecurityToken :: "token \<Rightarrow> byte list" where
  "WriteSecurityToken t = uint_to_bytes_be t"

section \<open>The chunk header\<close>

text \<open>\<open>Split\<close> is 4 for the 0.6 protocol and 6 for 0.7: the number of size bits in the second byte.\<close>

record chunk_header =
  h_Flags :: int
  h_Size :: int
  h_Sequence :: int

definition chunk_header_Pack :: "chunk_header \<Rightarrow> nat \<Rightarrow> byte list option" where
  "chunk_header_Pack h split =
     (if 0 \<le> h_Size h \<and> h_Size h < push_bit (split + 6) 1 then
        let b0 = to_byte (push_bit 6 (h_Flags h AND 3) OR (drop_bit split (h_Size h) AND 0x3F));
            b1 = to_byte (h_Size h AND (push_bit split 1 - 1))
        in Some (if h_Flags h AND NET_CHUNKFLAG_VITAL \<noteq> 0
             then [b0, b1 OR to_byte (drop_bit 2 (h_Sequence h) AND NOT (push_bit split 1 - 1)),
                   to_byte (h_Sequence h AND 0xFF)]
             else [b0, b1])
      else None)"

text \<open>The byte at an offset; a byte behind the data is what the buffer was cleared to.\<close>

definition byte_at :: "byte list \<Rightarrow> nat \<Rightarrow> int" where
  "byte_at bs i = (if i < length bs then uint (bs ! i) else 0)"

definition chunk_header_Unpack :: "byte list \<Rightarrow> nat \<Rightarrow> chunk_header \<times> nat" where
  "chunk_header_Unpack bs split =
     (let flags = drop_bit 6 (byte_at bs 0) AND 3;
          size = push_bit split (byte_at bs 0 AND 0x3F) OR (byte_at bs 1 AND (push_bit split 1 - 1))
      in if flags AND NET_CHUNKFLAG_VITAL \<noteq> 0
         then (\<lparr>h_Flags = flags, h_Size = size,
                h_Sequence = push_bit 2 (byte_at bs 1 AND NOT (push_bit split 1 - 1)) OR byte_at bs 2\<rparr>, 3)
         else (\<lparr>h_Flags = flags, h_Size = size, h_Sequence = - 1\<rparr>, 2))"

text \<open>\<open>CNetBase::IsSeqInBackroom\<close>.\<close>

definition IsSeqInBackroom :: "int \<Rightarrow> int \<Rightarrow> bool" where
  "IsSeqInBackroom seq ack =
     (let bottom = ack - NET_MAX_SEQUENCE div 2 in
      if bottom < 0 then seq \<le> ack \<or> seq \<ge> bottom + NET_MAX_SEQUENCE
      else seq \<le> ack \<and> seq \<ge> bottom)"

section \<open>Packets\<close>

text \<open>\<open>CNetPacketConstruct\<close>; \<open>m_DataSize\<close> is the length of the data.\<close>

record construct =
  m_Flags :: int
  m_Ack :: int
  m_NumChunks :: int
  m_aChunkData :: "byte list"
  m_aExtraData :: "byte list"

abbreviation m_DataSize :: "construct \<Rightarrow> nat" where
  "m_DataSize p \<equiv> length (m_aChunkData p)"

definition empty_construct :: construct where
  "empty_construct = \<lparr>m_Flags = 0, m_Ack = 0, m_NumChunks = 0, m_aChunkData = [], m_aExtraData = []\<rparr>"

definition ms_Huffman :: huffman where
  "ms_Huffman = huffman_Init ms_aFreqTable"

definition net_Compress :: "byte list \<Rightarrow> nat \<Rightarrow> byte list option" where
  "net_Compress data output_size = huffman_Compress ms_Huffman data output_size"

definition net_Decompress :: "byte list \<Rightarrow> nat \<Rightarrow> byte list option" where
  "net_Decompress data output_size = huffman_Decompress ms_Huffman data output_size"

text \<open>The 0.7 protocol numbers the packet flags differently (\<open>protocolglue.cpp\<close>).\<close>

definition PacketFlags_SixToSeven :: "int \<Rightarrow> int" where
  "PacketFlags_SixToSeven flags =
     (if has_flag flags NET_PACKETFLAG_CONTROL then 1 else 0) OR
     (if has_flag flags NET_PACKETFLAG_RESEND then 2 else 0) OR
     (if has_flag flags NET_PACKETFLAG_COMPRESSION then 4 else 0)"

definition PacketFlags_SevenToSix :: "int \<Rightarrow> int" where
  "PacketFlags_SevenToSix flags =
     (if has_flag flags 1 then NET_PACKETFLAG_CONTROL else 0) OR
     (if has_flag flags 2 then NET_PACKETFLAG_RESEND else 0) OR
     (if has_flag flags 4 then NET_PACKETFLAG_COMPRESSION else 0)"

definition IsValidConnectionOrientedPacket :: "construct \<Rightarrow> bool" where
  "IsValidConnectionOrientedPacket p =
     (if m_Flags p AND NOT (NET_PACKETFLAG_CONTROL OR NET_PACKETFLAG_RESEND OR NET_PACKETFLAG_COMPRESSION) \<noteq> 0
      then False
      else if has_flag (m_Flags p) NET_PACKETFLAG_CONTROL then
        m_NumChunks p = 0 \<and> m_DataSize p > 0 \<and> \<not> has_flag (m_Flags p) NET_PACKETFLAG_COMPRESSION
      else
        let min_chunks = (if has_flag (m_Flags p) NET_PACKETFLAG_RESEND then 0 else 1)
        in m_NumChunks p \<ge> min_chunks \<and> m_NumChunks p \<le> NET_MAX_PACKET_CHUNKS)"

definition NET_HEADER_EXTENDED :: "byte list" where
  "NET_HEADER_EXTENDED = [120, 101]"

definition SendPacketConnless :: "byte list \<Rightarrow> bool \<Rightarrow> byte list \<Rightarrow> byte list option" where
  "SendPacketConnless data extended extra =
     (if length data \<le> NET_MAX_PACKETSIZE - 6 then
        Some ((if extended then NET_HEADER_EXTENDED @ take NET_CONNLESS_EXTRA_SIZE extra
               else replicate 6 0xFF) @ data)
      else None)"

definition SendPacketConnlessWithToken7 :: "byte list \<Rightarrow> token \<Rightarrow> token \<Rightarrow> byte list option" where
  "SendPacketConnlessWithToken7 data token response =
     (if length data \<le> NET_MAX_PACKETSIZE - 9 then
        Some (to_byte (push_bit 2 NET_PACKETFLAG_CONNLESS OR 1) #
              WriteSecurityToken token @ WriteSecurityToken response @ data)
      else None)"

text \<open>\<open>CNetBase::SendPacket\<close>: the token goes into the 0.7 header or, in 0.6, behind the data; the data
  is compressed when that makes it smaller.\<close>

definition SendPacket :: "construct \<Rightarrow> token \<Rightarrow> bool \<Rightarrow> byte list option" where
  "SendPacket p token sixup =
     (if \<not> IsValidConnectionOrientedPacket p \<or> has_flag (m_Flags p) NET_PACKETFLAG_COMPRESSION then None
      else
        let header_size = (if sixup then NET_PACKETHEADERSIZE + 4 else NET_PACKETHEADERSIZE);
            header_token = (if sixup then WriteSecurityToken token else []);
            data = (if \<not> sixup \<and> token \<noteq> NET_SECURITY_TOKEN_UNSUPPORTED
                    then m_aChunkData p @ WriteSecurityToken token else m_aChunkData p);
            compressed = (if \<not> has_flag (m_Flags p) NET_PACKETFLAG_CONTROL
                          then net_Compress data (NET_MAX_PACKETSIZE - header_size) else None);
            (flags, final) =
              (case compressed of
                 Some c \<Rightarrow> if 0 < length c \<and> length c < length data
                           then (m_Flags p OR NET_PACKETFLAG_COMPRESSION, c) else (m_Flags p, data)
               | None \<Rightarrow> (m_Flags p, data));
            flags = (if sixup then PacketFlags_SixToSeven flags else flags)
        in Some ([to_byte ((push_bit 2 flags AND 0xFC) OR (drop_bit 8 (m_Ack p) AND 0x3)),
                  to_byte (m_Ack p AND 0xFF), to_byte (m_NumChunks p)] @ header_token @ final))"

definition UnpackPacketFlags :: "byte list \<Rightarrow> int option" where
  "UnpackPacketFlags buf =
     (if length buf < NET_PACKETHEADERSIZE \<or> length buf > NET_MAX_PACKETSIZE then None
      else Some (drop_bit 2 (uint (buf ! 0))))"

text \<open>The outcomes of \<open>CNetBase::UnpackPacket\<close>. A token pointer is \<open>None\<close> when it is null, otherwise
  what it points to; \<open>NullToken\<close> is the write through a null response token. The first component of
  the result is \<open>*pDecompressed\<close>.\<close>

datatype unpack_result = Rejected | NullToken | Unpacked construct bool "token option" "token option"

definition unpack_response :: "construct \<Rightarrow> bool \<Rightarrow> token option \<Rightarrow> token option \<Rightarrow> unpack_result" where
  "unpack_response p sixup tok resp =
     (if has_flag (m_Flags p) NET_PACKETFLAG_CONTROL \<and> m_DataSize p \<ge> 1 + 4 \<and>
         (uint (m_aChunkData p ! 0) = NET_CTRLMSG_CONNECT \<or>
          sixup \<and> uint (m_aChunkData p ! 0) = NET_CTRLMSG_TOKEN)
      then case resp of None \<Rightarrow> NullToken
           | Some _ \<Rightarrow> Unpacked p sixup tok (Some (ToSecurityToken (drop 1 (m_aChunkData p))))
      else Unpacked p sixup tok resp)"

definition UnpackPacket ::
  "byte list \<Rightarrow> bool \<Rightarrow> bool \<Rightarrow> token option \<Rightarrow> token option \<Rightarrow> bool \<times> unpack_result" where
  "UnpackPacket buf sixup allow_decompression tok resp =
     (let resp = map_option (\<lambda>_. NET_SECURITY_TOKEN_UNKNOWN) resp in
      case UnpackPacketFlags buf of
        None \<Rightarrow> (False, Rejected)
      | Some flags \<Rightarrow>
          if has_flag flags NET_PACKETFLAG_CONNLESS then
            let sixup = (uint (buf ! 0) AND 0x3 = 1);
                offset = (if sixup then 9 else 6)
            in if sixup \<and> (tok = None \<or> resp = None) then (False, Rejected)
               else if length buf < offset then (False, Rejected)
               else
                 let tok = (if sixup then Some (ToSecurityToken (drop 1 buf)) else tok);
                     resp = (if sixup then Some (ToSecurityToken (drop 5 buf)) else resp);
                     extended = (\<not> sixup \<and> take 2 buf = NET_HEADER_EXTENDED)
                 in (False, Unpacked
                      \<lparr>m_Flags = (if extended then NET_PACKETFLAG_CONNLESS OR NET_PACKETFLAG_EXTENDED
                                  else NET_PACKETFLAG_CONNLESS),
                       m_Ack = 0, m_NumChunks = 0, m_aChunkData = drop offset buf,
                       m_aExtraData = (if extended then take NET_CONNLESS_EXTRA_SIZE (drop 2 buf) else [])\<rparr>
                      sixup tok resp)
          else
            let sixup = (sixup \<or> has_flag flags NET_PACKETFLAG_UNUSED);
                start = (if sixup then 7 else NET_PACKETHEADERSIZE)
            in if sixup \<and> tok = None then (False, Rejected)
               else if length buf < start then (False, Rejected)
               else
                 let p = \<lparr>m_Flags = (if sixup then PacketFlags_SevenToSix flags else flags),
                          m_Ack = push_bit 8 (uint (buf ! 0) AND 0x3) OR uint (buf ! 1),
                          m_NumChunks = uint (buf ! 2), m_aChunkData = drop start buf, m_aExtraData = []\<rparr>;
                     tok = (if sixup then Some (ToSecurityToken (drop 3 buf)) else tok)
                 in if \<not> IsValidConnectionOrientedPacket p then (False, Rejected)
                    else if has_flag (m_Flags p) NET_PACKETFLAG_COMPRESSION then
                      if \<not> allow_decompression then (False, Rejected)
                      else case net_Decompress (m_aChunkData p) CHUNK_DATA_SIZE of
                          None \<Rightarrow> (True, Rejected)
                        | Some data \<Rightarrow> (True, unpack_response (p\<lparr>m_aChunkData := data\<rparr>) sixup tok resp)
                    else (False, unpack_response p sixup tok resp))"

section \<open>Control messages\<close>

definition SendControlMsg :: "int \<Rightarrow> int \<Rightarrow> byte list \<Rightarrow> token \<Rightarrow> bool \<Rightarrow> byte list option" where
  "SendControlMsg ack msg extra token sixup =
     SendPacket \<lparr>m_Flags = NET_PACKETFLAG_CONTROL, m_Ack = ack, m_NumChunks = 0,
                 m_aChunkData = to_byte msg # extra, m_aExtraData = []\<rparr> token sixup"

definition NET_TOKENREQUEST_DATASIZE :: nat where "NET_TOKENREQUEST_DATASIZE = 512"

definition SendControlMsgWithToken7 :: "token \<Rightarrow> int \<Rightarrow> int \<Rightarrow> token \<Rightarrow> bool \<Rightarrow> byte list option" where
  "SendControlMsgWithToken7 token ack msg my_token extended =
     (let buf = uint_to_bytes_be my_token @ replicate (NET_TOKENREQUEST_DATASIZE - 4) 0
      in SendControlMsg ack msg (take (if extended then NET_TOKENREQUEST_DATASIZE else 4) buf) token True)"

section \<open>The token cache\<close>

text \<open>\<open>CNetTokenCache\<close>: tokens of 0.7 servers, and the packets that wait for one. The random tokens of
  \<open>GenerateToken\<close> are an argument; \<open>now\<close> is \<open>time_get()\<close>, and \<open>time_freq()\<close> is in nanoseconds.\<close>

definition NETTYPE_IPV4 :: int where "NETTYPE_IPV4 = 1"
definition NETTYPE_IPV6 :: int where "NETTYPE_IPV6 = 2"
definition NETTYPE_WEBSOCKET_IPV4 :: int where "NETTYPE_WEBSOCKET_IPV4 = 4"
definition NETTYPE_WEBSOCKET_IPV6 :: int where "NETTYPE_WEBSOCKET_IPV6 = 8"
definition NETTYPE_LINK_BROADCAST :: int where "NETTYPE_LINK_BROADCAST = 16"
definition NETTYPE_TW7 :: int where "NETTYPE_TW7 = 32"
definition NET_TOKENCACHE_ADDRESSEXPIRY :: int where "NET_TOKENCACHE_ADDRESSEXPIRY = 64"
definition NET_TOKENCACHE_PACKETEXPIRY :: int where "NET_TOKENCACHE_PACKETEXPIRY = 5"

record connless_packet =
  cp_Addr :: netaddr
  cp_Data :: "byte list"
  cp_Expiry :: int

record address_info =
  ai_Addr :: netaddr
  ai_Token :: token
  ai_Expiry :: int

record token_cache =
  m_TokenCache :: "address_info list"
  m_ConnlessPackets :: "connless_packet list"

type_synonym datagram = "netaddr \<times> byte list option"

fun find_token :: "address_info list \<Rightarrow> netaddr \<Rightarrow> token" where
  "find_token [] addr = NET_TOKEN_NONE"
| "find_token (i # is) addr = (if ai_Addr i = addr then ai_Token i else find_token is addr)"

definition GetToken :: "token_cache \<Rightarrow> netaddr \<Rightarrow> token" where
  "GetToken c addr = find_token (m_TokenCache c) addr"

definition FetchToken :: "netaddr \<Rightarrow> token \<Rightarrow> datagram" where
  "FetchToken addr random = (addr, SendControlMsgWithToken7 NET_TOKEN_NONE 0 NET_CTRLMSG_TOKEN random True)"

definition saved_packets :: "netaddr \<Rightarrow> byte list \<Rightarrow> int \<Rightarrow> connless_packet list" where
  "saved_packets addr data expiry =
     (let base = na_type addr AND NOT (NETTYPE_IPV4 OR NETTYPE_IPV6);
          save = (\<lambda>ty. if na_type addr AND ty \<noteq> 0
                       then [\<lparr>cp_Addr = addr\<lparr>na_type := base OR ty\<rparr>, cp_Data = data, cp_Expiry = expiry\<rparr>]
                       else [])
      in save NETTYPE_IPV4 @ save NETTYPE_IPV6)"

definition tc_SendPacketConnless ::
  "token_cache \<Rightarrow> netaddr \<Rightarrow> byte list \<Rightarrow> int \<Rightarrow> token \<Rightarrow> token_cache \<times> datagram list" where
  "tc_SendPacketConnless c addr data now random =
     (let token = GetToken c addr in
      if token \<noteq> NET_TOKEN_NONE
      then (c, [(addr, SendPacketConnlessWithToken7 data token random)])
      else (c\<lparr>m_ConnlessPackets := m_ConnlessPackets c @
                saved_packets addr data (now + time_freq * NET_TOKENCACHE_PACKETEXPIRY)\<rparr>,
            [FetchToken addr random]))"

definition broadcast_addr :: "netaddr \<Rightarrow> netaddr" where
  "broadcast_addr addr =
     \<lparr>na_type = (na_type addr AND NOT (NETTYPE_WEBSOCKET_IPV4 OR NETTYPE_WEBSOCKET_IPV6)) OR NETTYPE_LINK_BROADCAST,
      na_ip = replicate 16 0, na_port = na_port addr\<rparr>"

fun flush_waiting ::
  "netaddr \<Rightarrow> token \<Rightarrow> (nat \<Rightarrow> token) \<Rightarrow> nat \<Rightarrow> connless_packet list \<Rightarrow> connless_packet list \<times> datagram list" where
  "flush_waiting null token random k [] = ([], [])"
| "flush_waiting null token random k (p # ps) =
     (if cp_Addr p = null then
        let (kept, sent) = flush_waiting null token random (k + 1) ps
        in (kept, (cp_Addr p, SendPacketConnlessWithToken7 (cp_Data p) token (random k)) # sent)
      else
        let (kept, sent) = flush_waiting null token random k ps in (p # kept, sent))"

definition AddToken ::
  "token_cache \<Rightarrow> netaddr \<Rightarrow> token \<Rightarrow> int \<Rightarrow> (nat \<Rightarrow> token) \<Rightarrow> token_cache \<times> datagram list" where
  "AddToken c addr token now random =
     (if token = NET_TOKEN_NONE then (c, [])
      else
        let (kept, sent) = flush_waiting (broadcast_addr addr) token random 0 (m_ConnlessPackets c)
        in (c\<lparr>m_ConnlessPackets := kept,
              m_TokenCache := m_TokenCache c @
                [\<lparr>ai_Addr = addr, ai_Token = token, ai_Expiry = now + time_freq * NET_TOKENCACHE_ADDRESSEXPIRY\<rparr>]\<rparr>,
            sent))"

definition tc_Update :: "token_cache \<Rightarrow> int \<Rightarrow> token_cache" where
  "tc_Update c now =
     c\<lparr>m_TokenCache := filter (\<lambda>i. \<not> ai_Expiry i \<le> now) (m_TokenCache c),
       m_ConnlessPackets := filter (\<lambda>p. \<not> cp_Expiry p \<le> now) (m_ConnlessPackets c)\<rparr>"

section \<open>Chunk headers and sequence numbers\<close>

lemma uint_be_roundtrip:
  "bytes_be_to_uint (uint_to_bytes_be v @ r) = v"
  apply (rule bit_word_eqI)
  apply (simp add: bytes_be_to_uint_def uint_to_bytes_be_def bit_simps)
  subgoal for n by (cases "n < 8"; cases "n < 16"; cases "n < 24") auto
  done

lemma bit_bounded: "0 \<le> x \<Longrightarrow> x < push_bit k 1 \<Longrightarrow> bit (x :: int) n \<Longrightarrow> n < k"
  by (metis bit_take_bit_iff mult_1 push_bit_eq_mult take_bit_int_eq_self)

lemma byte_at_append: "i < length xs \<Longrightarrow> byte_at (xs @ ys) i = byte_at xs i"
  by (simp add: byte_at_def nth_append)


lemma bit_to_byte: "bit (to_byte x) n \<longleftrightarrow> n < 8 \<and> bit x n"
  by (simp add: to_byte_def bit_simps)


lemma bit_exp_minus_1: "bit (2 ^ k - 1 :: int) n \<longleftrightarrow> n < k"
  by (simp add: bit_mask_iff flip: mask_eq_exp_minus_1)

lemma bit_byte: "bit (b :: byte) n \<Longrightarrow> n < 8"
  using bit_imp_le_length by fastforce

lemma header_flags:
  assumes "0 \<le> f" "f < 4"
  shows "drop_bit 6 (uint (to_byte (push_bit 6 (f AND 3) OR (drop_bit split s AND 0x3F)))) AND 3 = f"
proof -
  have f: "bit f n \<Longrightarrow> n < 2" for n using bit_bounded [of f 2 n] assms by simp
  show ?thesis by (rule bit_eqI) (auto simp: bit_simps bit_numerals bit_to_byte bit_uint_iff dest: f)
qed

lemma header_size:
  assumes "0 \<le> s" "s < push_bit (split + 6) 1" "split \<le> 8"
    and b1: "\<And>n. n < split \<Longrightarrow> bit b1 n = bit s n"
  shows "push_bit split (uint (to_byte (push_bit 6 (f AND 3) OR (drop_bit split s AND 0x3F))) AND 0x3F) OR
     (uint (b1 :: byte) AND (push_bit split 1 - 1)) = s"
proof (rule bit_eqI)
  fix n
  have s: "bit s n \<Longrightarrow> n < split + 6" by (rule bit_bounded [OF assms(1,2)])
  show "bit (push_bit split (uint (to_byte (push_bit 6 (f AND 3) OR (drop_bit split s AND 0x3F))) AND 0x3F) OR
     (uint b1 AND (push_bit split 1 - 1))) n = bit s n"
    using s b1 [of n] assms(3)
    by (cases "n < split") (auto simp: bit_simps bit_numerals bit_to_byte bit_uint_iff bit_exp_minus_1 dest: bit_byte)
qed

lemma header_sequence:
  assumes "0 \<le> q" "q < 1024" "split = 4 \<or> split = 6"
    and b1: "\<And>n. split \<le> n \<Longrightarrow> n < 8 \<Longrightarrow> bit b1 n = bit q (n + 2)"
  shows "push_bit 2 (uint (b1 :: byte) AND NOT (push_bit split 1 - 1)) OR uint (to_byte (q AND 0xFF)) = q"
proof (rule bit_eqI)
  fix n
  have q: "bit q n \<Longrightarrow> n < 10" using bit_bounded [of q 10 n] assms(1,2) by simp
  show "bit (push_bit 2 (uint b1 AND NOT (push_bit split 1 - 1)) OR uint (to_byte (q AND 0xFF))) n = bit q n"
  proof (cases "n < 2")
    case True
    then show ?thesis by (simp add: bit_simps bit_numerals bit_to_byte bit_uint_iff)
  next
    case False
    then obtain m where n: "n = m + 2" using le_Suc_ex [of 2 n] by (auto simp: add.commute)
    have "bit b1 m \<Longrightarrow> m < 8" by (rule bit_byte)
    then show ?thesis using q b1 [of m] assms(3)
      by (cases "m < 6") (auto simp: n bit_simps bit_numerals bit_to_byte bit_uint_iff bit_exp_minus_1)
  qed
qed

lemma header_second_byte:
  defines "b1 \<equiv> \<lambda>s q split. to_byte (s AND (push_bit split 1 - 1)) OR
     to_byte (drop_bit 2 q AND NOT (push_bit split 1 - 1))"
  shows "split \<le> 8 \<Longrightarrow> n < split \<Longrightarrow> bit (b1 s q split) n = bit s n"
    and "split \<le> n \<Longrightarrow> n < 8 \<Longrightarrow> bit (b1 s q split) n = bit q (n + 2)"
  by (simp_all add: b1_def bit_simps bit_to_byte bit_exp_minus_1 add.commute)

lemma mod_window: "0 \<le> x - 1024 * q \<Longrightarrow> x - 1024 * q < 1024 \<Longrightarrow> x mod 1024 = x - (1024 :: int) * q"
  by (metis add_diff_cancel_left' diff_add_cancel mod_mult_self4 mod_pos_pos_trivial)

section \<open>Packet headers\<close>

lemma net_Compress_Decompress:
  "net_Compress data sz = Some c \<Longrightarrow> length data \<le> room \<Longrightarrow> net_Decompress c room = Some data"
  "net_Compress data sz = Some c \<Longrightarrow> length c \<le> sz"
  by (simp_all add: net_Compress_def net_Decompress_def ms_Huffman_def ddnet.compress_decompress)

lemma flags_52: "f AND NOT 52 = 0 \<Longrightarrow> f \<in> {0, 4, 16, 20, 32, 36, 48, 52 :: int}"
proof -
  assume "f AND NOT 52 = 0"
  moreover have "f = (f AND 52) OR (f AND NOT 52)"
    by (rule bit_eqI) (auto simp: bit_simps)
  ultimately have f: "f = f AND 52" by simp
  have "\<forall>k\<in>set [0..52 :: int]. k AND 52 = k \<longrightarrow> k \<in> {0, 4, 16, 20, 32, 36, 48, 52}"
    by code_simp
  moreover have "f \<in> set [0..52]"
    using AND_upper2 [of 52 f] AND_lower [of 52 f] by (subst f, subst f) (simp add: and.commute)
  ultimately show ?thesis using f by auto
qed

lemma valid_flags: "IsValidConnectionOrientedPacket p \<Longrightarrow> m_Flags p \<in> {0, 4, 16, 20, 32, 36, 48, 52}"
  using flags_52 [of "m_Flags p"]
  by (simp add: IsValidConnectionOrientedPacket_def net_flags split: if_splits)

lemma seven_six: "f \<in> {0, 4, 16, 20, 32, 36, 48, 52} \<Longrightarrow>
  PacketFlags_SevenToSix (PacketFlags_SixToSeven f) = f \<and>
  0 \<le> PacketFlags_SixToSeven f \<and> PacketFlags_SixToSeven f < 8"
  by (auto simp: PacketFlags_SixToSeven_def PacketFlags_SevenToSix_def has_flag_def net_flags)

lemma bit_0xFC: "bit (0xFC :: int) k \<longleftrightarrow> 2 \<le> k \<and> k - 2 < 6"
proof -
  have "(0xFC :: int) = push_bit 2 (mask 6)" by (simp add: push_bit_eq_mult mask_eq_exp_minus_1)
  then show ?thesis by (simp only: bit_push_bit_iff bit_mask_iff) simp
qed

definition first_byte :: "int \<Rightarrow> int \<Rightarrow> byte" where
  "first_byte f a = to_byte ((push_bit 2 f AND 0xFC) OR (drop_bit 8 a AND 0x3))"

lemma first_byte_flags:
  assumes "0 \<le> f" "f < 64"
  shows "drop_bit 2 (uint (first_byte f a)) = f"
proof (rule bit_eqI)
  fix n
  have "bit f n \<Longrightarrow> n < 6" using bit_bounded [of f 6 n] assms by simp
  then show "bit (drop_bit 2 (uint (first_byte f a))) n = bit f n"
    unfolding first_byte_def
    by (auto simp only: bit_drop_bit_eq bit_uint_iff bit_to_byte bit_or_iff bit_and_iff bit_push_bit_iff bit_0xFC
        bit_numerals o_apply) auto
qed

lemma first_byte_ack:
  assumes "0 \<le> a" "a < NET_MAX_SEQUENCE"
  shows "push_bit 8 (uint (first_byte f a) AND 0x3) OR uint (to_byte (a AND 0xFF)) = a"
proof (rule bit_eqI)
  fix n
  have a: "bit a n \<Longrightarrow> n < 10" using bit_bounded [of a 10 n] assms by (simp add: NET_MAX_SEQUENCE_def)
  show "bit (push_bit 8 (uint (first_byte f a) AND 0x3) OR uint (to_byte (a AND 0xFF))) n = bit a n"
  proof (cases "n < 8")
    case True
    then show ?thesis
      by (simp only: bit_drop_bit_eq bit_uint_iff bit_to_byte bit_or_iff bit_and_iff bit_push_bit_iff
        bit_numerals) auto
  next
    case False
    then obtain k where "n = 8 + k" using le_Suc_ex [of 8 n] by auto
    then show ?thesis using a unfolding first_byte_def
      by (simp only: bit_drop_bit_eq bit_uint_iff bit_to_byte bit_or_iff bit_and_iff bit_push_bit_iff bit_0xFC
        bit_numerals o_apply) auto
  qed
qed

text \<open>The datagram of a packet: its flags, the payload as sent and the payload itself.\<close>

lemma SendPacket_shape:
  assumes "SendPacket p token sixup = Some buf" "m_DataSize p + 4 \<le> CHUNK_DATA_SIZE"
  defines "data \<equiv> (if \<not> sixup \<and> token \<noteq> NET_SECURITY_TOKEN_UNSUPPORTED
                    then m_aChunkData p @ WriteSecurityToken token else m_aChunkData p)"
  shows "\<exists>d final f. f = m_Flags p OR (if d then NET_PACKETFLAG_COMPRESSION else 0) \<and>
    buf = [first_byte (if sixup then PacketFlags_SixToSeven f else f) (m_Ack p), to_byte (m_Ack p AND 0xFF),
           to_byte (m_NumChunks p)] @ (if sixup then WriteSecurityToken token else []) @ final \<and>
    length final \<le> length data \<and>
    (if d then net_Decompress final CHUNK_DATA_SIZE = Some data \<and> \<not> has_flag (m_Flags p) NET_PACKETFLAG_CONTROL
     else final = data)"
proof -
  have len: "length data \<le> CHUNK_DATA_SIZE"
    using assms(2) by (auto simp: data_def WriteSecurityToken_def uint_to_bytes_be_def)
  let ?hs = "if sixup then NET_PACKETHEADERSIZE + 4 else NET_PACKETHEADERSIZE"
  define c where "c = (if \<not> has_flag (m_Flags p) NET_PACKETFLAG_CONTROL
     then net_Compress data (NET_MAX_PACKETSIZE - ?hs) else None)"
  define d where "d = (case c of Some c \<Rightarrow> 0 < length c \<and> length c < length data | None \<Rightarrow> False)"
  define final where "final = (if d then the c else data)"
  have case_eq: "(case c of Some c \<Rightarrow> if 0 < length c \<and> length c < length data
        then (m_Flags p OR NET_PACKETFLAG_COMPRESSION, c) else (m_Flags p, data) | None \<Rightarrow> (m_Flags p, data)) =
      (m_Flags p OR (if d then NET_PACKETFLAG_COMPRESSION else 0), final)"
    by (simp add: d_def final_def split: option.splits)
  have "buf = [first_byte (if sixup then PacketFlags_SixToSeven (m_Flags p OR (if d then NET_PACKETFLAG_COMPRESSION else 0))
        else m_Flags p OR (if d then NET_PACKETFLAG_COMPRESSION else 0)) (m_Ack p), to_byte (m_Ack p AND 0xFF),
           to_byte (m_NumChunks p)] @ (if sixup then WriteSecurityToken token else []) @ final"
    using assms(1) unfolding SendPacket_def Let_def data_def [symmetric] c_def [symmetric] case_eq first_byte_def
    by (auto split: if_splits)
  moreover have "d \<Longrightarrow> net_Decompress final CHUNK_DATA_SIZE = Some data \<and> \<not> has_flag (m_Flags p) NET_PACKETFLAG_CONTROL"
    using net_Compress_Decompress(1) [OF _ len]
    by (auto simp: d_def final_def c_def split: option.splits if_splits)
  moreover have "length final \<le> length data" by (auto simp: d_def final_def split: option.splits)
  ultimately show ?thesis by (intro exI [of _ d] exI [of _ final] exI [of _ "m_Flags p OR (if d then NET_PACKETFLAG_COMPRESSION else 0)"])
      (auto simp: final_def)
qed

lemma valid_compressed:
  assumes "IsValidConnectionOrientedPacket p" "d \<Longrightarrow> \<not> has_flag (m_Flags p) NET_PACKETFLAG_CONTROL"
    "d \<or> final = [] \<longrightarrow> \<not> has_flag (m_Flags p) NET_PACKETFLAG_CONTROL"
  shows "IsValidConnectionOrientedPacket
    (q\<lparr>m_Flags := m_Flags p OR (if d then NET_PACKETFLAG_COMPRESSION else 0), m_NumChunks := m_NumChunks p,
       m_aChunkData := final\<rparr>)"
  using valid_flags [OF assms(1)] assms
  by (elim insertE emptyE; cases d)
    (simp_all add: IsValidConnectionOrientedPacket_def has_flag_def net_flags Let_def split: if_splits)

lemma SendPacket_valid:
  "SendPacket p token sixup = Some buf \<Longrightarrow>
   IsValidConnectionOrientedPacket p \<and> \<not> has_flag (m_Flags p) NET_PACKETFLAG_COMPRESSION"
  by (auto simp: SendPacket_def split: if_splits)

lemma valid_chunks: "IsValidConnectionOrientedPacket p \<Longrightarrow> 0 \<le> m_NumChunks p \<and> m_NumChunks p < 256"
  by (auto simp: IsValidConnectionOrientedPacket_def net_sizes Let_def split: if_splits)

lemma wire_flags:
  assumes "f \<in> {0, 4, 16, 20, 32, 36, 48, 52}"
    and w: "w = (if sixup then PacketFlags_SixToSeven f else f)"
  shows "0 \<le> w \<and> w < 64 \<and> \<not> has_flag w NET_PACKETFLAG_CONNLESS \<and>
    (sixup \<or> has_flag w NET_PACKETFLAG_UNUSED) = sixup \<and>
    (if sixup then PacketFlags_SevenToSix w else w) = f"
  using assms(1)
  by (elim insertE emptyE)
    (simp_all add: w PacketFlags_SixToSeven_def PacketFlags_SevenToSix_def has_flag_def net_flags)

lemma decompress_loop_length: "decompress_loop h room st = Some data \<Longrightarrow> length data \<le> room"
proof (induction room arbitrary: st data)
  case 0
  then show ?case by (auto simp: decompress_loop.simps [of h 0 st] split: option.splits if_splits)
next
  case (Suc room)
  show ?case
  proof (cases "decode_symbol h st")
    case None
    then show ?thesis using Suc.prems by (simp add: decompress_loop.simps [of h _ st])
  next
    case (Some ist)
    obtain i st' where i: "ist = (i, st')" by (cases ist)
    show ?thesis using Suc.prems Some i Suc.IH [of st']
      by (cases "i = HUFFMAN_EOF_SYMBOL") (auto simp: decompress_loop.simps [of h _ st])
  qed
qed

lemma net_Decompress_length: "net_Decompress c room = Some data \<Longrightarrow> length data \<le> room"
  by (auto simp: net_Decompress_def huffman_Decompress_def dest: decompress_loop_length)

lemma ack_bits: "0 \<le> push_bit 8 (uint (a :: byte) AND 0x3) OR uint (b :: byte) \<and>
  push_bit 8 (uint a AND 0x3) OR uint b < NET_MAX_SEQUENCE"
proof -
  have "0 \<le> uint a AND 3" "uint a AND 3 \<le> 3" by (simp_all add: AND_lower AND_upper2)
  then have "0 \<le> push_bit 8 (uint a AND 0x3)" "push_bit 8 (uint a AND 0x3) < 2 ^ 10"
    by (simp_all add: push_bit_eq_mult)
  moreover have "0 \<le> uint b" "uint b < 2 ^ 10" using uint_byte_bound [of b] by simp_all
  ultimately show ?thesis using OR_upper [of "push_bit 8 (uint a AND 0x3)" 10 "uint b"]
    by (simp add: NET_MAX_SEQUENCE_def)
qed

lemma unpack_response_packet: "unpack_response q s t r = Unpacked p s' t' r' \<Longrightarrow> p = q"
  by (auto simp: unpack_response_def split: if_splits option.splits)

lemma chunk_header_Unpack_Pack:
  assumes "chunk_header_Pack h split = Some bs" "split = 4 \<or> split = 6"
    "0 \<le> h_Flags h" "h_Flags h < 4" "0 \<le> h_Sequence h" "h_Sequence h < NET_MAX_SEQUENCE"
  shows "chunk_header_Unpack (bs @ rest) split =
    (h\<lparr>h_Sequence := (if h_Flags h AND NET_CHUNKFLAG_VITAL \<noteq> 0 then h_Sequence h else - 1)\<rparr>, length bs)"
proof -
  define b0 where "b0 = to_byte (push_bit 6 (h_Flags h AND 3) OR (drop_bit split (h_Size h) AND 0x3F))"
  let ?b1 = "to_byte (h_Size h AND (push_bit split 1 - 1))"
  let ?b2 = "?b1 OR to_byte (drop_bit 2 (h_Sequence h) AND NOT (push_bit split 1 - 1))"
  have size: "0 \<le> h_Size h" "h_Size h < push_bit (split + 6) 1"
    using assms(1) by (auto simp: chunk_header_Pack_def split: if_splits)
  have split8: "split \<le> 8" using assms(2) by auto
  have flags: "drop_bit 6 (uint b0) AND 3 = h_Flags h"
    unfolding b0_def by (rule header_flags [OF assms(3,4)])
  show ?thesis
  proof (cases "h_Flags h AND NET_CHUNKFLAG_VITAL = 0")
    case True
    have "bs = [b0, ?b1]"
      using assms(1) True size by (simp add: chunk_header_Pack_def b0_def)
    moreover have "push_bit split (uint b0 AND 0x3F) OR (uint ?b1 AND (push_bit split 1 - 1)) = h_Size h"
      unfolding b0_def by (rule header_size [OF size split8]) (use split8 in \<open>simp add: bit_to_byte bit_simps bit_exp_minus_1\<close>)
    ultimately show ?thesis using True
      by (cases h) (simp add: chunk_header_Unpack_def byte_at_def Let_def flags)
  next
    case False
    have bs: "bs = [b0, ?b2, to_byte (h_Sequence h AND 0xFF)]"
      using assms(1) False size by (simp add: chunk_header_Pack_def b0_def)
    have "push_bit split (uint b0 AND 0x3F) OR (uint ?b2 AND (push_bit split 1 - 1)) = h_Size h"
      unfolding b0_def by (rule header_size [OF size split8 header_second_byte(1) [OF split8]])
    moreover have "push_bit 2 (uint ?b2 AND NOT (push_bit split 1 - 1)) OR
        uint (to_byte (h_Sequence h AND 0xFF)) = h_Sequence h"
      by (rule header_sequence [OF assms(5) _ assms(2) header_second_byte(2)])
        (use assms(6) in \<open>simp_all add: NET_MAX_SEQUENCE_def\<close>)
    ultimately show ?thesis using False
      by (cases h) (simp add: bs chunk_header_Unpack_def byte_at_def Let_def flags)
  qed
qed

lemma IsSeqInBackroom_mod:
  assumes "a - NET_MAX_SEQUENCE div 2 \<le> n" "n < a + NET_MAX_SEQUENCE div 2"
  shows "IsSeqInBackroom (n mod NET_MAX_SEQUENCE) (a mod NET_MAX_SEQUENCE) \<longleftrightarrow> n \<le> a"
proof -
  define q where "q = a div 1024"
  have a: "a mod 1024 = a - 1024 * q" "0 \<le> a - 1024 * q" "a - 1024 * q < 1024"
    using pos_mod_bound [of 1024 a] pos_mod_sign [of 1024 a]
    by (simp_all add: q_def minus_mult_div_eq_mod)
  have b: "a - 512 \<le> n" "n < a + 512" using assms by (simp_all add: NET_MAX_SEQUENCE_def)
  consider "n < 1024 * q" | "1024 * q \<le> n" "n < 1024 * (q + 1)" | "1024 * (q + 1) \<le> n" by linarith
  then show ?thesis
  proof cases
    case 1
    then have "n mod 1024 = n - 1024 * (q - 1)"
      using a(2,3) b by (intro mod_window) (simp_all add: algebra_simps)
    then show ?thesis using a b 1 by (auto simp: IsSeqInBackroom_def NET_MAX_SEQUENCE_def Let_def)
  next
    case 2
    then have "n mod 1024 = n - 1024 * q" using a(2,3) b by (intro mod_window) (simp_all add: algebra_simps)
    then show ?thesis using a b 2 by (auto simp: IsSeqInBackroom_def NET_MAX_SEQUENCE_def Let_def)
  next
    case 3
    then have "n mod 1024 = n - 1024 * (q + 1)" using a(2,3) b by (intro mod_window) (simp_all add: algebra_simps)
    then show ?thesis using a b 3 by (auto simp: IsSeqInBackroom_def NET_MAX_SEQUENCE_def Let_def)
  qed
qed

section \<open>Properties\<close>

text \<open>A chunk header survives \<open>CNetChunkHeader::Pack\<close> and \<open>Unpack\<close>, in the 0.6 layout (split 4) and in
  the 0.7 layout (split 6): flags and size come back, the sequence number of a vital chunk too, and the
  reader continues exactly behind the header.\<close>

theorem chunk_header_roundtrip:
  assumes "chunk_header_Pack h split = Some bs" "split = 4 \<or> split = 6"
    "0 \<le> h_Flags h" "h_Flags h < 4" "0 \<le> h_Sequence h" "h_Sequence h < NET_MAX_SEQUENCE"
  shows "chunk_header_Unpack (bs @ rest) split =
    (h\<lparr>h_Sequence := (if h_Flags h AND NET_CHUNKFLAG_VITAL \<noteq> 0 then h_Sequence h else - 1)\<rparr>, length bs)"
  using assms by (rule chunk_header_Unpack_Pack)

theorem chunk_header_roundtrip_witness:
  "chunk_header_Pack \<lparr>h_Flags = 1, h_Size = 100, h_Sequence = 700\<rparr> 4 = Some [0x46, 0xA4, 0xBC] \<and>
   fst (chunk_header_Unpack ([0x46, 0xA4, 0xBC] @ [9]) 4) = \<lparr>h_Flags = 1, h_Size = 100, h_Sequence = 700\<rparr>"
proof -
  have p: "chunk_header_Pack \<lparr>h_Flags = 1, h_Size = 100, h_Sequence = 700\<rparr> 4 = Some [0x46, 0xA4, 0xBC]"
    by (simp add: chunk_header_Pack_def to_byte_def NET_CHUNKFLAG_VITAL_def)
  show ?thesis using chunk_header_roundtrip [OF p, of "[9]"] p
    by (simp add: NET_MAX_SEQUENCE_def NET_CHUNKFLAG_VITAL_def)
qed

text \<open>C11. A packet survives the wire: what \<open>SendPacket\<close> writes, compressed or not, \<open>UnpackPacket\<close> reads
  back with the same control and resend flags, acknowledgement, number of chunks and payload; the token is
  in the 0.7 header or behind the 0.6 payload.\<close>

theorem packet_roundtrip:
  assumes "SendPacket p token sixup = Some buf" "m_DataSize p + 4 \<le> CHUNK_DATA_SIZE"
    "0 \<le> m_Ack p" "m_Ack p < NET_MAX_SEQUENCE" "m_aExtraData p = []"
  defines "data \<equiv> (if \<not> sixup \<and> token \<noteq> NET_SECURITY_TOKEN_UNSUPPORTED
                    then m_aChunkData p @ WriteSecurityToken token else m_aChunkData p)"
  shows "\<exists>d. UnpackPacket buf sixup True (Some t) (Some r) =
    (d, unpack_response
          (p\<lparr>m_Flags := m_Flags p OR (if d then NET_PACKETFLAG_COMPRESSION else 0), m_aChunkData := data\<rparr>)
          sixup (Some (if sixup then token else t)) (Some NET_SECURITY_TOKEN_UNKNOWN))"
proof -
  obtain d final f where f: "f = m_Flags p OR (if d then NET_PACKETFLAG_COMPRESSION else 0)"
    and buf: "buf = [first_byte (if sixup then PacketFlags_SixToSeven f else f) (m_Ack p),
        to_byte (m_Ack p AND 0xFF), to_byte (m_NumChunks p)] @
        (if sixup then WriteSecurityToken token else []) @ final"
    and final: "length final \<le> length data"
      "if d then net_Decompress final CHUNK_DATA_SIZE = Some data \<and> \<not> has_flag (m_Flags p) NET_PACKETFLAG_CONTROL
       else final = data"
    using SendPacket_shape [OF assms(1,2)] unfolding data_def by blast
  define w where "w = (if sixup then PacketFlags_SixToSeven f else f)"
  note valid = SendPacket_valid [OF assms(1)]
  have "m_Flags p \<in> {0, 4, 16, 20, 32, 36, 48, 52}" using valid valid_flags by blast
  then have f8: "f \<in> {0, 4, 16, 20, 32, 36, 48, 52}"
    by (elim insertE emptyE) (simp_all add: f NET_PACKETFLAG_COMPRESSION_def)
  note w = wire_flags [OF f8 w_def]
  have b0: "drop_bit 2 (uint (buf ! 0)) = w"
    "push_bit 8 (uint (buf ! 0) AND 0x3) OR uint (buf ! 1) = m_Ack p"
    "uint (buf ! 2) = m_NumChunks p"
    using w first_byte_flags first_byte_ack [OF assms(3,4)] valid_chunks valid
    by (simp_all add: buf uint_to_byte flip: w_def)
  have tok4: "length (WriteSecurityToken token) = 4" by (simp add: WriteSecurityToken_def uint_to_bytes_be_def)
  have "3 \<le> length buf" "length buf \<le> NET_MAX_PACKETSIZE" "sixup \<Longrightarrow> 7 \<le> length buf"
    using assms(2) final(1) tok4 by (auto simp: buf data_def net_sizes split: if_splits)
  note lens = this
  have flags: "UnpackPacketFlags buf = Some w"
    using lens b0 by (simp add: UnpackPacketFlags_def net_sizes)
  have rest: "drop (if sixup then 7 else 3) buf = final" by (simp add: buf tok4)
  have tok: "sixup \<Longrightarrow> ToSecurityToken (drop 3 buf) = token"
    using uint_be_roundtrip [of token final] by (simp add: buf ToSecurityToken_def WriteSecurityToken_def)
  let ?p = "\<lparr>m_Flags = f, m_Ack = m_Ack p, m_NumChunks = m_NumChunks p, m_aChunkData = final, m_aExtraData = []\<rparr>"
  have control: "has_flag (m_Flags p) NET_PACKETFLAG_CONTROL \<Longrightarrow> data \<noteq> []"
    using valid by (auto simp: IsValidConnectionOrientedPacket_def data_def split: if_splits)
  have "IsValidConnectionOrientedPacket
      (?p\<lparr>m_Flags := m_Flags p OR (if d then NET_PACKETFLAG_COMPRESSION else 0), m_NumChunks := m_NumChunks p,
       m_aChunkData := final\<rparr>)"
    by (rule valid_compressed) (use valid final control in \<open>auto split: if_splits\<close>)
  then have valid': "IsValidConnectionOrientedPacket ?p" by (simp add: f)
  have comp: "has_flag f NET_PACKETFLAG_COMPRESSION = d"
  proof (cases d)
    case False
    then show ?thesis using valid by (simp add: f)
  next
    case True
    have "(m_Flags p OR 32) AND 32 = 32" by (rule bit_eqI) (auto simp: bit_simps)
    then show ?thesis using True by (simp add: f has_flag_def NET_PACKETFLAG_COMPRESSION_def)
  qed
  have p': "p\<lparr>m_Flags := f, m_aChunkData := data\<rparr> = ?p\<lparr>m_aChunkData := data\<rparr>" using assms(5) by (cases p) simp
  have "UnpackPacket buf sixup True (Some t) (Some r) =
      (d, unpack_response (p\<lparr>m_Flags := f, m_aChunkData := data\<rparr>) sixup
            (Some (if sixup then token else t)) (Some NET_SECURITY_TOKEN_UNKNOWN))"
    unfolding UnpackPacket_def flags option.case Let_def b0 p' NET_PACKETHEADERSIZE_def
    using w lens valid' comp final(2) tok rest
    by (cases sixup; cases d) simp_all
  then show ?thesis unfolding f by blast
qed

theorem packet_roundtrip_witness:
  "SendPacket \<lparr>m_Flags = NET_PACKETFLAG_CONTROL, m_Ack = 300, m_NumChunks = 0, m_aChunkData = [0], m_aExtraData = []\<rparr> 7 True
     = Some [5, 44, 0, 0, 0, 0, 7, 0] \<and>
   (\<exists>d. UnpackPacket [5, 44, 0, 0, 0, 0, 7, 0] True True (Some 1) (Some 2) =
     (d, Unpacked \<lparr>m_Flags = 4 OR (if d then 32 else 0), m_Ack = 300, m_NumChunks = 0, m_aChunkData = [0], m_aExtraData = []\<rparr>
           True (Some 7) (Some (- 1))))"
proof -
  let ?p = "\<lparr>m_Flags = NET_PACKETFLAG_CONTROL, m_Ack = 300, m_NumChunks = 0, m_aChunkData = [0], m_aExtraData = []\<rparr>"
  have s: "SendPacket ?p 7 True = Some [5, 44, 0, 0, 0, 0, 7, 0]"
    by (simp add: SendPacket_def IsValidConnectionOrientedPacket_def has_flag_def net_flags net_sizes Let_def
        WriteSecurityToken_def uint_to_bytes_be_def PacketFlags_SixToSeven_def to_byte_def)
  have "\<exists>d. UnpackPacket [5, 44, 0, 0, 0, 0, 7, 0] True True (Some 1) (Some 2) =
      (d, unpack_response (?p\<lparr>m_Flags := NET_PACKETFLAG_CONTROL OR (if d then NET_PACKETFLAG_COMPRESSION else 0)\<rparr>)
            True (Some 7) (Some NET_SECURITY_TOKEN_UNKNOWN))"
    using packet_roundtrip [OF s, of 1 2] by (simp add: net_sizes)
  then obtain d where "UnpackPacket [5, 44, 0, 0, 0, 0, 7, 0] True True (Some 1) (Some 2) =
      (d, unpack_response (?p\<lparr>m_Flags := NET_PACKETFLAG_CONTROL OR (if d then NET_PACKETFLAG_COMPRESSION else 0)\<rparr>)
            True (Some 7) (Some NET_SECURITY_TOKEN_UNKNOWN))" ..
  then show ?thesis using s
    by (cases d) (auto simp: unpack_response_def NET_SECURITY_TOKEN_UNKNOWN_def net_flags)
qed

text \<open>C29. Whatever bytes arrive, a packet that \<open>UnpackPacket\<close> accepts is in range: its payload fits the chunk
  buffer, its acknowledgement is a sequence number, a connection-oriented packet is a valid one, and
  decompression happened only where it was allowed.\<close>

theorem UnpackPacket_sound:
  assumes "UnpackPacket buf sixup allow tok resp = (d, Unpacked p s t r)"
  shows "m_DataSize p \<le> CHUNK_DATA_SIZE \<and> 0 \<le> m_Ack p \<and> m_Ack p < NET_MAX_SEQUENCE \<and>
    has_flag (m_Flags p) NET_PACKETFLAG_CONNLESS = (\<not> IsValidConnectionOrientedPacket p) \<and> (d, allow) \<noteq> (True, False)"
proof (cases "UnpackPacketFlags buf")
  case None
  then show ?thesis using assms by (simp add: UnpackPacket_def Let_def)
next
  case (Some flags)
  have size: "length buf \<le> NET_MAX_PACKETSIZE"
    using Some by (auto simp: UnpackPacketFlags_def split: if_splits)
  show ?thesis
  proof (cases "has_flag flags NET_PACKETFLAG_CONNLESS")
    case True
    let ?sixup = "uint (buf ! 0) AND 0x3 = 1"
    have "m_aChunkData p = drop (if ?sixup then 9 else 6) buf \<and> m_Ack p = 0 \<and> \<not> d \<and>
        (m_Flags p = NET_PACKETFLAG_CONNLESS \<or> m_Flags p = NET_PACKETFLAG_CONNLESS OR NET_PACKETFLAG_EXTENDED)"
      using assms Some True by (auto simp: UnpackPacket_def Let_def split: if_splits)
    then show ?thesis using size
      by (auto simp: net_sizes IsValidConnectionOrientedPacket_def has_flag_def net_flags)
  next
    case False
    define six where "six = (sixup \<or> has_flag flags NET_PACKETFLAG_UNUSED)"
    define q where "q = \<lparr>m_Flags = (if six then PacketFlags_SevenToSix flags else flags),
      m_Ack = push_bit 8 (uint (buf ! 0) AND 0x3) OR uint (buf ! 1), m_NumChunks = uint (buf ! 2),
      m_aChunkData = drop (if six then 7 else NET_PACKETHEADERSIZE) buf, m_aExtraData = []\<rparr>"
    have cases: "IsValidConnectionOrientedPacket q \<and>
       (if has_flag (m_Flags q) NET_PACKETFLAG_COMPRESSION
        then allow \<and> (\<exists>data. net_Decompress (m_aChunkData q) CHUNK_DATA_SIZE = Some data \<and> p = q\<lparr>m_aChunkData := data\<rparr>)
        else \<not> d \<and> p = q)"
    proof -
      note u = assms [unfolded UnpackPacket_def Let_def Some option.case, folded six_def, folded q_def]
      show ?thesis using u False
        by (auto dest: unpack_response_packet split: if_splits option.splits simp del: push_bit_and)
    qed
    have valid: "IsValidConnectionOrientedPacket p"
      using cases by (auto simp: IsValidConnectionOrientedPacket_def split: if_splits)
    then have "\<not> has_flag (m_Flags p) NET_PACKETFLAG_CONNLESS"
      using valid_flags [OF valid] by (auto simp: has_flag_def net_flags)
    moreover have "m_DataSize p \<le> CHUNK_DATA_SIZE"
      using cases size by (auto simp: q_def net_sizes dest: net_Decompress_length split: if_splits)
    moreover have "m_Ack p = m_Ack q" "(d, allow) \<noteq> (True, False)"
      using cases by (auto split: if_splits)
    ultimately show ?thesis using valid ack_bits [of "buf ! 0" "buf ! 1"] by (simp add: q_def)
  qed
qed

theorem UnpackPacket_sound_witness:
  "snd (UnpackPacket [16, 9, 0, 0] False True (Some 1) (Some 2)) =
     Unpacked \<lparr>m_Flags = 4, m_Ack = 9, m_NumChunks = 0, m_aChunkData = [0], m_aExtraData = []\<rparr> False (Some 1) (Some (- 1)) \<and>
   IsValidConnectionOrientedPacket \<lparr>m_Flags = 4, m_Ack = 9, m_NumChunks = 0, m_aChunkData = [0], m_aExtraData = []\<rparr>"
proof -
  let ?p = "\<lparr>m_Flags = 4, m_Ack = 9, m_NumChunks = 0, m_aChunkData = [0], m_aExtraData = []\<rparr>"
  have u: "UnpackPacket [16, 9, 0, 0] False True (Some 1) (Some 2) = (False, Unpacked ?p False (Some 1) (Some (- 1)))"
    by (simp add: UnpackPacket_def UnpackPacketFlags_def IsValidConnectionOrientedPacket_def has_flag_def net_flags
        net_sizes Let_def unpack_response_def NET_SECURITY_TOKEN_UNKNOWN_def)
  have "has_flag (m_Flags ?p) NET_PACKETFLAG_CONNLESS = (\<not> IsValidConnectionOrientedPacket ?p)"
    using UnpackPacket_sound [OF u] by blast
  then show ?thesis using u by (simp add: has_flag_def NET_PACKETFLAG_CONNLESS_def)
qed

text \<open>The window arithmetic on ten-bit sequence numbers is exact: as long as a number is at most half the
  sequence space behind and less than half ahead, \<open>IsSeqInBackroom\<close> on the reduced numbers says whether it
  is not newer.\<close>

theorem backroom_window:
  assumes "a - NET_MAX_SEQUENCE div 2 \<le> n" "n < a + NET_MAX_SEQUENCE div 2"
  shows "IsSeqInBackroom (n mod NET_MAX_SEQUENCE) (a mod NET_MAX_SEQUENCE) \<longleftrightarrow> n \<le> a"
  using assms by (rule IsSeqInBackroom_mod)

theorem backroom_window_witness:
  "IsSeqInBackroom 1020 3 \<and> \<not> IsSeqInBackroom 3 1020"
  using backroom_window [of 1027 1020] backroom_window [of 1020 1027]
  by (simp add: NET_MAX_SEQUENCE_def)

end
