(* ===== verification/RingBuffer.thy ===== *)
theory RingBuffer
  imports Prelude
begin

text \<open>
  \<open>CRingBufferBase\<close> (\<open>src/engine/shared/ringbuffer.cpp\<close>), the queue of variable-sized blocks inside one
  piece of memory. A block is identified by the offset of its header; the chain of blocks from
  \<open>m_pFirst\<close> along \<open>m_pNext\<close> is a list, so \<open>m_pNext\<close>, \<open>m_pPrev\<close>, \<open>m_pFirst\<close> and \<open>m_pLast\<close> are positions in
  it. A data pointer is the offset of its block.
\<close>

section \<open>State\<close>

record item =
  m_Addr :: nat
  m_Free :: bool
  m_Size :: nat

record ring =
  m_Items :: "item list"
  m_pProduce :: nat
  m_pConsume :: nat
  m_RingSize :: nat
  m_Recycle :: bool

definition ITEM_SIZE :: nat where "ITEM_SIZE = 24"

text \<open>The block behind and before the one at an offset (\<open>m_pNext\<close>, \<open>m_pPrev\<close>), and the block itself.\<close>

fun next_item :: "item list \<Rightarrow> nat \<Rightarrow> nat option" where
  "next_item (x # y # ys) a = (if m_Addr x = a then Some (m_Addr y) else next_item (y # ys) a)"
| "next_item _ a = None"

fun prev_item :: "item list \<Rightarrow> nat \<Rightarrow> item option" where
  "prev_item (x # y # ys) a = (if m_Addr y = a then Some x else prev_item (y # ys) a)"
| "prev_item _ a = None"

fun item_at :: "item list \<Rightarrow> nat \<Rightarrow> item" where
  "item_at (x # xs) a = (if m_Addr x = a then x else item_at xs a)"
| "item_at [] a = \<lparr>m_Addr = a, m_Free = False, m_Size = 0\<rparr>"

definition is_free :: "ring \<Rightarrow> nat \<Rightarrow> bool" where
  "is_free rb a \<longleftrightarrow> m_Free (item_at (m_Items rb) a)"

definition NextBlock :: "ring \<Rightarrow> nat \<Rightarrow> nat" where
  "NextBlock rb a = (case next_item (m_Items rb) a of Some b \<Rightarrow> b | None \<Rightarrow> m_Addr (hd (m_Items rb)))"

definition PrevBlock :: "ring \<Rightarrow> nat \<Rightarrow> nat" where
  "PrevBlock rb a = (case prev_item (m_Items rb) a of Some b \<Rightarrow> m_Addr b | None \<Rightarrow> m_Addr (last (m_Items rb)))"

section \<open>Operations\<close>

fun merge_item :: "item list \<Rightarrow> nat \<Rightarrow> item list" where
  "merge_item (x # y # ys) a =
     (if m_Addr y = a then x\<lparr>m_Size := m_Size x + m_Size y\<rparr> # ys else x # merge_item (y # ys) a)"
| "merge_item xs a = xs"

definition MergeBack :: "ring \<Rightarrow> nat \<Rightarrow> ring \<times> nat" where
  "MergeBack rb a =
     (case prev_item (m_Items rb) a of
        None \<Rightarrow> (rb, a)
      | Some p \<Rightarrow>
          if \<not> is_free rb a \<or> \<not> m_Free p then (rb, a)
          else (rb\<lparr>m_Items := merge_item (m_Items rb) a,
                   m_pProduce := (if a = m_pProduce rb then m_Addr p else m_pProduce rb),
                   m_pConsume := (if a = m_pConsume rb then m_Addr p else m_pConsume rb)\<rparr>, m_Addr p))"

definition ring_Clear :: "ring \<Rightarrow> ring" where
  "ring_Clear rb = rb\<lparr>m_Items := [\<lparr>m_Addr = 0, m_Free = True, m_Size = m_RingSize rb\<rparr>],
     m_pProduce := 0, m_pConsume := 0\<rparr>"

definition ring_Init :: "nat \<Rightarrow> bool \<Rightarrow> ring" where
  "ring_Init sz recycle = ring_Clear
     \<lparr>m_Items = [], m_pProduce = 0, m_pConsume = 0, m_RingSize = sz div ITEM_SIZE * ITEM_SIZE, m_Recycle = recycle\<rparr>"

definition set_item_free :: "bool \<Rightarrow> nat \<Rightarrow> item list \<Rightarrow> item list" where
  "set_item_free f a xs = map (\<lambda>x. if m_Addr x = a then x\<lparr>m_Free := f\<rparr> else x) xs"

text \<open>The loop of \<open>PopFirst\<close>; the fuel is the number of blocks, more than the loop ever walks.\<close>

fun pop_loop :: "nat \<Rightarrow> ring \<Rightarrow> ring" where
  "pop_loop 0 rb = rb"
| "pop_loop (Suc fuel) rb =
     (if is_free rb (m_pConsume rb) \<and> m_pConsume rb \<noteq> m_pProduce rb then
        let (rb, a) = MergeBack rb (m_pConsume rb);
            rb = rb\<lparr>m_pConsume := a\<rparr>
        in pop_loop fuel (rb\<lparr>m_pConsume := NextBlock rb (m_pConsume rb)\<rparr>)
      else rb)"

definition PopFirst :: "ring \<Rightarrow> ring \<times> bool" where
  "PopFirst rb =
     (if is_free rb (m_pConsume rb) then (rb, False)
      else
        let rb = rb\<lparr>m_Items := set_item_free True (m_pConsume rb) (m_Items rb)\<rparr>;
            (rb, a) = MergeBack rb (m_pConsume rb);
            rb = rb\<lparr>m_pConsume := a\<rparr>;
            rb = rb\<lparr>m_pConsume := NextBlock rb (m_pConsume rb)\<rparr>;
            rb = pop_loop (length (m_Items rb)) rb
        in (fst (MergeBack rb (m_pConsume rb)), True))"

text \<open>The block an allocation of \<open>wanted\<close> bytes would take: the producer's, or the first one.\<close>

definition find_block :: "ring \<Rightarrow> nat \<Rightarrow> nat option" where
  "find_block rb wanted =
     (if is_free rb (m_pProduce rb) then
        if m_Size (item_at (m_Items rb) (m_pProduce rb)) \<ge> wanted then Some (m_pProduce rb)
        else
          let first = hd (m_Items rb)
          in if m_Free first \<and> m_Size first \<ge> wanted then Some (m_Addr first) else None
      else None)"

fun split_item :: "item list \<Rightarrow> nat \<Rightarrow> nat \<Rightarrow> item list" where
  "split_item (x # xs) a wanted =
     (if m_Addr x = a then
        if m_Size x > wanted + ITEM_SIZE then
          x\<lparr>m_Size := wanted\<rparr> # \<lparr>m_Addr = a + wanted, m_Free = True, m_Size = m_Size x - wanted\<rparr> # xs
        else x # xs
      else x # split_item xs a wanted)"
| "split_item [] a wanted = []"

definition take_block :: "ring \<Rightarrow> nat \<Rightarrow> nat \<Rightarrow> ring" where
  "take_block rb a wanted =
     (let rb = rb\<lparr>m_Items := split_item (m_Items rb) a wanted\<rparr>;
          rb = rb\<lparr>m_pProduce := NextBlock rb a\<rparr>
      in rb\<lparr>m_Items := set_item_free False a (m_Items rb)\<rparr>)"

definition used_items :: "item list \<Rightarrow> item list" where
  "used_items xs = filter (\<lambda>x. \<not> m_Free x) xs"

definition wanted_size :: "nat \<Rightarrow> nat" where
  "wanted_size sz = (sz + ITEM_SIZE + ITEM_SIZE - 1) div ITEM_SIZE * ITEM_SIZE"

text \<open>The search loop: with \<open>FLAG_RECYCLE\<close> the oldest block is dropped until there is room; every round
  frees a block, so the number of used blocks bounds it.\<close>

fun alloc_loop :: "nat \<Rightarrow> ring \<Rightarrow> nat \<Rightarrow> ring \<times> nat option" where
  "alloc_loop 0 rb wanted = (rb, None)"
| "alloc_loop (Suc fuel) rb wanted =
     (case find_block rb wanted of
        Some a \<Rightarrow> (take_block rb a wanted, Some a)
      | None \<Rightarrow>
          if m_Recycle rb then
            let (rb, popped) = PopFirst rb
            in if popped then alloc_loop fuel rb wanted else (rb, None)
          else (rb, None))"

definition Allocate :: "ring \<Rightarrow> nat \<Rightarrow> ring \<times> nat option" where
  "Allocate rb sz =
     (let wanted = wanted_size sz in
      if wanted > m_RingSize rb then (rb, None)
      else alloc_loop (Suc (length (used_items (m_Items rb)))) rb wanted)"

text \<open>Walking: the fuel is the number of blocks; a full turn always meets the producer.\<close>

fun ring_Next_loop :: "nat \<Rightarrow> ring \<Rightarrow> nat \<Rightarrow> nat option" where
  "ring_Next_loop 0 rb a = None"
| "ring_Next_loop (Suc fuel) rb a =
     (let a = NextBlock rb a in
      if a = m_pProduce rb then None
      else if \<not> is_free rb a then Some a else ring_Next_loop fuel rb a)"

definition ring_Next :: "ring \<Rightarrow> nat \<Rightarrow> nat option" where
  "ring_Next rb a = ring_Next_loop (length (m_Items rb)) rb a"

fun ring_Prev_loop :: "nat \<Rightarrow> ring \<Rightarrow> nat \<Rightarrow> nat option" where
  "ring_Prev_loop 0 rb a = None"
| "ring_Prev_loop (Suc fuel) rb a =
     (let a = PrevBlock rb a in
      if a = m_pProduce rb then None
      else if \<not> is_free rb a then Some a else ring_Prev_loop fuel rb a)"

definition ring_Prev :: "ring \<Rightarrow> nat \<Rightarrow> nat option" where
  "ring_Prev rb a = ring_Prev_loop (length (m_Items rb)) rb a"

definition ring_First :: "ring \<Rightarrow> nat option" where
  "ring_First rb = (if is_free rb (m_pConsume rb) then None else Some (m_pConsume rb))"

definition ring_Last :: "ring \<Rightarrow> nat option" where
  "ring_Last rb = ring_Prev rb (m_pProduce rb)"

section \<open>The chain of blocks\<close>

text \<open>The blocks tile the memory from the start offset on.\<close>

fun tiled :: "nat \<Rightarrow> item list \<Rightarrow> bool" where
  "tiled a [] \<longleftrightarrow> True"
| "tiled a (x # xs) \<longleftrightarrow> m_Addr x = a \<and> 0 < m_Size x \<and> tiled (a + m_Size x) xs"

definition total_size :: "item list \<Rightarrow> nat" where
  "total_size xs = sum_list (map m_Size xs)"

lemma total_size_simps [simp]:
  "total_size [] = 0" "total_size (x # xs) = m_Size x + total_size xs"
  "total_size (xs @ ys) = total_size xs + total_size ys"
  by (simp_all add: total_size_def)

lemma tiled_append [simp]: "tiled a (xs @ ys) \<longleftrightarrow> tiled a xs \<and> tiled (a + total_size xs) ys"
  by (induction xs arbitrary: a) (auto simp: add.assoc)

lemma tiled_ge: "tiled a xs \<Longrightarrow> x \<in> set xs \<Longrightarrow> a \<le> m_Addr x"
  by (induction xs arbitrary: a) fastforce+

lemma tiled_less: "tiled a xs \<Longrightarrow> x \<in> set xs \<Longrightarrow> m_Addr x < a + total_size xs"
  by (induction xs arbitrary: a) fastforce+

lemma tiled_distinct: "tiled a xs \<Longrightarrow> distinct (map m_Addr xs)"
proof (induction xs arbitrary: a)
  case (Cons x xs)
  have "m_Addr x \<notin> m_Addr ` set xs"
  proof
    assume "m_Addr x \<in> m_Addr ` set xs"
    then obtain y where "y \<in> set xs" "m_Addr y = m_Addr x" by auto
    then show False using Cons.prems tiled_ge [of "a + m_Size x" xs y] by auto
  qed
  then show ?case using Cons by auto
qed simp

lemma tiled_end: "tiled a xs \<Longrightarrow> x \<in> set xs \<Longrightarrow> m_Addr x + m_Size x \<le> a + total_size xs"
  by (induction xs arbitrary: a) fastforce+

lemma tiled_disjoint:
  "tiled a xs \<Longrightarrow> x \<in> set xs \<Longrightarrow> y \<in> set xs \<Longrightarrow> x \<noteq> y \<Longrightarrow>
   m_Addr x + m_Size x \<le> m_Addr y \<or> m_Addr y + m_Size y \<le> m_Addr x"
proof (induction xs arbitrary: a)
  case (Cons z xs)
  note t = Cons.prems(1) [unfolded tiled.simps]
  from Cons.prems consider "x = z" "y \<in> set xs" | "y = z" "x \<in> set xs" | "x \<in> set xs" "y \<in> set xs"
    by auto
  then show ?case
  proof cases
    case 1
    then have "a + m_Size z \<le> m_Addr y" using t tiled_ge by blast
    then show ?thesis using t 1 by simp
  next
    case 2
    then have "a + m_Size z \<le> m_Addr x" using t tiled_ge by blast
    then show ?thesis using t 2 by simp
  next
    case 3
    then show ?thesis using Cons.IH t Cons.prems(4) by blast
  qed
qed simp

abbreviation addrs :: "item list \<Rightarrow> nat set" where
  "addrs xs \<equiv> m_Addr ` set xs"

text \<open>Looking at a block whose position is known.\<close>

lemma item_at_split: "m_Addr x \<notin> addrs xs \<Longrightarrow> item_at (xs @ x # ys) (m_Addr x) = x"
  by (induction xs) auto

lemma next_item_split:
  "m_Addr x \<notin> addrs xs \<Longrightarrow> next_item (xs @ x # y # ys) (m_Addr x) = Some (m_Addr y)"
  by (induction xs rule: induct_list012) auto

lemma next_item_last: "m_Addr x \<notin> addrs xs \<Longrightarrow> next_item (xs @ [x]) (m_Addr x) = None"
  by (induction xs rule: induct_list012) auto

lemma prev_item_split:
  "m_Addr y \<notin> addrs xs \<Longrightarrow> m_Addr y \<noteq> m_Addr x \<Longrightarrow> prev_item (xs @ x # y # ys) (m_Addr y) = Some x"
  by (induction xs rule: induct_list012) auto

lemma prev_item_none: "a \<notin> addrs ys \<Longrightarrow> prev_item (x # ys) a = None"
  by (induction ys arbitrary: x) auto

lemma merge_item_split:
  "m_Addr y \<notin> addrs xs \<Longrightarrow> m_Addr y \<noteq> m_Addr x \<Longrightarrow>
   merge_item (xs @ x # y # ys) (m_Addr y) = xs @ x\<lparr>m_Size := m_Size x + m_Size y\<rparr> # ys"
  by (induction xs rule: induct_list012) auto

lemma set_item_free_split:
  "m_Addr x \<notin> addrs xs \<union> addrs ys \<Longrightarrow>
   set_item_free f (m_Addr x) (xs @ x # ys) = xs @ x\<lparr>m_Free := f\<rparr> # ys"
  by (auto simp: set_item_free_def image_iff intro!: map_idI)

lemma split_item_split:
  "m_Addr x \<notin> addrs xs \<Longrightarrow> split_item (xs @ x # ys) (m_Addr x) n =
   xs @ (if m_Size x > n + ITEM_SIZE
         then x\<lparr>m_Size := n\<rparr> # \<lparr>m_Addr = m_Addr x + n, m_Free = True, m_Size = m_Size x - n\<rparr> # ys
         else x # ys)"
  by (induction xs) auto

lemma NextBlock_split:
  assumes "m_Items rb = xs @ x # ys" "m_Addr x \<notin> addrs xs"
  shows "NextBlock rb (m_Addr x) = m_Addr (hd (ys @ xs @ [x]))"
proof (cases ys)
  case Nil
  then have "next_item (m_Items rb) (m_Addr x) = None" using assms by (simp add: next_item_last)
  then show ?thesis using assms Nil by (cases xs) (simp_all add: NextBlock_def)
next
  case (Cons y ys')
  then show ?thesis using assms by (simp add: NextBlock_def next_item_split)
qed

text \<open>\<open>MergeBack\<close> on a block behind a free one, behind a used one, in front, and on a used block.\<close>

lemma MergeBack_free:
  assumes "m_Items rb = xs @ f # e # ys" "m_Free f" "m_Free e" "m_Addr e \<notin> addrs xs" "m_Addr e \<noteq> m_Addr f"
  shows "MergeBack rb (m_Addr e) =
    (rb\<lparr>m_Items := xs @ f\<lparr>m_Size := m_Size f + m_Size e\<rparr> # ys,
        m_pProduce := (if m_Addr e = m_pProduce rb then m_Addr f else m_pProduce rb),
        m_pConsume := (if m_Addr e = m_pConsume rb then m_Addr f else m_pConsume rb)\<rparr>, m_Addr f)"
proof -
  have "item_at ((xs @ [f]) @ e # ys) (m_Addr e) = e" using assms by (intro item_at_split) auto
  then show ?thesis using assms
    by (simp add: MergeBack_def is_free_def prev_item_split merge_item_split)
qed

lemma MergeBack_behind_used:
  assumes "m_Items rb = xs @ u # e # ys" "\<not> m_Free u" "m_Addr e \<notin> addrs xs" "m_Addr e \<noteq> m_Addr u"
  shows "MergeBack rb (m_Addr e) = (rb, m_Addr e)"
  using assms by (simp add: MergeBack_def prev_item_split)

lemma MergeBack_first:
  assumes "m_Items rb = e # ys" "m_Addr e \<notin> addrs ys"
  shows "MergeBack rb (m_Addr e) = (rb, m_Addr e)"
  using assms by (simp add: MergeBack_def prev_item_none)

lemma MergeBack_used:
  assumes "m_Items rb = xs @ u # ys" "\<not> m_Free u" "m_Addr u \<notin> addrs xs"
  shows "MergeBack rb (m_Addr u) = (rb, m_Addr u)"
  using assms by (auto simp: MergeBack_def is_free_def item_at_split split: option.splits)

section \<open>The shapes of a ring\<close>

definition gap :: "item list \<Rightarrow> bool" where
  "gap F \<longleftrightarrow> length F \<le> 1 \<and> (\<forall>x\<in>set F. m_Free x)"

definition used :: "item list \<Rightarrow> bool" where
  "used U \<longleftrightarrow> (\<forall>x\<in>set U. \<not> m_Free x)"

lemma gap_cases [consumes 1, case_names none one]: "gap F \<Longrightarrow> (F = [] \<Longrightarrow> P) \<Longrightarrow> (\<And>f. F = [f] \<Longrightarrow> m_Free f \<Longrightarrow> P) \<Longrightarrow> P"
  by (cases F; cases "tl F") (auto simp: gap_def)

lemma gap_simps [simp]: "gap []" "gap [f] \<longleftrightarrow> m_Free f"
  by (simp_all add: gap_def)

lemma used_simps [simp]: "used []" "used (x # xs) \<longleftrightarrow> \<not> m_Free x \<and> used xs" "used (xs @ ys) \<longleftrightarrow> used xs \<and> used ys"
  by (auto simp: used_def)

text \<open>Nothing used; the used blocks in one piece; or the newer ones in front of the older ones.\<close>

definition vacant :: "ring \<Rightarrow> bool" where
  "vacant rb \<longleftrightarrow> (\<exists>f. m_Items rb = [f] \<and> m_Free f \<and> m_pProduce rb = m_Addr f \<and> m_pConsume rb = m_Addr f)"

definition straight :: "ring \<Rightarrow> item list \<Rightarrow> item list \<Rightarrow> item list \<Rightarrow> bool" where
  "straight rb F U G \<longleftrightarrow> m_Items rb = F @ U @ G \<and> gap F \<and> gap G \<and> used U \<and> U \<noteq> [] \<and>
     m_pConsume rb = m_Addr (hd U) \<and> m_pProduce rb = m_Addr (hd (G @ F @ U))"

definition wrapped :: "ring \<Rightarrow> item list \<Rightarrow> item list \<Rightarrow> item list \<Rightarrow> item list \<Rightarrow> bool" where
  "wrapped rb V F U E \<longleftrightarrow> m_Items rb = V @ F @ U @ E \<and> gap F \<and> gap E \<and> used U \<and> used V \<and> U \<noteq> [] \<and> V \<noteq> [] \<and>
     m_pConsume rb = m_Addr (hd U) \<and> m_pProduce rb = m_Addr (hd (F @ U))"

definition shaped :: "ring \<Rightarrow> bool" where
  "shaped rb \<longleftrightarrow> vacant rb \<or> (\<exists>F U G. straight rb F U G) \<or> (\<exists>V F U E. wrapped rb V F U E)"

definition ring_ok :: "ring \<Rightarrow> bool" where
  "ring_ok rb \<longleftrightarrow> tiled 0 (m_Items rb) \<and> total_size (m_Items rb) = m_RingSize rb \<and> shaped rb"

text \<open>The used blocks from the oldest to the newest.\<close>

definition contents :: "ring \<Rightarrow> item list" where
  "contents rb =
     (if is_free rb (m_pConsume rb) then []
      else dropWhile (\<lambda>x. m_Addr x \<noteq> m_pConsume rb) (used_items (m_Items rb)) @
           takeWhile (\<lambda>x. m_Addr x \<noteq> m_pConsume rb) (used_items (m_Items rb)))"

lemma used_items_simps [simp]:
  "used_items [] = []" "used_items (xs @ ys) = used_items xs @ used_items ys"
  "used_items (x # xs) = (if m_Free x then used_items xs else x # used_items xs)"
  by (simp_all add: used_items_def)

lemma used_items_gap [simp]: "gap F \<Longrightarrow> used_items F = []"
  by (auto simp: gap_def used_items_def)

lemma used_items_used [simp]: "used U \<Longrightarrow> used_items U = U"
  by (simp add: used_def used_items_def)

lemma contents_vacant: "vacant rb \<Longrightarrow> contents rb = []"
  by (auto simp: vacant_def contents_def is_free_def)

lemma is_free_split:
  "m_Items rb = xs @ x # ys \<Longrightarrow> m_Addr x \<notin> addrs xs \<Longrightarrow> is_free rb (m_Addr x) = m_Free x"
  by (simp add: is_free_def item_at_split)

lemma contents_straight:
  assumes "straight rb F U G" "tiled 0 (m_Items rb)"
  shows "contents rb = U"
proof -
  obtain u U' where U: "U = u # U'" using assms(1) by (cases U) (auto simp: straight_def)
  have d: "distinct (map m_Addr (F @ u # U' @ G))"
    using tiled_distinct [OF assms(2)] assms(1) by (simp add: straight_def U)
  then have "is_free rb (m_Addr u) = m_Free u"
    using assms(1) by (intro is_free_split [of _ F u "U' @ G"]) (auto simp: straight_def U)
  then show ?thesis using assms(1) by (simp add: contents_def straight_def U)
qed

lemma contents_wrapped:
  assumes "wrapped rb V F U E" "tiled 0 (m_Items rb)"
  shows "contents rb = U @ V"
proof -
  obtain u U' where U: "U = u # U'" using assms(1) by (cases U) (auto simp: wrapped_def)
  have d: "distinct (map m_Addr ((V @ F) @ u # U' @ E))"
    using tiled_distinct [OF assms(2)] assms(1) by (simp add: wrapped_def U)
  then have "is_free rb (m_Addr u) = m_Free u"
    using assms(1) by (intro is_free_split [of _ "V @ F" u "U' @ E"]) (auto simp: wrapped_def U)
  moreover have "\<forall>x\<in>set V. m_Addr x \<noteq> m_Addr u" using d by (auto simp: image_iff)
  then have "takeWhile (\<lambda>x. m_Addr x \<noteq> m_Addr u) (V @ u # U') = V"
    "dropWhile (\<lambda>x. m_Addr x \<noteq> m_Addr u) (V @ u # U') = u # U'"
    by (simp_all add: takeWhile_append dropWhile_append)
  ultimately show ?thesis using assms(1) by (simp add: contents_def wrapped_def U)
qed

section \<open>Dropping the oldest block\<close>

text \<open>The oldest block becomes free and joins the gap before it.\<close>

lemma pop_merge:
  assumes "m_Items rb = V @ F @ u # Q" "used V" "gap F" "tiled 0 (m_Items rb)"
  defines "rb1 \<equiv> rb\<lparr>m_Items := set_item_free True (m_Addr u) (m_Items rb)\<rparr>"
  obtains g where "m_Free g" "m_Addr g = m_Addr (hd (F @ [u]))" "m_Size g = total_size (F @ [u])"
    "MergeBack rb1 (m_Addr u) =
      (rb\<lparr>m_Items := V @ g # Q,
          m_pProduce := (if m_Addr u = m_pProduce rb then m_Addr g else m_pProduce rb),
          m_pConsume := (if m_Addr u = m_pConsume rb then m_Addr g else m_pConsume rb)\<rparr>, m_Addr g)"
proof -
  have d: "distinct (map m_Addr (V @ F @ u # Q))"
    using tiled_distinct [OF assms(4)] by (simp add: assms(1))
  let ?u = "u\<lparr>m_Free := True\<rparr>"
  have items: "m_Items rb1 = V @ F @ ?u # Q"
  proof -
    have "m_Addr u \<notin> addrs (V @ F) \<union> addrs Q" using d by (auto simp: image_Un)
    from set_item_free_split [OF this, of True] show ?thesis by (simp add: rb1_def assms(1))
  qed
  have u: "m_Addr u = m_Addr ?u" by simp
  show thesis using assms(3)
  proof (cases rule: gap_cases)
    case none
    have "MergeBack rb1 (m_Addr ?u) = (rb1, m_Addr ?u)"
    proof (cases V rule: rev_cases)
      case Nil
      then show ?thesis using items d none by (intro MergeBack_first [of _ _ Q]) auto
    next
      case (snoc V' v)
      then show ?thesis using items d none assms(2)
        by (intro MergeBack_behind_used [of _ V' v _ Q]) auto
    qed
    then show thesis using that [of ?u] items none by (simp add: rb1_def)
  next
    case (one f)
    have "MergeBack rb1 (m_Addr ?u) =
      (rb1\<lparr>m_Items := V @ f\<lparr>m_Size := m_Size f + m_Size ?u\<rparr> # Q,
        m_pProduce := (if m_Addr ?u = m_pProduce rb1 then m_Addr f else m_pProduce rb1),
        m_pConsume := (if m_Addr ?u = m_pConsume rb1 then m_Addr f else m_pConsume rb1)\<rparr>, m_Addr f)"
      by (rule MergeBack_free) (use items d one in auto)
    then show thesis using that [of "f\<lparr>m_Size := m_Size f + m_Size u\<rparr>"] one by (simp add: rb1_def)
  qed
qed

text \<open>\<open>PopFirst\<close> from there on: \<open>g\<close> is the freed block, in front of it the newer blocks.\<close>

definition pop_rest :: "ring \<Rightarrow> ring" where
  "pop_rest rb =
     (let rb = pop_loop (length (m_Items rb)) (rb\<lparr>m_pConsume := NextBlock rb (m_pConsume rb)\<rparr>)
      in fst (MergeBack rb (m_pConsume rb)))"

lemma PopFirst_rest:
  assumes "m_Items rb = V @ F @ u # Q" "used V" "gap F" "\<not> m_Free u" "tiled 0 (m_Items rb)"
    "m_pConsume rb = m_Addr u"
  obtains g where "m_Free g" "m_Addr g = m_Addr (hd (F @ [u]))" "m_Size g = total_size (F @ [u])"
    "PopFirst rb = (pop_rest (rb\<lparr>m_Items := V @ g # Q,
       m_pProduce := (if m_Addr u = m_pProduce rb then m_Addr g else m_pProduce rb), m_pConsume := m_Addr g\<rparr>), True)"
proof -
  have d: "distinct (map m_Addr ((V @ F) @ u # Q))"
    using tiled_distinct [OF assms(5)] by (simp add: assms(1))
  then have "is_free rb (m_Addr u) = m_Free u"
    by (intro is_free_split [of _ "V @ F" u Q]) (auto simp: assms(1))
  then have used: "\<not> is_free rb (m_pConsume rb)" using assms(4,6) by simp
  obtain g where g: "m_Free g" "m_Addr g = m_Addr (hd (F @ [u]))" "m_Size g = total_size (F @ [u])"
    "MergeBack (rb\<lparr>m_Items := set_item_free True (m_Addr u) (m_Items rb)\<rparr>) (m_Addr u) =
      (rb\<lparr>m_Items := V @ g # Q,
          m_pProduce := (if m_Addr u = m_pProduce rb then m_Addr g else m_pProduce rb),
          m_pConsume := (if m_Addr u = m_pConsume rb then m_Addr g else m_pConsume rb)\<rparr>, m_Addr g)"
    using pop_merge [OF assms(1,2,3,5)] by blast
  show thesis
    by (rule that [OF g(1-3)]) (use used g(4) in \<open>simp add: PopFirst_def pop_rest_def assms(6) Let_def\<close>)
qed

lemma pop_loop_stop: "\<not> (is_free rb (m_pConsume rb) \<and> m_pConsume rb \<noteq> m_pProduce rb) \<Longrightarrow> pop_loop n rb = rb"
  by (cases n) auto

lemma ring_okI:
  assumes "tiled 0 (m_Items rb)" "total_size (m_Items rb) = m_RingSize rb"
    "straight rb F U G \<or> wrapped rb V F U E \<or> vacant rb"
  shows "ring_ok rb"
  using assms unfolding ring_ok_def shaped_def by blast

text \<open>What an operation must leave behind: a good ring with the given contents and parameters.\<close>

definition ring_after :: "ring \<Rightarrow> item list \<Rightarrow> ring \<Rightarrow> bool" where
  "ring_after rb xs rb' \<longleftrightarrow> ring_ok rb' \<and> contents rb' = xs \<and>
     m_RingSize rb' = m_RingSize rb \<and> m_Recycle rb' = m_Recycle rb"

lemma ring_after_straight:
  "straight rb' F U G \<Longrightarrow> tiled 0 (m_Items rb') \<Longrightarrow> total_size (m_Items rb') = m_RingSize rb' \<Longrightarrow>
   m_RingSize rb' = m_RingSize rb \<Longrightarrow> m_Recycle rb' = m_Recycle rb \<Longrightarrow> ring_after rb U rb'"
  unfolding ring_after_def ring_ok_def shaped_def using contents_straight by blast

lemma ring_after_wrapped:
  "wrapped rb' V F U E \<Longrightarrow> tiled 0 (m_Items rb') \<Longrightarrow> total_size (m_Items rb') = m_RingSize rb' \<Longrightarrow>
   m_RingSize rb' = m_RingSize rb \<Longrightarrow> m_Recycle rb' = m_Recycle rb \<Longrightarrow> ring_after rb (U @ V) rb'"
  unfolding ring_after_def ring_ok_def shaped_def using contents_wrapped by blast

lemma ring_after_vacant:
  "vacant rb' \<Longrightarrow> tiled 0 (m_Items rb') \<Longrightarrow> total_size (m_Items rb') = m_RingSize rb' \<Longrightarrow>
   m_RingSize rb' = m_RingSize rb \<Longrightarrow> m_Recycle rb' = m_Recycle rb \<Longrightarrow> ring_after rb [] rb'"
  unfolding ring_after_def ring_ok_def shaped_def using contents_vacant by blast

lemma pop_rest_straight:
  assumes "m_Items rb = g # U @ G" "m_Free g" "used U" "gap G" "tiled 0 (m_Items rb)"
    "total_size (m_Items rb) = m_RingSize rb" "m_pConsume rb = m_Addr g" "m_pProduce rb = m_Addr (hd (G @ [g]))"
  shows "ring_after rb U (pop_rest rb)"
proof -
  have d: "distinct (map m_Addr (g # U @ G))" using tiled_distinct [OF assms(5)] by (simp add: assms(1))
  have nb: "NextBlock rb (m_pConsume rb) = m_Addr (hd (U @ G @ [g]))"
    using NextBlock_split [of rb "[]" g "U @ G"] by (simp add: assms(1,7))
  show ?thesis
  proof (cases U)
    case (Cons v U')
    let ?rb = "rb\<lparr>m_pConsume := m_Addr v\<rparr>"
    have "is_free ?rb (m_Addr v) = m_Free v"
      by (rule is_free_split [of _ "[g]" v "U' @ G"]) (use d Cons in \<open>simp_all add: assms(1)\<close>)
    then have "pop_loop (length (m_Items rb)) ?rb = ?rb" using assms(3) Cons by (intro pop_loop_stop) simp
    moreover have "MergeBack ?rb (m_Addr v) = (?rb, m_Addr v)"
      by (rule MergeBack_used [of _ "[g]" v "U' @ G"]) (use d Cons assms(3) in \<open>simp_all add: assms(1)\<close>)
    ultimately have r: "pop_rest rb = ?rb" using nb Cons by (simp add: pop_rest_def)
    show ?thesis unfolding r
      by (rule ring_after_straight [of _ "[g]" U G])
        (use assms Cons in \<open>auto simp: straight_def elim!: gap_cases [of G]\<close>)
  next
    case Nil
    show ?thesis using assms(4)
    proof (cases rule: gap_cases)
      case none
      have pm1: "pop_loop (length (m_Items rb)) rb = rb"
        using assms(7,8) none by (intro pop_loop_stop) simp
      have pm2: "MergeBack rb (m_Addr g) = (rb, m_Addr g)"
        by (rule MergeBack_first [of _ _ "[]"]) (use Nil none in \<open>simp_all add: assms(1)\<close>)
      have e: "rb\<lparr>m_pConsume := m_Addr g\<rparr> = rb" using assms(7) by (cases rb) simp
      have n: "NextBlock rb (m_Addr g) = m_Addr g" using nb Nil none assms(7) by simp
      have r: "pop_rest rb = rb"
        unfolding pop_rest_def Let_def assms(7) n e pm1 pm2 by simp
      have "vacant rb" using assms(1,2,7,8) Nil none by (simp add: vacant_def)
      then show ?thesis unfolding r Nil by (rule ring_after_vacant) (use assms in simp_all)
    next
      case (one e)
      let ?rb = "rb\<lparr>m_pConsume := m_Addr e\<rparr>"
      have "pop_loop (length (m_Items rb)) ?rb = ?rb"
        using assms(8) one by (intro pop_loop_stop) simp
      moreover have "MergeBack ?rb (m_Addr e) = (?rb\<lparr>m_Items := [] @ g\<lparr>m_Size := m_Size g + m_Size e\<rparr> # [],
          m_pProduce := (if m_Addr e = m_pProduce ?rb then m_Addr g else m_pProduce ?rb),
          m_pConsume := (if m_Addr e = m_pConsume ?rb then m_Addr g else m_pConsume ?rb)\<rparr>, m_Addr g)"
        by (rule MergeBack_free) (use assms(1,2) one Nil d in auto)
      ultimately have r: "pop_rest rb = rb\<lparr>m_Items := [g\<lparr>m_Size := m_Size g + m_Size e\<rparr>],
          m_pProduce := m_Addr g, m_pConsume := m_Addr g\<rparr>"
        using nb Nil one assms(8) by (simp add: pop_rest_def)
      show ?thesis unfolding r Nil
        by (rule ring_after_vacant) (use assms(1,2,5,6) Nil one in \<open>simp_all add: vacant_def\<close>)
    qed
  qed
qed

lemma pop_rest_wrapped:
  assumes "m_Items rb = V @ g # U @ E" "m_Free g" "used U" "used V" "V \<noteq> []" "gap E" "tiled 0 (m_Items rb)"
    "total_size (m_Items rb) = m_RingSize rb" "m_pConsume rb = m_Addr g" "m_pProduce rb = m_Addr g"
  shows "ring_after rb (U @ V) (pop_rest rb)"
proof -
  obtain v V' where V: "V = v # V'" using assms(5) by (cases V) auto
  have d: "distinct (map m_Addr (V @ g # U @ E))" using tiled_distinct [OF assms(7)] by (simp add: assms(1))
  have nb: "NextBlock rb (m_pConsume rb) = m_Addr (hd (U @ E @ V @ [g]))"
    using NextBlock_split [of rb V g "U @ E"] d by (auto simp: assms(1,9))
  have front: "is_free rb' (m_Addr v) = m_Free v" "MergeBack rb' (m_Addr v) = (rb', m_Addr v)"
    if "m_Items rb' = v # xs" "m_Addr v \<notin> addrs xs" for rb' xs
    using that is_free_split [of rb' "[]" v xs] MergeBack_first [of rb' v xs] by simp_all
  show ?thesis
  proof (cases U)
    case (Cons u U')
    let ?rb = "rb\<lparr>m_pConsume := m_Addr u\<rparr>"
    have "is_free ?rb (m_Addr u) = m_Free u"
      by (rule is_free_split [of _ "V @ [g]" u "U' @ E"]) (use d Cons in \<open>auto simp: assms(1)\<close>)
    then have "pop_loop (length (m_Items rb)) ?rb = ?rb" using assms(3) Cons by (intro pop_loop_stop) simp
    moreover have "MergeBack ?rb (m_Addr u) = (?rb, m_Addr u)"
      by (rule MergeBack_used [of _ "V @ [g]" u "U' @ E"]) (use d Cons assms(3) in \<open>auto simp: assms(1)\<close>)
    ultimately have r: "pop_rest rb = ?rb" using nb Cons by (simp add: pop_rest_def)
    show ?thesis unfolding r
      by (rule ring_after_wrapped [of _ V "[g]" U E]) (use assms Cons in \<open>auto simp: wrapped_def\<close>)
  next
    case Nil
    show ?thesis using assms(6)
    proof (cases rule: gap_cases)
      case none
      let ?rb = "rb\<lparr>m_pConsume := m_Addr v\<rparr>"
      have "m_Items ?rb = v # V' @ [g]" "m_Addr v \<notin> addrs (V' @ [g])"
        using d by (auto simp: assms(1) V Nil none)
      note f = front [OF this]
      have "\<not> m_Free v" using assms(4) V by simp
      then have "pop_loop (length (m_Items rb)) ?rb = ?rb" using f by (intro pop_loop_stop) simp
      then have r: "pop_rest rb = ?rb" using nb f V Nil none by (simp add: pop_rest_def)
      show ?thesis unfolding r Nil append_Nil
        by (rule ring_after_straight [of _ "[]" V "[g]"]) (use assms Nil none V in \<open>auto simp: straight_def\<close>)
    next
      case (one e)
      let ?rb = "rb\<lparr>m_pConsume := m_Addr e\<rparr>"
      let ?g = "g\<lparr>m_Size := m_Size g + m_Size e\<rparr>"
      let ?rb' = "rb\<lparr>m_Items := V @ [?g], m_pConsume := m_Addr g\<rparr>"
      let ?rb2 = "rb\<lparr>m_Items := V @ [?g], m_pConsume := m_Addr v\<rparr>"
      have neq: "m_Addr e \<noteq> m_Addr g" using d one Nil by auto
      have "is_free ?rb (m_Addr e) = m_Free e"
        by (rule is_free_split [of _ "V @ [g]" e "[]"]) (use d one Nil in \<open>auto simp: assms(1)\<close>)
      then have go: "is_free ?rb (m_pConsume ?rb) \<and> m_pConsume ?rb \<noteq> m_pProduce ?rb"
        using one neq assms(10) by simp
      have "MergeBack ?rb (m_Addr e) = (?rb\<lparr>m_Items := V @ ?g # [],
          m_pProduce := (if m_Addr e = m_pProduce ?rb then m_Addr g else m_pProduce ?rb),
          m_pConsume := (if m_Addr e = m_pConsume ?rb then m_Addr g else m_pConsume ?rb)\<rparr>, m_Addr g)"
        by (rule MergeBack_free) (use assms(1,2) one Nil d in auto)
      also have "\<dots> = (?rb', m_Addr g)" using neq assms(10) by simp
      finally have mb: "MergeBack ?rb (m_pConsume ?rb) = (?rb', m_Addr g)" by simp
      have "NextBlock ?rb' (m_Addr ?g) = m_Addr (hd ([] @ V @ [?g]))"
        by (rule NextBlock_split) (use d in auto)
      then have nb': "NextBlock ?rb' (m_Addr g) = m_Addr v" using V by simp
      have "m_Items ?rb2 = v # V' @ [?g]" "m_Addr v \<notin> addrs (V' @ [?g])"
        using d by (auto simp: V)
      note f = front [OF this]
      have "\<not> m_Free v" using assms(4) V by simp
      then have "pop_loop n ?rb2 = ?rb2" for n using f by (intro pop_loop_stop) simp
      then have "pop_loop (Suc n) ?rb = ?rb2" for n
        using go mb nb' by simp
      moreover have "\<exists>n. length (m_Items rb) = Suc n" by (simp add: assms(1))
      ultimately have "pop_loop (length (m_Items rb)) ?rb = ?rb2" by metis
      then have r: "pop_rest rb = ?rb2" using nb f Nil one by (simp add: pop_rest_def)
      show ?thesis unfolding r Nil append_Nil
        by (rule ring_after_straight [of _ "[]" V "[?g]"])
          (use assms Nil one V in \<open>auto simp: straight_def\<close>)
    qed
  qed
qed

lemma vacant_pop: "vacant rb \<Longrightarrow> PopFirst rb = (rb, False)"
  by (auto simp: vacant_def PopFirst_def is_free_def)

lemma PopFirst_contents:
  assumes "ring_ok rb"
  shows "ring_after rb (tl (contents rb)) (fst (PopFirst rb)) \<and> (snd (PopFirst rb) \<longleftrightarrow> contents rb \<noteq> [])"
proof -
  have t: "tiled 0 (m_Items rb)" "total_size (m_Items rb) = m_RingSize rb" and "shaped rb"
    using assms by (auto simp: ring_ok_def)
  then consider "vacant rb" | F U G where "straight rb F U G" | V F U E where "wrapped rb V F U E"
    by (auto simp: shaped_def)
  then show ?thesis
  proof cases
    case 1
    then show ?thesis using assms by (simp add: vacant_pop contents_vacant ring_after_def)
  next
    case (2 F U G)
    note s = 2 [unfolded straight_def]
    obtain u U' where U: "U = u # U'" using s by (cases U) auto
    have d: "distinct (map m_Addr (F @ u # U' @ G))" using tiled_distinct [OF t(1)] s U by simp
    have "m_Items rb = [] @ F @ u # (U' @ G)" "\<not> m_Free u" "m_pConsume rb = m_Addr u" using s U by auto
    from PopFirst_rest [OF this(1) used_simps(1) _ this(2) t(1) this(3)] s
    obtain g where g: "m_Free g" "m_Addr g = m_Addr (hd (F @ [u]))" "m_Size g = total_size (F @ [u])"
      "PopFirst rb = (pop_rest (rb\<lparr>m_Items := [] @ g # U' @ G,
         m_pProduce := (if m_Addr u = m_pProduce rb then m_Addr g else m_pProduce rb), m_pConsume := m_Addr g\<rparr>), True)"
      by blast
    let ?rb = "rb\<lparr>m_Items := g # U' @ G,
         m_pProduce := (if m_Addr u = m_pProduce rb then m_Addr g else m_pProduce rb), m_pConsume := m_Addr g\<rparr>"
    have gap: "gap F" "gap G" using s by auto
    have "m_pProduce ?rb = m_Addr (hd (G @ [g]))"
      using gap(1) gap(2) s g(2) d U by (elim gap_cases) auto
    moreover have "tiled 0 (m_Items ?rb)" "total_size (m_Items ?rb) = m_RingSize ?rb"
      using t g(2,3) gap(1) s U by (auto elim!: gap_cases)
    ultimately have "ring_after ?rb U' (pop_rest ?rb)"
      using s g(1) U by (intro pop_rest_straight [of _ g U' G]) auto
    then show ?thesis using g(4) contents_straight [OF 2 t(1)] U by (simp add: ring_after_def)
  next
    case (3 V F U E)
    note s = 3 [unfolded wrapped_def]
    obtain u U' where U: "U = u # U'" using s by (cases U) auto
    have d: "distinct (map m_Addr (V @ F @ u # U' @ E))" using tiled_distinct [OF t(1)] s U by simp
    have "m_Items rb = V @ F @ u # (U' @ E)" "used V" "\<not> m_Free u" "m_pConsume rb = m_Addr u" using s U by auto
    from PopFirst_rest [OF this(1,2) _ this(3) t(1) this(4)] s
    obtain g where g: "m_Free g" "m_Addr g = m_Addr (hd (F @ [u]))" "m_Size g = total_size (F @ [u])"
      "PopFirst rb = (pop_rest (rb\<lparr>m_Items := V @ g # U' @ E,
         m_pProduce := (if m_Addr u = m_pProduce rb then m_Addr g else m_pProduce rb), m_pConsume := m_Addr g\<rparr>), True)"
      by blast
    let ?rb = "rb\<lparr>m_Items := V @ g # U' @ E,
         m_pProduce := (if m_Addr u = m_pProduce rb then m_Addr g else m_pProduce rb), m_pConsume := m_Addr g\<rparr>"
    have gap: "gap F" "gap E" using s by auto
    have "m_pProduce ?rb = m_Addr g"
      using gap(1) s g(2) d U by (elim gap_cases) auto
    moreover have "tiled 0 (m_Items ?rb)" "total_size (m_Items ?rb) = m_RingSize ?rb"
      using t g(2,3) gap(1) s U by (auto simp: add.assoc elim!: gap_cases)
    ultimately have "ring_after ?rb (U' @ V) (pop_rest ?rb)"
      using s g(1) U by (intro pop_rest_wrapped [of _ V g U' E]) auto
    then show ?thesis using g(4) contents_wrapped [OF 3 t(1)] U by (simp add: ring_after_def)
  qed
qed

section \<open>Taking a block\<close>

lemma take_block_split:
  assumes "m_Items rb = xs @ f # ys" "m_Free f" "wanted \<le> m_Size f" "0 < wanted" "tiled 0 (m_Items rb)"
  obtains n rest where "m_Addr n = m_Addr f" "\<not> m_Free n" "wanted \<le> m_Size n" "0 < m_Size n" "gap rest"
    "total_size (n # rest) = m_Size f" "tiled (m_Addr f + m_Size n) rest"
    "take_block rb (m_Addr f) wanted =
       rb\<lparr>m_Items := xs @ n # rest @ ys, m_pProduce := m_Addr (hd (rest @ ys @ xs @ [n]))\<rparr>"
proof -
  have d: "distinct (map m_Addr (xs @ f # ys))" using tiled_distinct [OF assms(5)] by (simp add: assms(1))
  define rest where "rest = (if m_Size f > wanted + ITEM_SIZE
    then [\<lparr>m_Addr = m_Addr f + wanted, m_Free = True, m_Size = m_Size f - wanted\<rparr>] else [])"
  define f' where "f' = (if m_Size f > wanted + ITEM_SIZE then f\<lparr>m_Size := wanted\<rparr> else f)"
  let ?rb = "rb\<lparr>m_Items := xs @ f' # rest @ ys\<rparr>"
  have f': "m_Addr f' = m_Addr f" by (simp add: f'_def)
  have split: "split_item (m_Items rb) (m_Addr f) wanted = xs @ f' # rest @ ys"
    using d split_item_split [of f xs ys wanted] by (auto simp: assms(1) f'_def rest_def)
  have "m_Addr f' \<notin> addrs xs" using d f' by auto
  then have nxt: "NextBlock ?rb (m_Addr f) = m_Addr (hd (rest @ ys @ xs @ [f']))"
    using NextBlock_split [of ?rb xs f' "rest @ ys"] f' by simp
  have sizes: "0 < m_Size f'" "total_size (f' # rest) = m_Size f" "wanted \<le> m_Size f'"
    using assms(3,4) by (auto simp: f'_def rest_def)
  have "m_Addr f \<notin> addrs rest" using assms(4) by (auto simp: rest_def)
  then have "m_Addr f' \<notin> addrs xs \<union> addrs (rest @ ys)" using d f' by auto
  from set_item_free_split [OF this, of False]
  have mark: "set_item_free False (m_Addr f) (xs @ f' # rest @ ys) = xs @ f'\<lparr>m_Free := False\<rparr> # rest @ ys"
    by (simp add: f')
  have hd: "m_Addr (hd (rest @ ys @ xs @ [f'])) = m_Addr (hd (rest @ ys @ xs @ [f'\<lparr>m_Free := False\<rparr>]))"
    by (cases rest; cases ys; cases xs) simp_all
  show thesis
  proof (rule that [of "f'\<lparr>m_Free := False\<rparr>" rest])
    show "take_block rb (m_Addr f) wanted = rb\<lparr>m_Items := xs @ f'\<lparr>m_Free := False\<rparr> # rest @ ys,
        m_pProduce := m_Addr (hd (rest @ ys @ xs @ [f'\<lparr>m_Free := False\<rparr>]))\<rparr>"
      unfolding take_block_def Let_def split by (simp add: nxt mark hd)
  qed (use f' sizes in \<open>auto simp: rest_def f'_def gap_def\<close>)
qed

definition allocated :: "ring \<Rightarrow> item list \<Rightarrow> nat \<Rightarrow> nat \<Rightarrow> ring \<Rightarrow> bool" where
  "allocated rb xs wanted a rb' \<longleftrightarrow> (\<exists>n. m_Addr n = a \<and> wanted \<le> m_Size n \<and> ring_after rb (xs @ [n]) rb')"

lemma find_block_front:
  assumes "m_Items rb = f # ys" "m_pProduce rb = m_Addr f"
  shows "find_block rb wanted = (if m_Free f \<and> wanted \<le> m_Size f then Some (m_Addr f) else None)"
  using assms by (simp add: find_block_def is_free_def)

lemma find_block_produce:
  assumes "m_Items rb = (u # xs) @ f # ys" "m_Addr f \<notin> addrs (u # xs)" "m_pProduce rb = m_Addr f"
  shows "find_block rb wanted =
    (if \<not> m_Free f then None else if wanted \<le> m_Size f then Some (m_Addr f)
     else if m_Free u \<and> wanted \<le> m_Size u then Some (m_Addr u) else None)"
  using assms item_at_split [of f "u # xs" ys] by (simp add: find_block_def is_free_def Let_def)

text \<open>A block found becomes the newest one.\<close>

lemma take_found:
  assumes "ring_ok rb" "find_block rb wanted = Some a" "0 < wanted"
  shows "allocated rb (contents rb) wanted a (take_block rb a wanted)"
proof -
  have t: "tiled 0 (m_Items rb)" "total_size (m_Items rb) = m_RingSize rb" and "shaped rb"
    using assms(1) by (auto simp: ring_ok_def)
  then consider "vacant rb" | F U G where "straight rb F U G" | V F U E where "wrapped rb V F U E"
    by (auto simp: shaped_def)
  then show ?thesis
  proof cases
    case 1
    then obtain f where f: "m_Items rb = [f]" "m_Free f" "m_pProduce rb = m_Addr f" "m_pConsume rb = m_Addr f"
      by (auto simp: vacant_def)
    have a: "a = m_Addr f" "wanted \<le> m_Size f"
      using assms(2) find_block_front [of rb f "[]" wanted] f by (auto split: if_splits)
    obtain n rest where n: "m_Addr n = m_Addr f" "\<not> m_Free n" "wanted \<le> m_Size n" "0 < m_Size n" "gap rest"
      "total_size (n # rest) = m_Size f" "tiled (m_Addr f + m_Size n) rest"
      "take_block rb (m_Addr f) wanted = rb\<lparr>m_Items := [] @ n # rest @ [], m_pProduce := m_Addr (hd (rest @ [] @ [] @ [n]))\<rparr>"
      using take_block_split [of rb "[]" f "[]" wanted] f a(2) assms(3) t(1) by auto
    have "ring_after rb [n] (take_block rb (m_Addr f) wanted)"
      unfolding n(8) by (rule ring_after_straight [of _ "[]" "[n]" rest]) (use n f t in \<open>auto simp: straight_def\<close>)
    then show ?thesis using n contents_vacant [OF 1] a by (auto simp: allocated_def)
  next
    case (2 F U G)
    note s = 2 [unfolded straight_def]
    obtain u U' where U: "U = u # U'" using s by (cases U) auto
    have d: "distinct (map m_Addr (F @ u # U' @ G))" using tiled_distinct [OF t(1)] s U by simp
    have gaps: "gap F" "gap G" using s by auto
    have front: "allocated rb U wanted (m_Addr f) (take_block rb (m_Addr f) wanted)"
      if F: "F = [f]" "m_Free f" "wanted \<le> m_Size f" for f
    proof -
      obtain n rest where n: "m_Addr n = m_Addr f" "\<not> m_Free n" "wanted \<le> m_Size n" "0 < m_Size n" "gap rest"
        "total_size (n # rest) = m_Size f" "tiled (m_Addr f + m_Size n) rest"
        "take_block rb (m_Addr f) wanted = rb\<lparr>m_Items := [] @ n # rest @ U @ G, m_pProduce := m_Addr (hd (rest @ (U @ G) @ [] @ [n]))\<rparr>"
        using take_block_split [of rb "[]" f "U @ G" wanted] s F assms(3) t(1) by auto
      have "ring_after rb (U @ [n]) (take_block rb (m_Addr f) wanted)"
        unfolding n(8)
      proof (rule ring_after_wrapped [of _ "[n]" rest U G])
        show "wrapped (rb\<lparr>m_Items := [] @ n # rest @ U @ G, m_pProduce := m_Addr (hd (rest @ (U @ G) @ [] @ [n]))\<rparr>) [n] rest U G"
          using n s by (simp add: wrapped_def U) (cases rest; simp)
      qed (use n s t F in \<open>auto simp: add.assoc [symmetric]\<close>)
      then show ?thesis using n by (auto simp: allocated_def)
    qed
    show ?thesis using gaps(2)
    proof (cases rule: gap_cases)
      case none
      show ?thesis using gaps(1)
      proof (cases rule: gap_cases)
        case none
        then show ?thesis using assms(2) find_block_front [of rb u "U'" wanted] s U \<open>G = []\<close> by auto
      next
        case (one f)
        have "a = m_Addr f" "wanted \<le> m_Size f"
          using assms(2) find_block_front [of rb f "U @ G" wanted] s one none by (auto split: if_splits)
        then show ?thesis using front [OF one] contents_straight [OF 2 t(1)] by simp
      qed
    next
      case (one g)
      obtain x xs where x: "F @ U = x # xs" using U by (cases F) auto
      have "m_Items rb = (x # xs) @ g # []" "m_Addr g \<notin> addrs (x # xs)" "m_pProduce rb = m_Addr g"
        using s one d U by (auto simp flip: x)
      note fb = find_block_produce [OF this, of wanted]
      show ?thesis
      proof (cases "wanted \<le> m_Size g")
        case True
        then have a: "a = m_Addr g" using assms(2) fb one by simp
        obtain n rest where n: "m_Addr n = m_Addr g" "\<not> m_Free n" "wanted \<le> m_Size n" "0 < m_Size n" "gap rest"
          "total_size (n # rest) = m_Size g" "tiled (m_Addr g + m_Size n) rest"
          "take_block rb (m_Addr g) wanted = rb\<lparr>m_Items := (F @ U) @ n # rest @ [], m_pProduce := m_Addr (hd (rest @ [] @ (F @ U) @ [n]))\<rparr>"
          using take_block_split [of rb "F @ U" g "[]" wanted] s one True assms(3) t(1) by auto
        have "ring_after rb (U @ [n]) (take_block rb (m_Addr g) wanted)"
          unfolding n(8) by (rule ring_after_straight [of _ F "U @ [n]" rest])
            (use n s t one U in \<open>auto simp: straight_def add.assoc\<close>)
        then show ?thesis using n a contents_straight [OF 2 t(1)] by (auto simp: allocated_def)
      next
        case False
        then have x': "m_Free x" "wanted \<le> m_Size x" "a = m_Addr x"
          using assms(2) fb by (auto split: if_splits)
        have "F = [x]" using gaps(1) x x'(1) s U by (elim gap_cases) auto
        then show ?thesis using front [of x] x' contents_straight [OF 2 t(1)] by simp
      qed
    qed
  next
    case (3 V F U E)
    note s = 3 [unfolded wrapped_def]
    obtain v V' where V: "V = v # V'" using s by (cases V) auto
    obtain u U' where U: "U = u # U'" using s by (cases U) auto
    have d: "distinct (map m_Addr (V @ F @ U @ E))" using tiled_distinct [OF t(1)] s by simp
    have "gap F" using s by simp
    then show ?thesis
    proof (cases rule: gap_cases)
      case none
      have "find_block rb wanted = None"
        using find_block_produce [of rb v V' u "U' @ E" wanted] s none V U d by auto
      then show ?thesis using assms(2) by simp
    next
      case (one f)
      have fb: "find_block rb wanted = (if wanted \<le> m_Size f then Some (m_Addr f) else None)"
        using find_block_produce [of rb v V' f "U @ E" wanted] s one V d by auto
      then have a: "a = m_Addr f" "wanted \<le> m_Size f" using assms(2) by (auto split: if_splits)
      obtain n rest where n: "m_Addr n = m_Addr f" "\<not> m_Free n" "wanted \<le> m_Size n" "0 < m_Size n" "gap rest"
        "total_size (n # rest) = m_Size f" "tiled (m_Addr f + m_Size n) rest"
        "take_block rb (m_Addr f) wanted = rb\<lparr>m_Items := V @ n # rest @ U @ E, m_pProduce := m_Addr (hd (rest @ (U @ E) @ V @ [n]))\<rparr>"
        using take_block_split [of rb V f "U @ E" wanted] s one a assms(3) t(1) by auto
      have "ring_after rb (U @ V @ [n]) (take_block rb (m_Addr f) wanted)"
        unfolding n(8)
      proof (rule ring_after_wrapped [of _ "V @ [n]" rest U E])
        show "wrapped (rb\<lparr>m_Items := V @ n # rest @ U @ E, m_pProduce := m_Addr (hd (rest @ (U @ E) @ V @ [n]))\<rparr>) (V @ [n]) rest U E"
          using n s by (simp add: wrapped_def U) (cases rest; simp)
      qed (use n(1-5,7) s t one in \<open>auto simp: n(6) [simplified, symmetric] add.assoc\<close>)
      then show ?thesis using n a contents_wrapped [OF 3 t(1)] by (auto simp: allocated_def)
    qed
  qed
qed

lemma vacant_find: "ring_ok rb \<Longrightarrow> contents rb = [] \<Longrightarrow> wanted \<le> m_RingSize rb \<Longrightarrow> find_block rb wanted \<noteq> None"
proof -
  assume ok: "ring_ok rb" and c: "contents rb = []" and w: "wanted \<le> m_RingSize rb"
  have "vacant rb"
    using ok c contents_straight contents_wrapped
    by (fastforce simp: ring_ok_def shaped_def straight_def wrapped_def)
  then obtain f where "m_Items rb = [f]" "m_Free f" "m_pProduce rb = m_Addr f" by (auto simp: vacant_def)
  then show "find_block rb wanted \<noteq> None"
    using find_block_front [of rb f "[]" wanted] ok w by (simp add: ring_ok_def)
qed

lemma ring_after_trans: "ring_after rb xs rb' \<Longrightarrow> ring_after rb' ys rb'' \<Longrightarrow> ring_after rb ys rb''"
  by (simp add: ring_after_def)

lemma ring_after_refl: "ring_ok rb \<Longrightarrow> ring_after rb (contents rb) rb"
  by (simp add: ring_after_def)

lemma allocated_trans: "ring_after rb xs rb' \<Longrightarrow> allocated rb' ys wanted a rb'' \<Longrightarrow> allocated rb ys wanted a rb''"
  by (auto simp: allocated_def intro: ring_after_trans)

text \<open>The search: without recycling at once or not at all, with recycling after dropping some of the
  oldest blocks.\<close>

lemma alloc_loop_spec:
  assumes "ring_ok rb" "0 < wanted" "wanted \<le> m_RingSize rb" "length (contents rb) < fuel"
  shows "case alloc_loop fuel rb wanted of
      (rb', Some a) \<Rightarrow> \<exists>k. allocated rb (drop k (contents rb)) wanted a rb' \<and> (m_Recycle rb \<or> k = 0)
    | (rb', None) \<Rightarrow> rb' = rb \<and> \<not> m_Recycle rb \<and> find_block rb wanted = None"
  using assms
proof (induction fuel arbitrary: rb)
  case (Suc fuel)
  show ?case
  proof (cases "find_block rb wanted")
    case (Some a)
    from take_found [OF Suc.prems(1) Some Suc.prems(2)]
    show ?thesis using Some by (auto intro: exI [of _ 0])
  next
    case None
    show ?thesis
    proof (cases "m_Recycle rb")
      case True
      obtain rb1 popped where p: "PopFirst rb = (rb1, popped)" by (cases "PopFirst rb")
      have "contents rb \<noteq> []" using vacant_find [OF Suc.prems(1) _ Suc.prems(3)] None by auto
      then have after: "ring_after rb (tl (contents rb)) rb1" "popped"
        using PopFirst_contents [OF Suc.prems(1)] p by auto
      then have "ring_ok rb1" "m_RingSize rb1 = m_RingSize rb" "m_Recycle rb1" "contents rb1 = tl (contents rb)"
        using True by (auto simp: ring_after_def)
      note IH = Suc.IH [OF this(1) Suc.prems(2)]
      have "case alloc_loop fuel rb1 wanted of
          (rb', Some a) \<Rightarrow> \<exists>k. allocated rb1 (drop k (contents rb1)) wanted a rb' \<and> (m_Recycle rb1 \<or> k = 0)
        | (rb', None) \<Rightarrow> rb' = rb1 \<and> \<not> m_Recycle rb1 \<and> find_block rb1 wanted = None"
        by (rule IH) (use Suc.prems(3,4) \<open>contents rb \<noteq> []\<close> \<open>contents rb1 = _\<close> \<open>m_RingSize rb1 = _\<close> in
          \<open>cases "contents rb"; simp\<close>)+
      then have "\<exists>rb' a k. alloc_loop fuel rb1 wanted = (rb', Some a) \<and> allocated rb1 (drop k (tl (contents rb))) wanted a rb'"
        using \<open>m_Recycle rb1\<close> \<open>contents rb1 = _\<close> by (auto split: prod.splits option.splits)
      then obtain rb' a k where r: "alloc_loop fuel rb1 wanted = (rb', Some a)"
          "allocated rb1 (drop k (tl (contents rb))) wanted a rb'" by blast
      then have "allocated rb (drop (Suc k) (contents rb)) wanted a rb'"
        using allocated_trans [OF after(1)] by (simp add: drop_Suc)
      then show ?thesis using None True p after(2) r(1) by auto
    next
      case False
      then show ?thesis using None by simp
    qed
  qed
qed simp

lemma used_items_contents: "length (contents rb) \<le> length (used_items (m_Items rb))"
proof -
  have "length (dropWhile P xs @ takeWhile P xs) = length xs" for P and xs :: "item list"
    by (metis add.commute length_append takeWhile_dropWhile_id)
  then show ?thesis by (simp add: contents_def del: length_append)
qed

lemma Allocate_contents:
  assumes "ring_ok rb"
  shows "case Allocate rb sz of
      (rb', Some a) \<Rightarrow> \<exists>k. allocated rb (drop k (contents rb)) (wanted_size sz) a rb' \<and> (m_Recycle rb \<or> k = 0)
    | (rb', None) \<Rightarrow> rb' = rb \<and> (wanted_size sz > m_RingSize rb \<or> \<not> m_Recycle rb \<and> contents rb \<noteq> [])"
proof (cases "wanted_size sz > m_RingSize rb")
  case True
  then show ?thesis by (simp add: Allocate_def)
next
  case False
  have "0 < (sz + 47) div 24" by (simp add: div_greater_zero_iff)
  then have "0 < wanted_size sz" by (simp add: wanted_size_def ITEM_SIZE_def)
  from alloc_loop_spec [OF assms this, of "Suc (length (used_items (m_Items rb)))"] False
  have "case Allocate rb sz of
      (rb', Some a) \<Rightarrow> \<exists>k. allocated rb (drop k (contents rb)) (wanted_size sz) a rb' \<and> (m_Recycle rb \<or> k = 0)
    | (rb', None) \<Rightarrow> rb' = rb \<and> \<not> m_Recycle rb \<and> find_block rb (wanted_size sz) = None"
    using used_items_contents [of rb] by (simp add: Allocate_def le_imp_less_Suc del: alloc_loop.simps)
  then show ?thesis using vacant_find [OF assms, of "wanted_size sz"] False
    by (auto split: prod.splits option.splits)
qed

lemma ring_Init_ok: "ITEM_SIZE \<le> sz \<Longrightarrow> ring_ok (ring_Init sz r) \<and> contents (ring_Init sz r) = []"
proof -
  assume "ITEM_SIZE \<le> sz"
  then have "0 < sz div ITEM_SIZE * ITEM_SIZE" by (simp add: ITEM_SIZE_def div_greater_zero_iff)
  moreover have v: "vacant (ring_Init sz r)" by (simp add: vacant_def ring_Init_def ring_Clear_def)
  ultimately show ?thesis using contents_vacant [OF v]
    by (auto simp: ring_ok_def shaped_def) (simp_all add: ring_Init_def ring_Clear_def)
qed

section \<open>Looking at the blocks\<close>

lemma shaped_cases:
  assumes "ring_ok rb"
  obtains (vacant) "vacant rb" "contents rb = []"
  | (straight) F U G where "straight rb F U G" "contents rb = U"
  | (wrapped) V F U E where "wrapped rb V F U E" "contents rb = U @ V"
  using assms contents_vacant contents_straight contents_wrapped unfolding ring_ok_def shaped_def by metis

lemma ring_First_contents:
  assumes "ring_ok rb"
  shows "ring_First rb = (case contents rb of [] \<Rightarrow> None | x # _ \<Rightarrow> Some (m_Addr x))"
proof -
  have t: "tiled 0 (m_Items rb)" using assms by (simp add: ring_ok_def)
  show ?thesis using assms
  proof (cases rule: shaped_cases)
    case vacant
    then show ?thesis by (auto simp: ring_First_def vacant_def is_free_def)
  next
    case (straight F U G)
    note s = straight(1) [unfolded straight_def]
    then obtain u U' where U: "U = u # U'" by (cases U) auto
    have "is_free rb (m_Addr u) = m_Free u"
      using s U tiled_distinct [OF t] by (intro is_free_split [of _ F u "U' @ G"]) auto
    then show ?thesis using s U straight(2) by (simp add: ring_First_def)
  next
    case (wrapped V F U E)
    note s = wrapped(1) [unfolded wrapped_def]
    then obtain u U' where U: "U = u # U'" by (cases U) auto
    have "is_free rb (m_Addr u) = m_Free u"
      using s U tiled_distinct [OF t] by (intro is_free_split [of _ "V @ F" u "U' @ E"]) auto
    then show ?thesis using s U wrapped(2) by (simp add: ring_First_def)
  qed
qed

text \<open>One step from a block whose successor in memory order is known.\<close>

lemma next_step:
  assumes "m_Items rb = xs @ x # ys" "distinct (map m_Addr (m_Items rb))" "hd (ys @ xs @ [x]) = y"
  shows "ring_Next_loop (Suc n) rb (m_Addr x) =
    (if m_Addr y = m_pProduce rb then None else if \<not> m_Free y then Some (m_Addr y) else ring_Next_loop n rb (m_Addr y))"
proof -
  have "NextBlock rb (m_Addr x) = m_Addr y"
    using NextBlock_split [OF assms(1)] assms by auto
  moreover have "is_free rb (m_Addr y) = m_Free y"
  proof -
    have "y \<in> set (m_Items rb)" using assms(1,3) by (cases ys; cases xs) auto
    then obtain as bs where as: "m_Items rb = as @ y # bs" by (meson split_list)
    then show ?thesis using assms(2) by (intro is_free_split [OF as]) auto
  qed
  ultimately show ?thesis by simp
qed

lemma ring_Next_contents:
  assumes "ring_ok rb" "contents rb = xs @ x # ys"
  shows "ring_Next rb (m_Addr x) = (case ys of [] \<Rightarrow> None | y # _ \<Rightarrow> Some (m_Addr y))"
proof -
  have t: "tiled 0 (m_Items rb)" using assms by (simp add: ring_ok_def)
  note d = tiled_distinct [OF t]
  show ?thesis using assms(1)
  proof (cases rule: shaped_cases)
    case vacant
    then show ?thesis using assms(2) by simp
  next
    case (straight F U G)
    note s = straight(1) [unfolded straight_def]
    have U: "U = xs @ x # ys" using straight(2) assms(2) by simp
    then have items: "m_Items rb = (F @ xs) @ x # (ys @ G)" using s by simp
    obtain n where n: "length (m_Items rb) = Suc n" using items by (cases "length (m_Items rb)") auto
    show ?thesis
    proof (cases ys)
      case Nil
      have "m_Addr (hd ((ys @ G) @ (F @ xs) @ [x])) = m_pProduce rb" using s U Nil by (cases G; cases F; cases xs) auto
      then show ?thesis using next_step [OF items d refl, of n] Nil by (simp add: ring_Next_def n)
    next
      case (Cons y ys')
      have "m_Addr y \<noteq> m_pProduce rb"
        using s U Cons d by (cases G; cases F; cases xs) auto
      moreover have "\<not> m_Free y" using s U Cons by simp
      ultimately show ?thesis using next_step [OF items d, of y n] Cons by (simp add: ring_Next_def n)
    qed
  next
    case (wrapped V F U E)
    note s = wrapped(1) [unfolded wrapped_def]
    obtain v V' where V: "V = v # V'" using s by (cases V) auto
    obtain u U' where Uu: "U = u # U'" using s by (cases U) auto
    have UV: "U @ V = xs @ x # ys" using wrapped(2) assms(2) by simp
    then consider as where "U = xs @ x # as" "ys = as @ V" | bs where "V = bs @ x # ys" "xs = U @ bs"
      by (auto simp: append_eq_append_conv2 append_eq_Cons_conv)
    then show ?thesis
    proof cases
      case 1
      have items: "m_Items rb = (V @ F @ xs) @ x # (as @ E)" using s 1 by simp
      obtain n where n: "length (m_Items rb) = Suc (Suc n)" using items V by (cases "length (m_Items rb)") auto
      show ?thesis
      proof (cases as)
        case (Cons y as')
        have "m_Addr y \<noteq> m_pProduce rb" using s 1 Cons d by (cases F; cases xs) auto
        moreover have "\<not> m_Free y" using s 1 Cons by simp
        ultimately show ?thesis using next_step [OF items d, of y "Suc n"] Cons 1
          by (simp add: ring_Next_def n del: ring_Next_loop.simps)
      next
        case Nil
        have v: "m_Addr v \<noteq> m_pProduce rb" "\<not> m_Free v" using s V Uu d by (cases F; auto)+
        have "gap E" using s by simp
        then show ?thesis
        proof (cases rule: gap_cases)
          case none
          then show ?thesis using next_step [OF items d, of v "Suc n"] Nil V v 1
            by (simp add: ring_Next_def n del: ring_Next_loop.simps)
        next
          case (one e)
          have e: "m_Addr e \<noteq> m_pProduce rb" using s one Uu d by (cases F; auto)
          have items': "m_Items rb = (V @ F @ U) @ e # []" using s one by simp
          have "ring_Next_loop (Suc (Suc n)) rb (m_Addr x) = ring_Next_loop (Suc n) rb (m_Addr e)"
            using next_step [OF items d, of e "Suc n"] Nil one e by (simp del: ring_Next_loop.simps)
          also have "\<dots> = Some (m_Addr v)" using next_step [OF items' d, of v n] V v by (simp del: ring_Next_loop.simps)
          finally show ?thesis using Nil V 1 by (simp add: ring_Next_def n del: ring_Next_loop.simps)
        qed
      qed
    next
      case 2
      have items: "m_Items rb = bs @ x # (ys @ F @ U @ E)" using s 2 by simp
      obtain n where n: "length (m_Items rb) = Suc n" using items by (cases "length (m_Items rb)") auto
      show ?thesis
      proof (cases ys)
        case Nil
        have "m_Addr (hd ((ys @ F @ U @ E) @ bs @ [x])) = m_pProduce rb" using s Nil Uu by (cases F) auto
        then show ?thesis using next_step [OF items d refl, of n] Nil by (simp add: ring_Next_def n)
      next
        case (Cons y ys')
        have "m_Addr y \<noteq> m_pProduce rb" using s 2 Cons Uu d by (cases F) auto
        moreover have "\<not> m_Free y" using s 2 Cons by simp
        ultimately show ?thesis using next_step [OF items d, of y n] Cons by (simp add: ring_Next_def n)
      qed
    qed
  qed
qed

text \<open>The loop \<open>for(p = First(); p; p = Next(p))\<close>.\<close>

fun ring_walk :: "nat \<Rightarrow> ring \<Rightarrow> nat option \<Rightarrow> nat list" where
  "ring_walk 0 rb p = []"
| "ring_walk (Suc n) rb None = []"
| "ring_walk (Suc n) rb (Some a) = a # ring_walk n rb (ring_Next rb a)"

lemma ring_walk_from:
  "ring_ok rb \<Longrightarrow> contents rb = xs @ ys \<Longrightarrow> length ys \<le> n \<Longrightarrow>
   ring_walk n rb (case ys of [] \<Rightarrow> None | y # _ \<Rightarrow> Some (m_Addr y)) = map m_Addr ys"
proof (induction ys arbitrary: xs n)
  case Nil
  then show ?case by (cases n) auto
next
  case (Cons y ys)
  then obtain m where m: "n = Suc m" by (cases n) auto
  have "ring_Next rb (m_Addr y) = (case ys of [] \<Rightarrow> None | z # _ \<Rightarrow> Some (m_Addr z))"
    by (rule ring_Next_contents [OF Cons.prems(1,2)])
  moreover have "contents rb = (xs @ [y]) @ ys" using Cons.prems(2) by simp
  then have "ring_walk m rb (case ys of [] \<Rightarrow> None | z # _ \<Rightarrow> Some (m_Addr z)) = map m_Addr ys"
    by (rule Cons.IH [OF Cons.prems(1)]) (use Cons.prems(3) m in simp)
  ultimately show ?case by (simp add: m)
qed

section \<open>The ring as a queue\<close>

text \<open>Without recycling the ring is a queue of offsets.\<close>

definition ring_queue :: "ring \<Rightarrow> bool" where
  "ring_queue rb \<longleftrightarrow> ring_ok rb \<and> \<not> m_Recycle rb"

interpretation ring: fifo ring_queue "\<lambda>rb. map m_Addr (contents rb)" ring_First "\<lambda>rb. fst (PopFirst rb)" Allocate
proof
  fix rb assume rb: "ring_queue rb"
  then have ok: "ring_ok rb" "\<not> m_Recycle rb" by (simp_all add: ring_queue_def)
  show "ring_First rb = (case map m_Addr (contents rb) of [] \<Rightarrow> None | x # _ \<Rightarrow> Some x)"
    by (simp add: ring_First_contents [OF ok(1)] split: list.split)
  show "ring_queue (fst (PopFirst rb)) \<and> map m_Addr (contents (fst (PopFirst rb))) = tl (map m_Addr (contents rb))"
    using PopFirst_contents [OF ok(1)] ok by (simp add: ring_after_def ring_queue_def map_tl)
  fix n
  show "ring_queue (fst (Allocate rb n)) \<and> map m_Addr (contents (fst (Allocate rb n))) =
      map m_Addr (contents rb) @ (case snd (Allocate rb n) of None \<Rightarrow> [] | Some e \<Rightarrow> [e])"
  proof (cases "Allocate rb n")
    case (Pair rb' r)
    then show ?thesis using Allocate_contents [OF ok(1), of n] rb ok(2)
      by (auto simp: allocated_def ring_after_def ring_queue_def split: option.splits)
  qed
qed

section \<open>Properties\<close>

text \<open>C28. \<open>PopFirst\<close> removes exactly the oldest block: the ring stays well-formed whatever gaps get merged and
  wherever the wrap-around is, the other blocks keep their places, and the result says whether there was
  one.\<close>

theorem ring_pop_oldest:
  assumes "ring_ok rb"
  shows "ring_ok (fst (PopFirst rb)) \<and> contents (fst (PopFirst rb)) = tl (contents rb) \<and>
    (snd (PopFirst rb) \<longleftrightarrow> contents rb \<noteq> [])"
  using PopFirst_contents [OF assms] by (simp add: ring_after_def)

theorem ring_pop_oldest_witness:
  "ring_ok (fst (PopFirst (ring_Init 100 False))) \<and> \<not> snd (PopFirst (ring_Init 100 False))"
  using ring_pop_oldest [of "ring_Init 100 False"] ring_Init_ok [of 100 False] by (simp add: ITEM_SIZE_def)

text \<open>C27. \<open>Allocate\<close> adds one block of sufficient size behind the newest one. Without recycling it keeps all
  older blocks; with recycling it drops as many of the oldest as needed, and fails only for a request
  larger than the memory. A failed allocation changes nothing.\<close>

theorem ring_allocate_newest:
  assumes "ring_ok rb"
  shows "case Allocate rb sz of
      (rb', Some a) \<Rightarrow> \<exists>k n. ring_ok rb' \<and> contents rb' = drop k (contents rb) @ [n] \<and> m_Addr n = a \<and>
        sz + ITEM_SIZE \<le> m_Size n \<and> (m_Recycle rb \<or> k = 0)
    | (rb', None) \<Rightarrow> rb' = rb \<and> (wanted_size sz > m_RingSize rb \<or> \<not> m_Recycle rb \<and> contents rb \<noteq> [])"
proof -
  have w: "sz + ITEM_SIZE \<le> wanted_size sz"
  proof -
    have "sz + 24 \<le> (sz + 47) div 24 * 24" by presburger
    then show ?thesis by (simp add: wanted_size_def ITEM_SIZE_def)
  qed
  show ?thesis
  proof (cases "Allocate rb sz")
    case (Pair rb' r)
    show ?thesis
    proof (cases r)
      case (Some a)
      then obtain k n where "ring_ok rb'" "contents rb' = drop k (contents rb) @ [n]" "m_Addr n = a"
          "wanted_size sz \<le> m_Size n" "m_Recycle rb \<or> k = 0"
        using Allocate_contents [OF assms, of sz] Pair by (auto simp: allocated_def ring_after_def)
      then show ?thesis using Pair Some w by (auto intro!: exI [of _ k] exI [of _ n])
    qed (use Allocate_contents [OF assms, of sz] Pair in simp)
  qed
qed

theorem ring_allocate_newest_witness:
  "snd (Allocate (ring_Init 100 False) 10) = Some 0 \<and>
   (\<exists>n. contents (fst (Allocate (ring_Init 100 False) 10)) = [n] \<and> m_Addr n = 0 \<and> 34 \<le> m_Size n)"
proof -
  have ok: "ring_ok (ring_Init 100 False)" "contents (ring_Init 100 False) = []"
    using ring_Init_ok [of 100 False] by (simp_all add: ITEM_SIZE_def)
  have s: "snd (Allocate (ring_Init 100 False) 10) = Some 0"
    by (simp add: Allocate_def ring_Init_def ring_Clear_def find_block_def is_free_def wanted_size_def ITEM_SIZE_def)
  then have p: "Allocate (ring_Init 100 False) 10 = (fst (Allocate (ring_Init 100 False) 10), Some 0)"
    by (metis prod.collapse)
  show ?thesis
    using ring_allocate_newest [OF ok(1), of 10] ok(2) s by (subst (asm) p) (auto simp: ITEM_SIZE_def)
qed

text \<open>The blocks handed out lie inside the memory and never overlap.\<close>

theorem ring_blocks_disjoint:
  assumes "ring_ok rb" "x \<in> set (contents rb)" "y \<in> set (contents rb)" "x \<noteq> y"
  shows "m_Addr x + m_Size x \<le> m_RingSize rb \<and>
    (m_Addr x + m_Size x \<le> m_Addr y \<or> m_Addr y + m_Size y \<le> m_Addr x)"
proof -
  have t: "tiled 0 (m_Items rb)" "total_size (m_Items rb) = m_RingSize rb" using assms(1) by (auto simp: ring_ok_def)
  have "set (contents rb) \<subseteq> set (m_Items rb)"
    by (auto simp: contents_def used_items_def dest: set_takeWhileD set_dropWhileD)
  then have "x \<in> set (m_Items rb)" "y \<in> set (m_Items rb)" using assms(2,3) by auto
  then show ?thesis using tiled_disjoint [OF t(1), of x y] tiled_end [OF t(1), of x] assms(4) t(2) by simp
qed

theorem ring_blocks_disjoint_witness:
  "m_Addr \<lparr>m_Addr = 0, m_Free = False, m_Size = 48\<rparr> + 48 \<le> 96 \<and>
   contents \<lparr>m_Items = [\<lparr>m_Addr = 0, m_Free = False, m_Size = 48\<rparr>, \<lparr>m_Addr = 48, m_Free = False, m_Size = 48\<rparr>],
     m_pProduce = 0, m_pConsume = 0, m_RingSize = 96, m_Recycle = False\<rparr> =
   [\<lparr>m_Addr = 0, m_Free = False, m_Size = 48\<rparr>, \<lparr>m_Addr = 48, m_Free = False, m_Size = 48\<rparr>]"
proof -
  let ?x = "\<lparr>m_Addr = 0, m_Free = False, m_Size = 48\<rparr>" and ?y = "\<lparr>m_Addr = 48, m_Free = False, m_Size = 48\<rparr>"
  let ?rb = "\<lparr>m_Items = [?x, ?y], m_pProduce = 0, m_pConsume = 0, m_RingSize = 96, m_Recycle = False\<rparr>"
  have c: "contents ?rb = [?x, ?y]" by (simp add: contents_def is_free_def)
  have "straight ?rb [] [?x, ?y] []" by (simp add: straight_def)
  then have "ring_ok ?rb" by (auto simp: ring_ok_def shaped_def)
  from ring_blocks_disjoint [OF this, of ?x ?y] show ?thesis using c by simp
qed

text \<open>Walking from \<open>First\<close> along \<open>Next\<close> visits every block once, from the oldest to the newest, also over
  a gap and the wrap-around.\<close>

theorem ring_walk_contents:
  assumes "ring_ok rb" "length (contents rb) \<le> n"
  shows "ring_walk n rb (ring_First rb) = map m_Addr (contents rb)"
  using ring_walk_from [OF assms(1) append_Nil [symmetric] assms(2)] ring_First_contents [OF assms(1)]
  by simp

theorem ring_walk_contents_witness:
  "ring_walk 5 (ring_Init 100 False) (ring_First (ring_Init 100 False)) = []"
  using ring_walk_contents [of "ring_Init 100 False" 5] ring_Init_ok [of 100 False] by (simp add: ITEM_SIZE_def)

end
