(* ===== verification/NetConn.thy ===== *)
theory NetConn
  imports NetPacket RingBuffer CStrings
begin

text \<open>
  \<open>CNetConnection\<close> (\<open>src/engine/shared/network_conn.cpp\<close>) and \<open>CPacketChunkUnpacker\<close> (\<open>network.cpp\<close>): the
  connection state machine, the resend buffer, acknowledgements, time-outs and in-order delivery.

  The resend buffer is the ring of \<open>RingBuffer\<close> together with the contents of its blocks. \<open>time_get()\<close> is the
  argument \<open>now\<close>: the engine's clock is constant within a tick. Datagrams are appended to \<open>cn_Sent\<close>; a failed
  \<open>dbg_assert\<close> sets \<open>cn_Aborted\<close>, after which nothing counts. The printable forms of the peer address and the
  traffic statistics are not modelled.
\<close>

section \<open>State\<close>

datatype conn_state = OFFLINE | WANT_TOKEN | CONNECT | PENDING | ONLINE | ERROR

record chunk_resend =
  r_Flags :: int
  r_Data :: "byte list"
  r_Sequence :: int
  r_LastSendTime :: int
  r_FirstSendTime :: int

record conn =
  cn_SecurityToken :: token
  cn_Sequence :: int
  cn_Ack :: int
  cn_PeerAck :: int
  cn_State :: conn_state
  cn_RemoteClosed :: bool
  cn_BlockCloseMsg :: bool
  cn_UnknownSeq :: bool
  cn_Buffer :: ring
  cn_Resends :: "nat \<Rightarrow> chunk_resend"
  cn_LastUpdateTime :: int
  cn_LastRecvTime :: int
  cn_LastSendTime :: int
  cn_LastResendTime :: int
  cn_ResendRequested :: bool
  cn_ErrorString :: cstring
  cn_Construct :: construct
  cn_ConnectAddrs :: "netaddr list"
  cn_PeerAddr :: netaddr
  cn_TimeoutProtected :: bool
  cn_TimeoutSituation :: bool
  cn_Sixup :: bool
  cn_Token :: token
  cn_Sent :: "(netaddr \<times> byte list) list"
  cn_Aborted :: bool

record conn_config =
  m_ConnTimeout :: int
  m_ConnTimeoutProtection :: int
  m_ConnResendRequestsPerSecond :: int

definition NET_CONN_BUFFERSIZE :: nat where "NET_CONN_BUFFERSIZE = 1024 * 32"
definition RESEND_SIZE :: nat where "RESEND_SIZE = 40"

definition zero_addr :: netaddr where
  "zero_addr = \<lparr>na_type = 0, na_ip = replicate 16 0, na_port = 0\<rparr>"

definition cstring_of :: "string \<Rightarrow> cstring" where
  "cstring_of s = map of_char s"

text \<open>\<open>%d\<close> of a non-negative number.\<close>

fun decimal :: "nat \<Rightarrow> cstring" where
  "decimal n = (if n < 10 then [48 + of_nat n] else decimal (n div 10) @ [48 + of_nat (n mod 10)])"

declare decimal.simps [simp del]

definition transmit :: "conn \<Rightarrow> netaddr \<Rightarrow> byte list option \<Rightarrow> conn" where
  "transmit c addr d =
     (case d of None \<Rightarrow> c\<lparr>cn_Aborted := True\<rparr> | Some bs \<Rightarrow> c\<lparr>cn_Sent := cn_Sent c @ [(addr, bs)]\<rparr>)"

section \<open>Addresses, reset and errors\<close>

definition IsPeerAddress :: "conn \<Rightarrow> netaddr \<Rightarrow> bool" where
  "IsPeerAddress c addr =
     (if cn_State c \<noteq> CONNECT then cn_PeerAddr c = addr else addr \<in> set (cn_ConnectAddrs c))"

definition SetPeerAddr :: "conn \<Rightarrow> netaddr \<Rightarrow> conn" where
  "SetPeerAddr c addr = c\<lparr>cn_PeerAddr := addr\<rparr>"

definition ClearPeerAddr :: "conn \<Rightarrow> conn" where
  "ClearPeerAddr c = c\<lparr>cn_PeerAddr := zero_addr\<rparr>"

definition ResetStats :: "conn \<Rightarrow> conn" where
  "ResetStats c = (ClearPeerAddr c)\<lparr>cn_LastUpdateTime := 0\<rparr>"

definition conn_Reset :: "conn \<Rightarrow> conn" where
  "conn_Reset c = c\<lparr>cn_Sequence := 0, cn_Ack := 0, cn_PeerAck := 0, cn_RemoteClosed := False,
     cn_TimeoutProtected := False, cn_TimeoutSituation := False,
     cn_State := OFFLINE, cn_Token := - 1, cn_SecurityToken := NET_SECURITY_TOKEN_UNKNOWN, cn_Sixup := False,
     cn_LastSendTime := 0, cn_LastRecvTime := 0, cn_LastResendTime := 0, cn_ResendRequested := False,
     cn_ConnectAddrs := [], cn_UnknownSeq := False,
     cn_Buffer := ring_Init NET_CONN_BUFFERSIZE False, cn_Construct := empty_construct\<rparr>"

definition SetError :: "conn \<Rightarrow> cstring \<Rightarrow> conn" where
  "SetError c s = c\<lparr>cn_ErrorString := str_copy s 256\<rparr>"

definition conn_Init :: "conn \<Rightarrow> bool \<Rightarrow> conn" where
  "conn_Init c block_close_msg =
     (ResetStats (conn_Reset c))\<lparr>cn_BlockCloseMsg := block_close_msg, cn_ErrorString := []\<rparr>"

section \<open>The resend buffer and outgoing chunks\<close>

text \<open>Acknowledged chunks leave the buffer from the front.\<close>

definition AckChunks :: "conn \<Rightarrow> int \<Rightarrow> conn" where
  "AckChunks c ack = c\<lparr>cn_Buffer :=
     pop_while (length (m_Items (cn_Buffer c))) ring_First (\<lambda>rb. fst (PopFirst rb))
       (\<lambda>a. IsSeqInBackroom (r_Sequence (cn_Resends c a)) ack) (cn_Buffer c)\<rparr>"

definition SignalResend :: "conn \<Rightarrow> conn" where
  "SignalResend c = c\<lparr>cn_Construct := (cn_Construct c)\<lparr>m_Flags := m_Flags (cn_Construct c) OR NET_PACKETFLAG_RESEND\<rparr>\<rparr>"

definition Flush :: "conn \<Rightarrow> int \<Rightarrow> conn \<times> int" where
  "Flush c now =
     (let num_chunks = m_NumChunks (cn_Construct c) in
      if num_chunks = 0 \<and> \<not> has_flag (m_Flags (cn_Construct c)) NET_PACKETFLAG_RESEND then (c, 0)
      else
        let packet = (cn_Construct c)\<lparr>m_Ack := cn_Ack c\<rparr>;
            c = transmit c (cn_PeerAddr c) (SendPacket packet (cn_SecurityToken c) (cn_Sixup c))
        in (c\<lparr>cn_LastSendTime := now, cn_Construct := empty_construct\<rparr>, num_chunks))"

definition append_chunk :: "conn \<Rightarrow> int \<Rightarrow> byte list \<Rightarrow> int \<Rightarrow> conn" where
  "append_chunk c flags data seq =
     (case chunk_header_Pack \<lparr>h_Flags = flags, h_Size = int (length data), h_Sequence = seq\<rparr>
             (if cn_Sixup c then 6 else 4) of
        None \<Rightarrow> c\<lparr>cn_Aborted := True\<rparr>
      | Some header \<Rightarrow> c\<lparr>cn_Construct := (cn_Construct c)
          \<lparr>m_NumChunks := m_NumChunks (cn_Construct c) + 1,
           m_aChunkData := m_aChunkData (cn_Construct c) @ header @ data\<rparr>\<rparr>)"

definition QueueChunkEx :: "conn \<Rightarrow> int \<Rightarrow> byte list \<Rightarrow> int \<Rightarrow> int \<Rightarrow> conn \<times> int" where
  "QueueChunkEx c flags data seq now =
     (if cn_State c = OFFLINE \<or> cn_State c = ERROR then (c, - 1)
      else
        let c = (if m_DataSize (cn_Construct c) + length data + NET_MAX_CHUNKHEADERSIZE > CHUNK_DATA_SIZE - 4 \<or>
                    m_NumChunks (cn_Construct c) = NET_MAX_PACKET_CHUNKS
                 then fst (Flush c now) else c);
            c = append_chunk c flags data seq
        in if has_flag flags NET_CHUNKFLAG_VITAL \<and> \<not> has_flag flags NET_CHUNKFLAG_RESEND then
             case Allocate (cn_Buffer c) (RESEND_SIZE + length data) of
               (rb, Some a) \<Rightarrow>
                 (c\<lparr>cn_Buffer := rb,
                    cn_Resends := (cn_Resends c)(a :=
                      \<lparr>r_Flags = flags, r_Data = data, r_Sequence = seq, r_LastSendTime = now, r_FirstSendTime = now\<rparr>)\<rparr>, 0)
             | (rb, None) \<Rightarrow> (c\<lparr>cn_Buffer := rb\<rparr>, - 1)
           else (c, 0))"

definition QueueChunk :: "conn \<Rightarrow> int \<Rightarrow> byte list \<Rightarrow> int \<Rightarrow> conn \<times> int" where
  "QueueChunk c flags data now =
     (let c = (if has_flag flags NET_CHUNKFLAG_VITAL
               then c\<lparr>cn_Sequence := (cn_Sequence c + 1) mod NET_MAX_SEQUENCE\<rparr> else c)
      in QueueChunkEx c flags data (cn_Sequence c) now)"

definition SendConnect :: "conn \<Rightarrow> int \<Rightarrow> conn" where
  "SendConnect c now =
     foldl (\<lambda>c addr. transmit c addr (SendControlMsg (cn_Ack c) NET_CTRLMSG_CONNECT SECURITY_TOKEN_MAGIC
              (cn_SecurityToken c) (cn_Sixup c)))
       (c\<lparr>cn_LastSendTime := now\<rparr>) (cn_ConnectAddrs c)"

definition SendControl :: "conn \<Rightarrow> int \<Rightarrow> byte list \<Rightarrow> int \<Rightarrow> conn" where
  "SendControl c msg extra now =
     transmit (c\<lparr>cn_LastSendTime := now\<rparr>) (cn_PeerAddr c)
       (SendControlMsg (cn_Ack c) msg extra (cn_SecurityToken c) (cn_Sixup c))"

definition SendControlWithToken7 :: "conn \<Rightarrow> int \<Rightarrow> token \<Rightarrow> int \<Rightarrow> conn" where
  "SendControlWithToken7 c msg response now =
     transmit (c\<lparr>cn_LastSendTime := now\<rparr>) (cn_PeerAddr c)
       (SendControlMsgWithToken7 response 0 msg (cn_Token c) True)"

definition ResendChunk :: "conn \<Rightarrow> nat \<Rightarrow> int \<Rightarrow> conn" where
  "ResendChunk c a now =
     (let r = cn_Resends c a;
          c = fst (QueueChunkEx c (r_Flags r OR NET_CHUNKFLAG_RESEND) (r_Data r) (r_Sequence r) now)
      in c\<lparr>cn_Resends := (cn_Resends c)(a := (cn_Resends c a)\<lparr>r_LastSendTime := now\<rparr>)\<rparr>)"

text \<open>Queueing a resend does not touch the ring, so the blocks walked over are known beforehand.\<close>

definition Resend :: "conn \<Rightarrow> int \<Rightarrow> conn" where
  "Resend c now =
     foldl (\<lambda>c a. ResendChunk c a now) c
       (ring_walk (length (m_Items (cn_Buffer c))) (cn_Buffer c) (ring_First (cn_Buffer c)))"

definition AnswerResendRequest :: "conn_config \<Rightarrow> conn \<Rightarrow> int \<Rightarrow> conn" where
  "AnswerResendRequest cfg c now =
     (if \<not> cn_ResendRequested c then c
      else if m_ConnResendRequestsPerSecond cfg \<noteq> 0 \<and>
              now - cn_LastResendTime c < time_freq div m_ConnResendRequestsPerSecond cfg then c
      else Resend (c\<lparr>cn_ResendRequested := False, cn_LastResendTime := now\<rparr>) now)"

section \<open>Connecting and disconnecting\<close>

definition conn_Connect :: "conn \<Rightarrow> netaddr list \<Rightarrow> int \<Rightarrow> conn \<times> int" where
  "conn_Connect c targets now =
     (if cn_State c \<noteq> OFFLINE then (c, - 1)
      else
        let c = ClearPeerAddr (conn_Reset c);
            c = c\<lparr>cn_ConnectAddrs := targets, cn_ErrorString := [], cn_State := CONNECT\<rparr>
        in (SendConnect c now, 0))"

definition SetToken7 :: "conn \<Rightarrow> token \<Rightarrow> conn" where
  "SetToken7 c t = (if cn_State c \<noteq> OFFLINE then c else c\<lparr>cn_Token := t\<rparr>)"

text \<open>\<open>random\<close> is the token of \<open>GenerateToken7\<close>.\<close>

definition conn_Connect7 :: "conn \<Rightarrow> netaddr list \<Rightarrow> token \<Rightarrow> int \<Rightarrow> conn \<times> int" where
  "conn_Connect7 c targets random now =
     (if cn_State c \<noteq> OFFLINE then (c, - 1)
      else
        let c = (conn_Reset c)\<lparr>cn_ConnectAddrs := targets, cn_LastRecvTime := now\<rparr>;
            c = SetPeerAddr c (hd targets);
            c = SetToken7 c random;
            c = c\<lparr>cn_ErrorString := [], cn_State := WANT_TOKEN\<rparr>;
            c = SendControlWithToken7 c NET_CTRLMSG_TOKEN NET_TOKEN_NONE now
        in (c\<lparr>cn_Sixup := True\<rparr>, 0))"

text \<open>\<open>own\<close>: the reason points to the connection's own error string, which then stays.\<close>

definition conn_Disconnect :: "conn \<Rightarrow> cstring option \<Rightarrow> bool \<Rightarrow> int \<Rightarrow> conn" where
  "conn_Disconnect c reason own now =
     (if cn_State c = OFFLINE then c
      else
        let c = (if \<not> cn_RemoteClosed c then
                   let c = (if \<not> cn_TimeoutSituation c then
                              (case reason of
                                 Some s \<Rightarrow> SendControl c NET_CTRLMSG_CLOSE (s @ [0]) now
                               | None \<Rightarrow> SendControl c NET_CTRLMSG_CLOSE [] now)
                            else c)
                   in if \<not> own then
                        c\<lparr>cn_ErrorString := (case reason of Some s \<Rightarrow> str_copy s 256 | None \<Rightarrow> [])\<rparr>
                      else c
                 else c)
        in conn_Reset c)"

definition DirectInit :: "conn \<Rightarrow> netaddr \<Rightarrow> token \<Rightarrow> token \<Rightarrow> bool \<Rightarrow> int \<Rightarrow> conn" where
  "DirectInit c addr security_token token sixup now =
     (let c = (conn_Reset c)\<lparr>cn_State := ONLINE\<rparr>;
          c = SetPeerAddr c addr
      in c\<lparr>cn_ErrorString := [], cn_LastSendTime := now, cn_LastRecvTime := now, cn_LastUpdateTime := now,
           cn_SecurityToken := security_token, cn_Token := token, cn_Sixup := sixup\<rparr>)"

section \<open>Receiving a packet\<close>

text \<open>The reason of a close message: at most 255 bytes, without control characters, valid UTF-8.\<close>

definition close_reason :: "byte list \<Rightarrow> cstring" where
  "close_reason data =
     (if length data > 1 then
        let s = str_sanitize_cc (str_copy (takeWhile (\<lambda>b. b \<noteq> 0) (drop 1 data)) (min (length data) 256))
        in if \<not> str_utf8_check s then str_copy (cstring_of ''(Invalid error message)'') 256 else s
      else [])"

text \<open>The token check of \<open>Feed\<close> for 0.6 connections: the packet without its token, or \<open>None\<close>.\<close>

definition strip_token :: "conn \<Rightarrow> construct \<Rightarrow> construct option" where
  "strip_token c p =
     (if \<not> cn_Sixup c \<and> cn_SecurityToken c \<noteq> NET_SECURITY_TOKEN_UNKNOWN \<and>
         cn_SecurityToken c \<noteq> NET_SECURITY_TOKEN_UNSUPPORTED then
        if m_DataSize p < 4 then None
        else
          let n = m_DataSize p - 4 in
          if cn_SecurityToken c \<noteq> ToSecurityToken (drop n (m_aChunkData p)) then None
          else Some (p\<lparr>m_aChunkData := take n (m_aChunkData p)\<rparr>)
      else Some p)"

definition ack_acceptable :: "conn \<Rightarrow> int \<Rightarrow> bool" where
  "ack_acceptable c ack =
     (if cn_Sequence c \<ge> cn_PeerAck c then \<not> (ack < cn_PeerAck c \<or> ack > cn_Sequence c)
      else \<not> (ack < cn_PeerAck c \<and> ack > cn_Sequence c))"

definition accept_connect :: "conn \<Rightarrow> construct \<Rightarrow> netaddr \<Rightarrow> int \<Rightarrow> conn" where
  "accept_connect c p addr now =
     (let c = SetPeerAddr c addr;
          c = (if cn_SecurityToken c = NET_SECURITY_TOKEN_UNKNOWN \<and> m_DataSize p \<ge> 1 + 4 + 4 \<and>
                  take 4 (drop 1 (m_aChunkData p)) = SECURITY_TOKEN_MAGIC
               then c\<lparr>cn_SecurityToken := ToSecurityToken (drop 5 (m_aChunkData p))\<rparr>
               else if \<not> cn_Sixup c then c\<lparr>cn_SecurityToken := NET_SECURITY_TOKEN_UNSUPPORTED\<rparr>
               else c);
          c = (if \<not> cn_Sixup c then SendControl c NET_CTRLMSG_ACCEPT [] now else c)
      in c\<lparr>cn_LastRecvTime := now, cn_State := ONLINE\<rparr>)"

text \<open>A control message other than a close.\<close>

definition feed_control :: "conn \<Rightarrow> int \<Rightarrow> construct \<Rightarrow> netaddr \<Rightarrow> token \<Rightarrow> int \<Rightarrow> conn" where
  "feed_control c ctrl p addr response now =
     (if cn_Sixup c \<and> ctrl = NET_CTRLMSG_TOKEN then
        if cn_State c = WANT_TOKEN then
          let c = c\<lparr>cn_LastRecvTime := now, cn_State := CONNECT, cn_SecurityToken := response\<rparr>
          in SendControlWithToken7 c NET_CTRLMSG_CONNECT (cn_SecurityToken c) now
        else c
      else if cn_State c = CONNECT \<and> ctrl = NET_CTRLMSG_CONNECTACCEPT then accept_connect c p addr now
      else c)"

text \<open>\<open>Feed\<close>: the connection and whether the packet counts. The first byte of a control packet is read from
  the packet as it arrived: shortening it by the token leaves the bytes in place.\<close>

definition Feed ::
  "conn_config \<Rightarrow> conn \<Rightarrow> construct \<Rightarrow> netaddr \<Rightarrow> token \<Rightarrow> token \<Rightarrow> int \<Rightarrow> conn \<times> bool" where
  "Feed cfg c p0 addr security_token response now =
     (if cn_State c = OFFLINE then (c\<lparr>cn_Aborted := True\<rparr>, False)
      else if \<not> IsPeerAddress c addr then (c, False)
      else case strip_token c p0 of None \<Rightarrow> (c, False)
      | Some p \<Rightarrow>
          if cn_Sixup c \<and> security_token \<noteq> cn_Token c then (c, False)
          else if \<not> ack_acceptable c (m_Ack p) then (c, False)
          else
            let c = c\<lparr>cn_PeerAck := m_Ack p\<rparr>;
                c = (if has_flag (m_Flags p) NET_PACKETFLAG_RESEND then c\<lparr>cn_ResendRequested := True\<rparr> else c);
                c = AnswerResendRequest cfg c now;
                ctrl = byte_at (m_aChunkData p0) 0
            in if has_flag (m_Flags p) NET_PACKETFLAG_CONTROL \<and> ctrl = NET_CTRLMSG_CLOSE then
                 let c = c\<lparr>cn_State := ERROR, cn_RemoteClosed := True\<rparr>
                 in (if \<not> cn_BlockCloseMsg c then SetError c (close_reason (m_aChunkData p)) else c, False)
               else
                 let c = (if has_flag (m_Flags p) NET_PACKETFLAG_CONTROL then feed_control c ctrl p addr response now
                          else if cn_State c = PENDING then c\<lparr>cn_LastRecvTime := now, cn_State := ONLINE\<rparr>
                          else c)
                 in (if cn_State c = ONLINE then AckChunks (c\<lparr>cn_LastRecvTime := now\<rparr>) (m_Ack p) else c, True))"

section \<open>The periodic update\<close>

definition check_resend :: "conn_config \<Rightarrow> conn \<Rightarrow> int \<Rightarrow> conn" where
  "check_resend cfg c now =
     (case ring_First (cn_Buffer c) of
        None \<Rightarrow> c
      | Some a \<Rightarrow>
          if now - r_FirstSendTime (cn_Resends c a) > time_freq * m_ConnTimeout cfg then
            (SetError (c\<lparr>cn_State := ERROR\<rparr>)
               (cstring_of ''Too weak connection (not acked for '' @ decimal (nat (m_ConnTimeout cfg)) @
                cstring_of '' seconds)''))\<lparr>cn_TimeoutSituation := True\<rparr>
          else if now - r_LastSendTime (cn_Resends c a) > time_freq then ResendChunk c a now
          else c)"

definition keep_alive :: "conn \<Rightarrow> int \<Rightarrow> conn" where
  "keep_alive c now =
     (if cn_State c = ONLINE then
        let c = (if now - cn_LastSendTime c > time_freq div 2 then fst (Flush c now) else c)
        in if now - cn_LastSendTime c > time_freq then SendControl c NET_CTRLMSG_KEEPALIVE [] now else c
      else if cn_State c = CONNECT then
        if now - cn_LastSendTime c > time_freq div 2 then SendConnect c now else c
      else if cn_State c = PENDING then
        if now - cn_LastSendTime c > time_freq div 2
        then SendControl c NET_CTRLMSG_CONNECTACCEPT SECURITY_TOKEN_MAGIC now else c
      else c)"

definition conn_Update :: "conn_config \<Rightarrow> conn \<Rightarrow> int \<Rightarrow> conn" where
  "conn_Update cfg c now =
     (let c = (if cn_State c = ERROR \<and> cn_TimeoutSituation c \<and>
                  now - cn_LastRecvTime c > time_freq * m_ConnTimeoutProtection cfg
               then SetError (c\<lparr>cn_TimeoutSituation := False\<rparr>) (cstring_of ''Timeout Protection over'')
               else c)
      in if cn_State c = OFFLINE \<or> cn_State c = ERROR then c
         else
           let c = c\<lparr>cn_TimeoutSituation := False\<rparr>;
               c = AnswerResendRequest cfg c now;
               c = (if cn_State c \<noteq> CONNECT \<and> now - cn_LastRecvTime c > time_freq * m_ConnTimeout cfg
                    then (SetError (c\<lparr>cn_State := ERROR\<rparr>) (cstring_of ''Timeout''))\<lparr>cn_TimeoutSituation := True\<rparr>
                    else c);
               c = check_resend cfg c now
           in keep_alive c now)"

text \<open>The copy loop of \<open>ResumeConnection\<close>; the fuel is the number of blocks of the other buffer.\<close>

fun copy_resends :: "nat \<Rightarrow> conn \<Rightarrow> ring \<Rightarrow> (nat \<Rightarrow> chunk_resend) \<Rightarrow> conn \<times> ring" where
  "copy_resends 0 c rb resends = (c, rb)"
| "copy_resends (Suc n) c rb resends =
     (case ring_First rb of
        None \<Rightarrow> (c, rb)
      | Some f \<Rightarrow>
          (case Allocate (cn_Buffer c) (RESEND_SIZE + length (r_Data (resends f))) of
             (rb', None) \<Rightarrow> (c\<lparr>cn_Aborted := True\<rparr>, rb)
           | (rb', Some a) \<Rightarrow>
               copy_resends n (c\<lparr>cn_Buffer := rb', cn_Resends := (cn_Resends c)(a := resends f)\<rparr>)
                 (fst (PopFirst rb)) resends))"

definition ResumeConnection ::
  "conn \<Rightarrow> netaddr \<Rightarrow> int \<Rightarrow> int \<Rightarrow> token \<Rightarrow> ring \<Rightarrow> (nat \<Rightarrow> chunk_resend) \<Rightarrow> bool \<Rightarrow> int \<Rightarrow> conn \<times> ring" where
  "ResumeConnection c addr seq ack security_token rb resends sixup now =
     (let c = SetPeerAddr (c\<lparr>cn_Sequence := seq, cn_Ack := ack, cn_RemoteClosed := False, cn_State := ONLINE\<rparr>) addr;
          c = c\<lparr>cn_ErrorString := [], cn_LastSendTime := now, cn_LastRecvTime := now, cn_LastUpdateTime := now,
                cn_SecurityToken := security_token, cn_Sixup := sixup,
                cn_Buffer := ring_Init NET_CONN_BUFFERSIZE False\<rparr>
      in copy_resends (length (m_Items rb)) c rb resends)"

section \<open>Taking the chunks out of a packet\<close>

record net_chunk =
  ch_ClientId :: int
  ch_Address :: netaddr
  ch_Flags :: int
  ch_Data :: "byte list"

record chunk_unpacker =
  cu_Valid :: bool
  cu_Addr :: netaddr
  cu_CurrentChunk :: int
  cu_CurrentOffset :: nat
  cu_ClientId :: int
  cu_Data :: construct

definition FeedPacket :: "netaddr \<Rightarrow> construct \<Rightarrow> int \<Rightarrow> chunk_unpacker" where
  "FeedPacket addr packet client_id =
     \<lparr>cu_Valid = True, cu_Addr = addr, cu_CurrentChunk = 0, cu_CurrentOffset = 0, cu_ClientId = client_id,
      cu_Data = packet\<rparr>"

text \<open>The sequence check of a vital chunk: deliver it, ignore it as old, or ask for a resend.\<close>

datatype verdict = Deliver | Ignore | AskResend

definition check_sequence :: "int \<Rightarrow> bool \<Rightarrow> int \<Rightarrow> verdict" where
  "check_sequence ack unknown seq =
     (if seq = (ack + 1) mod NET_MAX_SEQUENCE \<or> unknown then Deliver
      else if IsSeqInBackroom seq ack then Ignore
      else AskResend)"

function UnpackNextChunk :: "chunk_unpacker \<Rightarrow> conn \<Rightarrow> chunk_unpacker \<times> conn \<times> net_chunk option" where
  "UnpackNextChunk u c =
     (if \<not> cu_Valid u then (u, c, None)
      else if cu_CurrentChunk u \<ge> m_NumChunks (cu_Data u) then (u\<lparr>cu_Valid := False\<rparr>, c, None)
      else if cu_CurrentOffset u + 2 > m_DataSize (cu_Data u) then (u\<lparr>cu_Valid := False\<rparr>, c, None)
      else
        let (header, hsize) = chunk_header_Unpack (drop (cu_CurrentOffset u) (m_aChunkData (cu_Data u)))
                                (if cn_Sixup c then 6 else 4);
            u = u\<lparr>cu_CurrentChunk := cu_CurrentChunk u + 1\<rparr>;
            begin = cu_CurrentOffset u + hsize;
            chunk_end = begin + nat (h_Size header)
        in if chunk_end > m_DataSize (cu_Data u) then (u\<lparr>cu_Valid := False\<rparr>, c, None)
           else
             let u = u\<lparr>cu_CurrentOffset := chunk_end\<rparr>;
                 chunk = \<lparr>ch_ClientId = cu_ClientId u, ch_Address = cu_Addr u, ch_Flags = h_Flags header,
                          ch_Data = take (nat (h_Size header)) (drop begin (m_aChunkData (cu_Data u)))\<rparr>
             in if has_flag (h_Flags header) NET_CHUNKFLAG_VITAL then
                  case check_sequence (cn_Ack c) (cn_UnknownSeq c) (h_Sequence header) of
                    Deliver \<Rightarrow> (u, c\<lparr>cn_UnknownSeq := False, cn_Ack := h_Sequence header\<rparr>, Some chunk)
                  | Ignore \<Rightarrow> UnpackNextChunk u c
                  | AskResend \<Rightarrow> UnpackNextChunk u (SignalResend c)
                else (u, c, Some chunk))"
  by pat_completeness auto
termination
  by (relation "measure (\<lambda>(u, c). nat (m_NumChunks (cu_Data u) - cu_CurrentChunk u))") auto

declare UnpackNextChunk.simps [simp del]

definition chunk_unpacker_Reset :: "chunk_unpacker \<Rightarrow> chunk_unpacker" where
  "chunk_unpacker_Reset u = u\<lparr>cu_Valid := False\<rparr>"

end
