(* ===== verification/ConnSafety.thy ===== *)
theory ConnSafety
  imports NetConn
begin

text \<open>
  The invariant \<open>conn_ok\<close> of a connection and its preservation by every operation of \<open>NetConn\<close>: no assertion
  of the packet layer can fail, every datagram fits the maximal size, and the resend buffer stays a queue of
  chunks that can be sent again. \<open>conn_step\<close> collects the operations an owner of a connection may call.
\<close>

section \<open>The invariant of a connection\<close>

definition resend_ok :: "chunk_resend \<Rightarrow> bool" where
  "resend_ok r \<longleftrightarrow> int (length (r_Data r)) \<le> NET_MAX_CHUNK_SIZE \<and> 0 \<le> r_Sequence r \<and> r_Sequence r < NET_MAX_SEQUENCE"

text \<open>The packet under construction can be sent, with a token, at any time.\<close>

definition construct_ok :: "construct \<Rightarrow> bool" where
  "construct_ok p \<longleftrightarrow> m_DataSize p + 4 \<le> CHUNK_DATA_SIZE \<and> 0 \<le> m_NumChunks p \<and> m_NumChunks p \<le> NET_MAX_PACKET_CHUNKS \<and>
     (m_NumChunks p = 0 \<longrightarrow> m_aChunkData p = []) \<and> (m_Flags p = 0 \<or> m_Flags p = NET_PACKETFLAG_RESEND) \<and>
     m_aExtraData p = []"

text \<open>The offsets of the blocks of the resend buffer.\<close>

definition held :: "ring \<Rightarrow> nat set" where
  "held rb = set (map m_Addr (contents rb))"

text \<open>A block holds a chunk that can be sent again, and is large enough for it.\<close>

definition block_ok :: "(nat \<Rightarrow> chunk_resend) \<Rightarrow> item \<Rightarrow> bool" where
  "block_ok f x \<longleftrightarrow> resend_ok (f (m_Addr x)) \<and> wanted_size (RESEND_SIZE + length (r_Data (f (m_Addr x)))) \<le> m_Size x"

definition fresh_ring :: ring where
  "fresh_ring = ring_Init NET_CONN_BUFFERSIZE False"

definition buffer_resends_ok :: "conn \<Rightarrow> bool" where
  "buffer_resends_ok c \<longleftrightarrow> ring_queue (cn_Buffer c) \<and> m_RingSize (cn_Buffer c) = m_RingSize fresh_ring \<and>
     (\<forall>x\<in>set (contents (cn_Buffer c)). block_ok (cn_Resends c) x)"

lemma buffer_held:
  "buffer_resends_ok c \<Longrightarrow> a \<in> held (cn_Buffer c) \<Longrightarrow> resend_ok (cn_Resends c a)"
  by (auto simp: buffer_resends_ok_def held_def block_ok_def)

definition conn_ok :: "conn \<Rightarrow> bool" where
  "conn_ok c \<longleftrightarrow> buffer_resends_ok c \<and> construct_ok (cn_Construct c) \<and>
     0 \<le> cn_Sequence c \<and> cn_Sequence c < NET_MAX_SEQUENCE \<and> 0 \<le> cn_Ack c \<and> cn_Ack c < NET_MAX_SEQUENCE \<and>
     (\<forall>d\<in>set (cn_Sent c). length (snd d) \<le> NET_MAX_PACKETSIZE) \<and> \<not> cn_Aborted c"

text \<open>Updates of the other fields do not matter to the invariant.\<close>

lemma conn_ok_frame [frame_simps]:
  "conn_ok (c\<lparr>cn_SecurityToken := t\<rparr>) = conn_ok c"
  "conn_ok (c\<lparr>cn_PeerAck := a\<rparr>) = conn_ok c"
  "conn_ok (c\<lparr>cn_State := s\<rparr>) = conn_ok c"
  "conn_ok (c\<lparr>cn_RemoteClosed := b\<rparr>) = conn_ok c"
  "conn_ok (c\<lparr>cn_UnknownSeq := b\<rparr>) = conn_ok c"
  "conn_ok (c\<lparr>cn_BlockCloseMsg := b\<rparr>) = conn_ok c"
  "conn_ok (c\<lparr>cn_LastUpdateTime := a\<rparr>) = conn_ok c"
  "conn_ok (c\<lparr>cn_LastRecvTime := a\<rparr>) = conn_ok c"
  "conn_ok (c\<lparr>cn_LastSendTime := a\<rparr>) = conn_ok c"
  "conn_ok (c\<lparr>cn_LastResendTime := a\<rparr>) = conn_ok c"
  "conn_ok (c\<lparr>cn_ResendRequested := b\<rparr>) = conn_ok c"
  "conn_ok (c\<lparr>cn_ErrorString := e\<rparr>) = conn_ok c"
  "conn_ok (c\<lparr>cn_ConnectAddrs := l\<rparr>) = conn_ok c"
  "conn_ok (c\<lparr>cn_PeerAddr := p\<rparr>) = conn_ok c"
  "conn_ok (c\<lparr>cn_TimeoutProtected := b\<rparr>) = conn_ok c"
  "conn_ok (c\<lparr>cn_TimeoutSituation := b\<rparr>) = conn_ok c"
  "conn_ok (c\<lparr>cn_Sixup := b\<rparr>) = conn_ok c"
  "conn_ok (c\<lparr>cn_Token := t\<rparr>) = conn_ok c"
  "conn_ok (SetError c e) = conn_ok c" "conn_ok (SetPeerAddr c p) = conn_ok c" "conn_ok (ClearPeerAddr c) = conn_ok c"
  "conn_ok (SetToken7 c t) = conn_ok c"
  by (simp_all add: conn_ok_def buffer_resends_ok_def SetError_def SetPeerAddr_def ClearPeerAddr_def SetToken7_def)

lemma construct_ok_empty [simp]: "construct_ok empty_construct"
  by (simp add: construct_ok_def empty_construct_def net_sizes)

lemma ring_Init_queue: "ring_queue (ring_Init NET_CONN_BUFFERSIZE False) \<and> contents (ring_Init NET_CONN_BUFFERSIZE False) = [] \<and>
    m_RingSize (ring_Init NET_CONN_BUFFERSIZE False) = m_RingSize fresh_ring"
  using ring_Init_ok [of NET_CONN_BUFFERSIZE False]
  by (simp add: fresh_ring_def ring_queue_def NET_CONN_BUFFERSIZE_def ITEM_SIZE_def ring_Init_def ring_Clear_def)

lemma send_ok:
  assumes "IsValidConnectionOrientedPacket p" "\<not> has_flag (m_Flags p) NET_PACKETFLAG_COMPRESSION"
    "m_DataSize p + 4 \<le> CHUNK_DATA_SIZE"
  shows "\<exists>d. SendPacket p token sixup = Some d \<and> length d \<le> NET_MAX_PACKETSIZE"
proof -
  have "SendPacket p token sixup \<noteq> None"
    using assms(1,2) by (simp add: SendPacket_def Let_def split: prod.split)
  then obtain d where d: "SendPacket p token sixup = Some d" by blast
  from SendPacket_shape [OF d assms(3)] assms(3) have "length d \<le> NET_MAX_PACKETSIZE"
    by (auto simp: WriteSecurityToken_def uint_to_bytes_be_def net_sizes split: if_splits)
  with d show ?thesis by blast
qed

lemma control_ok:
  assumes "length extra \<le> 1392"
  shows "\<exists>d. SendControlMsg ack msg extra token sixup = Some d \<and> length d \<le> NET_MAX_PACKETSIZE"
  unfolding SendControlMsg_def
  by (rule send_ok) (use assms in \<open>simp_all add: IsValidConnectionOrientedPacket_def has_flag_def net_flags net_sizes\<close>)

lemma control7_ok: "\<exists>d. SendControlMsgWithToken7 token ack msg my ext = Some d \<and> length d \<le> NET_MAX_PACKETSIZE"
  unfolding SendControlMsgWithToken7_def Let_def
  by (rule control_ok) (simp add: uint_to_bytes_be_def NET_TOKENREQUEST_DATASIZE_def)

lemma transmit_ok:
  assumes "conn_ok c" "\<exists>bs. d = Some bs \<and> length bs \<le> NET_MAX_PACKETSIZE"
  shows "conn_ok (transmit c addr d)"
  using assms by (auto simp: conn_ok_def transmit_def buffer_resends_ok_def)

lemma transmit_frame [simp]:
  "cn_State (transmit c addr d) = cn_State c" "cn_Buffer (transmit c addr d) = cn_Buffer c"
  "cn_Resends (transmit c addr d) = cn_Resends c" "cn_Construct (transmit c addr d) = cn_Construct c"
  "cn_Sequence (transmit c addr d) = cn_Sequence c" "cn_Ack (transmit c addr d) = cn_Ack c"
  "cn_PeerAddr (transmit c addr d) = cn_PeerAddr c" "cn_Sixup (transmit c addr d) = cn_Sixup c"
  "cn_Token (transmit c addr d) = cn_Token c" "cn_SecurityToken (transmit c addr d) = cn_SecurityToken c"
  by (simp_all add: transmit_def split: option.split)

lemma SendControl_ok: "conn_ok c \<Longrightarrow> length extra \<le> 1392 \<Longrightarrow> conn_ok (SendControl c msg extra now)"
  unfolding SendControl_def
  by (rule transmit_ok) (auto simp: frame_simps intro: control_ok)

lemma SendControlWithToken7_ok: "conn_ok c \<Longrightarrow> conn_ok (SendControlWithToken7 c msg r now)"
  unfolding SendControlWithToken7_def
  by (rule transmit_ok) (auto simp: frame_simps intro: control7_ok)

lemma SendConnect_ok: "conn_ok c \<Longrightarrow> conn_ok (SendConnect c now)"
proof -
  have "conn_ok c \<Longrightarrow> conn_ok (foldl (\<lambda>c addr. transmit c addr (SendControlMsg (cn_Ack c) NET_CTRLMSG_CONNECT
      SECURITY_TOKEN_MAGIC (cn_SecurityToken c) (cn_Sixup c))) c as)" for as c
  proof (induction as arbitrary: c)
    case (Cons a as)
    then show ?case by (simp add: transmit_ok control_ok SECURITY_TOKEN_MAGIC_def)
  qed simp
  then show "conn_ok c \<Longrightarrow> conn_ok (SendConnect c now)"
    by (simp add: SendConnect_def frame_simps)
qed

lemma SendConnect_frame [simp]:
  "cn_State (SendConnect c now) = cn_State c"
proof -
  have "cn_State (foldl (\<lambda>c addr. transmit c addr (g c)) c as) = cn_State c" for as c g
    by (induction as arbitrary: c) simp_all
  then show ?thesis by (simp add: SendConnect_def)
qed

lemma Flush_ok:
  assumes "conn_ok c"
  shows "conn_ok (fst (Flush c now))"
proof (cases "m_NumChunks (cn_Construct c) = 0 \<and> \<not> has_flag (m_Flags (cn_Construct c)) NET_PACKETFLAG_RESEND")
  case True
  then show ?thesis using assms by (simp add: Flush_def)
next
  case False
  let ?p = "(cn_Construct c)\<lparr>m_Ack := cn_Ack c\<rparr>"
  have ok: "construct_ok (cn_Construct c)" using assms by (simp add: conn_ok_def)
  have "IsValidConnectionOrientedPacket ?p" "\<not> has_flag (m_Flags ?p) NET_PACKETFLAG_COMPRESSION"
      "m_DataSize ?p + 4 \<le> CHUNK_DATA_SIZE"
    using ok False by (auto simp: construct_ok_def IsValidConnectionOrientedPacket_def has_flag_def net_flags net_sizes)
  then have "conn_ok (transmit c (cn_PeerAddr c) (SendPacket ?p (cn_SecurityToken c) (cn_Sixup c)))"
    using assms by (intro transmit_ok send_ok)
  then show ?thesis using False
    by (auto simp: Flush_def Let_def conn_ok_def buffer_resends_ok_def)
qed

lemma Flush_frame [simp]:
  "cn_State (fst (Flush c now)) = cn_State c" "cn_Buffer (fst (Flush c now)) = cn_Buffer c"
  "cn_Resends (fst (Flush c now)) = cn_Resends c" "cn_Sequence (fst (Flush c now)) = cn_Sequence c"
  "cn_Ack (fst (Flush c now)) = cn_Ack c" "cn_Sixup (fst (Flush c now)) = cn_Sixup c"
  by (simp_all add: Flush_def Let_def)

text \<open>Room for a chunk after the flush, if one was needed.\<close>

definition make_room :: "conn \<Rightarrow> nat \<Rightarrow> int \<Rightarrow> conn" where
  "make_room c n now =
     (if m_DataSize (cn_Construct c) + n + NET_MAX_CHUNKHEADERSIZE > CHUNK_DATA_SIZE - 4 \<or>
         m_NumChunks (cn_Construct c) = NET_MAX_PACKET_CHUNKS then fst (Flush c now) else c)"

lemma make_room_ok:
  assumes "conn_ok c" "int n \<le> NET_MAX_CHUNK_SIZE"
  shows "conn_ok (make_room c n now)"
    "m_DataSize (cn_Construct (make_room c n now)) + n + NET_MAX_CHUNKHEADERSIZE \<le> CHUNK_DATA_SIZE - 4"
    "m_NumChunks (cn_Construct (make_room c n now)) < NET_MAX_PACKET_CHUNKS"
proof -
  have ok: "construct_ok (cn_Construct c)" using assms by (simp add: conn_ok_def)
  show "conn_ok (make_room c n now)" using assms(1) by (simp add: make_room_def Flush_ok)
  have flushed: "m_aChunkData (cn_Construct (fst (Flush c now))) = [] \<and> m_NumChunks (cn_Construct (fst (Flush c now))) = 0"
    using ok by (auto simp: Flush_def Let_def empty_construct_def construct_ok_def)
  show "m_DataSize (cn_Construct (make_room c n now)) + n + NET_MAX_CHUNKHEADERSIZE \<le> CHUNK_DATA_SIZE - 4"
    using flushed assms(2) by (auto simp: make_room_def net_sizes)
  show "m_NumChunks (cn_Construct (make_room c n now)) < NET_MAX_PACKET_CHUNKS"
    using flushed ok by (auto simp: make_room_def construct_ok_def NET_MAX_PACKET_CHUNKS_def)
qed

lemma chunk_header_some:
  assumes "int n \<le> NET_MAX_CHUNK_SIZE" "split = 4 \<or> split = 6"
  shows "\<exists>bs. chunk_header_Pack \<lparr>h_Flags = f, h_Size = int n, h_Sequence = s\<rparr> split = Some bs \<and> length bs \<le> 3 \<and> bs \<noteq> []"
  using assms by (auto simp: chunk_header_Pack_def net_sizes Let_def)

lemma append_chunk_ok:
  assumes "conn_ok c" "int (length data) \<le> NET_MAX_CHUNK_SIZE"
    "m_DataSize (cn_Construct c) + length data + NET_MAX_CHUNKHEADERSIZE \<le> CHUNK_DATA_SIZE - 4"
    "m_NumChunks (cn_Construct c) < NET_MAX_PACKET_CHUNKS"
  shows "conn_ok (append_chunk c flags data seq)"
proof -
  have split: "(if cn_Sixup c then 6 else 4) = (4::nat) \<or> (if cn_Sixup c then 6 else 4) = (6::nat)" by simp
  obtain header where h: "chunk_header_Pack \<lparr>h_Flags = flags, h_Size = int (length data), h_Sequence = seq\<rparr>
      (if cn_Sixup c then 6 else 4) = Some header" "length header \<le> 3" "header \<noteq> []"
    using chunk_header_some [OF assms(2) split, of flags seq] by blast
  then show ?thesis using assms
    by (auto simp: append_chunk_def conn_ok_def buffer_resends_ok_def construct_ok_def net_sizes)
qed

lemma append_chunk_frame [simp]:
  "cn_State (append_chunk c flags data seq) = cn_State c" "cn_Buffer (append_chunk c flags data seq) = cn_Buffer c"
  "cn_Resends (append_chunk c flags data seq) = cn_Resends c"
  "cn_Sequence (append_chunk c flags data seq) = cn_Sequence c" "cn_Ack (append_chunk c flags data seq) = cn_Ack c"
  by (simp_all add: append_chunk_def split: option.split)

lemma QueueChunkEx_eq:
  "QueueChunkEx c flags data seq now =
     (if cn_State c = OFFLINE \<or> cn_State c = ERROR then (c, - 1)
      else
        let c = append_chunk (make_room c (length data) now) flags data seq
        in if has_flag flags NET_CHUNKFLAG_VITAL \<and> \<not> has_flag flags NET_CHUNKFLAG_RESEND then
             case Allocate (cn_Buffer c) (RESEND_SIZE + length data) of
               (rb, Some a) \<Rightarrow>
                 (c\<lparr>cn_Buffer := rb,
                    cn_Resends := (cn_Resends c)(a :=
                      \<lparr>r_Flags = flags, r_Data = data, r_Sequence = seq, r_LastSendTime = now, r_FirstSendTime = now\<rparr>)\<rparr>, 0)
             | (rb, None) \<Rightarrow> (c\<lparr>cn_Buffer := rb\<rparr>, - 1)
           else (c, 0))"
  by (simp add: QueueChunkEx_def make_room_def Let_def)


lemma make_room_frame [simp]:
  "cn_State (make_room c n now) = cn_State c" "cn_Buffer (make_room c n now) = cn_Buffer c"
  "cn_Resends (make_room c n now) = cn_Resends c" "cn_Sequence (make_room c n now) = cn_Sequence c"
  "cn_Ack (make_room c n now) = cn_Ack c"
  by (simp_all add: make_room_def)

lemma contents_length: "ring_ok rb \<Longrightarrow> length (contents rb) \<le> length (m_Items rb)"
  using used_items_contents [of rb] by (auto simp: used_items_def intro: le_trans [OF _ length_filter_le])

lemma contents_distinct:
  assumes "ring_ok rb" "x \<in> set (contents rb)" "y \<in> set (contents rb)" "m_Addr x = m_Addr y"
  shows "x = y"
proof -
  have "set (contents rb) \<subseteq> set (m_Items rb)"
    by (auto simp: contents_def used_items_def dest: set_takeWhileD set_dropWhileD)
  moreover have "inj_on m_Addr (set (m_Items rb))"
    using tiled_distinct [of 0 "m_Items rb"] assms(1) by (simp add: ring_ok_def distinct_map)
  ultimately show ?thesis using assms by (meson inj_onD subsetD)
qed

lemma QueueChunkEx_ok:
  assumes "conn_ok c" "int (length data) \<le> NET_MAX_CHUNK_SIZE" "0 \<le> seq" "seq < NET_MAX_SEQUENCE"
  shows "conn_ok (fst (QueueChunkEx c flags data seq now))"
proof -
  let ?d = "append_chunk (make_room c (length data) now) flags data seq"
  have d: "conn_ok ?d" using make_room_ok [OF assms(1,2)] assms(2) by (intro append_chunk_ok)
  then have q: "ring_queue (cn_Buffer c)" by (simp add: conn_ok_def buffer_resends_ok_def)
  note q = this
  have ok: "ring_ok (cn_Buffer c)" "\<not> m_Recycle (cn_Buffer c)" using q by (simp_all add: ring_queue_def)
  obtain rb r where a: "Allocate (cn_Buffer c) (RESEND_SIZE + length data) = (rb, r)" by (cases "Allocate (cn_Buffer c) (RESEND_SIZE + length data)")
  show ?thesis
  proof (cases r)
    case None
    then have "rb = cn_Buffer c" using Allocate_contents [OF ok(1), of "RESEND_SIZE + length data"] a by simp
    then show ?thesis using assms d None by (auto simp: QueueChunkEx_eq Let_def a conn_ok_def buffer_resends_ok_def)
  next
    case (Some e)
    then obtain n where n: "m_Addr n = e" "wanted_size (RESEND_SIZE + length data) \<le> m_Size n"
        "ring_after (cn_Buffer c) (contents (cn_Buffer c) @ [n]) rb"
      using Allocate_contents [OF ok(1), of "RESEND_SIZE + length data"] a ok(2) by (auto simp: allocated_def)
    then have rb: "ring_queue rb" "contents rb = contents (cn_Buffer c) @ [n]" "m_RingSize rb = m_RingSize (cn_Buffer c)"
      using ok(2) by (auto simp: ring_after_def ring_queue_def)
    have new: "x = n" if "x \<in> set (contents rb)" "m_Addr x = e" for x
      using contents_distinct [of rb x n] rb(1,2) that n(1) by (simp add: ring_queue_def)
    let ?r = "\<lparr>r_Flags = flags, r_Data = data, r_Sequence = seq, r_LastSendTime = now, r_FirstSendTime = now\<rparr>"
    have "\<forall>x\<in>set (contents rb). block_ok ((cn_Resends c)(e := ?r)) x"
    proof
      fix x assume x: "x \<in> set (contents rb)"
      show "block_ok ((cn_Resends c)(e := ?r)) x"
      proof (cases "m_Addr x = e")
        case True
        then show ?thesis using new [OF x True] n(2) assms(2-4) by (simp add: block_ok_def resend_ok_def)
      next
        case False
        then show ?thesis using x rb(2) n(1) assms(1) by (auto simp: block_ok_def conn_ok_def buffer_resends_ok_def)
      qed
    qed
    then show ?thesis using assms d rb Some
      by (auto simp: QueueChunkEx_eq Let_def a conn_ok_def buffer_resends_ok_def)
  qed
qed

lemma QueueChunkEx_frame [simp]:
  "cn_State (fst (QueueChunkEx c flags data seq now)) = cn_State c"
  "cn_Sequence (fst (QueueChunkEx c flags data seq now)) = cn_Sequence c"
  "cn_Ack (fst (QueueChunkEx c flags data seq now)) = cn_Ack c"
  by (auto simp: QueueChunkEx_eq Let_def split: prod.split option.split)

lemma QueueChunkEx_resend [simp]:
  "cn_Buffer (fst (QueueChunkEx c (flags OR NET_CHUNKFLAG_RESEND) data seq now)) = cn_Buffer c"
  "cn_Resends (fst (QueueChunkEx c (flags OR NET_CHUNKFLAG_RESEND) data seq now)) = cn_Resends c"
proof -
  have "has_flag (flags OR NET_CHUNKFLAG_RESEND) NET_CHUNKFLAG_RESEND"
    by (auto simp: has_flag_def NET_CHUNKFLAG_RESEND_def bit_eq_iff bit_and_iff bit_or_iff bit_numerals
        intro: exI [of _ 1])
  then show "cn_Buffer (fst (QueueChunkEx c (flags OR NET_CHUNKFLAG_RESEND) data seq now)) = cn_Buffer c"
    "cn_Resends (fst (QueueChunkEx c (flags OR NET_CHUNKFLAG_RESEND) data seq now)) = cn_Resends c"
    by (simp_all add: QueueChunkEx_eq Let_def)
qed

lemma QueueChunk_ok:
  assumes "conn_ok c" "int (length data) \<le> NET_MAX_CHUNK_SIZE"
  shows "conn_ok (fst (QueueChunk c flags data now))"
proof -
  have "conn_ok (c\<lparr>cn_Sequence := (cn_Sequence c + 1) mod NET_MAX_SEQUENCE\<rparr>)"
    using assms(1) by (simp add: conn_ok_def buffer_resends_ok_def NET_MAX_SEQUENCE_def)
  moreover have "0 \<le> cn_Sequence d \<and> cn_Sequence d < NET_MAX_SEQUENCE" if "conn_ok d" for d
    using that by (simp add: conn_ok_def)
  ultimately show ?thesis using assms unfolding QueueChunk_def Let_def
    by (intro QueueChunkEx_ok) (simp_all split: if_split)
qed

lemma AckChunks_contents:
  assumes "ring_queue (cn_Buffer c)"
  shows "ring_queue (cn_Buffer (AckChunks c ack)) \<and>
    map m_Addr (contents (cn_Buffer (AckChunks c ack))) =
      dropWhile (\<lambda>a. IsSeqInBackroom (r_Sequence (cn_Resends c a)) ack) (map m_Addr (contents (cn_Buffer c)))"
proof -
  have "length (contents (cn_Buffer c)) \<le> length (m_Items (cn_Buffer c))"
    using contents_length assms by (simp add: ring_queue_def)
  then show ?thesis using ring.pop_while_entries [OF assms] by (simp add: AckChunks_def)
qed

lemma AckChunks_suffix:
  assumes "ring_queue (cn_Buffer c)"
  shows "\<exists>k. ring_after (cn_Buffer c) (drop k (contents (cn_Buffer c))) (cn_Buffer (AckChunks c ack))"
proof -
  have "\<exists>k. ring_after rb (drop k (contents rb)) (pop_while n ring_First (\<lambda>rb. fst (PopFirst rb)) P rb)" if "ring_ok rb" for n P rb
    using that
  proof (induction n arbitrary: rb)
    case 0
    then show ?case by (auto intro: exI [of _ 0] simp: ring_after_def)
  next
    case (Suc n)
    let ?q = "fst (PopFirst rb)"
    have p: "ring_after rb (tl (contents rb)) ?q" using PopFirst_contents [OF Suc.prems] by simp
    then have "ring_ok ?q" "contents ?q = tl (contents rb)" by (simp_all add: ring_after_def)
    with Suc.IH [of ?q] obtain k where
      "ring_after ?q (drop k (tl (contents rb))) (pop_while n ring_First (\<lambda>rb. fst (PopFirst rb)) P ?q)" by auto
    then have "ring_after rb (drop (Suc k) (contents rb)) (pop_while n ring_First (\<lambda>rb. fst (PopFirst rb)) P ?q)"
      using ring_after_trans [OF p] by (simp add: drop_Suc)
    moreover have "\<exists>k. ring_after rb (drop k (contents rb)) rb"
      using ring_after_refl [OF Suc.prems] by (intro exI [of _ 0]) simp
    ultimately show ?case by (auto split: option.split)
  qed
  then show ?thesis using assms by (simp add: AckChunks_def ring_queue_def)
qed

lemma AckChunks_ok:
  assumes "conn_ok c"
  shows "conn_ok (AckChunks c ack)"
proof -
  have b: "buffer_resends_ok c" using assms by (simp add: conn_ok_def)
  then have q: "ring_queue (cn_Buffer c)" by (simp add: buffer_resends_ok_def)
  from AckChunks_suffix [OF q, of ack] obtain k where
    "ring_after (cn_Buffer c) (drop k (contents (cn_Buffer c))) (cn_Buffer (AckChunks c ack))" by blast
  moreover have "cn_Resends (AckChunks c ack) = cn_Resends c" by (simp add: AckChunks_def)
  ultimately have "buffer_resends_ok (AckChunks c ack)"
    using b by (auto simp: buffer_resends_ok_def ring_after_def ring_queue_def dest: in_set_dropD)
  then show ?thesis using assms by (simp add: conn_ok_def AckChunks_def)
qed

lemma ResendChunk_ok:
  assumes "conn_ok c" "a \<in> held (cn_Buffer c)"
  shows "conn_ok (ResendChunk c a now)"
proof -
  let ?r = "cn_Resends c a"
  let ?d = "fst (QueueChunkEx c (r_Flags ?r OR NET_CHUNKFLAG_RESEND) (r_Data ?r) (r_Sequence ?r) now)"
  have r: "resend_ok ?r" using assms by (auto simp: conn_ok_def buffer_held)
  then have "conn_ok ?d" using assms(1) by (intro QueueChunkEx_ok) (simp_all add: resend_ok_def)
  then show ?thesis using r
    by (auto simp: ResendChunk_def Let_def conn_ok_def buffer_resends_ok_def resend_ok_def block_ok_def)
qed

lemma ResendChunk_frame [simp]:
  "cn_State (ResendChunk c a now) = cn_State c" "cn_Buffer (ResendChunk c a now) = cn_Buffer c"
  "cn_Sequence (ResendChunk c a now) = cn_Sequence c" "cn_Ack (ResendChunk c a now) = cn_Ack c"
  by (simp_all add: ResendChunk_def Let_def)

lemma resend_all_ok:
  "conn_ok c \<Longrightarrow> set as \<subseteq> held (cn_Buffer c) \<Longrightarrow>
   conn_ok (foldl (\<lambda>c a. ResendChunk c a now) c as)"
  by (induction as arbitrary: c) (simp_all add: ResendChunk_ok)

lemma resend_all_frame:
  "cn_State (foldl (\<lambda>c a. ResendChunk c a now) c as) = cn_State c \<and>
   cn_Buffer (foldl (\<lambda>c a. ResendChunk c a now) c as) = cn_Buffer c \<and>
   cn_Sequence (foldl (\<lambda>c a. ResendChunk c a now) c as) = cn_Sequence c \<and>
   cn_Ack (foldl (\<lambda>c a. ResendChunk c a now) c as) = cn_Ack c"
  by (induction as arbitrary: c) simp_all

lemma Resend_walk:
  assumes "ring_queue rb"
  shows "ring_walk (length (m_Items rb)) rb (ring_First rb) = map m_Addr (contents rb)"
  using ring_walk_from [of rb "[]" "contents rb"] ring_First_contents [of rb] contents_length [of rb] assms
  by (simp add: ring_queue_def)

lemma Resend_ok: "conn_ok c \<Longrightarrow> conn_ok (Resend c now)"
  unfolding Resend_def
  by (rule resend_all_ok) (simp_all add: Resend_walk conn_ok_def buffer_resends_ok_def held_def)

lemma AnswerResendRequest_ok: "conn_ok c \<Longrightarrow> conn_ok (AnswerResendRequest cfg c now)"
  by (simp add: AnswerResendRequest_def Resend_ok
      frame_simps)

lemma AnswerResendRequest_frame [simp]:
  "cn_State (AnswerResendRequest cfg c now) = cn_State c" "cn_Buffer (AnswerResendRequest cfg c now) = cn_Buffer c"
  "cn_Sequence (AnswerResendRequest cfg c now) = cn_Sequence c" "cn_Ack (AnswerResendRequest cfg c now) = cn_Ack c"
  by (simp_all add: AnswerResendRequest_def Resend_def resend_all_frame)


lemma conn_First_held:
  "conn_ok c \<Longrightarrow> ring_First (cn_Buffer c) = Some a \<Longrightarrow> a \<in> held (cn_Buffer c)"
  using ring.first_in [of "cn_Buffer c" a] by (simp add: conn_ok_def buffer_resends_ok_def held_def)

lemma conn_Reset_ok: "conn_ok c \<Longrightarrow> conn_ok (conn_Reset c)"
  using ring_Init_queue by (simp add: conn_ok_def buffer_resends_ok_def conn_Reset_def held_def NET_MAX_SEQUENCE_def)

lemma conn_Init_ok: "cn_Sent c = [] \<Longrightarrow> \<not> cn_Aborted c \<Longrightarrow> conn_ok (conn_Init c b)"
  using ring_Init_queue
  by (simp add: conn_ok_def buffer_resends_ok_def conn_Init_def ResetStats_def ClearPeerAddr_def conn_Reset_def
      held_def NET_MAX_SEQUENCE_def)

lemma conn_Connect_ok: "conn_ok c \<Longrightarrow> conn_ok (fst (conn_Connect c targets now))"
  by (simp add: conn_Connect_def Let_def SendConnect_ok conn_Reset_ok frame_simps)

lemma conn_Connect7_ok: "conn_ok c \<Longrightarrow> conn_ok (fst (conn_Connect7 c targets random now))"
  by (simp add: conn_Connect7_def Let_def SendControlWithToken7_ok conn_Reset_ok frame_simps)

lemma conn_Disconnect_ok:
  assumes "conn_ok c" "\<And>s. reason = Some s \<Longrightarrow> length s < 1392"
  shows "conn_ok (conn_Disconnect c reason own now)"
proof -
  have "\<And>s. reason = Some s \<Longrightarrow> conn_ok (SendControl c NET_CTRLMSG_CLOSE (s @ [0]) now)"
    using assms by (auto intro!: SendControl_ok)
  then show ?thesis
    using assms(1) by (simp add: conn_Disconnect_def Let_def SendControl_ok conn_Reset_ok frame_simps split: option.split)
qed

lemma DirectInit_ok: "conn_ok c \<Longrightarrow> conn_ok (DirectInit c addr security_token token sixup now)"
  by (simp add: DirectInit_def Let_def conn_Reset_ok frame_simps)

lemma accept_connect_ok: "conn_ok c \<Longrightarrow> conn_ok (accept_connect c p addr now)"
  by (simp add: accept_connect_def Let_def SendControl_ok frame_simps)

lemma feed_control_ok: "conn_ok c \<Longrightarrow> conn_ok (feed_control c ctrl p addr response now)"
  by (simp add: feed_control_def Let_def SendControlWithToken7_ok accept_connect_ok frame_simps)

lemma Feed_ok:
  assumes "conn_ok c" "cn_State c \<noteq> OFFLINE"
  shows "conn_ok (fst (Feed cfg c p addr t r now))"
  using assms
  by (simp add: Feed_def Let_def AckChunks_ok AnswerResendRequest_ok feed_control_ok frame_simps split: option.split)

lemma check_resend_ok: "conn_ok c \<Longrightarrow> conn_ok (check_resend cfg c now)"
  using ResendChunk_ok conn_First_held by (simp add: check_resend_def frame_simps split: option.split)

lemma keep_alive_ok: "conn_ok c \<Longrightarrow> conn_ok (keep_alive c now)"
  by (simp add: keep_alive_def Let_def SECURITY_TOKEN_MAGIC_def Flush_ok SendControl_ok SendConnect_ok)

lemma conn_Update_ok: "conn_ok c \<Longrightarrow> conn_ok (conn_Update cfg c now)"
  by (simp add: conn_Update_def Let_def keep_alive_ok check_resend_ok AnswerResendRequest_ok frame_simps)

lemma SignalResend_ok:
  assumes "conn_ok c"
  shows "conn_ok (SignalResend c)"
proof -
  have "4 OR 4 = (4 :: int)" by simp
  then show ?thesis using assms
    by (auto simp: SignalResend_def conn_ok_def buffer_resends_ok_def construct_ok_def NET_PACKETFLAG_RESEND_def)
qed

lemma chunk_header_Unpack_vital:
  assumes "chunk_header_Unpack bs split = (h, n)" "has_flag (h_Flags h) NET_CHUNKFLAG_VITAL"
  shows "0 \<le> h_Sequence h \<and> h_Sequence h < NET_MAX_SEQUENCE"
proof -
  let ?m = "byte_at bs 1 AND NOT (push_bit split 1 - 1)"
  have "0 \<le> byte_at bs i" "byte_at bs i < 256" for i by (auto simp: byte_at_def uint_byte_bound)
  note b = this
  then have "0 \<le> ?m" "?m < 256" using AND_upper1 [OF b(1) [of 1]] le_less_trans b(2) by (simp, blast)
  then have m: "0 \<le> push_bit 2 ?m" "push_bit 2 ?m < 2 ^ 10" by (simp_all add: push_bit_eq_mult)
  then have "push_bit 2 ?m OR byte_at bs 2 < 2 ^ 10" "0 \<le> push_bit 2 ?m OR byte_at bs 2"
    using b [of 2] by (intro OR_upper, simp_all)
  then show ?thesis using assms
    by (auto simp: chunk_header_Unpack_def Let_def has_flag_def NET_MAX_SEQUENCE_def split: if_splits)
qed

lemma UnpackNextChunk_ok:
  assumes "conn_ok c" "UnpackNextChunk u c = (u', c', r)"
  shows "conn_ok c'"
  using assms
proof (induction u c arbitrary: u' c' r rule: UnpackNextChunk.induct)
  case (1 u c)
  obtain h n where hn: "chunk_header_Unpack (drop (cu_CurrentOffset u) (m_aChunkData (cu_Data u)))
      (if cn_Sixup c then 6 else 4) = (h, n)" by fastforce
  have d: "conn_ok (c\<lparr>cn_UnknownSeq := False, cn_Ack := h_Sequence h\<rparr>)" if "has_flag (h_Flags h) NET_CHUNKFLAG_VITAL"
    using chunk_header_Unpack_vital [OF hn that] "1.prems"(1) by (simp add: conn_ok_def buffer_resends_ok_def)
  from "1.prems" d show ?case
    by (subst (asm) UnpackNextChunk.simps)
       (auto simp: hn Let_def dest!: "1.IH" [rotated -1] simp: SignalResend_ok split: if_splits verdict.splits)
qed

section \<open>Reachable connections\<close>

text \<open>What an owner may do with a connection: reasons and chunks have a bounded length, and \<open>Feed\<close> is not called
  on a connection that is offline.\<close>

inductive conn_step :: "conn_config \<Rightarrow> conn \<Rightarrow> conn \<Rightarrow> bool" for cfg where
  step_reset: "conn_step cfg c (conn_Reset c)"
| step_connect: "conn_step cfg c (fst (conn_Connect c targets now))"
| step_connect7: "conn_step cfg c (fst (conn_Connect7 c targets random now))"
| step_disconnect: "(\<And>s. reason = Some s \<Longrightarrow> length s < 1392) \<Longrightarrow> conn_step cfg c (conn_Disconnect c reason own now)"
| step_direct: "conn_step cfg c (DirectInit c addr security_token token sixup now)"
| step_queue: "int (length data) \<le> NET_MAX_CHUNK_SIZE \<Longrightarrow> conn_step cfg c (fst (QueueChunk c flags data now))"
| step_flush: "conn_step cfg c (fst (Flush c now))"
| step_control: "length extra \<le> 1392 \<Longrightarrow> conn_step cfg c (SendControl c msg extra now)"
| step_control7: "conn_step cfg c (SendControlWithToken7 c msg response now)"
| step_feed: "cn_State c \<noteq> OFFLINE \<Longrightarrow> conn_step cfg c (fst (Feed cfg c p addr t r now))"
| step_unpack: "UnpackNextChunk u c = (u', c', chunk) \<Longrightarrow> conn_step cfg c c'"
| step_update: "conn_step cfg c (conn_Update cfg c now)"

inductive conn_reachable :: "conn_config \<Rightarrow> conn \<Rightarrow> bool" for cfg where
  reach_init: "cn_Sent c = [] \<Longrightarrow> \<not> cn_Aborted c \<Longrightarrow> conn_reachable cfg (conn_Init c block)"
| reach_step: "conn_reachable cfg c \<Longrightarrow> conn_step cfg c c' \<Longrightarrow> conn_reachable cfg c'"

inductive_cases conn_stepE: "conn_step cfg c c'"

lemma conn_step_ok:
  assumes "conn_step cfg c c'" "conn_ok c"
  shows "conn_ok c'"
  using assms
  by (cases rule: conn_step.cases)
     (simp_all add: conn_Reset_ok conn_Connect_ok conn_Connect7_ok conn_Disconnect_ok DirectInit_ok QueueChunk_ok Flush_ok
        SendControl_ok SendControlWithToken7_ok Feed_ok UnpackNextChunk_ok conn_Update_ok)

lemma conn_reachable_ok: "conn_reachable cfg c \<Longrightarrow> conn_ok c"
  by (induction rule: conn_reachable.induct) (auto intro: conn_Init_ok conn_step_ok)

section \<open>Properties\<close>

text \<open>C10. Whatever packets arrive and whatever its owner does, a connection never fails an assertion of the packet
  layer, never sends a datagram longer than the maximal packet size, and keeps its resend buffer a
  well-formed queue of chunks with ten-bit sequence numbers.\<close>

theorem conn_safety:
  assumes "conn_reachable cfg c"
  shows "\<not> cn_Aborted c \<and> (\<forall>(addr, d)\<in>set (cn_Sent c). length d \<le> NET_MAX_PACKETSIZE) \<and>
    ring_queue (cn_Buffer c) \<and> (\<forall>x\<in>set (contents (cn_Buffer c)). resend_ok (cn_Resends c (m_Addr x)))"
  using conn_reachable_ok [OF assms] by (auto simp: conn_ok_def buffer_resends_ok_def block_ok_def)

definition some_conn :: conn where
  "some_conn = \<lparr>cn_SecurityToken = 0, cn_Sequence = 5, cn_Ack = 9, cn_PeerAck = 0, cn_State = ERROR, cn_RemoteClosed = True,
     cn_BlockCloseMsg = False, cn_UnknownSeq = False, cn_Buffer = ring_Init 100 True,
     cn_Resends = (\<lambda>_. \<lparr>r_Flags = 0, r_Data = [], r_Sequence = 0, r_LastSendTime = 0, r_FirstSendTime = 0\<rparr>),
     cn_LastUpdateTime = 0, cn_LastRecvTime = 0, cn_LastSendTime = 0, cn_LastResendTime = 0, cn_ResendRequested = False,
     cn_ErrorString = [], cn_Construct = empty_construct, cn_ConnectAddrs = [], cn_PeerAddr = zero_addr,
     cn_TimeoutProtected = False, cn_TimeoutSituation = False, cn_Sixup = False, cn_Token = 0, cn_Sent = [],
     cn_Aborted = False\<rparr>"

definition some_config :: conn_config where
  "some_config = \<lparr>m_ConnTimeout = 100, m_ConnTimeoutProtection = 1000, m_ConnResendRequestsPerSecond = 10\<rparr>"

theorem conn_safety_witness:
  "\<not> cn_Aborted (fst (conn_Connect (conn_Init some_conn False) [zero_addr] 7)) \<and>
   ring_queue (cn_Buffer (fst (conn_Connect (conn_Init some_conn False) [zero_addr] 7)))"
proof -
  have "conn_reachable some_config (fst (conn_Connect (conn_Init some_conn False) [zero_addr] 7))"
    by (rule reach_step [OF reach_init step_connect]) (simp_all add: some_conn_def)
  from conn_safety [OF this] show ?thesis by simp
qed

lemma Feed_rejected:
  assumes "cn_State c \<noteq> OFFLINE"
    "\<not> IsPeerAddress c addr \<or> strip_token c p = None \<or> cn_Sixup c \<and> token \<noteq> cn_Token c \<or> \<not> ack_acceptable c (m_Ack p)"
  shows "Feed cfg c p addr token response now = (c, False)"
proof -
  have "m_Ack q = m_Ack p" if "strip_token c p = Some q" for q
    using that by (auto simp: strip_token_def Let_def split: if_splits)
  then show ?thesis using assms by (auto simp: Feed_def split: option.split)
qed

text \<open>A packet that is not from the peer, lacks the peer's token or acknowledges something never sent changes
  nothing at all.\<close>

theorem Feed_rejects:
  assumes "cn_State c \<noteq> OFFLINE"
    "\<not> IsPeerAddress c addr \<or> strip_token c p = None \<or> cn_Sixup c \<and> token \<noteq> cn_Token c \<or> \<not> ack_acceptable c (m_Ack p)"
  shows "Feed cfg c p addr token response now = (c, False)"
  using assms by (rule Feed_rejected)

theorem Feed_rejects_witness:
  "Feed some_config some_conn (empty_construct\<lparr>m_aChunkData := [4, 0]\<rparr>) (zero_addr\<lparr>na_port := 8303\<rparr>) 0 0 50 = (some_conn, False)"
  by (rule Feed_rejects) (simp_all add: some_conn_def IsPeerAddress_def zero_addr_def)

text \<open>The state machine of an incoming packet: the only moves are from the token request to connecting, from
  connecting or pending to online, and to the error state on a close message; an accepted packet never
  takes a connection offline.\<close>

definition feed_move :: "conn_state \<Rightarrow> conn_state \<Rightarrow> bool" where
  "feed_move s s' \<longleftrightarrow> s' = s \<or> s' = ERROR \<or> (s, s') \<in> {(WANT_TOKEN, CONNECT), (CONNECT, ONLINE), (PENDING, ONLINE)}"

lemma SendControl_State [simp]:
  "cn_State (SendControl c msg extra now) = cn_State c" "cn_State (SendControlWithToken7 c msg r now) = cn_State c"
  by (simp_all add: SendControl_def SendControlWithToken7_def)

lemma accept_connect_State: "cn_State (accept_connect c p addr now) = ONLINE"
  by (simp add: accept_connect_def Let_def)

lemma feed_control_State: "feed_move (cn_State c) (cn_State (feed_control c ctrl p addr r now))"
  by (simp add: feed_control_def feed_move_def Let_def accept_connect_State)

theorem Feed_moves:
  assumes "cn_State c \<noteq> OFFLINE"
  shows "feed_move (cn_State c) (cn_State (fst (Feed cfg c p addr token response now)))"
proof -
  have a: "cn_State (if cn_State d = ONLINE then AckChunks (d\<lparr>cn_LastRecvTime := now\<rparr>) k else d) = cn_State d" for d k
    by (simp add: AckChunks_def)
  have f: "feed_move (cn_State c) (cn_State (feed_control (AnswerResendRequest cfg d now) ctrl q addr response now))"
    if "cn_State d = cn_State c" for d ctrl q
    using feed_control_State [of "AnswerResendRequest cfg d now"] that by simp
  have m: "feed_move s s" "feed_move s ERROR" "feed_move PENDING ONLINE" for s by (simp_all add: feed_move_def)
  show ?thesis
    by (simp add: Feed_def Let_def a f m SetError_def split: option.split)
qed

theorem Feed_moves_witness:
  "feed_move ERROR (cn_State (fst (Feed some_config some_conn empty_construct zero_addr 0 0 50)))"
  using Feed_moves [of some_conn some_config empty_construct zero_addr 0 0 50] by (simp add: some_conn_def)

text \<open>An acknowledgement removes from the resend buffer exactly the longest run of oldest chunks whose sequence
  number it covers, and keeps the rest in order.\<close>

theorem AckChunks_prefix:
  assumes "conn_reachable cfg c"
  shows "map (cn_Resends c \<circ> m_Addr) (contents (cn_Buffer (AckChunks c ack))) =
    dropWhile (\<lambda>r. IsSeqInBackroom (r_Sequence r) ack) (map (cn_Resends c \<circ> m_Addr) (contents (cn_Buffer c)))"
proof -
  have "ring_queue (cn_Buffer c)" using conn_reachable_ok [OF assms] by (simp add: conn_ok_def buffer_resends_ok_def)
  from arg_cong [OF conjunct2 [OF AckChunks_contents [OF this, of ack]], of "map (cn_Resends c)"] show ?thesis
    by (simp add: dropWhile_map comp_def)
qed

theorem AckChunks_prefix_witness:
  "contents (cn_Buffer (AckChunks (conn_Init some_conn False) 3)) = []"
proof -
  have "conn_reachable some_config (conn_Init some_conn False)"
    by (rule reach_init) (simp_all add: some_conn_def)
  from AckChunks_prefix [OF this, of 3] show ?thesis
    using ring_Init_queue by (simp add: conn_Init_def ResetStats_def ClearPeerAddr_def conn_Reset_def)
qed

end
