(* ===== verification/ConnDelivery.thy ===== *)
theory ConnDelivery
  imports NetConn
begin

text \<open>
  Taking chunks out of packets, end to end: a packet of packed chunks is unpacked into exactly the chunks the
  sequence check lets through, and over any number of packets that the network may lose, repeat and reorder
  the vital chunks come out in order, each once.
\<close>

section \<open>Packing and unpacking a whole packet\<close>

text \<open>A chunk on the wire: flags, data and sequence number.\<close>

type_synonym wire_chunk = "int \<times> byte list \<times> int"

definition chunk_ok :: "wire_chunk \<Rightarrow> bool" where
  "chunk_ok x = (case x of (flags, data, seq) \<Rightarrow>
     int (length data) \<le> NET_MAX_CHUNK_SIZE \<and> 0 \<le> flags \<and> flags < 4 \<and> 0 \<le> seq \<and> seq < NET_MAX_SEQUENCE)"

definition pack_chunk :: "bool \<Rightarrow> wire_chunk \<Rightarrow> byte list" where
  "pack_chunk sixup x = (case x of (flags, data, seq) \<Rightarrow>
     the (chunk_header_Pack \<lparr>h_Flags = flags, h_Size = int (length data), h_Sequence = seq\<rparr> (if sixup then 6 else 4)) @ data)"

definition pack_chunks :: "bool \<Rightarrow> wire_chunk list \<Rightarrow> byte list" where
  "pack_chunks sixup xs = concat (map (pack_chunk sixup) xs)"

text \<open>The reference: which chunks of a packet get through, and what becomes of the connection.\<close>

fun accept_chunks :: "conn \<Rightarrow> wire_chunk list \<Rightarrow> conn \<times> (int \<times> byte list) list" where
  "accept_chunks c [] = (c, [])"
| "accept_chunks c ((flags, data, seq) # xs) =
     (if has_flag flags NET_CHUNKFLAG_VITAL then
        case check_sequence (cn_Ack c) (cn_UnknownSeq c) seq of
          Deliver \<Rightarrow> (let (c', out) = accept_chunks (c\<lparr>cn_UnknownSeq := False, cn_Ack := seq\<rparr>) xs in (c', (flags, data) # out))
        | Ignore \<Rightarrow> accept_chunks c xs
        | AskResend \<Rightarrow> accept_chunks (SignalResend c) xs
      else (let (c', out) = accept_chunks c xs in (c', (flags, data) # out)))"

text \<open>The loop of the receivers, \<open>while(UnpackNextChunk(&Chunk))\<close>; every call that yields a chunk has taken at
  least one, so the number of chunks is enough fuel.\<close>

fun unpack_loop :: "nat \<Rightarrow> chunk_unpacker \<Rightarrow> conn \<Rightarrow> conn \<times> net_chunk list" where
  "unpack_loop 0 u c = (c, [])"
| "unpack_loop (Suc n) u c =
     (case UnpackNextChunk u c of
        (u', c', None) \<Rightarrow> (c', [])
      | (u', c', Some x) \<Rightarrow> (let (c'', out) = unpack_loop n u' c' in (c'', x # out)))"

lemma pack_chunk_unpack:
  assumes "chunk_ok (flags, data, seq)"
  shows "\<exists>bs. pack_chunk sixup (flags, data, seq) = bs @ data \<and> 2 \<le> length bs \<and>
    chunk_header_Unpack (bs @ rest) (if sixup then 6 else 4) =
      (\<lparr>h_Flags = flags, h_Size = int (length data),
        h_Sequence = (if has_flag flags NET_CHUNKFLAG_VITAL then seq else - 1)\<rparr>, length bs)"
proof -
  let ?h = "\<lparr>h_Flags = flags, h_Size = int (length data), h_Sequence = seq\<rparr>" and ?s = "(if sixup then 6 else 4) :: nat"
  have s: "?s = 4 \<or> ?s = 6" by simp
  have "\<exists>bs. chunk_header_Pack ?h ?s = Some bs \<and> 2 \<le> length bs"
    using assms by (auto simp: chunk_header_Pack_def chunk_ok_def net_sizes Let_def push_bit_eq_mult)
  then obtain bs where bs: "chunk_header_Pack ?h ?s = Some bs" "2 \<le> length bs" by blast
  have "chunk_header_Unpack (bs @ rest) ?s =
      (?h\<lparr>h_Sequence := (if h_Flags ?h AND NET_CHUNKFLAG_VITAL \<noteq> 0 then h_Sequence ?h else - 1)\<rparr>, length bs)"
    by (rule chunk_header_Unpack_Pack [OF bs(1) s]) (use assms in \<open>simp_all add: chunk_ok_def\<close>)
  then show ?thesis using bs by (intro exI [of _ bs]) (simp add: pack_chunk_def has_flag_def)
qed

text \<open>An unpacker that still has the chunks \<open>xs\<close> before it.\<close>

definition holds :: "bool \<Rightarrow> chunk_unpacker \<Rightarrow> wire_chunk list \<Rightarrow> bool" where
  "holds sixup u xs \<longleftrightarrow> cu_Valid u \<and> cu_CurrentChunk u + int (length xs) = m_NumChunks (cu_Data u) \<and>
     cu_CurrentOffset u \<le> m_DataSize (cu_Data u) \<and>
     drop (cu_CurrentOffset u) (m_aChunkData (cu_Data u)) = pack_chunks sixup xs"

definition the_chunk :: "chunk_unpacker \<Rightarrow> int \<Rightarrow> byte list \<Rightarrow> net_chunk" where
  "the_chunk u flags data = \<lparr>ch_ClientId = cu_ClientId u, ch_Address = cu_Addr u, ch_Flags = flags, ch_Data = data\<rparr>"

lemma UnpackNextChunk_Nil:
  assumes "holds sixup u []"
  shows "UnpackNextChunk u c = (u\<lparr>cu_Valid := False\<rparr>, c, None)"
  using assms by (subst UnpackNextChunk.simps) (simp add: holds_def)

lemma UnpackNextChunk_Cons:
  assumes "holds (cn_Sixup c) u ((flags, data, seq) # xs)" "chunk_ok (flags, data, seq)"
  shows "\<exists>u'. holds (cn_Sixup c) u' xs \<and> cu_ClientId u' = cu_ClientId u \<and> cu_Addr u' = cu_Addr u \<and>
    UnpackNextChunk u c =
      (if has_flag flags NET_CHUNKFLAG_VITAL then
         case check_sequence (cn_Ack c) (cn_UnknownSeq c) seq of
           Deliver \<Rightarrow> (u', c\<lparr>cn_UnknownSeq := False, cn_Ack := seq\<rparr>, Some (the_chunk u flags data))
         | Ignore \<Rightarrow> UnpackNextChunk u' c
         | AskResend \<Rightarrow> UnpackNextChunk u' (SignalResend c)
       else (u', c, Some (the_chunk u flags data)))"
proof -
  let ?all = "m_aChunkData (cu_Data u)" and ?off = "cu_CurrentOffset u"
  let ?rest = "data @ pack_chunks (cn_Sixup c) xs"
  obtain bs where bs: "pack_chunk (cn_Sixup c) (flags, data, seq) = bs @ data" "2 \<le> length bs"
      "chunk_header_Unpack (bs @ ?rest) (if cn_Sixup c then 6 else 4) =
        (\<lparr>h_Flags = flags, h_Size = int (length data),
          h_Sequence = (if has_flag flags NET_CHUNKFLAG_VITAL then seq else - 1)\<rparr>, length bs)"
    using pack_chunk_unpack [OF assms(2)] by blast
  have d: "drop ?off ?all = bs @ ?rest" and o: "?off \<le> length ?all"
    using assms(1) bs(1) by (simp_all add: holds_def pack_chunks_def)
  have len: "length ?all = ?off + length bs + length data + length (pack_chunks (cn_Sixup c) xs)"
    using arg_cong [OF d, of length] o by simp
  have t: "take (length data) (drop (?off + length bs) ?all) = data"
  proof -
    have "drop (?off + length bs) ?all = drop (length bs) (drop ?off ?all)" by (simp add: add.commute)
    then show ?thesis by (simp add: d)
  qed
  have r: "drop (?off + length bs + length data) ?all = pack_chunks (cn_Sixup c) xs"
  proof -
    have "drop (?off + length bs + length data) ?all = drop (length bs + length data) (drop ?off ?all)"
      by (simp add: algebra_simps)
    then show ?thesis by (simp add: d)
  qed
  let ?u = "u\<lparr>cu_CurrentChunk := cu_CurrentChunk u + 1, cu_CurrentOffset := ?off + length bs + length data\<rparr>"
  have "holds (cn_Sixup c) ?u xs" using assms(1) r len by (simp add: holds_def)
  moreover have "UnpackNextChunk u c =
      (if has_flag flags NET_CHUNKFLAG_VITAL then
         case check_sequence (cn_Ack c) (cn_UnknownSeq c) seq of
           Deliver \<Rightarrow> (?u, c\<lparr>cn_UnknownSeq := False, cn_Ack := seq\<rparr>, Some (the_chunk u flags data))
         | Ignore \<Rightarrow> UnpackNextChunk ?u c
         | AskResend \<Rightarrow> UnpackNextChunk ?u (SignalResend c)
       else (?u, c, Some (the_chunk u flags data)))"
    using assms(1) bs(2,3) len t
    by (subst UnpackNextChunk.simps) (simp add: holds_def d the_chunk_def split: verdict.split)
  ultimately show ?thesis by (intro exI [of _ ?u]) simp
qed

lemma SignalResend_frame [simp]:
  "cn_Sixup (SignalResend c) = cn_Sixup c" "cn_Ack (SignalResend c) = cn_Ack c"
  "cn_UnknownSeq (SignalResend c) = cn_UnknownSeq c"
  by (simp_all add: SignalResend_def)

text \<open>One call runs over the chunks that do not get through, up to the first one that does.\<close>

lemma UnpackNextChunk_accept:
  "holds (cn_Sixup c) u xs \<Longrightarrow> list_all chunk_ok xs \<Longrightarrow>
   (case accept_chunks c xs of
      (c', []) \<Rightarrow> \<exists>u'. UnpackNextChunk u c = (u', c', None)
    | (c', x # out) \<Rightarrow> \<exists>u' c'' ys. UnpackNextChunk u c = (u', c'', Some (the_chunk u (fst x) (snd x))) \<and>
        holds (cn_Sixup c'') u' ys \<and> length ys < length xs \<and> list_all chunk_ok ys \<and> accept_chunks c'' ys = (c', out) \<and>
        cu_ClientId u' = cu_ClientId u \<and> cu_Addr u' = cu_Addr u)"
proof (induction xs arbitrary: u c)
  case Nil
  then show ?case by (simp add: UnpackNextChunk_Nil)
next
  case (Cons x xs)
  obtain flags data seq where x: "x = (flags, data, seq)" by (cases x)
  obtain u' where u': "holds (cn_Sixup c) u' xs" "cu_ClientId u' = cu_ClientId u" "cu_Addr u' = cu_Addr u"
    and step: "UnpackNextChunk u c =
      (if has_flag flags NET_CHUNKFLAG_VITAL then
         case check_sequence (cn_Ack c) (cn_UnknownSeq c) seq of
           Deliver \<Rightarrow> (u', c\<lparr>cn_UnknownSeq := False, cn_Ack := seq\<rparr>, Some (the_chunk u flags data))
         | Ignore \<Rightarrow> UnpackNextChunk u' c
         | AskResend \<Rightarrow> UnpackNextChunk u' (SignalResend c)
       else (u', c, Some (the_chunk u flags data)))"
    using UnpackNextChunk_Cons [of c u flags data seq xs] Cons.prems by (auto simp: x)
  have same: "the_chunk u' = the_chunk u" using u' by (simp add: the_chunk_def fun_eq_iff)
  have ok: "list_all chunk_ok xs" using Cons.prems by simp
  note ign = Cons.IH [OF u'(1) ok]
  have res: "holds (cn_Sixup (SignalResend c)) u' xs" using u' by simp
  note res = Cons.IH [OF res ok]
  show ?case
  proof (cases "has_flag flags NET_CHUNKFLAG_VITAL")
    case False
    then show ?thesis using u' ok step by (auto simp: x split: prod.split)
  next
    case True
    show ?thesis
    proof (cases "check_sequence (cn_Ack c) (cn_UnknownSeq c) seq")
      case Deliver
      then show ?thesis using True u' ok step by (auto simp: x split: prod.split)
    next
      case Ignore
      then show ?thesis using True ign step u'
        by (auto simp: x same split: prod.split list.split) (metis less_Suc_eq)
    next
      case AskResend
      then show ?thesis using True res step u'
        by (auto simp: x same split: prod.split list.split) (metis less_Suc_eq)
    qed
  qed
qed

lemma unpack_loop_accept:
  "holds (cn_Sixup c) u xs \<Longrightarrow> list_all chunk_ok xs \<Longrightarrow> length xs < n \<Longrightarrow>
   unpack_loop n u c = (fst (accept_chunks c xs), map (\<lambda>(f, d). the_chunk u f d) (snd (accept_chunks c xs)))"
proof (induction n arbitrary: u c xs)
  case (Suc n)
  obtain c' out where a: "accept_chunks c xs = (c', out)" by (cases "accept_chunks c xs")
  note s = UnpackNextChunk_accept [OF Suc.prems(1,2), unfolded a]
  show ?case
  proof (cases out)
    case Nil
    then show ?thesis using s a by auto
  next
    case (Cons x out')
    then obtain u' c'' ys where u': "UnpackNextChunk u c = (u', c'', Some (the_chunk u (fst x) (snd x)))"
        "holds (cn_Sixup c'') u' ys" "length ys < length xs" "list_all chunk_ok ys" "accept_chunks c'' ys = (c', out')"
        "cu_ClientId u' = cu_ClientId u" "cu_Addr u' = cu_Addr u"
      using s by auto
    have "the_chunk u' = the_chunk u" using u' by (simp add: the_chunk_def fun_eq_iff)
    then show ?thesis using Suc.IH [OF u'(2,4)] Suc.prems(3) u' a Cons by (simp add: case_prod_beta)
  qed
qed simp

section \<open>Delivery in order\<close>

text \<open>Arrivals: flags, data and the number of the chunk counted without wrap-around; only the number modulo
  \<open>NET_MAX_SEQUENCE\<close> is on the wire.\<close>

definition on_wire :: "int \<times> byte list \<times> int \<Rightarrow> wire_chunk" where
  "on_wire x = (case x of (flags, data, n) \<Rightarrow> (flags, data, n mod NET_MAX_SEQUENCE))"

lemma on_wire_simp [simp]: "on_wire (flags, data, n) = (flags, data, n mod NET_MAX_SEQUENCE)"
  by (simp add: on_wire_def)

text \<open>The last number received in order, and whether every arrival is within half the sequence space of it.\<close>

fun in_order :: "int \<Rightarrow> (int \<times> byte list \<times> int) list \<Rightarrow> int" where
  "in_order a [] = a"
| "in_order a ((flags, data, n) # xs) =
     in_order (if has_flag flags NET_CHUNKFLAG_VITAL \<and> n = a + 1 then n else a) xs"

fun in_window :: "int \<Rightarrow> (int \<times> byte list \<times> int) list \<Rightarrow> bool" where
  "in_window a [] = True"
| "in_window a ((flags, data, n) # xs) =
     ((has_flag flags NET_CHUNKFLAG_VITAL \<longrightarrow> a - NET_MAX_SEQUENCE div 2 \<le> n \<and> n < a + NET_MAX_SEQUENCE div 2) \<and>
      in_window (if has_flag flags NET_CHUNKFLAG_VITAL \<and> n = a + 1 then n else a) xs)"

text \<open>Every vital arrival is a chunk of the sender, who numbers his chunks.\<close>

definition numbered :: "(int \<Rightarrow> byte list) \<Rightarrow> (int \<times> byte list \<times> int) list \<Rightarrow> bool" where
  "numbered sent xs = list_all (\<lambda>(flags, data, n). has_flag flags NET_CHUNKFLAG_VITAL \<longrightarrow> data = sent n) xs"

lemma numbered_simps [simp]:
  "numbered sent []" "numbered sent (xs @ ys) \<longleftrightarrow> numbered sent xs \<and> numbered sent ys"
  "numbered sent ((flags, data, n) # xs) \<longleftrightarrow> (has_flag flags NET_CHUNKFLAG_VITAL \<longrightarrow> data = sent n) \<and> numbered sent xs"
  by (simp_all add: numbered_def)

lemma check_sequence_window:
  assumes "a - NET_MAX_SEQUENCE div 2 \<le> n" "n < a + NET_MAX_SEQUENCE div 2"
  shows "check_sequence (a mod NET_MAX_SEQUENCE) False (n mod NET_MAX_SEQUENCE) =
    (if n = a + 1 then Deliver else if n \<le> a then Ignore else AskResend)"
proof -
  have "n mod 1024 = (a mod 1024 + 1) mod 1024 \<longleftrightarrow> n = a + 1"
  proof
    assume "n mod 1024 = (a mod 1024 + 1) mod 1024"
    then have "n mod 1024 = (a + 1) mod 1024" by (simp add: mod_add_left_eq)
    then have "1024 dvd (n - (a + 1))" by (simp add: mod_eq_dvd_iff)
    moreover have "\<bar>n - (a + 1)\<bar> < 1024" using assms by (simp add: NET_MAX_SEQUENCE_def)
    ultimately show "n = a + 1" using dvd_imp_le_int [of "n - (a + 1)" 1024] by auto
  qed (simp add: mod_add_left_eq)
  then show ?thesis using IsSeqInBackroom_mod [OF assms] by (simp add: check_sequence_def NET_MAX_SEQUENCE_def)
qed

definition vital_data :: "(int \<times> byte list) list \<Rightarrow> byte list list" where
  "vital_data out = map snd (filter (\<lambda>x. has_flag (fst x) NET_CHUNKFLAG_VITAL) out)"

lemma vital_data_simps [simp]:
  "vital_data [] = []" "vital_data (xs @ ys) = vital_data xs @ vital_data ys"
  "vital_data ((f, d) # xs) = (if has_flag f NET_CHUNKFLAG_VITAL then d # vital_data xs else vital_data xs)"
  by (simp_all add: vital_data_def)

lemma in_order_mono: "a \<le> in_order a xs"
  by (induction a xs rule: in_order.induct) (auto split: if_splits)

lemma in_order_append: "in_order a (xs @ ys) = in_order (in_order a xs) ys"
  by (induction a xs rule: in_order.induct) auto

lemma in_window_append: "in_window a (xs @ ys) \<longleftrightarrow> in_window a xs \<and> in_window (in_order a xs) ys"
  by (induction a xs rule: in_order.induct) auto

lemma upto_step: "a < b \<Longrightarrow> [a + 1..b] = (a + 1) # [a + 1 + 1..b]" for a b :: int
  by (subst upto.simps) simp

lemma upto_append: "a \<le> b \<Longrightarrow> b \<le> c \<Longrightarrow> [a + 1..c] = [a + 1..b] @ [b + 1..c]" for a b c :: int
  using upto_split2 [of "a + 1" b c] by (cases "a = b") auto

lemma accept_chunks_in_order:
  assumes "cn_Ack c = a mod NET_MAX_SEQUENCE" "\<not> cn_UnknownSeq c" "in_window a xs" "numbered sent xs"
  shows "vital_data (snd (accept_chunks c (map on_wire xs))) = map sent [a + 1..in_order a xs] \<and>
    cn_Ack (fst (accept_chunks c (map on_wire xs))) = in_order a xs mod NET_MAX_SEQUENCE \<and>
    \<not> cn_UnknownSeq (fst (accept_chunks c (map on_wire xs))) \<and>
    cn_Sixup (fst (accept_chunks c (map on_wire xs))) = cn_Sixup c"
  using assms
proof (induction xs arbitrary: a c)
  case (Cons x xs)
  obtain flags data n where x: "x = (flags, data, n)" by (cases x)
  show ?case
  proof (cases "has_flag flags NET_CHUNKFLAG_VITAL")
    case False
    then show ?thesis using Cons.IH [of c a] Cons.prems by (simp add: x case_prod_beta)
  next
    case True
    have w: "a - NET_MAX_SEQUENCE div 2 \<le> n" "n < a + NET_MAX_SEQUENCE div 2" using Cons.prems(3) True by (simp_all add: x)
    note k = check_sequence_window [OF w]
    have d: "data = sent n" using Cons.prems(4) True by (simp add: x)
    show ?thesis
    proof (cases "n = a + 1")
      case True
      let ?c = "c\<lparr>cn_UnknownSeq := False, cn_Ack := n mod NET_MAX_SEQUENCE\<rparr>"
      have "a < in_order n xs" using in_order_mono [of n xs] True by simp
      then show ?thesis using Cons.IH [of ?c n] Cons.prems \<open>has_flag flags _\<close> True k d
        by (simp add: x case_prod_beta upto_step)
    next
      case False
      then show ?thesis using Cons.IH [of c a] Cons.IH [of "SignalResend c" a] Cons.prems \<open>has_flag flags _\<close> k
        by (simp add: x)
    qed
  qed
qed simp

text \<open>A receiver that gets one packet after the other.\<close>

fun receive_packets :: "netaddr \<Rightarrow> int \<Rightarrow> conn \<Rightarrow> construct list \<Rightarrow> conn \<times> net_chunk list" where
  "receive_packets addr cid c [] = (c, [])"
| "receive_packets addr cid c (p # ps) =
     (let (c', out) = unpack_loop (nat (m_NumChunks p) + 1) (FeedPacket addr p cid) c;
          (c'', out') = receive_packets addr cid c' ps
      in (c'', out @ out'))"

definition carries :: "bool \<Rightarrow> construct \<Rightarrow> (int \<times> byte list \<times> int) list \<Rightarrow> bool" where
  "carries sixup p xs \<longleftrightarrow> m_aChunkData p = pack_chunks sixup (map on_wire xs) \<and> m_NumChunks p = int (length xs) \<and>
     list_all (\<lambda>(flags, data, n). int (length data) \<le> NET_MAX_CHUNK_SIZE \<and> 0 \<le> flags \<and> flags < 4) xs"

lemma unpack_loop_packet:
  assumes "m_aChunkData p = pack_chunks (cn_Sixup c) xs" "m_NumChunks p = int (length xs)" "list_all chunk_ok xs"
  shows "unpack_loop (nat (m_NumChunks p) + 1) (FeedPacket addr p cid) c =
    (fst (accept_chunks c xs),
     map (\<lambda>(f, d). \<lparr>ch_ClientId = cid, ch_Address = addr, ch_Flags = f, ch_Data = d\<rparr>) (snd (accept_chunks c xs)))"
  using unpack_loop_accept [of c "FeedPacket addr p cid" xs "nat (m_NumChunks p) + 1"] assms
  by (simp add: holds_def FeedPacket_def the_chunk_def)

definition vital_chunks :: "net_chunk list \<Rightarrow> byte list list" where
  "vital_chunks out = map ch_Data (filter (\<lambda>x. has_flag (ch_Flags x) NET_CHUNKFLAG_VITAL) out)"

lemma vital_chunks_map:
  "vital_chunks (map (\<lambda>(f, d). \<lparr>ch_ClientId = cid, ch_Address = addr, ch_Flags = f, ch_Data = d\<rparr>) out) = vital_data out"
  by (induction out) (auto simp: vital_chunks_def)

lemma carries_chunk_ok: "carries sixup p xs \<Longrightarrow> list_all chunk_ok (map on_wire xs)"
  by (auto simp: carries_def chunk_ok_def on_wire_def list_all_iff NET_MAX_SEQUENCE_def)

lemma receive_in_order:
  "list_all2 (carries (cn_Sixup c)) ps xss \<Longrightarrow> cn_Ack c = a mod NET_MAX_SEQUENCE \<Longrightarrow> \<not> cn_UnknownSeq c \<Longrightarrow>
   in_window a (concat xss) \<Longrightarrow>
   numbered sent (concat xss) \<Longrightarrow>
   vital_chunks (snd (receive_packets addr cid c ps)) = map sent [a + 1..in_order a (concat xss)] \<and>
   cn_Ack (fst (receive_packets addr cid c ps)) = in_order a (concat xss) mod NET_MAX_SEQUENCE"
proof (induction ps arbitrary: c a xss)
  case Nil
  then show ?case by (simp add: vital_chunks_def)
next
  case (Cons p ps)
  obtain xs yss where xss: "xss = xs # yss" "carries (cn_Sixup c) p xs" "list_all2 (carries (cn_Sixup c)) ps yss"
    using Cons.prems(1) by (auto simp: list_all2_Cons1)
  let ?b = "in_order a xs"
  have w: "in_window a xs" "in_window ?b (concat yss)" using Cons.prems(4) by (simp_all add: xss in_window_append)
  define r where "r = accept_chunks c (map on_wire xs)"
  have r: "vital_data (snd r) = map sent [a + 1..?b]" "cn_Ack (fst r) = ?b mod NET_MAX_SEQUENCE"
      "\<not> cn_UnknownSeq (fst r)" "cn_Sixup (fst r) = cn_Sixup c"
    using accept_chunks_in_order [OF Cons.prems(2,3) w(1), of sent] Cons.prems(5) by (simp_all add: r_def xss)
  have u: "unpack_loop (nat (m_NumChunks p) + 1) (FeedPacket addr p cid) c =
      (fst r, map (\<lambda>(f, d). \<lparr>ch_ClientId = cid, ch_Address = addr, ch_Flags = f, ch_Data = d\<rparr>) (snd r))"
    unfolding r_def by (rule unpack_loop_packet) (use xss(2) carries_chunk_ok [OF xss(2)] in \<open>simp_all add: carries_def\<close>)
  have ih: "vital_chunks (snd (receive_packets addr cid (fst r) ps)) = map sent [?b + 1..in_order ?b (concat yss)] \<and>
      cn_Ack (fst (receive_packets addr cid (fst r) ps)) = in_order ?b (concat yss) mod NET_MAX_SEQUENCE"
    using r xss(3) w(2) Cons.prems(5) by (intro Cons.IH) (auto simp: xss)
  have split: "[a + 1..in_order ?b (concat yss)] = [a + 1..?b] @ [?b + 1..in_order ?b (concat yss)]"
    using in_order_mono [of a xs] in_order_mono [of ?b "concat yss"] by (rule upto_append)
  have app: "vital_chunks (xs @ ys) = vital_chunks xs @ vital_chunks ys" for xs ys by (simp add: vital_chunks_def)
  show ?case using ih r u by (simp add: xss in_order_append split app vital_chunks_map case_prod_beta)
qed

section \<open>Properties\<close>

definition quiet_conn :: conn where
  "quiet_conn = \<lparr>cn_SecurityToken = 0, cn_Sequence = 0, cn_Ack = 0, cn_PeerAck = 0, cn_State = ONLINE, cn_RemoteClosed = False,
     cn_BlockCloseMsg = False, cn_UnknownSeq = False, cn_Buffer = ring_Init NET_CONN_BUFFERSIZE False,
     cn_Resends = (\<lambda>_. \<lparr>r_Flags = 0, r_Data = [], r_Sequence = 0, r_LastSendTime = 0, r_FirstSendTime = 0\<rparr>),
     cn_LastUpdateTime = 0, cn_LastRecvTime = 0, cn_LastSendTime = 0, cn_LastResendTime = 0, cn_ResendRequested = False,
     cn_ErrorString = [], cn_Construct = empty_construct, cn_ConnectAddrs = [], cn_PeerAddr = zero_addr,
     cn_TimeoutProtected = False, cn_TimeoutSituation = False, cn_Sixup = False, cn_Token = 0, cn_Sent = [],
     cn_Aborted = False\<rparr>"



text \<open>C1. Vital chunks are delivered in order, each exactly once, over a network that may lose, repeat and reorder
  packets: as long as no arrival is further than half the sequence space from the last chunk received in
  order, what the receiver hands out are the chunks \<open>a + 1, a + 2, \<dots>\<close> up to the last one
  received in order, although only ten bits of the number are on the wire.\<close>

theorem vital_delivery:
  assumes "list_all2 (carries (cn_Sixup c)) ps xss" "cn_Ack c = a mod NET_MAX_SEQUENCE" "\<not> cn_UnknownSeq c"
    "in_window a (concat xss)" "numbered sent (concat xss)"
  shows "vital_chunks (snd (receive_packets addr cid c ps)) = map sent [a + 1..in_order a (concat xss)] \<and>
    cn_Ack (fst (receive_packets addr cid c ps)) = in_order a (concat xss) mod NET_MAX_SEQUENCE"
  using assms by (rule receive_in_order)

theorem vital_delivery_witness:
  "vital_chunks (snd (receive_packets zero_addr 0 (quiet_conn\<lparr>cn_Ack := 1022\<rparr>)
     (map (\<lambda>n. empty_construct\<lparr>m_NumChunks := 1, m_aChunkData := pack_chunks False [on_wire (1, [of_int n], n)]\<rparr>)
        [1024, 1023, 1023, 1025, 1024, 1025]))) = [[of_int 1023], [of_int 1024], [of_int 1025]]"
  using vital_delivery [of "quiet_conn\<lparr>cn_Ack := 1022\<rparr>"
      "map (\<lambda>n. empty_construct\<lparr>m_NumChunks := 1, m_aChunkData := pack_chunks False [on_wire (1, [of_int n], n)]\<rparr>)
        [1024, 1023, 1023, 1025, 1024, 1025]"
      "map (\<lambda>n. [(1, [of_int n], n)]) [1024, 1023, 1023, 1025, 1024, 1025]" 1022 "\<lambda>n. [of_int n]" zero_addr 0]
  by (simp add: quiet_conn_def carries_def NET_MAX_CHUNK_SIZE_def NET_MAX_SEQUENCE_def has_flag_def
      NET_CHUNKFLAG_VITAL_def net_sizes upto_step)

end
