(* ===== verification/Uuid.thy ===== *)
theory Uuid
  imports Packer "HOL-Library.List_Lexorder"
begin

text \<open>
  UUIDs and the registry of extended message types (\<open>src/engine/shared/uuid_manager.cpp\<close>): the text form, the
  table of registered names with its sorted index, and UUIDs in messages. MD5 is vendored code
  and a parameter of \<open>CalculateUuid\<close>. The type \<open>uuid\<close> is ordered like \<open>CUuid::operator<\<close>, which compares the
  bytes as \<open>mem_comp\<close> does.
\<close>

section \<open>UUIDs\<close>

datatype uuid = Uuid (m_aData: "byte list")

instantiation uuid :: linorder
begin

definition less_uuid :: "uuid \<Rightarrow> uuid \<Rightarrow> bool" where
  "u < v \<longleftrightarrow> m_aData u < m_aData v"

definition less_eq_uuid :: "uuid \<Rightarrow> uuid \<Rightarrow> bool" where
  "u \<le> v \<longleftrightarrow> m_aData u \<le> m_aData v"

instance
  by standard (auto simp: less_uuid_def less_eq_uuid_def uuid.expand)

end

lemma mem_comp_less: "length as = length bs \<Longrightarrow> mem_comp as bs < 0 \<longleftrightarrow> as < bs"
  by (induction as bs rule: mem_comp.induct) (auto simp: word_less_def)

definition UUID_UNKNOWN :: int where "UUID_UNKNOWN = - 1"
definition UUID_INVALID :: int where "UUID_INVALID = - 2"
definition OFFSET_UUID :: int where "OFFSET_UUID = push_bit 16 1"
definition UUID_MAXSTRSIZE :: nat where "UUID_MAXSTRSIZE = 37"

definition uuid_ok :: "uuid \<Rightarrow> bool" where
  "uuid_ok u \<longleftrightarrow> length (m_aData u) = 16"

text \<open>The version and variant bits.\<close>

definition set_version :: "byte \<Rightarrow> byte list \<Rightarrow> byte list" where
  "set_version v d = (d[6 := (d ! 6 AND 0x0f) OR v])[8 := (d ! 8 AND 0x3f) OR 0x80]"

definition RandomUuid :: "byte list \<Rightarrow> uuid" where
  "RandomUuid random = Uuid (set_version 0x40 random)"

definition TEEWORLDS_NAMESPACE :: "byte list" where
  "TEEWORLDS_NAMESPACE =
     [0xe0, 0x5d, 0xda, 0xaa, 0xc4, 0xe6, 0x4c, 0xfb, 0xb6, 0x42, 0x5d, 0x48, 0xe8, 0x0c, 0x00, 0x29]"

definition CalculateUuid :: "(byte list \<Rightarrow> byte list) \<Rightarrow> cstring \<Rightarrow> uuid" where
  "CalculateUuid md5 name = Uuid (set_version 0x30 (take 16 (md5 (TEEWORLDS_NAMESPACE @ name))))"

section \<open>The text form\<close>

text \<open>\<open>%02x\<close>\<close>

definition lower_hex :: "byte \<Rightarrow> byte" where
  "lower_hex n = (if n < 10 then 48 + n else 97 + (n - 10))"

definition hex2 :: "byte \<Rightarrow> cstring" where
  "hex2 b = [lower_hex (drop_bit 4 b), lower_hex (b AND 0xF)]"

definition hexes :: "byte list \<Rightarrow> cstring" where
  "hexes bs = concat (map hex2 bs)"

definition uuid_text :: "byte list \<Rightarrow> cstring" where
  "uuid_text p = hexes (take 4 p) @ 45 # hexes (take 2 (drop 4 p)) @ 45 # hexes (take 2 (drop 6 p)) @ 45 #
     hexes (take 2 (drop 8 p)) @ 45 # hexes (take 6 (drop 10 p))"

definition FormatUuid :: "uuid \<Rightarrow> nat \<Rightarrow> cstring" where
  "FormatUuid u buffer_length = str_utf8_fix_truncation (take (buffer_length - 1) (uuid_text (m_aData u)))"

definition char_at :: "cstring \<Rightarrow> nat \<Rightarrow> byte" where
  "char_at s i = (if i < length s then s ! i else 0)"

text \<open>The codes of \<open>ParseUuid\<close>: 2 for a wrong length, 1 for bad contents. The four dashes become terminators of
  the groups before them.\<close>

definition ParseUuid :: "cstring \<Rightarrow> int + uuid" where
  "ParseUuid buffer =
     (if length buffer + 1 \<noteq> UUID_MAXSTRSIZE then Inl 2
      else
        let copy = str_copy buffer UUID_MAXSTRSIZE in
        if char_at copy 8 \<noteq> 45 \<or> char_at copy 13 \<noteq> 45 \<or> char_at copy 18 \<noteq> 45 \<or> char_at copy 23 \<noteq> 45 then Inl 1
        else
          case (str_hex_decode 4 (take 8 copy), str_hex_decode 2 (take 4 (drop 9 copy)),
                str_hex_decode 2 (take 4 (drop 14 copy)), str_hex_decode 2 (take 4 (drop 19 copy)),
                str_hex_decode 6 (drop 24 copy)) of
            (Inr a, Inr b, Inr c, Inr d, Inr e) \<Rightarrow> Inr (Uuid (a @ b @ c @ d @ e))
          | _ \<Rightarrow> Inl 1)"

section \<open>The registry\<close>

text \<open>\<open>CUuidManager\<close>: the names in the order of their numbers, and an index sorted by UUID.\<close>

record uuid_manager =
  m_vNames :: "(uuid \<times> cstring) list"
  m_vNamesSorted :: "(uuid \<times> int) list"

definition empty_manager :: uuid_manager where
  "empty_manager = \<lparr>m_vNames = [], m_vNamesSorted = []\<rparr>"

definition GetIndex :: "int \<Rightarrow> int" where "GetIndex uid = uid - OFFSET_UUID"
definition GetId :: "int \<Rightarrow> int" where "GetId index = index + OFFSET_UUID"

text \<open>\<open>std::lower_bound\<close> and \<open>std::upper_bound\<close> of a sorted vector, as numbers of elements before them.\<close>

definition lower_bound :: "(uuid \<times> int) list \<Rightarrow> uuid \<Rightarrow> nat" where
  "lower_bound xs u = length (takeWhile (\<lambda>x. fst x < u) xs)"

definition upper_bound :: "(uuid \<times> int) list \<Rightarrow> uuid \<Rightarrow> nat" where
  "upper_bound xs u = length (takeWhile (\<lambda>x. \<not> u < fst x) xs)"

definition LookupUuid :: "uuid_manager \<Rightarrow> uuid \<Rightarrow> int" where
  "LookupUuid m u =
     (let first = lower_bound (m_vNamesSorted m) u; last = upper_bound (m_vNamesSorted m) u
      in if int last - int first = 1 then GetId (snd (m_vNamesSorted m ! first)) else UUID_UNKNOWN)"

text \<open>\<open>None\<close> is a failed assertion.\<close>

definition RegisterName :: "(byte list \<Rightarrow> byte list) \<Rightarrow> uuid_manager \<Rightarrow> int \<Rightarrow> cstring \<Rightarrow> uuid_manager option" where
  "RegisterName md5 m uid name =
     (if GetIndex uid \<noteq> int (length (m_vNames m)) then None
      else
        let u = CalculateUuid md5 name in
        if LookupUuid m u \<noteq> UUID_UNKNOWN then None
        else
          let k = lower_bound (m_vNamesSorted m) u in
          Some \<lparr>m_vNames = m_vNames m @ [(u, name)],
                m_vNamesSorted = take k (m_vNamesSorted m) @ (u, GetIndex uid) # drop k (m_vNamesSorted m)\<rparr>)"

definition GetUuid :: "uuid_manager \<Rightarrow> int \<Rightarrow> uuid" where
  "GetUuid m uid = fst (m_vNames m ! nat (GetIndex uid))"

definition GetName :: "uuid_manager \<Rightarrow> int \<Rightarrow> cstring" where
  "GetName m uid = snd (m_vNames m ! nat (GetIndex uid))"

definition NumUuids :: "uuid_manager \<Rightarrow> int" where
  "NumUuids m = int (length (m_vNames m))"

definition UnpackUuid :: "uuid_manager \<Rightarrow> unpacker \<Rightarrow> unpacker \<times> int \<times> uuid option" where
  "UnpackUuid m u =
     (case GetRaw u 16 of
        (u', None) \<Rightarrow> (u', UUID_INVALID, None)
      | (u', Some raw) \<Rightarrow> (u', LookupUuid m (Uuid raw), Some (Uuid raw)))"

definition PackUuid :: "uuid_manager \<Rightarrow> int \<Rightarrow> packer \<Rightarrow> packer" where
  "PackUuid m uid p = AddRaw p (m_aData (GetUuid m uid))"

section \<open>Lemmas on the text form\<close>

lemma nibbles: "uint (drop_bit 4 (b :: byte)) = uint b div 16" "uint ((b :: byte) AND 0xF) = uint b mod 16"
proof -
  show "uint (drop_bit 4 b) = uint b div 16" by (simp add: drop_bit_eq_div uint_div_distrib)
  have "b AND mask 4 = b mod 16" by (simp flip: take_bit_eq_mask add: take_bit_eq_mod)
  then show "uint (b AND 0xF) = uint b mod 16" by (simp add: mask_eq_exp_minus_1 uint_mod_distrib)
qed

lemma nibble_cases:
  assumes "uint (n :: byte) < 16"
  shows "n \<in> word_of_int ` {0, 1, 2, 3, 4, 5, 6, 7, 8, 9, 10, 11, 12, 13, 14, 15}"
proof -
  have "uint n \<in> {0, 1, 2, 3, 4, 5, 6, 7, 8, 9, 10, 11, 12, 13, 14, 15}"
    using assms uint_byte_bound(1) [of n] by (simp only: insert_iff empty_iff) presburger
  then show ?thesis by (rule rev_image_eqI) simp
qed

lemma hexval_lower_hex: "uint (n :: byte) < 16 \<Longrightarrow> hexval (lower_hex n) = uint n"
  by (drule nibble_cases, elim imageE insertE emptyE; simp add: hexval_def lower_hex_def)

lemma byteval_hex2: "byteval (hex2 b @ rest) = Some b"
proof -
  have "hexval (lower_hex (drop_bit 4 b)) = uint b div 16"
    using hexval_lower_hex [of "drop_bit 4 b"] uint_byte_bound [of b] by (simp only: nibbles; simp)
  moreover have "hexval (lower_hex (b AND 0xF)) = uint b mod 16"
    using hexval_lower_hex [of "b AND 0xF"] by (simp only: nibbles; simp)
  moreover have "0 \<le> uint b div 16" "0 \<le> uint b mod 16"
    using uint_byte_bound(1) [of b] by (simp_all only: div_int_pos_iff) simp_all
  ultimately show ?thesis by (simp add: byteval_def hex2_def Let_def)
qed

lemma hex_decode_loop_hexes: "hex_decode_loop (length bs) (hexes bs) = Inr bs"
proof (induction bs)
  case (Cons b bs)
  have "byteval (hexes (b # bs)) = Some b" using byteval_hex2 [of b "hexes bs"] by (simp add: hexes_def)
  moreover have "drop 2 (hexes (b # bs)) = hexes bs" by (simp add: hexes_def hex2_def)
  ultimately show ?case using Cons by simp
qed simp

lemma length_hexes: "length (hexes bs) = 2 * length bs"
  by (induction bs) (simp_all add: hexes_def hex2_def)

lemma str_hex_decode_hexes: "length bs = n \<Longrightarrow> str_hex_decode n (hexes bs) = Inr bs"
  using hex_decode_loop_hexes [of bs] by (simp add: str_hex_decode_def length_hexes)

lemma fix_truncation_ascii:
  assumes "\<And>b. b \<in> set s \<Longrightarrow> 0 < uint b \<and> uint b < 128"
  shows "str_utf8_fix_truncation s = s"
proof (cases s rule: rev_cases)
  case Nil
  then show ?thesis by (simp add: str_utf8_fix_truncation_def)
next
  case (snoc p b)
  have "uint b < 128" "0 < uint b" using assms [of b] snoc by simp_all
  then have "scalar (uint b)" "str_utf8_encode (uint b) = [b] @ []"
    by (simp_all add: scalar_def str_utf8_encode_def)
  from fix_truncation_tail [OF this, of p] show ?thesis by (simp add: snoc)
qed

lemma lower_hex_ascii: "uint (n :: byte) < 16 \<Longrightarrow> 0 < uint (lower_hex n) \<and> uint (lower_hex n) < 128"
  by (drule nibble_cases, elim imageE insertE emptyE; simp add: lower_hex_def)

lemma hexes_ascii: "b \<in> set (hexes bs) \<Longrightarrow> 0 < uint b \<and> uint b < 128"
proof -
  have h: "0 < uint (lower_hex (drop_bit 4 x)) \<and> uint (lower_hex (drop_bit 4 x)) < 128"
    "0 < uint (lower_hex (x AND 0xF)) \<and> uint (lower_hex (x AND 0xF)) < 128" for x :: byte
    by (intro lower_hex_ascii, use uint_byte_bound [of x] in \<open>simp only: nibbles; simp\<close>)+
  assume "b \<in> set (hexes bs)"
  then obtain x where "b = lower_hex (drop_bit 4 x) \<or> b = lower_hex (x AND 0xF)" by (auto simp: hexes_def hex2_def)
  with h show ?thesis by blast
qed

lemma uuid_text_ascii: "b \<in> set (uuid_text p) \<Longrightarrow> 0 < uint b \<and> uint b < 128"
  using hexes_ascii unfolding uuid_text_def by (auto simp del: uint_0_iff)

lemma length_uuid_text: "length p = 16 \<Longrightarrow> length (uuid_text p) = 36"
  by (simp add: uuid_text_def length_hexes)

lemma ParseUuid_text:
  assumes "length p = 16"
  shows "ParseUuid (uuid_text p) = Inr (Uuid p)"
proof -
  have t: "str_copy (uuid_text p) UUID_MAXSTRSIZE = uuid_text p"
    using length_uuid_text [OF assms] fix_truncation_ascii [of "uuid_text p"] uuid_text_ascii
    by (simp add: str_copy_def UUID_MAXSTRSIZE_def)
  define A B C D E where g: "A = hexes (take 4 p)" "B = hexes (take 2 (drop 4 p))" "C = hexes (take 2 (drop 6 p))"
    "D = hexes (take 2 (drop 8 p))" "E = hexes (take 6 (drop 10 p))"
  have l: "length A = 8" "length B = 4" "length C = 4" "length D = 4" "length E = 12"
    using assms by (simp_all add: g length_hexes)
  have u: "uuid_text p = A @ 45 # B @ 45 # C @ 45 # D @ 45 # E" by (simp add: uuid_text_def g)
  have d: "str_hex_decode 4 A = Inr (take 4 p)" "str_hex_decode 2 B = Inr (take 2 (drop 4 p))"
    "str_hex_decode 2 C = Inr (take 2 (drop 6 p))" "str_hex_decode 2 D = Inr (take 2 (drop 8 p))"
    "str_hex_decode 6 E = Inr (take 6 (drop 10 p))"
    using assms by (simp_all add: g str_hex_decode_hexes)
  have cut: "drop n p = take m (drop n p) @ drop (m + n) p" for m n by (simp flip: drop_drop)
  have "p = take 4 p @ take 2 (drop 4 p) @ take 2 (drop 6 p) @ take 2 (drop 8 p) @ drop 10 p"
    using cut [of 0 4] cut [of 4 2] cut [of 6 2] cut [of 8 2] by simp
  moreover have "take 6 (drop 10 p) = drop 10 p" using assms by simp
  ultimately have p: "take 4 p @ take 2 (drop 4 p) @ take 2 (drop 6 p) @ take 2 (drop 8 p) @ take 6 (drop 10 p) = p"
    by simp
  show ?thesis using length_uuid_text [OF assms] l
    by (simp add: ParseUuid_def t [unfolded u UUID_MAXSTRSIZE_def] UUID_MAXSTRSIZE_def u char_at_def nth_append nth_Cons' d p)
qed

section \<open>Lemmas on the registry\<close>

definition manager_ok :: "uuid_manager \<Rightarrow> bool" where
  "manager_ok m \<longleftrightarrow> sorted_wrt (<) (map fst (m_vNamesSorted m)) \<and>
     set (m_vNamesSorted m) = (\<lambda>i. (fst (m_vNames m ! i), int i)) ` {..<length (m_vNames m)}"

lemma bounds_found:
  assumes "sorted_wrt (<) (map fst (as @ (u, i) # bs))"
  shows "lower_bound (as @ (u, i) # bs) u = length as" "upper_bound (as @ (u, i) # bs) u = length as + 1"
proof -
  have a: "\<forall>x\<in>set as. fst x < u" "\<forall>x\<in>set bs. u < fst x" using assms by (auto simp: sorted_wrt_append)
  then show "lower_bound (as @ (u, i) # bs) u = length as"
    by (simp add: lower_bound_def takeWhile_append2)
  have "takeWhile (\<lambda>x. \<not> u < fst x) bs = []" using a(2) by (cases bs) auto
  moreover have "\<And>x. x \<in> set as \<Longrightarrow> \<not> u < fst x" using a(1) by force
  ultimately show "upper_bound (as @ (u, i) # bs) u = length as + 1"
    by (simp add: upper_bound_def takeWhile_append2)
qed

lemma bounds_missing:
  assumes "u \<notin> set (map fst xs)"
  shows "lower_bound xs u = upper_bound xs u"
proof -
  have "takeWhile (\<lambda>x. fst x < u) xs = takeWhile (\<lambda>x. \<not> u < fst x) xs"
  proof (rule takeWhile_cong)
    fix x assume "x \<in> set xs"
    then have "fst x \<noteq> u" using assms by force
    then show "(fst x < u) = (\<not> u < fst x)" by force
  qed simp
  then show ?thesis by (simp add: lower_bound_def upper_bound_def)
qed

lemma LookupUuid_found:
  assumes "sorted_wrt (<) (map fst (m_vNamesSorted m))" "(u, i) \<in> set (m_vNamesSorted m)"
  shows "LookupUuid m u = GetId i"
proof -
  obtain as bs where ab: "m_vNamesSorted m = as @ (u, i) # bs" using assms(2) by (meson split_list)
  show ?thesis using bounds_found [OF assms(1) [unfolded ab]] by (simp add: LookupUuid_def ab)
qed

lemma LookupUuid_missing: "u \<notin> set (map fst (m_vNamesSorted m)) \<Longrightarrow> LookupUuid m u = UUID_UNKNOWN"
  using bounds_missing by (simp add: LookupUuid_def)

lemma manager_ok_mem:
  assumes "manager_ok m" "i < length (m_vNames m)"
  shows "(fst (m_vNames m ! i), int i) \<in> set (m_vNamesSorted m)"
  using assms by (auto simp: manager_ok_def)

lemma sorted_insert:
  assumes "sorted_wrt (<) (map fst xs)" "(u :: uuid) \<notin> set (map fst xs)"
  shows "sorted_wrt (<) (map fst (take (lower_bound xs u) xs @ (u, i) # drop (lower_bound xs u) xs))"
proof -
  let ?t = "takeWhile (\<lambda>x. fst x < u) xs" and ?d = "dropWhile (\<lambda>x. fst x < u) xs"
  have td: "take (lower_bound xs u) xs = ?t" "drop (lower_bound xs u) xs = ?d"
    unfolding lower_bound_def by (rule takeWhile_eq_take [symmetric], rule dropWhile_eq_drop [symmetric])
  have s: "sorted_wrt (<) (map fst ?t @ map fst ?d)" using assms(1) by (simp flip: map_append)
  have t: "\<forall>x\<in>set ?t. fst x < u" by (auto dest: set_takeWhileD)
  have d: "u < fst x" if "x \<in> set ?d" for x
  proof (cases ?d)
    case (Cons y ys)
    have "\<not> fst y < u" using hd_dropWhile [of "\<lambda>x. fst x < u" xs] Cons by simp
    moreover have "y \<in> set ?d" by (simp only: Cons list.set_intros(1))
    then have "fst y \<noteq> u" using assms(2) set_dropWhileD [of y] by fastforce
    ultimately have "u < fst y" by simp
    moreover have "fst y \<le> fst x" using that s unfolding Cons by (auto simp: sorted_wrt_append less_imp_le)
    ultimately show ?thesis by simp
  next
    case Nil
    then show ?thesis using that by (metis empty_iff list.set(1))
  qed
  show ?thesis unfolding td using s t d by (auto simp: sorted_wrt_append intro: less_trans)
qed

lemma RegisterName_ok:
  assumes "manager_ok m" "RegisterName md5 m uid name = Some m'"
  shows "manager_ok m' \<and> m_vNames m' = m_vNames m @ [(CalculateUuid md5 name, name)]"
proof -
  let ?u = "CalculateUuid md5 name" and ?xs = "m_vNamesSorted m"
  have new: "?u \<notin> set (map fst ?xs)"
  proof
    assume "?u \<in> set (map fst ?xs)"
    then obtain i where "(?u, i) \<in> set ?xs" by auto
    then have "LookupUuid m ?u = GetId i" "0 \<le> i"
      using assms(1) by (auto simp: manager_ok_def intro: LookupUuid_found)
    then show False using assms(2)
      by (auto simp: RegisterName_def Let_def GetId_def UUID_UNKNOWN_def OFFSET_UUID_def split: if_splits)
  qed
  have ix: "GetIndex uid = int (length (m_vNames m))"
    using assms(2) by (auto simp: RegisterName_def split: if_splits)
  have m': "m' = \<lparr>m_vNames = m_vNames m @ [(?u, name)],
      m_vNamesSorted = take (lower_bound ?xs ?u) ?xs @ (?u, GetIndex uid) # drop (lower_bound ?xs ?u) ?xs\<rparr>"
    using assms(2) by (auto simp: RegisterName_def Let_def split: if_splits)
  have "set (take k ?xs) \<union> set (drop k ?xs) = set ?xs" for k by (metis append_take_drop_id set_append)
  then have "set (m_vNamesSorted m') = insert (?u, int (length (m_vNames m))) (set ?xs)"
    by (auto simp: m' ix)
  also have "\<dots> = (\<lambda>i. (fst (m_vNames m' ! i), int i)) ` {..<length (m_vNames m')}"
    using assms(1) by (auto simp: manager_ok_def m' nth_append lessThan_Suc intro!: image_cong)
  finally show ?thesis using sorted_insert [OF _ new] assms(1) by (simp add: manager_ok_def m')
qed

fun register_all :: "(byte list \<Rightarrow> byte list) \<Rightarrow> uuid_manager \<Rightarrow> cstring list \<Rightarrow> uuid_manager option" where
  "register_all md5 m [] = Some m"
| "register_all md5 m (n # ns) =
     (case RegisterName md5 m (GetId (NumUuids m)) n of None \<Rightarrow> None | Some m' \<Rightarrow> register_all md5 m' ns)"

lemma register_all_ok:
  "manager_ok m \<Longrightarrow> register_all md5 m ns = Some m' \<Longrightarrow>
   manager_ok m' \<and> m_vNames m' = m_vNames m @ map (\<lambda>n. (CalculateUuid md5 n, n)) ns"
proof (induction ns arbitrary: m)
  case (Cons n ns)
  then obtain m1 where m1: "RegisterName md5 m (GetId (NumUuids m)) n = Some m1" "register_all md5 m1 ns = Some m'"
    by (auto split: option.splits)
  then show ?case using RegisterName_ok [OF Cons.prems(1) m1(1)] Cons.IH [of m1] by simp
qed simp

lemma empty_manager_ok: "manager_ok empty_manager"
  by (simp add: manager_ok_def empty_manager_def)

section \<open>Properties\<close>

text \<open>The text form of a UUID is 36 characters that parse back to the UUID.\<close>

theorem uuid_text_roundtrip:
  assumes "uuid_ok u"
  shows "length (FormatUuid u UUID_MAXSTRSIZE) = 36 \<and> ParseUuid (FormatUuid u UUID_MAXSTRSIZE) = Inr u"
proof -
  have l: "length (m_aData u) = 16" using assms by (simp add: uuid_ok_def)
  then have "FormatUuid u UUID_MAXSTRSIZE = uuid_text (m_aData u)"
    using length_uuid_text [OF l] fix_truncation_ascii [of "uuid_text (m_aData u)"] uuid_text_ascii
    by (simp add: FormatUuid_def UUID_MAXSTRSIZE_def)
  then show ?thesis using length_uuid_text [OF l] ParseUuid_text [OF l] by simp
qed

theorem uuid_text_roundtrip_witness:
  "ParseUuid (FormatUuid (Uuid TEEWORLDS_NAMESPACE) UUID_MAXSTRSIZE) = Inr (Uuid TEEWORLDS_NAMESPACE)"
  using uuid_text_roundtrip [of "Uuid TEEWORLDS_NAMESPACE"] by (simp add: uuid_ok_def TEEWORLDS_NAMESPACE_def)

text \<open>The registry is a bijection between numbers and UUIDs: after any successful registrations a name's
  number leads to the UUID calculated from the name, the UUID leads back to the number, on the wire too,
  and a UUID that belongs to no registered name is unknown.\<close>

theorem uuid_registry:
  assumes "register_all md5 empty_manager names = Some m" "i < length names"
    "\<And>bs. length (md5 bs) = 16" "length (m_Written p) + 16 \<le> m_BufferSize p" "\<not> m_PError p" "m_Written p = []"
  shows "GetUuid m (GetId (int i)) = CalculateUuid md5 (names ! i) \<and> GetName m (GetId (int i)) = names ! i \<and>
    LookupUuid m (GetUuid m (GetId (int i))) = GetId (int i) \<and>
    fst (snd (UnpackUuid m (unpacker_Reset (m_Written (PackUuid m (GetId (int i)) p))))) = GetId (int i) \<and>
    (u \<notin> CalculateUuid md5 ` set names \<longrightarrow> LookupUuid m u = UUID_UNKNOWN)"
proof -
  have m: "manager_ok m" "m_vNames m = map (\<lambda>n. (CalculateUuid md5 n, n)) names"
    using register_all_ok [OF empty_manager_ok assms(1)] by (simp_all add: empty_manager_def)
  have g: "GetUuid m (GetId (int i)) = CalculateUuid md5 (names ! i)" "GetName m (GetId (int i)) = names ! i"
    using assms(2) by (simp_all add: GetUuid_def GetName_def GetIndex_def GetId_def m(2))
  have l: "LookupUuid m (GetUuid m (GetId (int i))) = GetId (int i)"
    using manager_ok_mem [OF m(1), of i] m assms(2) unfolding g
    by (intro LookupUuid_found) (simp_all add: manager_ok_def)
  have d: "length (m_aData (CalculateUuid md5 (names ! i))) = 16"
    using assms(3) by (simp add: CalculateUuid_def set_version_def)
  have "m_Written (PackUuid m (GetId (int i)) p) = m_aData (CalculateUuid md5 (names ! i))"
    using d assms(4,5,6) by (simp add: PackUuid_def AddRaw_def packer_room_def g)
  then have "fst (snd (UnpackUuid m (unpacker_Reset (m_Written (PackUuid m (GetId (int i)) p))))) = GetId (int i)"
    using d l by (simp add: UnpackUuid_def GetRaw_def unpacker_Reset_def g)
  moreover have "LookupUuid m u = UUID_UNKNOWN" if "u \<notin> CalculateUuid md5 ` set names"
  proof (rule LookupUuid_missing)
    show "u \<notin> set (map fst (m_vNamesSorted m))" using m that by (auto simp: manager_ok_def image_iff)
  qed
  ultimately show ?thesis using g l by blast
qed

text \<open>A digest that depends on the last byte of the name only.\<close>

definition last_byte_digest :: "byte list \<Rightarrow> byte list" where
  "last_byte_digest bs = replicate 16 (last bs)"

theorem uuid_registry_witness:
  "\<exists>m. register_all last_byte_digest empty_manager [[65]] = Some m \<and>
    LookupUuid m (GetUuid m (GetId 0)) = GetId 0"
proof -
  obtain m where m: "register_all last_byte_digest empty_manager [[65]] = Some m"
    by (simp add: RegisterName_def LookupUuid_def lower_bound_def upper_bound_def empty_manager_def GetId_def GetIndex_def
        NumUuids_def Let_def)
  have d: "\<And>bs. length (last_byte_digest bs) = 16" by (simp add: last_byte_digest_def)
  have "LookupUuid m (GetUuid m (GetId (int 0))) = GetId (int 0)"
    by (rule conjunct1 [OF conjunct2 [OF conjunct2 [OF uuid_registry [OF m _ d, of 0 CPacker]]]])
       (simp_all add: CPacker_def packer_Reset_def PACKER_BUFFER_SIZE_def)
  with m show ?thesis by auto
qed

end
