(* ===== verification/Snapshot.thy ===== *)
theory Snapshot
  imports Uuid
begin

text \<open>
  Snapshots of the game world (\<open>src/engine/shared/snapshot.cpp\<close>): reading a snapshot, building one, deltas between
  two snapshots and the storage of past snapshots.

  A snapshot is the array of \<open>int\<close>s it is in memory: data sz, number of items, the offsets of the items and the
  items, each a key and its data. Offsets count bytes; in a valid snapshot they are multiples of four, so a
  position is an index into the array. A builder holds the same parts separately. A failed \<open>dbg_assert\<close> is
  \<open>None\<close>.
\<close>

section \<open>Reading a snapshot\<close>

type_synonym snap = "i32 list"

definition MAX_TYPE :: int where "MAX_TYPE = 0x7fff"
definition MAX_ID :: int where "MAX_ID = 0xffff"
definition MAX_ITEMS :: int where "MAX_ITEMS = 1024"
definition MAX_SIZE :: int where "MAX_SIZE = 64 * 1024"
definition OFFSET_UUID_TYPE :: int where "OFFSET_UUID_TYPE = 0x4000"

lemmas snap_limits = MAX_TYPE_def MAX_ID_def MAX_ITEMS_def MAX_SIZE_def OFFSET_UUID_TYPE_def OFFSET_UUID_def

definition snap_DataSize :: "snap \<Rightarrow> int" where "snap_DataSize s = sint (s ! 0)"
definition snap_NumItems :: "snap \<Rightarrow> int" where "snap_NumItems s = sint (s ! 1)"
definition snap_Offset :: "snap \<Rightarrow> nat \<Rightarrow> int" where "snap_Offset s i = sint (s ! (2 + i))"

text \<open>\<open>GetItem\<close>: the index of the item's key; its data follow.\<close>

definition snap_GetItem :: "snap \<Rightarrow> nat \<Rightarrow> nat" where
  "snap_GetItem s i = 2 + nat (snap_NumItems s) + nat (snap_Offset s i div 4)"

definition snap_GetItemSize :: "snap \<Rightarrow> nat \<Rightarrow> int" where
  "snap_GetItemSize s i =
     (if int i = snap_NumItems s - 1 then snap_DataSize s - snap_Offset s i - 4
      else snap_Offset s (i + 1) - snap_Offset s i - 4)"

definition words_at :: "i32 list \<Rightarrow> nat \<Rightarrow> nat \<Rightarrow> i32 list" where
  "words_at s a n = map (\<lambda>k. s ! (a + k)) [0..<n]"

definition snap_Key :: "snap \<Rightarrow> nat \<Rightarrow> i32" where
  "snap_Key s i = s ! snap_GetItem s i"

definition InternalType :: "i32 \<Rightarrow> int" where "InternalType key = drop_bit 16 (sint key)"
definition item_Id :: "i32 \<Rightarrow> int" where "item_Id key = sint key AND 0xffff"

definition snap_Words :: "snap \<Rightarrow> nat \<Rightarrow> i32 list" where
  "snap_Words s i = words_at s (snap_GetItem s i + 1) (nat (snap_GetItemSize s i div 4))"

definition indices :: "snap \<Rightarrow> nat list" where
  "indices s = [0..<nat (snap_NumItems s)]"

text \<open>The linear search; \<open>None\<close> for the code's \<open>-1\<close>.\<close>

definition snap_GetItemIndex :: "snap \<Rightarrow> i32 \<Rightarrow> nat option" where
  "snap_GetItemIndex s key = find (\<lambda>i. snap_Key s i = key) (indices s)"

definition snap_InvalidateItem :: "snap \<Rightarrow> nat \<Rightarrow> snap" where
  "snap_InvalidateItem s i = s[snap_GetItem s i := - 1]"

definition uuid_words :: "uuid \<Rightarrow> i32 list" where
  "uuid_words u = map (\<lambda>i. bytes_be_to_uint (drop (4 * i) (m_aData u))) [0..<4]"

definition words_uuid :: "i32 list \<Rightarrow> uuid" where
  "words_uuid ws = Uuid (concat (map uint_to_bytes_be ws))"

definition snap_GetExternalItemType :: "uuid_manager \<Rightarrow> snap \<Rightarrow> int \<Rightarrow> int" where
  "snap_GetExternalItemType m s internal_type =
     (if internal_type < OFFSET_UUID_TYPE then internal_type
      else case snap_GetItemIndex s (word_of_int internal_type) of
          None \<Rightarrow> - 1
        | Some i \<Rightarrow>
            if snap_GetItemSize s i < 16 then - 1
            else LookupUuid m (words_uuid (words_at s (snap_GetItem s i + 1) 4)))"

definition snap_GetItemType :: "uuid_manager \<Rightarrow> snap \<Rightarrow> nat \<Rightarrow> int" where
  "snap_GetItemType m s i = snap_GetExternalItemType m s (InternalType (snap_Key s i))"

text \<open>\<open>FindItem\<close>: the index of the item's data.\<close>

definition snap_FindItem :: "uuid_manager \<Rightarrow> snap \<Rightarrow> int \<Rightarrow> int \<Rightarrow> nat option" where
  "snap_FindItem m s type iid =
     (let internal =
        (if type \<ge> OFFSET_UUID then
           map_option (\<lambda>i. item_Id (snap_Key s i))
             (find (\<lambda>i. InternalType (snap_Key s i) = 0 \<and> item_Id (snap_Key s i) \<ge> OFFSET_UUID_TYPE \<and>
                        words_at s (snap_GetItem s i + 1) 4 = uuid_words (GetUuid m type)) (indices s))
         else Some type)
      in case internal of
           None \<Rightarrow> None
         | Some t \<Rightarrow>
             map_option (\<lambda>i. snap_GetItem s i + 1)
               (snap_GetItemIndex s (word_of_int (push_bit 16 t OR iid))))"

definition snap_Crc :: "snap \<Rightarrow> i32" where
  "snap_Crc s = foldl (\<lambda>crc i. foldl (+) crc (snap_Words s i)) 0 (indices s)"

definition snap_TotalSize :: "snap \<Rightarrow> int" where
  "snap_TotalSize s = 8 + 4 * snap_NumItems s + snap_DataSize s"

definition snap_IsValid :: "snap \<Rightarrow> int \<Rightarrow> bool" where
  "snap_IsValid s actual_size =
     (if actual_size < 8 \<or> actual_size > MAX_SIZE \<or> snap_NumItems s < 0 \<or> snap_NumItems s > MAX_ITEMS \<or>
         snap_DataSize s < 0 \<or> actual_size \<noteq> snap_TotalSize s then False
      else if list_ex (\<lambda>i. snap_Offset s i < 0 \<or> snap_Offset s i > snap_DataSize s \<or> snap_Offset s i mod 4 \<noteq> 0)
                (indices s) then False
      else if list_ex (\<lambda>i. snap_GetItemSize s i < 0 \<or> snap_GetItemSize s i mod 4 \<noteq> 0) (indices s) then False
      else True)"

definition EmptySnapshot :: snap where
  "EmptySnapshot = [0, 0]"

section \<open>Building a snapshot\<close>

record builder =
  b_Data :: "i32 list"
  b_Offsets :: "int list"
  b_ExtendedItemTypes :: "int list"
  b_Building :: bool
  b_HasDroppedItem :: bool
  b_Sixup :: bool

definition new_builder :: builder where
  "new_builder = \<lparr>b_Data = [], b_Offsets = [], b_ExtendedItemTypes = [], b_Building = False, b_HasDroppedItem = False,
     b_Sixup = False\<rparr>"

definition MAX_EXTENDED_ITEM_TYPES :: nat where "MAX_EXTENDED_ITEM_TYPES = 64"

definition b_DataSize :: "builder \<Rightarrow> int" where "b_DataSize b = 4 * int (length (b_Data b))"
definition b_NumItems :: "builder \<Rightarrow> int" where "b_NumItems b = int (length (b_Offsets b))"

text \<open>What \<open>NewItemRaw\<close> returns: no item, a pointer behind the items for a type the 0.7 protocol lacks, or the index
  of the new item's data.\<close>

datatype raw_item = NoItem | Behind | At nat

definition make_key :: "int \<Rightarrow> int \<Rightarrow> i32" where
  "make_key type iid = word_of_int (push_bit 16 type OR iid)"

definition append_item :: "builder \<Rightarrow> int \<Rightarrow> int \<Rightarrow> int \<Rightarrow> builder \<times> raw_item" where
  "append_item b type iid sz =
     (b\<lparr>b_Offsets := b_Offsets b @ [b_DataSize b],
        b_Data := b_Data b @ make_key type iid # replicate (nat (sz div 4)) 0\<rparr>,
      At (length (b_Data b) + 1))"

text \<open>The part behind the resolution of extended types; \<open>six_to_seven\<close> is the generated table \<open>Obj_SixToSeven\<close>.\<close>

definition place_item :: "(int \<Rightarrow> int) \<Rightarrow> builder \<Rightarrow> int \<Rightarrow> int \<Rightarrow> int \<Rightarrow> bool \<Rightarrow> builder \<times> raw_item" where
  "place_item six_to_seven b type iid sz extended =
     (if b_NumItems b \<ge> MAX_ITEMS then (b, NoItem)
      else if 8 + (b_NumItems b + 1) * 4 + b_DataSize b + (4 + sz) > MAX_SIZE then (b, NoItem)
      else if b_Sixup b \<and> \<not> extended then
        (let type = (if type \<ge> 0 then six_to_seven type else - type)
         in if type < 0 then (b, Behind) else append_item b type iid sz)
      else if type < 0 then (b, NoItem)
      else append_item b type iid sz)"

definition raw_ok :: "builder \<Rightarrow> int \<Rightarrow> int \<Rightarrow> int \<Rightarrow> bool" where
  "raw_ok b type iid sz \<longleftrightarrow>
     b_Building b \<and>
     (type \<ge> 0 \<and> type \<le> MAX_TYPE \<or> type \<ge> OFFSET_UUID \<or> b_Sixup b \<and> type \<ge> - MAX_TYPE \<and> type < 0) \<and>
     iid \<ge> 0 \<and> iid \<le> MAX_ID \<and>
     sz \<ge> 0 \<and> sz \<le> MAX_SIZE - 8 - 4 - 4 \<and> sz mod 4 = 0"

definition write_words :: "i32 list \<Rightarrow> nat \<Rightarrow> i32 list \<Rightarrow> i32 list" where
  "write_words s a ws = take a s @ ws @ drop (a + length ws) s"

definition write_item :: "builder \<Rightarrow> raw_item \<Rightarrow> i32 list \<Rightarrow> builder" where
  "write_item b r ws = (case r of At a \<Rightarrow> b\<lparr>b_Data := write_words (b_Data b) a ws\<rparr> | _ \<Rightarrow> b)"

definition GetTypeFromIndex :: "int \<Rightarrow> int" where
  "GetTypeFromIndex index = MAX_TYPE - index"

text \<open>\<open>NewItemRaw\<close> of the type 0, which is not extended.\<close>

definition AddExtendedItemType :: "uuid_manager \<Rightarrow> (int \<Rightarrow> int) \<Rightarrow> builder \<Rightarrow> nat \<Rightarrow> (builder \<times> bool) option" where
  "AddExtendedItemType m six_to_seven b index =
     (if \<not> b_Building b \<or> \<not> index < length (b_ExtendedItemTypes b) then None
      else if \<not> raw_ok b 0 (GetTypeFromIndex (int index)) 16 then None
      else let (b', r) = place_item six_to_seven b 0 (GetTypeFromIndex (int index)) 16 False in
        if r = NoItem then Some (b', False)
        else Some (write_item b' r (uuid_words (GetUuid m (b_ExtendedItemTypes b ! index))), True))"

definition GetExtendedItemTypeIndex :: "uuid_manager \<Rightarrow> (int \<Rightarrow> int) \<Rightarrow> builder \<Rightarrow> int \<Rightarrow> (builder \<times> int) option" where
  "GetExtendedItemTypeIndex m six_to_seven b type_id =
     (case find (\<lambda>i. b_ExtendedItemTypes b ! i = type_id) [0..<length (b_ExtendedItemTypes b)] of
        Some i \<Rightarrow> Some (b, int i)
      | None \<Rightarrow>
          if \<not> length (b_ExtendedItemTypes b) < MAX_EXTENDED_ITEM_TYPES then None
          else
            let index = length (b_ExtendedItemTypes b) in
            case AddExtendedItemType m six_to_seven (b\<lparr>b_ExtendedItemTypes := b_ExtendedItemTypes b @ [type_id]\<rparr>) index of
              None \<Rightarrow> None
            | Some (b', True) \<Rightarrow> Some (b', int index)
            | Some (b', False) \<Rightarrow> Some (b'\<lparr>b_ExtendedItemTypes := butlast (b_ExtendedItemTypes b')\<rparr>, - 1))"

definition NewItemRaw ::
  "uuid_manager \<Rightarrow> (int \<Rightarrow> int) \<Rightarrow> builder \<Rightarrow> int \<Rightarrow> int \<Rightarrow> int \<Rightarrow> (builder \<times> raw_item) option" where
  "NewItemRaw m six_to_seven b type iid sz =
     (if \<not> raw_ok b type iid sz then None
      else if type \<ge> OFFSET_UUID then
        case GetExtendedItemTypeIndex m six_to_seven b type of
          None \<Rightarrow> None
        | Some (b', index) \<Rightarrow>
            if index = - 1 then Some (b', NoItem)
            else Some (place_item six_to_seven b' (GetTypeFromIndex index) iid sz True)
      else Some (place_item six_to_seven b type iid sz False))"

definition NewItem ::
  "uuid_manager \<Rightarrow> (int \<Rightarrow> int) \<Rightarrow> builder \<Rightarrow> int \<Rightarrow> int \<Rightarrow> i32 list \<Rightarrow> int \<Rightarrow> (builder \<times> bool) option" where
  "NewItem m six_to_seven b type iid data sz =
     (if \<not> b_Building b then None
      else if b_HasDroppedItem b then Some (b, False)
      else case NewItemRaw m six_to_seven b type iid sz of
          None \<Rightarrow> None
        | Some (b', NoItem) \<Rightarrow> Some (b'\<lparr>b_HasDroppedItem := True\<rparr>, False)
        | Some (b', r) \<Rightarrow> Some (write_item b' r (take (nat (sz div 4)) data), True))"

definition builder_Init :: "uuid_manager \<Rightarrow> (int \<Rightarrow> int) \<Rightarrow> builder \<Rightarrow> bool \<Rightarrow> builder option" where
  "builder_Init m six_to_seven b sixup =
     (if b_Building b then None
      else foldl (\<lambda>ob i. case ob of None \<Rightarrow> None | Some b \<Rightarrow> map_option fst (AddExtendedItemType m six_to_seven b i))
             (Some (b\<lparr>b_Data := [], b_Offsets := [], b_Building := True, b_HasDroppedItem := False, b_Sixup := sixup\<rparr>))
             [0..<length (b_ExtendedItemTypes b)])"

definition builder_Init7 :: "builder \<Rightarrow> snap \<Rightarrow> builder option" where
  "builder_Init7 b s =
     (if b_Building b then None
      else Some (b\<lparr>b_Building := True, b_HasDroppedItem := False, b_Sixup := False,
             b_Offsets := map (snap_Offset s) (indices s),
             b_Data := words_at s (2 + nat (snap_NumItems s)) (nat (snap_DataSize s div 4))\<rparr>))"

definition b_GetItem :: "builder \<Rightarrow> nat \<Rightarrow> nat option" where
  "b_GetItem b i = (if i < length (b_Offsets b) then Some (nat (b_Offsets b ! i div 4)) else None)"

definition b_GetItemSize :: "builder \<Rightarrow> nat \<Rightarrow> int option" where
  "b_GetItemSize b i =
     (if i < length (b_Offsets b)
      then Some ((if i + 1 < length (b_Offsets b) then b_Offsets b ! (i + 1) else b_DataSize b) - b_Offsets b ! i - 4)
      else None)"

definition b_Key :: "builder \<Rightarrow> nat \<Rightarrow> i32" where
  "b_Key b i = b_Data b ! nat (b_Offsets b ! i div 4)"

definition FindItemIndexByKey :: "builder \<Rightarrow> i32 \<Rightarrow> nat option" where
  "FindItemIndexByKey b key = find (\<lambda>i. b_Key b i = key) [0..<length (b_Offsets b)]"

definition builder_Finish :: "builder \<Rightarrow> (builder \<times> snap \<times> int) option" where
  "builder_Finish b =
     (if \<not> b_Building b \<or> \<not> b_NumItems b \<le> MAX_ITEMS then None
      else
        let s = word_of_int (b_DataSize b) # word_of_int (b_NumItems b) # map word_of_int (b_Offsets b) @ b_Data b
        in if \<not> snap_TotalSize s \<le> MAX_SIZE then None
           else Some (b\<lparr>b_Building := False\<rparr>, s, snap_TotalSize s))"

definition FinishIfNoDroppedItems :: "builder \<Rightarrow> (builder \<times> snap option \<times> int) option" where
  "FinishIfNoDroppedItems b =
     (if \<not> b_Building b then None
      else if b_HasDroppedItem b then Some (b\<lparr>b_Building := False\<rparr>, None, - 1)
      else map_option (\<lambda>(b, s, n). (b, Some s, n)) (builder_Finish b))"

end
