(* ===== verification/SnapDelta.thy ===== *)
theory SnapDelta
  imports Snapshot
begin

text \<open>
  \<open>CSnapshotDelta\<close> (\<open>src/engine/shared/snapshot.cpp\<close>): the difference between two snapshots, and applying it. A
  delta is its three counters and an array of \<open>int\<close>s: the keys of deleted items, then the updated items, each with
  type, id, the size unless the type has a fixed one, and the difference to the old item or the new data.
\<close>

section \<open>The hash list\<close>

definition HASHLIST_SIZE :: nat where "HASHLIST_SIZE = 256"
definition HASHLIST_BUCKET_SIZE :: nat where "HASHLIST_BUCKET_SIZE = 64"

text \<open>A bucket holds keys and indices in the order of their entry.\<close>

type_synonym item_list = "(i32 \<times> nat) list"

definition CalcHashId :: "i32 \<Rightarrow> nat" where
  "CalcHashId key =
     unat (foldl (\<lambda>hash shift. (push_bit 5 hash + hash) + (signed_drop_bit (shift * 8) key AND 0xFF)) (5381 :: i32) [0..<4])
       mod HASHLIST_SIZE"

definition hash_insert :: "snap \<Rightarrow> item_list list \<Rightarrow> nat \<Rightarrow> item_list list" where
  "hash_insert s table i =
     (let key = snap_Key s i; h = CalcHashId key
      in if length (table ! h) < HASHLIST_BUCKET_SIZE then table[h := table ! h @ [(key, i)]] else table)"

definition GenerateHash :: "snap \<Rightarrow> item_list list" where
  "GenerateHash s = foldl (hash_insert s) (replicate HASHLIST_SIZE []) (indices s)"

definition GetItemIndexHashed :: "i32 \<Rightarrow> item_list list \<Rightarrow> nat option" where
  "GetItemIndexHashed key table = map_option snd (find (\<lambda>e. fst e = key) (table ! CalcHashId key))"

section \<open>Differences of items\<close>

text \<open>The differences of \<open>n\<close> words and whether any of them is not zero.\<close>

fun DiffItem :: "i32 list \<Rightarrow> i32 list \<Rightarrow> nat \<Rightarrow> i32 list \<times> i32" where
  "DiffItem past current 0 = ([], 0)"
| "DiffItem past current (Suc n) =
     (let d = current ! 0 - past ! 0; (out, needed) = DiffItem (drop 1 past) (drop 1 current) n in (d # out, d OR needed))"

text \<open>\<open>UndiffItem\<close> also counts the bits the item took on the wire.\<close>

fun UndiffItem :: "i32 list \<Rightarrow> i32 list \<Rightarrow> nat \<Rightarrow> u64 \<Rightarrow> i32 list \<times> u64" where
  "UndiffItem past diff 0 rate = ([], rate)"
| "UndiffItem past diff (Suc n) rate =
     (let d = diff ! 0;
          rate = (if d = 0 then rate + 1
                  else rate + of_nat (case Pack d 5 of None \<Rightarrow> 0 | Some bs \<Rightarrow> length bs) * 8);
          (out, rate) = UndiffItem (drop 1 past) (drop 1 diff) n rate
      in ((past ! 0 + d) # out, rate))"

section \<open>State and encoding\<close>

record delta_coder =
  dc_ItemSizes :: "int list"
  dc_DataRate :: "int \<Rightarrow> u64"
  dc_DataUpdates :: "int \<Rightarrow> u64"

record delta =
  d_NumDeletedItems :: i32
  d_NumUpdateItems :: i32
  d_NumTempItems :: i32
  d_Data :: "i32 list"

definition MAX_NETOBJSIZES :: int where "MAX_NETOBJSIZES = 64"

definition new_delta_coder :: delta_coder where
  "new_delta_coder = \<lparr>dc_ItemSizes = replicate 64 0, dc_DataRate = (\<lambda>_. 0), dc_DataUpdates = (\<lambda>_. 0)\<rparr>"

definition SetStaticsize :: "delta_coder \<Rightarrow> int \<Rightarrow> int \<Rightarrow> delta_coder option" where
  "SetStaticsize dc item_type sz =
     (if \<not> (item_type \<ge> 0 \<and> item_type < MAX_NETOBJSIZES) \<or> \<not> sz \<le> 32767 then None
      else Some (dc\<lparr>dc_ItemSizes := (dc_ItemSizes dc)[nat item_type := sz]\<rparr>))"

definition EmptyDelta :: delta where
  "EmptyDelta = \<lparr>d_NumDeletedItems = 0, d_NumUpdateItems = 0, d_NumTempItems = 0, d_Data = []\<rparr>"

definition include_size :: "delta_coder \<Rightarrow> int \<Rightarrow> bool" where
  "include_size dc type \<longleftrightarrow> type \<ge> MAX_NETOBJSIZES \<or> dc_ItemSizes dc ! nat type = 0"

definition update_header :: "delta_coder \<Rightarrow> i32 \<Rightarrow> int \<Rightarrow> i32 list" where
  "update_header dc key sz =
     [word_of_int (InternalType key), word_of_int (item_Id key)] @
     (if include_size dc (InternalType key) then [word_of_int (sz div 4)] else [])"

text \<open>What item \<open>i\<close> of the new snapshot contributes; nothing when it has not changed.\<close>

definition update_words :: "delta_coder \<Rightarrow> snap \<Rightarrow> snap \<Rightarrow> item_list list \<Rightarrow> nat \<Rightarrow> i32 list option" where
  "update_words dc from to from_hash i =
     (let key = snap_Key to i; sz = snap_GetItemSize to i; n = nat (sz div 4);
          current = words_at to (snap_GetItem to i + 1) n
      in case GetItemIndexHashed key from_hash of
           Some past \<Rightarrow>
             (let (diff, needed) = DiffItem (words_at from (snap_GetItem from past + 1) n) current n
              in if needed \<noteq> 0 then Some (update_header dc key sz @ diff) else None)
         | None \<Rightarrow> Some (update_header dc key sz @ current))"

text \<open>\<open>CreateDelta\<close>: the delta and its size in bytes, 0 for two equal snapshots.\<close>

definition CreateDelta :: "delta_coder \<Rightarrow> snap \<Rightarrow> snap \<Rightarrow> delta \<times> int" where
  "CreateDelta dc from to =
     (let to_hash = GenerateHash to;
          deleted = filter (\<lambda>key. GetItemIndexHashed key to_hash = None) (map (snap_Key from) (indices from));
          from_hash = GenerateHash from;
          updates = List.map_filter (update_words dc from to from_hash) (indices to);
          d = \<lparr>d_NumDeletedItems = of_nat (length deleted), d_NumUpdateItems = of_nat (length updates),
               d_NumTempItems = 0, d_Data = deleted @ concat updates\<rparr>
      in (d, if deleted = [] \<and> updates = [] then 0 else 4 * int (3 + length (d_Data d))))"

section \<open>Decoding\<close>

text \<open>\<open>no_uuids\<close> and the identity stand for the registry and the 0.7 table: a delta has neither extended types nor
  0.7 types, so they are never consulted.\<close>

definition no_uuids :: uuid_manager where "no_uuids = empty_manager"

text \<open>The copy of the items that stay.\<close>

fun keep_items :: "snap \<Rightarrow> i32 list \<Rightarrow> nat list \<Rightarrow> builder \<Rightarrow> (builder \<times> int) option" where
  "keep_items from deleted [] b = Some (b, 0)"
| "keep_items from deleted (i # is) b =
     (if snap_Key from i \<in> set deleted then keep_items from deleted is b
      else case NewItem no_uuids id b (InternalType (snap_Key from i)) (item_Id (snap_Key from i))
                  (snap_Words from i) (snap_GetItemSize from i) of
          None \<Rightarrow> None
        | Some (b', False) \<Rightarrow> Some (b', - 301)
        | Some (b', True) \<Rightarrow> keep_items from deleted is b')"

record unpack_state =
  us_Coder :: delta_coder
  us_Builder :: builder
  us_Data :: "i32 list"
  us_Room :: int

text \<open>The fixed size of a type, in bytes; 0 when the delta states the size.\<close>

definition static_size :: "delta_coder \<Rightarrow> int \<Rightarrow> int" where
  "static_size dc type = (if type < MAX_NETOBJSIZES then dc_ItemSizes dc ! nat type else 0)"

text \<open>The head of an updated item: type, id and size in bytes, and what is left of the data and its room, in
  words. \<open>Inl\<close> is an error code.\<close>

definition read_update_head :: "delta_coder \<Rightarrow> i32 list \<Rightarrow> int \<Rightarrow> int + (int \<times> int \<times> int \<times> i32 list \<times> int)" where
  "read_update_head dc data room =
     (if 2 > room then Inl (- 102)
      else
        let type = sint (data ! 0) in
        if type < 0 \<or> type > MAX_TYPE then Inl (- 202)
        else
          let iid = sint (data ! 1) in
          if iid < 0 \<or> iid > MAX_ID then Inl (- 203)
          else if static_size dc type \<noteq> 0 then Inr (type, iid, static_size dc type, drop 2 data, room - 2)
          else if 3 > room then Inl (- 103)
          else if sint (data ! 2) < 0 \<or> sint (data ! 2) > 0x7fffffff div 4 then Inl (- 204)
          else Inr (type, iid, sint (data ! 2) * 4, drop 3 data, room - 3))"

text \<open>The item to write to: an existing one of the same size, or a new one.\<close>

definition update_target :: "builder \<Rightarrow> int \<Rightarrow> int \<Rightarrow> int \<Rightarrow> (builder \<times> (int + raw_item)) option" where
  "update_target b type iid sz =
     (case FindItemIndexByKey b (make_key type iid) of
        Some i \<Rightarrow>
          if b_GetItemSize b i \<noteq> Some sz then Some (b, Inl (- 206))
          else Some (b, Inr (case b_GetItem b i of None \<Rightarrow> NoItem | Some a \<Rightarrow> At (a + 1)))
      | None \<Rightarrow> map_option (\<lambda>(b, r). (b, Inr r)) (NewItemRaw no_uuids id b type iid sz))"

definition count_update :: "delta_coder \<Rightarrow> int \<Rightarrow> u64 \<Rightarrow> delta_coder" where
  "count_update dc type rate =
     dc\<lparr>dc_DataRate := (dc_DataRate dc)(type := rate), dc_DataUpdates := (dc_DataUpdates dc)(type := dc_DataUpdates dc type + 1)\<rparr>"

text \<open>One updated item: the new state and 0, or an error code.\<close>

definition unpack_update :: "snap \<Rightarrow> unpack_state \<Rightarrow> (unpack_state \<times> int) option" where
  "unpack_update from us =
     (case read_update_head (us_Coder us) (us_Data us) (us_Room us) of
        Inl e \<Rightarrow> Some (us, e)
      | Inr (type, iid, sz, data, room) \<Rightarrow>
          if sz < 0 \<or> 4 * room < sz then Some (us, - 205)
          else case update_target (us_Builder us) type iid sz of
              None \<Rightarrow> None
            | Some (b, Inl e) \<Rightarrow> Some (us\<lparr>us_Builder := b\<rparr>, e)
            | Some (b, Inr r) \<Rightarrow>
                if r = NoItem then Some (us\<lparr>us_Builder := b\<rparr>, - 302)
                else
                  let n = nat (sz div 4);
                      rest = us\<lparr>us_Data := drop n data, us_Room := room - int n\<rparr>
                  in case snap_GetItemIndex from (make_key type iid) of
                       Some i \<Rightarrow>
                         if snap_GetItemSize from i \<noteq> sz then Some (us\<lparr>us_Builder := b\<rparr>, - 207)
                         else
                           let (ws, rate) = UndiffItem (words_at from (snap_GetItem from i + 1) n) data n
                                              (dc_DataRate (us_Coder us) type)
                           in Some (rest\<lparr>us_Builder := write_item b r ws,
                                         us_Coder := count_update (us_Coder us) type rate\<rparr>, 0)
                     | None \<Rightarrow>
                         Some (rest\<lparr>us_Builder := write_item b r (take n data),
                                    us_Coder := count_update (us_Coder us) type
                                      (dc_DataRate (us_Coder us) type + of_int (sz * 8))\<rparr>, 0))"

fun unpack_updates :: "nat \<Rightarrow> snap \<Rightarrow> unpack_state \<Rightarrow> (unpack_state \<times> int) option" where
  "unpack_updates 0 from us = Some (us, 0)"
| "unpack_updates (Suc n) from us =
     (case unpack_update from us of
        None \<Rightarrow> None
      | Some (us', e) \<Rightarrow> if e \<noteq> 0 then Some (us', e) else unpack_updates n from us')"

text \<open>\<open>UnpackDelta\<close>: \<open>None\<close> is a failed assertion, \<open>Inl\<close> an error code, \<open>Inr\<close> the snapshot and its size.
  \<open>data_size\<close> is the size of the delta with its three counters.\<close>

definition UnpackDelta :: "delta_coder \<Rightarrow> snap \<Rightarrow> delta \<Rightarrow> int \<Rightarrow> (delta_coder \<times> (int + snap \<times> int)) option" where
  "UnpackDelta dc from d data_size =
     (case builder_Init no_uuids id new_builder False of
        None \<Rightarrow> None
      | Some b \<Rightarrow>
          let room = data_size div 4 - 3; num_deleted = sint (d_NumDeletedItems d) in
          if num_deleted < 0 then Some (dc, Inl (- 201))
          else if num_deleted > room then Some (dc, Inl (- 101))
          else
            case keep_items from (take (nat num_deleted) (d_Data d)) (indices from) b of
              None \<Rightarrow> None
            | Some (b, e) \<Rightarrow>
                if e \<noteq> 0 then Some (dc, Inl e)
                else case unpack_updates (nat (sint (d_NumUpdateItems d))) from
                       \<lparr>us_Coder = dc, us_Builder = b, us_Data = drop (nat num_deleted) (d_Data d),
                        us_Room = room - num_deleted\<rparr> of
                    None \<Rightarrow> None
                  | Some (us, e) \<Rightarrow>
                      if e \<noteq> 0 then Some (us_Coder us, Inl e)
                      else map_option (\<lambda>(b, s, sz). (us_Coder us, Inr (s, sz))) (builder_Finish (us_Builder us)))"

section \<open>The storage\<close>

text \<open>\<open>CSnapshotStorage\<close>: the linked list of holders from the oldest to the newest.\<close>

record holder =
  ho_Tagtime :: int
  ho_Tick :: int
  ho_SnapSize :: int
  ho_AltSnapSize :: int
  ho_Snap :: "byte list"
  ho_AltSnap :: "byte list option"

type_synonym storage = "holder list"

definition storage_Init :: storage where "storage_Init = []"
definition storage_PurgeAll :: "storage \<Rightarrow> storage" where "storage_PurgeAll st = []"

fun storage_PurgeUntil :: "storage \<Rightarrow> int \<Rightarrow> storage" where
  "storage_PurgeUntil [] tick = []"
| "storage_PurgeUntil (h # hs) tick = (if ho_Tick h \<ge> tick then h # hs else storage_PurgeUntil hs tick)"

definition storage_Add :: "storage \<Rightarrow> int \<Rightarrow> int \<Rightarrow> byte list \<Rightarrow> byte list \<Rightarrow> storage option" where
  "storage_Add st tick tagtime data alt_data =
     (if int (length data) > MAX_SIZE \<or> int (length alt_data) > MAX_SIZE then None
      else
        let h = \<lparr>ho_Tagtime = tagtime, ho_Tick = tick, ho_SnapSize = int (length data),
                 ho_AltSnapSize = (if alt_data \<noteq> [] then int (length alt_data) else 0), ho_Snap = data,
                 ho_AltSnap = (if alt_data \<noteq> [] then Some alt_data else None)\<rparr>
        in if st \<noteq> [] \<and> \<not> ho_Tick (last st) < tick then None else Some (st @ [h]))"

text \<open>The search from the newest to older ones.\<close>

fun storage_search :: "holder list \<Rightarrow> int \<Rightarrow> holder option" where
  "storage_search [] tick = None"
| "storage_search (h # hs) tick =
     (if ho_Tick h = tick then Some h else if ho_Tick h < tick then None else storage_search hs tick)"

definition storage_Get :: "storage \<Rightarrow> int \<Rightarrow> holder option" where
  "storage_Get st tick = storage_search (rev st) tick"

end
