(* ===== verification/SnapBuild.thy ===== *)
theory SnapBuild
  imports SnapDelta
begin

text \<open>
  What a snapshot under construction holds, as the list of its items: key and data words. The builder's
  operations are operations on this list, and a finished snapshot reads back as the list it was built from.
\<close>

section \<open>Items in one array\<close>

type_synonym snap_item = "i32 \<times> i32 list"

definition flat :: "snap_item list \<Rightarrow> i32 list" where
  "flat items = concat (map (\<lambda>(k, ws). k # ws) items)"

definition pos :: "snap_item list \<Rightarrow> nat \<Rightarrow> nat" where
  "pos items i = length (flat (take i items))"

definition offsets :: "snap_item list \<Rightarrow> int list" where
  "offsets items = map (\<lambda>i. 4 * int (pos items i)) [0..<length items]"

lemma flat_simps [simp]:
  "flat [] = []" "flat (x # xs) = fst x # snd x @ flat xs" "flat (xs @ ys) = flat xs @ flat ys"
  by (simp_all add: flat_def case_prod_beta)

lemma item_split:
  assumes "i < length items"
  shows "\<exists>xs ys. items = xs @ (fst (items ! i), snd (items ! i)) # ys \<and> length xs = i \<and> pos items i = length (flat xs)"
  using id_take_nth_drop [OF assms] assms
  by (intro exI [of _ "take i items"] exI [of _ "drop (Suc i) items"]) (simp add: pos_def)

lemma length_flat: "length (flat items) = sum_list (map (\<lambda>x. Suc (length (snd x))) items)"
  by (induction items) auto

lemma pos_eq: "pos items i = sum_list (take i (map (\<lambda>x. Suc (length (snd x))) items))"
  by (simp add: pos_def length_flat take_map)

lemma pos_Suc: "i < length items \<Longrightarrow> pos items (Suc i) = pos items i + 1 + length (snd (items ! i))"
  by (simp add: pos_def take_Suc_conv_app_nth)

lemma pos_length: "pos items (length items) = length (flat items)"
  by (simp add: pos_def)

lemma pos_append: "i \<le> length items \<Longrightarrow> pos (items @ ys) i = pos items i"
  by (simp add: pos_def)

lemma pos_mono: "i \<le> j \<Longrightarrow> pos items i \<le> pos items j"
  using append_take_drop_id [of i "take j items"] by (simp add: pos_def min_def) (metis flat_simps(3) le_add1 length_append)

lemma offsets_append: "offsets (items @ [x]) = offsets items @ [4 * int (length (flat items))]"
  by (simp add: offsets_def pos_append pos_length)

lemma length_offsets [simp]: "length (offsets items) = length items"
  by (simp add: offsets_def)

lemma offsets_nth: "i < length items \<Longrightarrow> offsets items ! i = 4 * int (pos items i)"
  by (simp add: offsets_def)

lemma words_at_append: "words_at (xs @ ws @ ys) (length xs) (length ws) = ws"
  by (rule nth_equalityI) (simp_all add: words_at_def nth_append)

lemma words_at_shift: "words_at (xs @ s) (length xs + a) n = words_at s a n"
  by (simp add: words_at_def nth_append algebra_simps)

lemma flat_key: "i < length items \<Longrightarrow> flat items ! pos items i = fst (items ! i)"
  using item_split [of i items] by (auto simp: nth_append) (metis flat_simps(2,3) fst_conv nth_append_length)

lemma flat_words: "i < length items \<Longrightarrow> words_at (flat items) (pos items i + 1) (length (snd (items ! i))) = snd (items ! i)"
proof -
  assume "i < length items"
  then obtain xs ys where s: "items = xs @ (fst (items ! i), snd (items ! i)) # ys" "pos items i = length (flat xs)"
    using item_split by blast
  have "flat items = (flat xs @ [fst (items ! i)]) @ snd (items ! i) @ flat ys" by (subst s(1)) simp
  moreover have "pos items i + 1 = length (flat xs @ [fst (items ! i)])" using s(2) by simp
  ultimately show ?thesis by (simp only: words_at_append)
qed

lemma flat_write:
  assumes "i < length items" "length ws = length (snd (items ! i))"
  shows "write_words (flat items) (pos items i + 1) ws = flat (items[i := (fst (items ! i), ws)])"
    "offsets (items[i := (fst (items ! i), ws)]) = offsets items"
proof -
  obtain xs ys where s: "items = xs @ (fst (items ! i), snd (items ! i)) # ys" "length xs = i" "pos items i = length (flat xs)"
    using item_split [OF assms(1)] by blast
  have u: "items[i := (fst (items ! i), ws)] = xs @ (fst (items ! i), ws) # ys"
    using s(2) by (subst s(1)) (simp add: list_update_append)
  have f: "flat items = flat xs @ fst (items ! i) # snd (items ! i) @ flat ys" by (subst s(1)) simp
  show "write_words (flat items) (pos items i + 1) ws = flat (items[i := (fst (items ! i), ws)])"
    unfolding u by (simp add: write_words_def f s(3) assms(2))
  have "map (\<lambda>x. Suc (length (snd x))) (items[i := (fst (items ! i), ws)]) = map (\<lambda>x. Suc (length (snd x))) items"
    using assms by (simp add: map_update list_update_same_conv)
  then have "pos (items[i := (fst (items ! i), ws)]) j = pos items j" for j by (simp add: pos_eq)
  then show "offsets (items[i := (fst (items ! i), ws)]) = offsets items" by (simp add: offsets_def)
qed

section \<open>The builder\<close>

text \<open>What is left of the limits by items with these data.\<close>

definition fits :: "snap_item list \<Rightarrow> bool" where
  "fits items \<longleftrightarrow> int (length items) \<le> MAX_ITEMS \<and> 8 + 4 * int (length items) + 4 * int (length (flat items)) \<le> MAX_SIZE"

definition key_ok :: "i32 \<Rightarrow> bool" where
  "key_ok key \<longleftrightarrow> 0 \<le> sint key"

definition holds_items :: "builder \<Rightarrow> snap_item list \<Rightarrow> bool" where
  "holds_items b items \<longleftrightarrow> b_Data b = flat items \<and> b_Offsets b = offsets items \<and> b_Building b \<and> \<not> b_Sixup b \<and>
     b_ExtendedItemTypes b = [] \<and> \<not> b_HasDroppedItem b \<and> fits items \<and> list_all (key_ok \<circ> fst) items"

lemma holds_Key:
  assumes "holds_items b items" "i < length items"
  shows "b_Key b i = fst (items ! i)"
  using assms by (simp add: holds_items_def b_Key_def offsets_nth flat_key)

lemma holds_GetItem:
  assumes "holds_items b items" "i < length items"
  shows "b_GetItem b i = Some (pos items i)" "b_GetItemSize b i = Some (4 * int (length (snd (items ! i))))"
  using assms pos_Suc [of i items] pos_length [of items]
  by (auto simp: holds_items_def b_GetItem_def b_GetItemSize_def b_DataSize_def offsets_nth not_less
      dest!: le_antisym [of _ "Suc i", OF _ Suc_leI])

lemma holds_find:
  assumes "holds_items b items"
  shows "FindItemIndexByKey b key = find (\<lambda>i. fst (items ! i) = key) [0..<length items]"
proof -
  have "length (b_Offsets b) = length items" using assms by (simp add: holds_items_def)
  then show ?thesis
    unfolding FindItemIndexByKey_def by (auto intro!: find_cong simp: holds_Key [OF assms])
qed

lemma find_key_None: "find (\<lambda>i. fst (items ! i) = key) [0..<length items] = None \<longleftrightarrow> key \<notin> fst ` set items"
  by (simp add: find_None_iff in_set_conv_nth flip: set_map)

lemma find_key_Some:
  "find (\<lambda>i. fst (items ! i) = key) [0..<length items] = Some i \<Longrightarrow> i < length items \<and> fst (items ! i) = key"
  by (auto simp: find_Some_iff)

definition empty_builder :: builder where
  "empty_builder = new_builder\<lparr>b_Building := True\<rparr>"

lemma Init_empty: "builder_Init no_uuids id new_builder False = Some empty_builder"
  by (simp add: builder_Init_def empty_builder_def new_builder_def)

lemma holds_empty: "holds_items empty_builder []"
  by (simp add: holds_items_def empty_builder_def new_builder_def offsets_def fits_def MAX_ITEMS_def MAX_SIZE_def)

text \<open>Adding an item succeeds exactly when it fits; otherwise the builder is left as it was.\<close>

lemma make_key_sint:
  assumes "0 \<le> type" "type \<le> MAX_TYPE" "0 \<le> iid" "iid \<le> MAX_ID"
  shows "sint (make_key type iid) = type * 65536 + iid" "key_ok (make_key type iid)"
    "InternalType (make_key type iid) = type" "item_Id (make_key type iid) = iid"
proof -
  have o: "push_bit 16 type OR iid = type * 65536 + iid"
  proof -
    have "push_bit 16 type AND iid = 0"
    proof (rule bit_eqI)
      fix n
      have "take_bit 16 iid = iid" using assms by (simp add: take_bit_int_eq_self_iff MAX_ID_def)
      then have "bit iid n \<Longrightarrow> n < 16" by (metis bit_take_bit_iff)
      then show "bit (push_bit 16 type AND iid) n = bit (0 :: int) n" by (auto simp: bit_and_iff bit_push_bit_iff)
    qed
    then show ?thesis by (simp add: disjunctive_add_eq_or [symmetric] push_bit_eq_mult)
  qed
  have b: "0 \<le> type * 65536 + iid" "type * 65536 + iid < 2 ^ 31" using assms by (simp_all add: MAX_TYPE_def MAX_ID_def)
  then show s: "sint (make_key type iid) = type * 65536 + iid"
    unfolding make_key_def o by (subst sint_sbintrunc') (simp add: signed_take_bit_int_eq_self_iff)
  then show "key_ok (make_key type iid)" using b by (simp add: key_ok_def)
  show "InternalType (make_key type iid) = type" using assms by (simp add: InternalType_def s drop_bit_eq_div MAX_ID_def)
  have "(type * 65536 + iid) AND mask 16 = iid" using assms
    by (simp flip: take_bit_eq_mask add: take_bit_eq_mod MAX_ID_def)
  then show "item_Id (make_key type iid) = iid" by (simp add: item_Id_def s mask_eq_exp_minus_1)
qed

lemma key_ok_make:
  assumes "key_ok key"
  shows "make_key (InternalType key) (item_Id key) = key" "0 \<le> InternalType key" "InternalType key \<le> MAX_TYPE"
    "0 \<le> item_Id key" "item_Id key \<le> MAX_ID"
proof -
  have k: "0 \<le> sint key" "sint key < 2 ^ 31" using assms sint_lt [of key] by (simp_all add: key_ok_def)
  have i: "item_Id key = sint key mod 65536"
  proof -
    have "sint key AND mask 16 = sint key mod 65536" by (simp flip: take_bit_eq_mask add: take_bit_eq_mod)
    then show ?thesis by (simp add: item_Id_def mask_eq_exp_minus_1)
  qed
  have t: "InternalType key = sint key div 65536" by (simp add: InternalType_def drop_bit_eq_div)
  show r: "0 \<le> InternalType key" "InternalType key \<le> MAX_TYPE" "0 \<le> item_Id key" "item_Id key \<le> MAX_ID"
    using k by (simp_all add: i t MAX_TYPE_def MAX_ID_def)
  have "sint (make_key (InternalType key) (item_Id key)) = sint key"
    by (simp add: make_key_sint(1) [OF r]) (simp add: i t)
  then show "make_key (InternalType key) (item_Id key) = key" by (simp add: signed_word_eqI)
qed

lemma holds_raw_ok:
  "holds_items b items \<Longrightarrow> 0 \<le> type \<Longrightarrow> type \<le> MAX_TYPE \<Longrightarrow> 0 \<le> iid \<Longrightarrow> iid \<le> MAX_ID \<Longrightarrow>
   0 \<le> sz \<Longrightarrow> sz \<le> MAX_SIZE - 16 \<Longrightarrow> sz mod 4 = 0 \<Longrightarrow> raw_ok b type iid sz"
  by (simp add: raw_ok_def holds_items_def)

lemma NewItemRaw_items:
  assumes "holds_items b items" "0 \<le> type" "type \<le> MAX_TYPE" "0 \<le> iid" "iid \<le> MAX_ID"
    "4 * int n \<le> MAX_SIZE - 16"
  shows "NewItemRaw m s7 b type iid (4 * int n) =
    Some (if fits (items @ [(make_key type iid, replicate n 0)])
          then (b\<lparr>b_Offsets := offsets (items @ [(make_key type iid, replicate n 0)]),
                  b_Data := flat (items @ [(make_key type iid, replicate n 0)])\<rparr>, At (length (flat items) + 1))
          else (b, NoItem))"
proof -
  have b: "b_Data b = flat items" "b_Offsets b = offsets items" "\<not> b_Sixup b" using assms(1) by (auto simp: holds_items_def)
  have "raw_ok b type iid (4 * int n)" using assms by (intro holds_raw_ok) auto
  moreover have "\<not> type \<ge> OFFSET_UUID" using assms by (simp add: MAX_TYPE_def OFFSET_UUID_def)
  ultimately show ?thesis using assms(2)
    by (simp add: NewItemRaw_def place_item_def append_item_def b fits_def b_NumItems_def b_DataSize_def offsets_append)
qed

lemma NewItemRaw_write:
  assumes "holds_items b items" "fits (items @ [(key, ws)])" "key_ok key" "length ws = n"
  shows "holds_items (write_item (b\<lparr>b_Offsets := offsets (items @ [(key, replicate n 0)]),
      b_Data := flat (items @ [(key, replicate n 0)])\<rparr>) (At (length (flat items) + 1)) ws) (items @ [(key, ws)])"
proof -
  let ?z = "items @ [(key, replicate n 0)]"
  have "write_words (flat ?z) (length (flat items) + 1) ws = flat (items @ [(key, ws)])"
    using assms(4) by (simp add: write_words_def)
  moreover have "offsets ?z = offsets (items @ [(key, ws)])" by (simp add: offsets_append)
  ultimately show ?thesis using assms by (simp add: holds_items_def write_item_def)
qed

lemma fits_words: "fits (items @ [(k, ws)]) = fits (items @ [(k', ws')])" if "length ws = length ws'"
  using that by (simp add: fits_def)

lemma fits_mem:
  assumes "fits items" "(k, ws) \<in> set items"
  shows "4 * int (length ws) \<le> MAX_SIZE - 16"
proof -
  obtain xs ys where "items = xs @ (k, ws) # ys" using assms(2) by (meson split_list)
  then show ?thesis using assms(1) by (simp add: fits_def)
qed

lemma NewItem_items:
  assumes "holds_items b items" "key_ok key" "4 * int (length ws) \<le> MAX_SIZE - 16"
  shows "\<exists>b'. NewItem m s7 b (InternalType key) (item_Id key) ws (4 * int (length ws)) =
      Some (b', fits (items @ [(key, ws)])) \<and> (fits (items @ [(key, ws)]) \<longrightarrow> holds_items b' (items @ [(key, ws)]))"
proof -
  have b: "b_Building b" "\<not> b_HasDroppedItem b" using assms(1) by (auto simp: holds_items_def)
  note k = key_ok_make [OF assms(2)]
  note r = NewItemRaw_items [OF assms(1) k(2-5) assms(3), unfolded k(1), of m s7]
  have f: "fits (items @ [(key, replicate (length ws) 0)]) = fits (items @ [(key, ws)])" by (rule fits_words) simp
  show ?thesis
  proof (cases "fits (items @ [(key, ws)])")
    case True
    then show ?thesis using b r f NewItemRaw_write [OF assms(1) True assms(2) refl] by (simp add: NewItem_def)
  next
    case False
    then show ?thesis using b r f by (simp add: NewItem_def)
  qed
qed

text \<open>Writing new data into an item that is there.\<close>

lemma holds_write:
  assumes "holds_items b items" "i < length items" "length ws = length (snd (items ! i))"
  shows "holds_items (write_item b (At (pos items i + 1)) ws) (items[i := (fst (items ! i), ws)])"
proof -
  have "map (\<lambda>x. Suc (length (snd x))) (items[i := (fst (items ! i), ws)]) = map (\<lambda>x. Suc (length (snd x))) items"
    using assms by (simp add: map_update list_update_same_conv)
  then have "fits (items[i := (fst (items ! i), ws)])" using assms(1) by (simp add: holds_items_def fits_def length_flat)
  moreover have "list_all (key_ok \<circ> fst) (items[i := (fst (items ! i), ws)])"
    using assms(1,2) by (auto simp: holds_items_def list_all_length nth_list_update)
  ultimately show ?thesis
    using assms(1) flat_write [OF assms(2,3)] by (simp add: holds_items_def write_item_def)
qed

section \<open>Finishing and reading back\<close>

definition snap_of :: "snap_item list \<Rightarrow> snap" where
  "snap_of items = word_of_int (4 * int (length (flat items))) # word_of_int (int (length items)) #
     map word_of_int (offsets items) @ flat items"

definition snap_items :: "snap \<Rightarrow> snap_item list" where
  "snap_items s = map (\<lambda>i. (snap_Key s i, snap_Words s i)) (indices s)"

lemma sint_small: "0 \<le> x \<Longrightarrow> x \<le> MAX_SIZE \<Longrightarrow> sint (word_of_int x :: i32) = x"
  by (simp add: sint_sbintrunc' signed_take_bit_int_eq_self_iff MAX_SIZE_def)

lemma snap_of_parts:
  assumes "fits items"
  shows "snap_DataSize (snap_of items) = 4 * int (length (flat items))" "snap_NumItems (snap_of items) = int (length items)"
    "i < length items \<Longrightarrow> snap_Offset (snap_of items) i = 4 * int (pos items i)"
    "i < length items \<Longrightarrow> snap_GetItem (snap_of items) i = 2 + length items + pos items i"
    "i < length items \<Longrightarrow> snap_GetItemSize (snap_of items) i = 4 * int (length (snd (items ! i)))"
proof -
  have f: "int (length items) \<le> 1024" "8 + 4 * int (length items) + 4 * int (length (flat items)) \<le> MAX_SIZE"
    using assms by (simp_all add: fits_def MAX_ITEMS_def)
  show d: "snap_DataSize (snap_of items) = 4 * int (length (flat items))"
    and n: "snap_NumItems (snap_of items) = int (length items)"
    using f by (simp_all only: snap_DataSize_def snap_NumItems_def snap_of_def nth_Cons_0 One_nat_def nth_Cons_Suc)
      (intro sint_small; simp add: MAX_SIZE_def)+
  have o: "snap_Offset (snap_of items) j = 4 * int (pos items j)" if "j < length items" for j
  proof -
    have "pos items j \<le> length (flat items)" using pos_mono [of j "length items" items] that by (simp add: pos_length)
    then have "4 * int (pos items j) \<le> MAX_SIZE" using f by linarith
    moreover have "snap_of items ! (2 + j) = word_of_int (4 * int (pos items j))"
      using that by (simp add: snap_of_def nth_append offsets_nth)
    ultimately show ?thesis using sint_small [of "4 * int (pos items j)"] by (simp only: snap_Offset_def)
  qed
  then show "i < length items \<Longrightarrow> snap_Offset (snap_of items) i = 4 * int (pos items i)" by simp
  show "i < length items \<Longrightarrow> snap_GetItem (snap_of items) i = 2 + length items + pos items i"
    by (simp add: snap_GetItem_def n o)
  show "i < length items \<Longrightarrow> snap_GetItemSize (snap_of items) i = 4 * int (length (snd (items ! i)))"
    using pos_Suc [of i items] pos_length [of items] o [of i] o [of "Suc i"]
    by (cases "Suc i = length items") (auto simp: snap_GetItemSize_def n d)
qed

lemma snap_of_read:
  assumes "fits items" "i < length items"
  shows "snap_Key (snap_of items) i = fst (items ! i)" "snap_Words (snap_of items) i = snd (items ! i)"
proof -
  note p = snap_of_parts [OF assms(1)]
  let ?h = "(word_of_int (4 * int (length (flat items))) :: i32) # word_of_int (int (length items)) # map word_of_int (offsets items)"
  have s: "snap_of items = ?h @ flat items" by (simp add: snap_of_def)
  have h: "length ?h = 2 + length items" by simp
  show "snap_Key (snap_of items) i = fst (items ! i)"
    unfolding snap_Key_def p(4) [OF assms(2)] using flat_key [OF assms(2)] by (simp add: snap_of_def nth_append)
  have "snap_Words (snap_of items) i = words_at (?h @ flat items) (length ?h + (pos items i + 1)) (length (snd (items ! i)))"
    unfolding snap_Words_def p(4) [OF assms(2)] p(5) [OF assms(2)] by (simp add: snap_of_def)
  also have "\<dots> = snd (items ! i)" by (simp only: words_at_shift flat_words [OF assms(2)])
  finally show "snap_Words (snap_of items) i = snd (items ! i)" .
qed

lemma snap_items_of:
  assumes "fits items"
  shows "snap_items (snap_of items) = items"
  using snap_of_parts [OF assms] snap_of_read [OF assms]
  by (intro nth_equalityI) (simp_all add: snap_items_def indices_def)

lemma snap_of_valid:
  assumes "fits items"
  shows "snap_IsValid (snap_of items) (snap_TotalSize (snap_of items))"
proof -
  note p = snap_of_parts [OF assms]
  have "pos items i \<le> length (flat items)" if "i < length items" for i
    using pos_mono [of i "length items" items] that by (simp add: pos_length)
  note q = this
  show ?thesis using assms q
    by (auto simp: snap_IsValid_def snap_TotalSize_def p indices_def list_ex_iff fits_def not_less dest!: q)
qed

lemma Finish_items:
  assumes "holds_items b items"
  shows "builder_Finish b = Some (b\<lparr>b_Building := False\<rparr>, snap_of items, snap_TotalSize (snap_of items))"
proof -
  have b: "b_Data b = flat items" "b_Offsets b = offsets items" "b_Building b" "fits items"
    using assms by (auto simp: holds_items_def)
  have "word_of_int (b_DataSize b) # word_of_int (b_NumItems b) # map word_of_int (b_Offsets b) @ b_Data b = snap_of items"
    by (simp add: b snap_of_def b_DataSize_def b_NumItems_def)
  moreover have "snap_TotalSize (snap_of items) \<le> MAX_SIZE"
    using b(4) by (simp add: snap_TotalSize_def snap_of_parts fits_def)
  ultimately show ?thesis using b by (simp add: builder_Finish_def Let_def b_NumItems_def fits_def)
qed

end
