(* ===== verification/SnapSafety.thy ===== *)
theory SnapSafety
  imports SnapBuild
begin

text \<open>
  Applying a delta: whatever it contains, no assertion of the builder fails and what comes out is a valid
  snapshot. The list of items a builder holds is followed through the copy of the old items and the updates.
\<close>

section \<open>Valid snapshots\<close>

definition snap_ok :: "snap \<Rightarrow> bool" where
  "snap_ok s \<longleftrightarrow> snap_IsValid s (snap_TotalSize s) \<and> list_all (key_ok \<circ> snap_Key s) (indices s)"

lemma valid_size:
  assumes "snap_ok s" "i \<in> set (indices s)"
  shows "snap_GetItemSize s i = 4 * int (length (snap_Words s i))" "4 * int (length (snap_Words s i)) \<le> MAX_SIZE - 16"
    "key_ok (snap_Key s i)"
proof -
  have v: "snap_IsValid s (snap_TotalSize s)" and k: "list_all (key_ok \<circ> snap_Key s) (indices s)"
    using assms(1) by (simp_all add: snap_ok_def)
  have g: "0 \<le> snap_GetItemSize s i" "snap_GetItemSize s i mod 4 = 0" "0 \<le> snap_Offset s i" "snap_Offset s i \<le> snap_DataSize s"
      "snap_TotalSize s \<le> MAX_SIZE" "0 \<le> snap_NumItems s"
    using v assms(2) by (auto simp: snap_IsValid_def list_ex_iff split: if_splits)
  show l: "snap_GetItemSize s i = 4 * int (length (snap_Words s i))"
    using g(1,2) by (simp add: snap_Words_def words_at_def) presburger
  have i: "int i < snap_NumItems s" using assms(2) by (auto simp: indices_def)
  have "snap_Offset s (i + 1) \<le> snap_DataSize s" if "int i \<noteq> snap_NumItems s - 1"
  proof -
    have "i + 1 \<in> set (indices s)" using that i by (auto simp: indices_def)
    then show ?thesis using v by (auto simp: snap_IsValid_def list_ex_iff split: if_splits)
  qed
  then have "snap_GetItemSize s i \<le> snap_DataSize s - 4"
    using g(3) by (auto simp: snap_GetItemSize_def)
  moreover have "8 + 4 * snap_NumItems s + snap_DataSize s \<le> MAX_SIZE" using g(5) by (simp add: snap_TotalSize_def)
  ultimately show "4 * int (length (snap_Words s i)) \<le> MAX_SIZE - 16" using l i g(6) by linarith
  show "key_ok (snap_Key s i)" using k assms(2) by (simp add: list_all_iff)
qed

lemma snap_of_ok: "fits items \<Longrightarrow> list_all (key_ok \<circ> fst) items \<Longrightarrow> snap_ok (snap_of items)"
  using snap_of_valid [of items] snap_of_read(1) [of items] snap_of_parts(2) [of items]
  by (auto simp: snap_ok_def indices_def list_all_iff dest!: nth_mem)

section \<open>Copying the items that stay\<close>

definition item_of :: "snap \<Rightarrow> nat \<Rightarrow> snap_item" where
  "item_of s i = (snap_Key s i, snap_Words s i)"

lemma fits_prefix: "fits (xs @ ys) \<Longrightarrow> fits xs"
  by (simp add: fits_def)

lemma keep_items_eq:
  assumes "snap_ok from" "set is \<subseteq> set (indices from)" "holds_items b items"
  shows "\<exists>b'. keep_items from deleted is b =
      Some (b', if fits (items @ filter (\<lambda>x. fst x \<notin> set deleted) (map (item_of from) is)) then 0 else - 301) \<and>
    (fits (items @ filter (\<lambda>x. fst x \<notin> set deleted) (map (item_of from) is)) \<longrightarrow>
      holds_items b' (items @ filter (\<lambda>x. fst x \<notin> set deleted) (map (item_of from) is)))"
  using assms(2,3)
proof (induction "is" arbitrary: b items)
  case Nil
  then show ?case by (simp add: holds_items_def)
next
  case (Cons i "is")
  have v: "snap_GetItemSize from i = 4 * int (length (snap_Words from i))" "4 * int (length (snap_Words from i)) \<le> MAX_SIZE - 16"
      "key_ok (snap_Key from i)"
    using valid_size [OF assms(1)] Cons.prems(1) by simp_all
  show ?case
  proof (cases "snap_Key from i \<in> set deleted")
    case True
    then show ?thesis using Cons.IH [of b items] Cons.prems by (simp add: item_of_def)
  next
    case False
    let ?x = "(snap_Key from i, snap_Words from i)"
    obtain b' where b': "NewItem no_uuids id b (InternalType (snap_Key from i)) (item_Id (snap_Key from i)) (snap_Words from i)
        (snap_GetItemSize from i) = Some (b', fits (items @ [?x]))" "fits (items @ [?x]) \<longrightarrow> holds_items b' (items @ [?x])"
      using NewItem_items [OF Cons.prems(2) v(3,2), of no_uuids id] v(1) by auto
    show ?thesis
    proof (cases "fits (items @ [?x])")
      case True
      then show ?thesis using Cons.IH [of b' "items @ [?x]"] Cons.prems b' False by (simp add: item_of_def)
    next
      case nofit: False
      then have "\<not> fits (items @ ?x # ys)" for ys using fits_prefix [of "items @ [?x]" ys] by auto
      then show ?thesis using b' nofit False by (simp add: item_of_def)
    qed
  qed
qed

section \<open>One update\<close>

definition item_index :: "snap_item list \<Rightarrow> i32 \<Rightarrow> nat option" where
  "item_index items key = find (\<lambda>i. fst (items ! i) = key) [0..<length items]"

lemma item_index_Some: "item_index items key = Some i \<Longrightarrow> i < length items \<and> fst (items ! i) = key"
  unfolding item_index_def by (rule find_key_Some)

lemma item_index_None: "item_index items key = None \<longleftrightarrow> key \<notin> fst ` set items"
  unfolding item_index_def by (rule find_key_None)

text \<open>Items with new data for a key, and whether the builder can take them.\<close>

definition put :: "snap_item list \<Rightarrow> i32 \<Rightarrow> i32 list \<Rightarrow> snap_item list" where
  "put items key ws = (case item_index items key of Some i \<Rightarrow> items[i := (key, ws)] | None \<Rightarrow> items @ [(key, ws)])"

definition ready :: "snap_item list \<Rightarrow> i32 \<Rightarrow> nat \<Rightarrow> bool" where
  "ready items key n =
     (case item_index items key of
        Some i \<Rightarrow> length (snd (items ! i)) = n
      | None \<Rightarrow> fits (items @ [(key, replicate n 0)]))"

lemma update_target_eq:
  assumes "holds_items b items" "0 \<le> type" "type \<le> MAX_TYPE" "0 \<le> iid" "iid \<le> MAX_ID" "4 * int n \<le> MAX_SIZE - 16"
  shows "if ready items (make_key type iid) n
    then \<exists>b' a. update_target b type iid (4 * int n) = Some (b', Inr (At a)) \<and>
      (\<forall>ws. length ws = n \<longrightarrow> holds_items (write_item b' (At a) ws) (put items (make_key type iid) ws))
    else update_target b type iid (4 * int n) \<in> {Some (b, Inl (- 206)), Some (b, Inr NoItem)}"
proof (cases "item_index items (make_key type iid)")
  case (Some i)
  note i = item_index_Some [OF Some]
  note g = holds_GetItem [OF assms(1) conjunct1 [OF i]]
  have f: "FindItemIndexByKey b (make_key type iid) = Some i"
    using Some by (simp add: holds_find [OF assms(1)] item_index_def)
  show ?thesis
    using holds_write [OF assms(1) conjunct1 [OF i]] i
    by (auto simp: ready_def update_target_def f g Some put_def)
next
  case None
  have f: "FindItemIndexByKey b (make_key type iid) = None"
    using None by (simp add: holds_find [OF assms(1)] item_index_def)
  note r = NewItemRaw_items [OF assms(1-6), of no_uuids id]
  show ?thesis
  proof (cases "fits (items @ [(make_key type iid, replicate n 0)])")
    case True
    have "fits (items @ [(make_key type iid, ws)])" if "length ws = n" for ws
      using True that fits_words [of ws "replicate n 0" items "make_key type iid" "make_key type iid"] by simp
    then show ?thesis
      using NewItemRaw_write [OF assms(1) _ make_key_sint(2) [OF assms(2-5)]] True r
      by (simp add: ready_def None update_target_def f put_def)
  next
    case False
    then show ?thesis using r by (simp add: ready_def None update_target_def f)
  qed
qed

definition sizes_ok :: "delta_coder \<Rightarrow> bool" where
  "sizes_ok dc \<longleftrightarrow> length (dc_ItemSizes dc) = 64 \<and> list_all (\<lambda>n. n mod 4 = 0) (dc_ItemSizes dc)"

lemma static_size_mod:
  assumes "sizes_ok dc" "0 \<le> type"
  shows "static_size dc type mod 4 = 0"
proof (cases "type < 64")
  case True
  then have "nat type < length (dc_ItemSizes dc)" using assms by (simp add: sizes_ok_def)
  then show ?thesis using assms by (simp add: static_size_def sizes_ok_def list_all_length)
qed (simp add: static_size_def MAX_NETOBJSIZES_def)

lemma read_update_head_ok:
  assumes "read_update_head dc data room = Inr (type, iid, sz, rest, room')" "sizes_ok dc"
  shows "0 \<le> type \<and> type \<le> MAX_TYPE \<and> 0 \<le> iid \<and> iid \<le> MAX_ID \<and> sz mod 4 = 0 \<and> room' \<le> room - 2 \<and>
    (int (length data) \<ge> room \<longrightarrow> int (length rest) \<ge> room')"
  using assms static_size_mod [OF assms(2)]
  by (auto simp: read_update_head_def Let_def split: if_splits)

lemma UndiffItem_length: "length (fst (UndiffItem past diff n rate)) = n"
  by (induction past diff n rate rule: UndiffItem.induct) (simp_all add: Let_def case_prod_beta)

definition us_ok :: "unpack_state \<Rightarrow> bool" where
  "us_ok us \<longleftrightarrow> (\<exists>items. holds_items (us_Builder us) items) \<and> sizes_ok (us_Coder us) \<and>
     us_Room us \<le> MAX_SIZE div 4 - 3 \<and> us_Room us \<le> int (length (us_Data us))"

lemma count_update_sizes [simp]: "dc_ItemSizes (count_update dc type rate) = dc_ItemSizes dc"
  by (simp add: count_update_def)

lemma unpack_update_ok:
  assumes "us_ok us"
  shows "\<exists>us' e. unpack_update from us = Some (us', e) \<and> (e = 0 \<longrightarrow> us_ok us')"
proof (cases "read_update_head (us_Coder us) (us_Data us) (us_Room us)")
  case (Inl e)
  then show ?thesis using assms by (simp add: unpack_update_def)
next
  case (Inr h)
  obtain type iid sz data room where h: "h = (type, iid, sz, data, room)" by (cases h)
  obtain items where items: "holds_items (us_Builder us) items" using assms by (auto simp: us_ok_def)
  have s: "sizes_ok (us_Coder us)" using assms by (simp add: us_ok_def)
  note r = read_update_head_ok [OF Inr [unfolded h] s]
  show ?thesis
  proof (cases "sz < 0 \<or> 4 * room < sz")
    case True
    then show ?thesis using Inr h by (simp add: unpack_update_def)
  next
    case False
    define n where "n = nat (sz div 4)"
    have n: "sz = 4 * int n" "nat (sz div 4) = n" using False r by (auto simp: n_def)
    have b: "4 * int n \<le> MAX_SIZE - 16" "int n \<le> int (length data)" "int n \<le> room"
      using False r assms n(1) by (auto simp: us_ok_def MAX_SIZE_def)
    note t = update_target_eq [OF items, of type iid n]
    show ?thesis
    proof (cases "ready items (make_key type iid) n")
      case False
      then consider "update_target (us_Builder us) type iid sz = Some (us_Builder us, Inl (- 206))"
        | "update_target (us_Builder us) type iid sz = Some (us_Builder us, Inr NoItem)"
        using t r b(1) n(1) by auto
      then show ?thesis using Inr h \<open>\<not> (sz < 0 \<or> 4 * room < sz)\<close> by cases (simp_all add: unpack_update_def)
    next
      case True
      then obtain b' a where b': "update_target (us_Builder us) type iid sz = Some (b', Inr (At a))"
          "\<And>ws. length ws = n \<Longrightarrow> holds_items (write_item b' (At a) ws) (put items (make_key type iid) ws)"
        using t r b(1) n(1) by auto
      have ok: "us_ok (us\<lparr>us_Data := drop n data, us_Room := room - int n, us_Builder := write_item b' (At a) ws,
          us_Coder := count_update (us_Coder us) type rate\<rparr>)" if "length ws = n" for ws rate
        using b'(2) [OF that] s b r assms by (auto simp: us_ok_def sizes_ok_def)
      have l: "length (take n data) = n" using b by simp
      show ?thesis
        using Inr h False b'(1) ok [OF UndiffItem_length] ok [OF l] n(2)
        by (auto simp: unpack_update_def Let_def case_prod_beta split: option.split)
    qed
  qed
qed

lemma unpack_updates_ok: "us_ok us \<Longrightarrow> \<exists>us' e. unpack_updates n from us = Some (us', e) \<and> (e = 0 \<longrightarrow> us_ok us')"
proof (induction n arbitrary: us)
  case (Suc n)
  then show ?case using unpack_update_ok [OF Suc.prems, of "from"] by (auto split: if_split)
qed simp

lemma UnpackDelta_total:
  assumes "snap_ok from" "sizes_ok dc" "data_size \<le> MAX_SIZE" "data_size div 4 - 3 \<le> int (length (d_Data d))"
  shows "\<exists>dc' r. UnpackDelta dc from d data_size = Some (dc', r) \<and>
    (case r of Inl e \<Rightarrow> True | Inr (s, sz) \<Rightarrow> snap_ok s \<and> sz = snap_TotalSize s)"
proof -
  let ?nd = "sint (d_NumDeletedItems d)"
  note k = keep_items_eq [OF assms(1) order_refl holds_empty, of "take (nat ?nd) (d_Data d)"]
  obtain b where b: "keep_items from (take (nat ?nd) (d_Data d)) (indices from) empty_builder = Some (b, 0) \<and> (\<exists>items. holds_items b items)
      \<or> keep_items from (take (nat ?nd) (d_Data d)) (indices from) empty_builder = Some (b, - 301)"
    using k by (cases "fits ([] @ filter (\<lambda>x. fst x \<notin> set (take (nat ?nd) (d_Data d))) (map (item_of from) (indices from)))") auto
  show ?thesis
  proof (cases "?nd < 0 \<or> ?nd > data_size div 4 - 3 \<or>
      keep_items from (take (nat ?nd) (d_Data d)) (indices from) empty_builder = Some (b, - 301)")
    case True
    then show ?thesis by (auto simp: UnpackDelta_def Init_empty Let_def)
  next
    case False
    let ?us = "\<lparr>us_Coder = dc, us_Builder = b, us_Data = drop (nat ?nd) (d_Data d), us_Room = data_size div 4 - 3 - ?nd\<rparr>"
    have "us_ok ?us" using False b assms by (auto simp: us_ok_def MAX_SIZE_def)
    from unpack_updates_ok [OF this] obtain us' e where us': "unpack_updates (nat (sint (d_NumUpdateItems d))) from ?us = Some (us', e)"
        "e = 0 \<longrightarrow> us_ok us'" by blast
    show ?thesis
    proof (cases "e = 0")
      case True
      then obtain items where i: "holds_items (us_Builder us') items" using us'(2) by (auto simp: us_ok_def)
      then have "snap_ok (snap_of items)" by (intro snap_of_ok) (simp_all add: holds_items_def)
      then show ?thesis using False b us'(1) True Finish_items [OF i] by (auto simp: UnpackDelta_def Init_empty Let_def)
    next
      case e: False
      then show ?thesis using False b us'(1) by (auto simp: UnpackDelta_def Init_empty Let_def)
    qed
  qed
qed

section \<open>Properties\<close>

fun add_items :: "builder \<Rightarrow> snap_item list \<Rightarrow> (builder \<times> bool) option" where
  "add_items b [] = Some (b, True)"
| "add_items b ((key, ws) # xs) =
     (case NewItem no_uuids id b (InternalType key) (item_Id key) ws (4 * int (length ws)) of
        None \<Rightarrow> None
      | Some (b', False) \<Rightarrow> Some (b', False)
      | Some (b', True) \<Rightarrow> add_items b' xs)"

lemma add_items_eq:
  "holds_items b items \<Longrightarrow> fits (items @ xs) \<Longrightarrow> list_all (key_ok \<circ> fst) xs \<Longrightarrow>
   \<exists>b'. add_items b xs = Some (b', True) \<and> holds_items b' (items @ xs)"
proof (induction xs arbitrary: b items)
  case (Cons x xs)
  obtain key ws where x: "x = (key, ws)" by (cases x)
  have f: "fits (items @ [x])" using fits_prefix [of "items @ [x]" xs] Cons.prems(2) by simp
  then have "4 * int (length ws) \<le> MAX_SIZE - 16" by (intro fits_mem [of "items @ [x]" key]) (simp_all add: x)
  then obtain b' where "NewItem no_uuids id b (InternalType key) (item_Id key) ws (4 * int (length ws)) = Some (b', True)"
      "holds_items b' (items @ [x])"
    using NewItem_items [OF Cons.prems(1), of key ws no_uuids id] Cons.prems(3) f by (auto simp: x)
  then show ?case using Cons.IH [of b' "items @ [x]"] Cons.prems by (simp add: x)
qed simp

text \<open>A snapshot reads back as it was built: after items within the limits of 1024 items and 64 KB have been
  added, \<open>Finish\<close> yields a valid snapshot of the announced size whose items have the keys and data that
  were added, in that order.\<close>

theorem builder_readback:
  assumes "fits items" "list_all (key_ok \<circ> fst) items"
  shows "\<exists>b b' s sz. builder_Init no_uuids id new_builder False = Some b \<and> add_items b items = Some (b', True) \<and>
    map_option snd (builder_Finish b') = Some (s, sz) \<and> snap_IsValid s sz \<and> snap_items s = items"
proof -
  obtain b' where b': "add_items empty_builder items = Some (b', True)" "holds_items b' items"
    using add_items_eq [OF holds_empty, of items] assms by auto
  then show ?thesis
    using Init_empty Finish_items [OF b'(2)] snap_of_valid [OF assms(1)] snap_items_of [OF assms(1)] by auto
qed

theorem builder_readback_witness:
  "\<exists>b b' s sz. builder_Init no_uuids id new_builder False = Some b \<and>
    add_items b [(0x50001, [7, 8]), (0x50002, [])] = Some (b', True) \<and>
    map_option snd (builder_Finish b') = Some (s, sz) \<and> snap_IsValid s sz \<and> snap_items s = [(0x50001, [7, 8]), (0x50002, [])]"
  by (rule builder_readback) (simp_all add: fits_def key_ok_def MAX_ITEMS_def MAX_SIZE_def)

text \<open>C13. No delta can make \<open>UnpackDelta\<close> fail an assertion as long as it is no larger than a snapshot: whatever
  its contents, applying it to a valid snapshot either reports an error code or yields a valid snapshot
  again, with the size that is returned.\<close>

theorem UnpackDelta_safe:
  assumes "snap_ok from" "sizes_ok dc" "data_size \<le> MAX_SIZE" "data_size div 4 - 3 \<le> int (length (d_Data d))"
  shows "\<exists>dc' r. UnpackDelta dc from d data_size = Some (dc', r) \<and>
    (case r of Inl e \<Rightarrow> True | Inr (s, sz) \<Rightarrow> snap_ok s \<and> snap_IsValid s sz)"
proof -
  obtain dc' r where r: "UnpackDelta dc from d data_size = Some (dc', r)"
      "case r of Inl e \<Rightarrow> True | Inr (s, sz) \<Rightarrow> snap_ok s \<and> sz = snap_TotalSize s"
    using UnpackDelta_total [OF assms] by blast
  then show ?thesis by (intro exI [of _ dc'] exI [of _ r]) (auto simp: snap_ok_def split: sum.splits)
qed

theorem UnpackDelta_safe_witness:
  "\<exists>dc' r. UnpackDelta new_delta_coder EmptySnapshot (EmptyDelta\<lparr>d_NumUpdateItems := 9, d_Data := [70, 5, 1]\<rparr>) 24 = Some (dc', r)"
proof -
  have "snap_ok EmptySnapshot"
    by (simp add: snap_ok_def EmptySnapshot_def snap_IsValid_def snap_TotalSize_def indices_def snap_NumItems_def
        snap_DataSize_def MAX_SIZE_def MAX_ITEMS_def)
  from UnpackDelta_safe [OF this, of new_delta_coder 24 "EmptyDelta\<lparr>d_NumUpdateItems := 9, d_Data := [70, 5, 1]\<rparr>"]
  show ?thesis by (auto simp: sizes_ok_def new_delta_coder_def MAX_SIZE_def list_all_iff)
qed

text \<open>That bound matters. The client's buffer for a delta holds twice the size of a snapshot, and the size of an item
  is only compared with what is left of the delta: an item of more than 65520 bytes fails the assertion of
  \<open>NewItemRaw\<close>.\<close>

theorem UnpackDelta_oversized:
  "UnpackDelta new_delta_coder EmptySnapshot
     (EmptyDelta\<lparr>d_NumUpdateItems := 1, d_Data := [70, 5, 16381] @ replicate 16381 0\<rparr>) (4 * (3 + 3 + 16381)) = None"
proof -
  define zeros where "zeros = replicate 16381 (0 :: i32)"
  let ?us = "\<lparr>us_Coder = new_delta_coder, us_Builder = empty_builder, us_Data = 70 # 5 # 16381 # zeros, us_Room = 16384\<rparr>"
  have "read_update_head new_delta_coder (70 # 5 # 16381 # zeros) 16384 = Inr (70, 5, 65524, zeros, 16381)"
    by (simp add: read_update_head_def static_size_def MAX_TYPE_def MAX_ID_def MAX_NETOBJSIZES_def)
  moreover have "FindItemIndexByKey empty_builder key = None" for key
    by (simp add: FindItemIndexByKey_def empty_builder_def new_builder_def)
  moreover have "NewItemRaw no_uuids id empty_builder 70 5 65524 = None"
    by (simp add: NewItemRaw_def raw_ok_def MAX_SIZE_def)
  ultimately have "unpack_update EmptySnapshot ?us = None" by (simp add: unpack_update_def update_target_def)
  moreover have "indices EmptySnapshot = []" by (simp add: indices_def EmptySnapshot_def snap_NumItems_def)
  ultimately show ?thesis unfolding zeros_def [symmetric]
    by (simp add: UnpackDelta_def Init_empty Let_def EmptyDelta_def)
qed

section \<open>The storage\<close>

text \<open>The storage as a map from ticks, and its order.\<close>

definition storage_map :: "storage \<Rightarrow> int \<Rightarrow> holder option" where
  "storage_map st = map_of (map (\<lambda>h. (ho_Tick h, h)) st)"

definition storage_ok :: "storage \<Rightarrow> bool" where
  "storage_ok st \<longleftrightarrow> sorted_wrt (<) (map ho_Tick st)"

lemma storage_map_Some: "storage_ok st \<Longrightarrow> storage_map st tick = Some h \<longleftrightarrow> h \<in> set st \<and> ho_Tick h = tick"
proof -
  assume "storage_ok st"
  then have "distinct (map ho_Tick st)" by (simp add: storage_ok_def strict_sorted_iff)
  then have "distinct (map fst (map (\<lambda>h. (ho_Tick h, h)) st))" by (simp add: comp_def)
  from map_of_eq_Some_iff [OF this] show ?thesis by (auto simp: storage_map_def)
qed

lemma storage_map_eqI:
  assumes "storage_ok st" "\<And>h. h \<in> set st \<and> ho_Tick h = tick \<longleftrightarrow> x = Some h"
  shows "storage_map st tick = x"
  using storage_map_Some [OF assms(1), of tick] assms(2) by (metis not_Some_eq)

lemma storage_search_eq:
  "sorted_wrt (>) (map ho_Tick hs) \<Longrightarrow> storage_search hs tick = Some h \<longleftrightarrow> h \<in> set hs \<and> ho_Tick h = tick"
  by (induction hs) force+

lemma storage_Get_map: "storage_ok st \<Longrightarrow> storage_Get st tick = storage_map st tick"
proof -
  assume ok: "storage_ok st"
  then have "sorted_wrt (>) (map ho_Tick (rev st))" by (simp add: storage_ok_def sorted_wrt_rev rev_map [symmetric])
  from storage_search_eq [OF this, of tick] storage_map_Some [OF ok, of tick] show ?thesis
    unfolding storage_Get_def set_rev by (metis not_Some_eq)
qed

lemma storage_PurgeUntil_eq: "storage_ok st \<Longrightarrow> storage_PurgeUntil st tick = filter (\<lambda>h. ho_Tick h \<ge> tick) st"
proof (induction st)
  case (Cons h hs)
  then have s: "\<forall>x\<in>set hs. ho_Tick h < ho_Tick x" "storage_ok hs" by (simp_all add: storage_ok_def)
  show ?case
  proof (cases "ho_Tick h \<ge> tick")
    case True
    then have "filter (\<lambda>h. ho_Tick h \<ge> tick) hs = hs" using s(1) by (intro filter_True) force
    then show ?thesis using True by simp
  qed (use Cons.IH s in simp)
qed simp

text \<open>The linked list of past snapshots implements a map from ticks to snapshots: the search from the newest end,
  which stops at the first older tick, finds what the map holds; adding a snapshot under a newer tick extends
  the map; purging leaves exactly the ticks that are not older.\<close>

theorem storage_refines_map:
  assumes "storage_ok st"
  shows "storage_Get st = storage_map st \<and>
    storage_ok (storage_PurgeUntil st tick) \<and>
    storage_map (storage_PurgeUntil st tick) = storage_map st |` {tick..} \<and>
    (case storage_Add st tick tagtime data alt of
       None \<Rightarrow> (\<exists>h\<in>set st. ho_Tick h \<ge> tick) \<or> int (length data) > MAX_SIZE \<or> int (length alt) > MAX_SIZE
     | Some st' \<Rightarrow> storage_ok st' \<and> (\<exists>h. ho_Snap h = data \<and> ho_Tagtime h = tagtime \<and> storage_map st' = (storage_map st)(tick \<mapsto> h)))"
proof -
  have g: "storage_Get st = storage_map st" by (rule ext) (rule storage_Get_map [OF assms])
  have p: "storage_ok (storage_PurgeUntil st tick)"
    using assms by (simp add: storage_PurgeUntil_eq) (simp add: storage_ok_def sorted_wrt_map sorted_wrt_filter)
  have m: "storage_map (storage_PurgeUntil st tick) = storage_map st |` {tick..}"
  proof (rule ext, rule storage_map_eqI [OF p])
    show "h \<in> set (storage_PurgeUntil st tick) \<and> ho_Tick h = t \<longleftrightarrow> (storage_map st |` {tick..}) t = Some h" for h t
      using storage_map_Some [OF assms, of t h] by (auto simp: storage_PurgeUntil_eq [OF assms] restrict_map_def)
  qed
  have a: "case storage_Add st tick tagtime data alt of
       None \<Rightarrow> (\<exists>h\<in>set st. ho_Tick h \<ge> tick) \<or> int (length data) > MAX_SIZE \<or> int (length alt) > MAX_SIZE
     | Some st' \<Rightarrow> storage_ok st' \<and> (\<exists>h. ho_Snap h = data \<and> ho_Tagtime h = tagtime \<and> storage_map st' = (storage_map st)(tick \<mapsto> h))"
  proof (cases "storage_Add st tick tagtime data alt")
    case None
    then have "int (length data) > MAX_SIZE \<or> int (length alt) > MAX_SIZE \<or> st \<noteq> [] \<and> ho_Tick (last st) \<ge> tick"
      by (auto simp: storage_Add_def Let_def split: if_splits)
    then show ?thesis using None by (auto intro: bexI [of _ "last st"])
  next
    case (Some st')
    then obtain h where h: "st' = st @ [h]" "ho_Tick h = tick" "ho_Snap h = data" "ho_Tagtime h = tagtime"
        "st = [] \<or> ho_Tick (last st) < tick"
      by (auto simp: storage_Add_def Let_def split: if_splits)
    have lt: "\<forall>x\<in>set st. ho_Tick x < tick"
    proof (cases st rule: rev_cases)
      case (snoc xs x)
      then show ?thesis using assms h(5) by (auto simp: storage_ok_def sorted_wrt_append)
    qed simp
    then have ok: "storage_ok st'" using assms h by (auto simp: storage_ok_def sorted_wrt_append)
    have "storage_map st' = (storage_map st)(tick \<mapsto> h)"
    proof (rule ext, rule storage_map_eqI [OF ok])
      show "x \<in> set st' \<and> ho_Tick x = t \<longleftrightarrow> ((storage_map st)(tick \<mapsto> h)) t = Some x" for x t
        using storage_map_Some [OF assms, of t x] lt h by (auto simp: fun_upd_def)
    qed
    then show ?thesis using Some ok h by auto
  qed
  show ?thesis using g p m a by blast
qed

theorem storage_refines_map_witness:
  "storage_Get (the (storage_Add [] 10 0 [1, 2] [])) 10 \<noteq> None \<and> storage_Get [] 10 = None"
proof -
  have e: "storage_ok []" by (simp add: storage_ok_def)
  obtain st where st: "storage_Add [] 10 0 [1, 2] [] = Some st" by (simp add: storage_Add_def MAX_SIZE_def Let_def)
  have ok: "storage_ok st" "storage_map st 10 \<noteq> None"
    using storage_refines_map [OF e, where tick = 10 and tagtime = 0 and data = "[1, 2]" and alt = "[]"] by (auto simp: st)
  show ?thesis using storage_refines_map [OF ok(1)] ok(2) storage_refines_map [OF e] by (simp add: st storage_map_def)
qed

end
