(* ===== verification/SnapRoundtrip.thy ===== *)
theory SnapRoundtrip
  imports SnapSafety "HOL-Library.Multiset"
begin

text \<open>
  A delta made by \<open>CreateDelta\<close> and applied by \<open>UnpackDelta\<close> to the old snapshot gives back the items of the new
  one, possibly in another order, so that the checksums the two ends compare agree.
\<close>

section \<open>The hash list finds what the linear search finds\<close>

lemma CalcHashId_less: "CalcHashId key < HASHLIST_SIZE"
  by (simp add: CalcHashId_def HASHLIST_SIZE_def)

text \<open>No bucket overflows.\<close>

definition hash_fits :: "snap \<Rightarrow> bool" where
  "hash_fits s \<longleftrightarrow> (\<forall>h<HASHLIST_SIZE.
     length (filter (\<lambda>i. CalcHashId (snap_Key s i) = h) (indices s)) \<le> HASHLIST_BUCKET_SIZE)"

lemma hash_table:
  assumes "\<forall>h<HASHLIST_SIZE. length (filter (\<lambda>i. CalcHashId (snap_Key s i) = h) is) \<le> HASHLIST_BUCKET_SIZE"
  shows "length (foldl (hash_insert s) (replicate HASHLIST_SIZE []) is) = HASHLIST_SIZE \<and>
    (\<forall>h<HASHLIST_SIZE. foldl (hash_insert s) (replicate HASHLIST_SIZE []) is ! h =
      map (\<lambda>i. (snap_Key s i, i)) (filter (\<lambda>i. CalcHashId (snap_Key s i) = h) is))"
  using assms
proof (induction "is" rule: rev_induct)
  case Nil
  then show ?case by simp
next
  case (snoc i "is")
  define t where "t = foldl (hash_insert s) (replicate HASHLIST_SIZE []) is"
  let ?h = "CalcHashId (snap_Key s i)"
  have pre: "\<forall>h<HASHLIST_SIZE. length (filter (\<lambda>i. CalcHashId (snap_Key s i) = h) is) \<le> HASHLIST_BUCKET_SIZE"
  proof (intro allI impI)
    fix h assume "h < HASHLIST_SIZE"
    from snoc.prems [rule_format, OF this]
    show "length (filter (\<lambda>i. CalcHashId (snap_Key s i) = h) is) \<le> HASHLIST_BUCKET_SIZE" by (simp split: if_splits)
  qed
  note ih = snoc.IH [OF pre, folded t_def]
  have "length (filter (\<lambda>j. CalcHashId (snap_Key s j) = ?h) is) < HASHLIST_BUCKET_SIZE"
    using snoc.prems [rule_format, OF CalcHashId_less, of "snap_Key s i"] by simp
  then have "length (t ! ?h) < HASHLIST_BUCKET_SIZE" using ih CalcHashId_less [of "snap_Key s i"] by simp
  moreover have e: "foldl (hash_insert s) (replicate HASHLIST_SIZE []) (is @ [i]) = hash_insert s t i" by (simp add: t_def)
  ultimately show ?case unfolding e using ih by (auto simp: hash_insert_def Let_def nth_list_update)
qed

lemma find_filter_map:
  assumes "\<And>i. i \<in> set is \<Longrightarrow> P i \<Longrightarrow> Q i"
  shows "find P (filter Q is) = find P is"
  using assms by (induction "is") auto

lemma find_map_pair: "map_option snd (find (\<lambda>e. fst e = key) (map (\<lambda>i. (f i, i)) is)) = find (\<lambda>i. f i = key) is"
  by (induction "is") auto

lemma GetItemIndexHashed_eq:
  assumes "hash_fits s"
  shows "GetItemIndexHashed key (GenerateHash s) = snap_GetItemIndex s key"
proof -
  have "GenerateHash s ! CalcHashId key = map (\<lambda>i. (snap_Key s i, i)) (filter (\<lambda>i. CalcHashId (snap_Key s i) = CalcHashId key) (indices s))"
    unfolding GenerateHash_def using hash_table [of s "indices s"] assms CalcHashId_less [of key] by (simp add: hash_fits_def)
  then show ?thesis
    by (simp only: GetItemIndexHashed_def find_map_pair snap_GetItemIndex_def) (rule find_filter_map, simp)
qed

lemma GetItemIndex_items:
  "snap_GetItemIndex s key = item_index (snap_items s) key"
proof -
  have "find (\<lambda>i. snap_Key s i = key) (indices s) = find (\<lambda>i. fst (snap_items s ! i) = key) [0..<length (snap_items s)]"
    by (rule find_cong) (simp_all add: snap_items_def indices_def)
  then show ?thesis by (simp add: snap_GetItemIndex_def item_index_def)
qed

lemma snap_items_nth: "i < length (snap_items s) \<Longrightarrow> snap_items s ! i = (snap_Key s i, snap_Words s i) \<and> i \<in> set (indices s)"
  by (simp add: snap_items_def indices_def)

section \<open>Differences\<close>

lemma DiffItem_eq:
  "length past = n \<Longrightarrow> length current = n \<Longrightarrow> fst (DiffItem past current n) = map2 (-) current past \<and>
   (snd (DiffItem past current n) = 0 \<longleftrightarrow> current = past)"
proof (induction n arbitrary: past current)
  case (Suc n)
  then obtain p ps c cs where s: "past = p # ps" "current = c # cs" "length ps = n" "length cs = n"
    by (auto simp: length_Suc_conv)
  then show ?case using Suc.IH [of ps cs] by (auto simp: Let_def case_prod_beta or_eq_0_iff)
qed simp

lemma UndiffItem_eq:
  "length past = n \<Longrightarrow> length current = n \<Longrightarrow> fst (UndiffItem past (map2 (-) current past @ rest) n rate) = current"
proof (induction n arbitrary: past current rate)
  case (Suc n)
  then obtain p ps c cs where s: "past = p # ps" "current = c # cs" "length ps = n" "length cs = n"
    by (auto simp: length_Suc_conv)
  then show ?case using Suc.IH [of ps cs] by (simp add: Let_def case_prod_beta)
qed simp

section \<open>Reading an update back\<close>

text \<open>A type with a fixed size is only used for items of that size.\<close>

definition sized :: "delta_coder \<Rightarrow> snap_item \<Rightarrow> bool" where
  "sized dc x = (static_size dc (InternalType (fst x)) \<in> {0, 4 * int (length (snd x))})"

lemma include_size_iff: "include_size dc type \<longleftrightarrow> static_size dc type = 0"
  by (auto simp: include_size_def static_size_def)

lemma sint_word: "0 \<le> x \<Longrightarrow> x < 2 ^ 31 \<Longrightarrow> sint (word_of_int x :: i32) = x"
  by (subst sint_sbintrunc') (simp add: signed_take_bit_int_eq_self_iff)

lemma read_update_header:
  assumes "key_ok key" "4 * int n \<le> MAX_SIZE" "static_size dc (InternalType key) \<in> {0, 4 * int n}"
    "int (length (update_header dc key (4 * int n))) \<le> room"
  shows "read_update_head dc (update_header dc key (4 * int n) @ rest) room =
    Inr (InternalType key, item_Id key, 4 * int n, rest, room - int (length (update_header dc key (4 * int n))))"
proof -
  note k = key_ok_make [OF assms(1)]
  have "sint (word_of_int (InternalType key) :: i32) = InternalType key" "sint (word_of_int (item_Id key) :: i32) = item_Id key"
    using k by (simp_all only: MAX_TYPE_def MAX_ID_def) (intro sint_word; simp)+
  moreover have "sint (word_of_nat n :: i32) = int n" using assms(2) sint_word [of "int n"] by (simp add: MAX_SIZE_def)
  ultimately show ?thesis using k assms
    by (auto simp: read_update_head_def update_header_def include_size_iff Let_def MAX_SIZE_def)
qed

lemma update_header_length: "length (update_header dc key sz) \<le> 3"
  by (simp add: update_header_def)

text \<open>One update of the stream that fits the builder.\<close>

lemma unpack_update_one:
  assumes "holds_items (us_Builder us) items" "key_ok key" "4 * int (length ws) \<le> MAX_SIZE - 16" "sized (us_Coder us) (key, ws)"
    "us_Data us = update_header (us_Coder us) key (4 * int (length ws)) @ body @ rest" "length body = length ws"
    "us_Room us \<ge> int (length (update_header (us_Coder us) key (4 * int (length ws)) @ body))"
    "ready items key (length ws)"
    "case snap_GetItemIndex from key of
       None \<Rightarrow> body = ws
     | Some i \<Rightarrow> snap_GetItemSize from i = 4 * int (length ws) \<and> body = map2 (-) ws (snap_Words from i)"
  shows "\<exists>us'. unpack_update from us = Some (us', 0) \<and> holds_items (us_Builder us') (put items key ws) \<and>
    us_Data us' = rest \<and> us_Room us' = us_Room us - int (length (update_header (us_Coder us) key (4 * int (length ws)) @ body)) \<and>
    dc_ItemSizes (us_Coder us') = dc_ItemSizes (us_Coder us)"
proof -
  let ?n = "length ws" and ?h = "update_header (us_Coder us) key (4 * int (length ws))"
  note k = key_ok_make [OF assms(2)]
  have head: "read_update_head (us_Coder us) (us_Data us) (us_Room us) =
      Inr (InternalType key, item_Id key, 4 * int ?n, body @ rest, us_Room us - int (length ?h))"
    unfolding assms(5) using assms(2,3,4,7) by (intro read_update_header) (simp_all add: sized_def)
  have room: "\<not> us_Room us - int (length ?h) < int ?n" using assms(6,7) by simp
  obtain b' a where b': "update_target (us_Builder us) (InternalType key) (item_Id key) (4 * int ?n) = Some (b', Inr (At a))"
      "\<And>xs. length xs = ?n \<Longrightarrow> holds_items (write_item b' (At a) xs) (put items key xs)"
    using update_target_eq [OF assms(1) k(2-5) assms(3)] assms(8) unfolding k(1) by auto
  show ?thesis
  proof (cases "snap_GetItemIndex from key")
    case None
    then show ?thesis using assms(6,9) b'(2) [OF refl]
      by (simp add: unpack_update_def head room b'(1) k(1) Let_def)
  next
    case (Some i)
    then have i: "snap_GetItemSize from i = 4 * int ?n" "body = map2 (-) ws (snap_Words from i)" using assms(9) by simp_all
    have w: "words_at from (snap_GetItem from i + 1) ?n = snap_Words from i" "length (snap_Words from i) = ?n"
      using i(1) by (simp_all add: snap_Words_def words_at_def)
    have "fst (UndiffItem (snap_Words from i) (body @ rest) ?n rate) = ws" for rate
      unfolding i(2) by (rule UndiffItem_eq) (use w(2) in simp_all)
    then show ?thesis using assms(6) b'(2) [OF refl] Some i(1) w
      by (simp add: unpack_update_def head room b'(1) k(1) Let_def case_prod_beta)
  qed
qed

section \<open>Items by key\<close>

definition keys :: "snap_item list \<Rightarrow> i32 set" where
  "keys items = fst ` set items"

lemma item_index_distinct:
  "distinct (map fst items) \<Longrightarrow> i < length items \<Longrightarrow> item_index items (fst (items ! i)) = Some i"
  by (auto simp: item_index_def find_Some_iff distinct_conv_nth intro!: exI [of _ i])

lemma put_new: "key \<notin> keys items \<Longrightarrow> put items key ws = items @ [(key, ws)]"
  using item_index_None [of items key] by (simp add: put_def keys_def)

lemma put_old:
  assumes "distinct (map fst items)" "key \<in> keys items"
  shows "put items key ws = map (\<lambda>x. if fst x = key then (key, ws) else x) items"
proof -
  obtain i where i: "i < length items" "fst (items ! i) = key" using assms(2) by (auto simp: keys_def in_set_conv_nth)
  have "fst (items ! j) \<noteq> key" if "j < length items" "j \<noteq> i" for j
    using assms(1) that i by (auto simp: distinct_conv_nth)
  then have "items[i := (key, ws)] = map (\<lambda>x. if fst x = key then (key, ws) else x) items"
    using i by (intro nth_equalityI) (auto simp: nth_list_update)
  then show ?thesis using item_index_distinct [OF assms(1) i(1)] i(2) by (simp add: put_def)
qed

lemma map_of_key: "distinct (map fst items) \<Longrightarrow> (k, w) \<in> set items \<Longrightarrow> the (map_of items k) = w"
  by simp

text \<open>The number of words the items with certain keys of \<open>T\<close> take.\<close>

lemma fits_subset:
  assumes "fits T" "distinct (map fst T)" "distinct (map fst xs)"
    "\<And>k w. (k, w) \<in> set xs \<Longrightarrow> \<exists>w'. (k, w') \<in> set T \<and> length w = length w'"
  shows "fits xs"
proof -
  let ?f = "\<lambda>k. length (the (map_of T k))"
  have l: "length w = ?f k \<and> k \<in> keys T" if "(k, w) \<in> set xs" for k w
    using assms(4) [OF that] map_of_key [OF assms(2)] by (force simp: keys_def)
  have sub: "set (map fst xs) \<subseteq> set (map fst T)" using l by (force simp: keys_def)
  have "length (flat xs) = (\<Sum>x\<leftarrow>xs. Suc (?f (fst x)))"
    unfolding length_flat using l by (intro arg_cong [of _ _ sum_list] map_cong) force+
  also have "\<dots> = (\<Sum>k\<in>set (map fst xs). Suc (?f k))"
    using assms(3) by (subst sum_list_distinct_conv_sum_set [symmetric]) (simp_all add: comp_def)
  also have "\<dots> \<le> (\<Sum>k\<in>set (map fst T). Suc (?f k))" by (rule sum_mono2 [OF _ sub]) simp_all
  also have "\<dots> = (\<Sum>x\<leftarrow>T. Suc (?f (fst x)))"
    using assms(2) by (subst sum_list_distinct_conv_sum_set [symmetric]) (simp_all add: comp_def)
  also have "\<dots> = length (flat T)"
    unfolding length_flat using map_of_key [OF assms(2)] by (intro arg_cong [of _ _ sum_list] map_cong) force+
  finally have "length (flat xs) \<le> length (flat T)" .
  moreover have "length xs \<le> length T"
    using card_mono [OF _ sub] assms(2,3) distinct_card by (metis List.finite_set length_map)
  ultimately show ?thesis using assms(1) by (simp add: fits_def)
qed

section \<open>The whole delta\<close>

text \<open>What \<open>CreateDelta\<close> needs: valid snapshots with one item per key, no overfull bucket, and items whose sizes do
  not change and agree with the fixed sizes of their types.\<close>

definition delta_ok :: "delta_coder \<Rightarrow> snap \<Rightarrow> snap \<Rightarrow> bool" where
  "delta_ok dc from to \<longleftrightarrow> snap_ok from \<and> snap_ok to \<and> hash_fits from \<and> hash_fits to \<and>
     distinct (map fst (snap_items from)) \<and> distinct (map fst (snap_items to)) \<and>
     list_all (sized dc) (snap_items to) \<and>
     list_all (\<lambda>x. list_all (\<lambda>y. fst x = fst y \<longrightarrow> length (snd x) = length (snd y)) (snap_items to)) (snap_items from)"

definition encode_update :: "delta_coder \<Rightarrow> snap_item list \<Rightarrow> snap_item \<Rightarrow> i32 list option" where
  "encode_update dc F x =
     (case item_index F (fst x) of
        Some j \<Rightarrow>
          if snd x = snd (F ! j) then None
          else Some (update_header dc (fst x) (4 * int (length (snd x))) @ map2 (-) (snd x) (snd (F ! j)))
      | None \<Rightarrow> Some (update_header dc (fst x) (4 * int (length (snd x))) @ snd x))"

lemma delta_lengths:
  assumes "delta_ok dc from to" "item_index (snap_items from) (fst x) = Some j" "x \<in> set (snap_items to)"
  shows "length (snd (snap_items from ! j)) = length (snd x)"
proof -
  have j: "j < length (snap_items from)" "fst (snap_items from ! j) = fst x" using item_index_Some [OF assms(2)] by auto
  then have "snap_items from ! j \<in> set (snap_items from)" by simp
  then show ?thesis using assms(1,3) j(2) by (auto simp: delta_ok_def list_all_iff)
qed

lemma update_words_eq:
  assumes "delta_ok dc from to" "i \<in> set (indices to)"
  shows "update_words dc from to (GenerateHash from) i = encode_update dc (snap_items from) (item_of to i)"
proof -
  have ok: "snap_ok from" "snap_ok to" "hash_fits from" using assms(1) by (simp_all add: delta_ok_def)
  note v = valid_size [OF ok(2) assms(2)]
  have x: "item_of to i \<in> set (snap_items to)" using assms(2) by (auto simp: snap_items_def item_of_def)
  have c: "words_at to (snap_GetItem to i + 1) (nat (snap_GetItemSize to i div 4)) = snap_Words to i" by (simp add: snap_Words_def)
  have n: "nat (snap_GetItemSize to i div 4) = length (snap_Words to i)" by (simp add: v(1))
  have g: "GetItemIndexHashed (snap_Key to i) (GenerateHash from) = item_index (snap_items from) (snap_Key to i)"
    by (simp add: GetItemIndexHashed_eq [OF ok(3)] GetItemIndex_items)
  show ?thesis
  proof (cases "item_index (snap_items from) (snap_Key to i)")
    case None
    have "words_at to (Suc (snap_GetItem to i)) (length (snap_Words to i)) = snap_Words to i" using c n by simp
    then show ?thesis using None by (simp add: update_words_def encode_update_def item_of_def g Let_def v(1))
  next
    case (Some j)
    have l: "length (snd (snap_items from ! j)) = length (snap_Words to i)"
      using delta_lengths [OF assms(1) _ x] Some by (simp add: item_of_def)
    have j: "snd (snap_items from ! j) = snap_Words from j" "j \<in> set (indices from)"
      using snap_items_nth item_index_Some [OF Some] by auto
    let ?n = "length (snap_Words to i)"
    obtain diff needed where D: "DiffItem (snap_Words from j) (snap_Words to i) ?n = (diff, needed)" by fastforce
    have d: "diff = map2 (-) (snap_Words to i) (snap_Words from j)" "needed = 0 \<longleftrightarrow> snap_Words to i = snap_Words from j"
      using DiffItem_eq [of "snap_Words from j" ?n "snap_Words to i"] l j(1) by (simp_all add: D)
    have m: "nat (snap_GetItemSize from j div 4) = ?n" using valid_size(1) [OF ok(1) j(2)] l j(1) by simp
    have w: "words_at from (snap_GetItem from j + 1) ?n = snap_Words from j" "words_at to (snap_GetItem to i + 1) ?n = snap_Words to i"
      by (simp_all only: snap_Words_def [of "from" j] m c [unfolded n])
    note w = w [unfolded Suc_eq_plus1 [symmetric]]
    show ?thesis unfolding update_words_def encode_update_def item_of_def
      by (simp add: g Some Let_def v(1) w D j(1) d(2)) (simp add: d(1))
  qed
qed

text \<open>The items after the updates for a part \<open>P\<close> of the new items.\<close>

definition after :: "snap_item list \<Rightarrow> snap_item list \<Rightarrow> snap_item list \<Rightarrow> snap_item list" where
  "after F T P =
     map (\<lambda>x. (fst x, if fst x \<in> keys P then the (map_of T (fst x)) else snd x)) (filter (\<lambda>x. fst x \<in> keys T) F) @
     filter (\<lambda>x. fst x \<notin> keys F) P"

lemma after_distinct:
  assumes "distinct (map fst F)" "distinct (map fst P)"
  shows "distinct (map fst (after F T P))"
proof -
  have "map fst (after F T P) = map fst (filter (\<lambda>x. fst x \<in> keys T) F) @ map fst (filter (\<lambda>x. fst x \<notin> keys F) P)"
    by (simp add: after_def comp_def)
  moreover have "set (map fst (filter (\<lambda>x. fst x \<in> keys T) F)) \<subseteq> keys F" by (auto simp: keys_def)
  moreover have "set (map fst (filter (\<lambda>x. fst x \<notin> keys F) P)) \<inter> keys F = {}" by auto
  ultimately show ?thesis using assms by (simp only: distinct_append distinct_map_filter) blast
qed

lemma after_step:
  assumes "distinct (map fst F)" "distinct (map fst T)" "T = P @ (k, w) # Q"
  shows "put (after F T P) k w = after F T (P @ [(k, w)])"
    "(k, w) \<in> set F \<Longrightarrow> after F T (P @ [(k, w)]) = after F T P"
proof -
  have kw: "the (map_of T k) = w" using assms(2,3) by (intro map_of_key) simp_all
  have P: "k \<notin> keys P" "distinct (map fst P)" using assms(2,3) by (auto simp: keys_def)
  have kT: "k \<in> keys T" by (simp add: assms(3) keys_def)
  have keysP: "keys (P @ [(k, w)]) = insert k (keys P)" by (auto simp: keys_def)
  show "put (after F T P) k w = after F T (P @ [(k, w)])"
  proof (cases "k \<in> keys F")
    case True
    have k: "k \<in> keys (after F T P)" using True kT by (force simp: keys_def after_def)
    let ?g = "\<lambda>x. if fst x = k then (k, w) else x"
    have "map ?g (filter (\<lambda>x. fst x \<notin> keys F) P) = filter (\<lambda>x. fst x \<notin> keys F) P"
      by (rule map_idI) (use True in auto)
    moreover have "filter (\<lambda>x. fst x \<notin> keys F) (P @ [(k, w)]) = filter (\<lambda>x. fst x \<notin> keys F) P" using True by simp
    ultimately have "map ?g (after F T P) = after F T (P @ [(k, w)])" by (auto simp: after_def keysP kw)
    then show ?thesis using put_old [OF after_distinct [OF assms(1) P(2)] k] by simp
  next
    case False
    then have "k \<notin> keys (after F T P)" using P(1) by (force simp: keys_def after_def)
    moreover have "fst x \<noteq> k" if "x \<in> set F" for x using False that by (force simp: keys_def)
    ultimately show ?thesis using False by (simp add: put_new) (simp add: after_def keysP)
  qed
  assume kF: "(k, w) \<in> set F"
  then have "k \<in> keys F" by (force simp: keys_def)
  moreover have "snd x = w" if "x \<in> set F" "fst x = k" for x
    using that kF assms(1) by (metis eq_key_imp_eq_value prod.collapse)
  ultimately show "after F T (P @ [(k, w)]) = after F T P" using kw by (auto simp: after_def keysP)
qed

section \<open>Limits\<close>

lemma snap_items_size:
  assumes "snap_ok s" "i < length (snap_items s)"
  shows "snap_GetItemSize s i = 4 * int (length (snd (snap_items s ! i)))"
  using snap_items_nth [OF assms(2)] valid_size(1) [OF assms(1), of i] by simp

lemma snap_offsets:
  assumes "snap_ok s" "i < length (snap_items s)"
  shows "4 * int (pos (snap_items s) i) = snap_Offset s i - snap_Offset s 0"
  using assms(2)
proof (induction i)
  case 0
  then show ?case by (simp add: pos_def)
next
  case (Suc i)
  have n: "length (snap_items s) = nat (snap_NumItems s)" by (simp add: snap_items_def indices_def)
  have "int i \<noteq> snap_NumItems s - 1" using Suc.prems n by (simp add: zless_nat_eq_int_zless)
  then have "snap_GetItemSize s i = snap_Offset s (Suc i) - snap_Offset s i - 4" by (simp add: snap_GetItemSize_def)
  then show ?case using Suc snap_items_size [OF assms(1), of i] pos_Suc [of i "snap_items s"] by simp
qed

lemma snap_items_fits:
  assumes "snap_ok s"
  shows "fits (snap_items s)"
proof -
  have v: "snap_IsValid s (snap_TotalSize s)" using assms by (simp add: snap_ok_def)
  have g: "snap_TotalSize s \<le> MAX_SIZE" "0 \<le> snap_NumItems s" "snap_NumItems s \<le> MAX_ITEMS" "0 \<le> snap_DataSize s"
    using v by (auto simp: snap_IsValid_def split: if_splits)
  have n: "int (length (snap_items s)) = snap_NumItems s" using g by (simp add: snap_items_def indices_def)
  have "4 * int (length (flat (snap_items s))) \<le> snap_DataSize s"
  proof (cases "length (snap_items s)")
    case (Suc k)
    have k: "k < length (snap_items s)" "int k = snap_NumItems s - 1" "0 \<in> set (indices s)"
      using Suc n by (auto simp: snap_items_def indices_def)
    have "snap_GetItemSize s k = snap_DataSize s - snap_Offset s k - 4" using k(2) by (simp add: snap_GetItemSize_def)
    moreover have "0 \<le> snap_Offset s 0" using v k(3) by (auto simp: snap_IsValid_def list_ex_iff split: if_splits)
    moreover have "length (flat (snap_items s)) = pos (snap_items s) (Suc k)" using pos_length [of "snap_items s"] by (simp add: Suc)
    ultimately show ?thesis
      using snap_offsets [OF assms k(1)] snap_items_size [OF assms k(1)] pos_Suc [OF k(1)] by simp
  qed (use g in simp)
  then show ?thesis using g n by (simp add: fits_def snap_TotalSize_def)
qed

lemma after_lengths:
  assumes "delta_ok dc from to" "snap_items to = P @ Q" "(k, w') \<in> set (after (snap_items from) (snap_items to) P)"
  shows "\<exists>w. (k, w) \<in> set (snap_items to) \<and> length w' = length w"
proof -
  let ?F = "snap_items from" and ?T = "snap_items to"
  have len: "length w1 = length w2" if "(k, w1) \<in> set ?F" "(k, w2) \<in> set ?T" for w1 w2
    using assms(1) that by (force simp: delta_ok_def list_all_iff)
  consider (kept) u where "(k, u) \<in> set ?F" "k \<in> keys ?T" "w' = (if k \<in> keys P then the (map_of ?T k) else u)"
    | (new) "(k, w') \<in> set P"
    using assms(3) by (auto simp: after_def)
  then show ?thesis
  proof cases
    case kept
    then obtain w where w: "(k, w) \<in> set ?T" by (auto simp: keys_def)
    then have "the (map_of ?T k) = w" using assms(1) by (intro map_of_key) (simp_all add: delta_ok_def)
    then show ?thesis using kept(1,3) w len by (intro exI [of _ w]) auto
  next
    case new
    then show ?thesis using assms(2) by (intro exI [of _ w']) simp
  qed
qed

lemma after_fits:
  assumes "delta_ok dc from to" "snap_items to = P @ Q"
    "distinct (map fst (after (snap_items from) (snap_items to) P @ xs))" "set xs \<subseteq> (\<lambda>(k, w). (k, replicate (length w) 0)) ` set (snap_items to)"
  shows "fits (after (snap_items from) (snap_items to) P @ xs)"
proof (rule fits_subset)
  show "fits (snap_items to)" "distinct (map fst (snap_items to))" using assms(1) by (simp_all add: delta_ok_def snap_items_fits)
  show "distinct (map fst (after (snap_items from) (snap_items to) P @ xs))" by (rule assms(3))
  fix k w assume "(k, w) \<in> set (after (snap_items from) (snap_items to) P @ xs)"
  then show "\<exists>w'. (k, w') \<in> set (snap_items to) \<and> length w = length w'"
    using after_lengths [OF assms(1,2)] assms(4) by fastforce
qed

lemma after_ready:
  assumes "delta_ok dc from to" "snap_items to = P @ (k, w) # Q"
  shows "ready (after (snap_items from) (snap_items to) P) k (length w)"
proof (cases "item_index (after (snap_items from) (snap_items to) P) k")
  case None
  then have "k \<notin> keys (after (snap_items from) (snap_items to) P)" by (simp add: item_index_None keys_def)
  moreover have "distinct (map fst (after (snap_items from) (snap_items to) P))"
    using assms by (intro after_distinct) (simp_all add: delta_ok_def)
  ultimately have "fits (after (snap_items from) (snap_items to) P @ [(k, replicate (length w) 0)])"
    using assms by (intro after_fits [OF assms(1,2)]) (auto simp: keys_def image_iff intro!: bexI [of _ "(k, w)"])
  then show ?thesis using None by (simp add: ready_def)
next
  case (Some i)
  note i = item_index_Some [OF Some]
  then have "(k, snd (after (snap_items from) (snap_items to) P ! i)) \<in> set (after (snap_items from) (snap_items to) P)"
    by (metis nth_mem prod.collapse)
  from after_lengths [OF assms this] obtain w' where
    "(k, w') \<in> set (snap_items to)" "length (snd (after (snap_items from) (snap_items to) P ! i)) = length w'" by blast
  moreover have "(k, w) \<in> set (snap_items to)" "distinct (map fst (snap_items to))"
    using assms by (simp_all add: delta_ok_def)
  then have "w' = w" using \<open>(k, w') \<in> set (snap_items to)\<close> by (metis eq_key_imp_eq_value)
  ultimately show ?thesis using Some by (simp add: ready_def)
qed

section \<open>The updates as a stream\<close>

lemma same_sizes:
  assumes "dc_ItemSizes dc' = dc_ItemSizes dc"
  shows "update_header dc' key sz = update_header dc key sz" "sized dc' x = sized dc x"
  using assms by (simp_all add: update_header_def include_size_def sized_def static_size_def)

lemma map_filter_Cons:
  "List.map_filter f (x # xs) = (case f x of None \<Rightarrow> List.map_filter f xs | Some y \<Rightarrow> y # List.map_filter f xs)"
  by (simp split: option.split)

lemma unpack_stream:
  assumes "delta_ok dc from to"
  shows "snap_items to = P @ Q \<Longrightarrow> holds_items (us_Builder us) (after (snap_items from) (snap_items to) P) \<Longrightarrow>
    us_Data us = concat (List.map_filter (encode_update dc (snap_items from)) Q) \<Longrightarrow>
    us_Room us = int (length (us_Data us)) \<Longrightarrow> dc_ItemSizes (us_Coder us) = dc_ItemSizes dc \<Longrightarrow>
    \<exists>us'. unpack_updates (length (List.map_filter (encode_update dc (snap_items from)) Q)) from us = Some (us', 0) \<and>
      holds_items (us_Builder us') (after (snap_items from) (snap_items to) (snap_items to))"
proof (induction Q arbitrary: P us)
  case Nil
  then show ?case by (simp add: map_filter_simps)
next
  case (Cons x Q)
  let ?F = "snap_items from" and ?T = "snap_items to"
  obtain k w where x: "x = (k, w)" by (cases x)
  have T: "?T = P @ (k, w) # Q" "?T = (P @ [(k, w)]) @ Q" using Cons.prems(1) x by simp_all
  have d: "distinct (map fst ?F)" "distinct (map fst ?T)" "snap_ok to" "list_all (sized dc) ?T" "snap_ok from"
    using assms by (simp_all add: delta_ok_def)
  note step = after_step [OF d(1,2) T(1)]
  have kw: "(k, w) \<in> set ?T" by (simp add: T)
  then obtain i where i: "i \<in> set (indices to)" "k = snap_Key to i" "w = snap_Words to i" by (auto simp: snap_items_def)
  have ok: "key_ok k" "4 * int (length w) \<le> MAX_SIZE - 16" using valid_size [OF d(3) i(1)] i by simp_all
  have sz: "sized (us_Coder us) (k, w)" using d(4) kw same_sizes(2) [OF Cons.prems(5)] by (simp add: list_all_iff)
  show ?case
  proof (cases "encode_update dc ?F (k, w)")
    case None
    then obtain j where j: "item_index ?F k = Some j" "w = snd (?F ! j)"
      by (auto simp: encode_update_def split: option.splits if_splits)
    then have "(k, w) \<in> set ?F" using item_index_Some [OF j(1)] by (metis nth_mem prod.collapse)
    then show ?thesis using Cons.IH [OF T(2), of us] Cons.prems step(2) None by (simp add: x map_filter_Cons)
  next
    case (Some e)
    define body where "body = (case item_index ?F k of Some j \<Rightarrow> map2 (-) w (snd (?F ! j)) | None \<Rightarrow> w)"
    let ?h = "update_header (us_Coder us) k (4 * int (length w))" and ?rest = "concat (List.map_filter (encode_update dc ?F) Q)"
    have e: "e = ?h @ body" using Some same_sizes(1) [OF Cons.prems(5)]
      by (auto simp: encode_update_def body_def split: option.splits if_splits)
    have lb: "length body = length w"
      using delta_lengths [OF assms _ kw] by (auto simp: body_def split: option.split)
    have data: "us_Data us = ?h @ body @ ?rest" using Cons.prems(3) Some e by (simp add: x map_filter_Cons)
    have past: "case snap_GetItemIndex from k of None \<Rightarrow> body = w
      | Some i \<Rightarrow> snap_GetItemSize from i = 4 * int (length w) \<and> body = map2 (-) w (snap_Words from i)"
    proof (cases "item_index ?F k")
      case (Some j)
      note j = item_index_Some [OF Some]
      have "length (snd (?F ! j)) = length w" using delta_lengths [OF assms _ kw] Some by simp
      then show ?thesis using Some j snap_items_size [OF d(5), of j] snap_items_nth [of j "from"]
        by (simp add: GetItemIndex_items body_def)
    qed (simp add: GetItemIndex_items body_def)
    have room: "us_Room us \<ge> int (length (?h @ body))" using Cons.prems(4) data by simp
    obtain us1 where us1: "unpack_update from us = Some (us1, 0)"
        "holds_items (us_Builder us1) (put (after ?F ?T P) k w)" "us_Data us1 = ?rest"
        "us_Room us1 = us_Room us - int (length (?h @ body))" "dc_ItemSizes (us_Coder us1) = dc_ItemSizes (us_Coder us)"
      using unpack_update_one [OF Cons.prems(2) ok sz data lb room after_ready [OF assms T(1)] past] by blast
    have "us_Room us1 = int (length (us_Data us1))" using us1(3,4) Cons.prems(4) data by simp
    then show ?thesis using Cons.IH [OF T(2), of us1] us1 Cons.prems(5) step(1) Some by (simp add: x map_filter_Cons)
  qed
qed

lemma after_all:
  assumes "delta_ok dc from to"
  shows "mset (after (snap_items from) (snap_items to) (snap_items to)) = mset (snap_items to)"
proof -
  let ?F = "snap_items from" and ?T = "snap_items to"
  have d: "distinct (map fst ?F)" "distinct (map fst ?T)" using assms by (simp_all add: delta_ok_def)
  have "set (after ?F ?T ?T) = set ?T"
  proof (intro equalityI subsetI)
    fix x assume "x \<in> set (after ?F ?T ?T)"
    then consider "fst x \<in> keys ?T" "snd x = the (map_of ?T (fst x))" | "x \<in> set ?T" by (auto simp: after_def)
    then show "x \<in> set ?T"
    proof cases
      case 1
      then obtain w where "(fst x, w) \<in> set ?T" by (auto simp: keys_def)
      then show ?thesis using 1(2) map_of_key [OF d(2)] by (metis prod.collapse)
    qed
  next
    fix x assume x: "x \<in> set ?T"
    then have k: "fst x \<in> keys ?T" "the (map_of ?T (fst x)) = snd x" using map_of_key [OF d(2), of "fst x" "snd x"] by (auto simp: keys_def)
    show "x \<in> set (after ?F ?T ?T)"
    proof (cases "fst x \<in> keys ?F")
      case True
      then obtain u where "(fst x, u) \<in> set ?F" by (auto simp: keys_def)
      then have "(fst x, the (map_of ?T (fst x))) \<in> set (after ?F ?T ?T)" using k(1) by (auto simp: after_def intro!: image_eqI [of _ _ "(fst x, u)"])
      then show ?thesis using k(2) by simp
    qed (use x in \<open>simp add: after_def\<close>)
  qed
  moreover have "distinct (after ?F ?T ?T)" "distinct ?T"
    using after_distinct [OF d] d(2) by (simp_all only: distinct_map)
  ultimately show ?thesis by (simp add: set_eq_iff_mset_eq_distinct)
qed

section \<open>Checksums\<close>

lemma foldl_add: "foldl (+) a xs = a + sum_list xs" for a :: i32
  by (induction xs arbitrary: a) (simp_all add: add.assoc)

lemma snap_Crc_items: "snap_Crc s = (\<Sum>x\<leftarrow>snap_items s. sum_list (snd x))"
proof -
  have "foldl (\<lambda>crc i. foldl (+) crc (snap_Words s i)) a is = a + (\<Sum>x\<leftarrow>map (item_of s) is. sum_list (snd x))" for a "is"
    by (induction "is" arbitrary: a) (simp_all add: foldl_add item_of_def add.assoc)
  then show ?thesis by (simp add: snap_Crc_def snap_items_def item_of_def comp_def)
qed

lemma sum_list_mset: "mset xs = mset ys \<Longrightarrow> (\<Sum>x\<leftarrow>xs. f x) = (\<Sum>x\<leftarrow>ys. f x)" for f :: "'a \<Rightarrow> i32"
  by (metis mset_map sum_mset_sum_list)

section \<open>Properties\<close>

text \<open>C2. Deltas round-trip: for two valid snapshots without overfull hash buckets, whose items keep their sizes, what
  \<open>UnpackDelta\<close> makes of the old snapshot and the delta of \<open>CreateDelta\<close> is a valid snapshot with exactly the
  items of the new one and so with its checksum. A delta of size 0 stands for the empty delta of 12 bytes.\<close>

theorem delta_roundtrip:
  assumes "delta_ok dc from to" "dc_ItemSizes dc' = dc_ItemSizes dc"
  shows "case CreateDelta dc from to of (d, n) \<Rightarrow>
    \<exists>dc'' s sz. UnpackDelta dc' from d (if n = 0 then 12 else n) = Some (dc'', Inr (s, sz)) \<and> snap_IsValid s sz \<and>
      mset (snap_items s) = mset (snap_items to) \<and> snap_Crc s = snap_Crc to"
proof -
  let ?F = "snap_items from" and ?T = "snap_items to"
  have ok: "snap_ok from" "snap_ok to" "hash_fits to" using assms(1) by (simp_all add: delta_ok_def)
  define del where "del = filter (\<lambda>key. GetItemIndexHashed key (GenerateHash to) = None) (map (snap_Key from) (indices from))"
  define ups where "ups = List.map_filter (encode_update dc ?F) ?T"
  have ups: "List.map_filter (update_words dc from to (GenerateHash from)) (indices to) = ups"
    using update_words_eq [OF assms(1)] unfolding ups_def snap_items_def [of to] item_of_def [symmetric]
    by (simp add: map_filter_def filter_map comp_def cong: filter_cong)
  let ?d = "\<lparr>d_NumDeletedItems = of_nat (length del), d_NumUpdateItems = of_nat (length ups), d_NumTempItems = 0,
      d_Data = del @ concat ups\<rparr>"
  let ?n = "if del = [] \<and> ups = [] then 0 else 4 * int (3 + length (d_Data ?d))"
  have c: "CreateDelta dc from to = (?d, ?n)" by (simp only: CreateDelta_def Let_def ups del_def)
  have size: "(if ?n = 0 then 12 else ?n) = 4 * int (3 + length (d_Data ?d))" by auto
  have small: "length del \<le> 1024" "length ups \<le> 1024"
  proof -
    have "length ?F \<le> 1024" "length ?T \<le> 1024" using snap_items_fits ok by (auto simp: fits_def MAX_ITEMS_def)
    moreover have "length del \<le> length ?F" by (simp add: del_def snap_items_def)
    moreover have "length ups \<le> length ?T" by (simp add: ups_def map_filter_def)
    ultimately show "length del \<le> 1024" "length ups \<le> 1024" by simp_all
  qed
  have cnt: "sint (word_of_nat (length del) :: i32) = int (length del)" "sint (word_of_nat (length ups) :: i32) = int (length ups)"
    using small sint_word [of "int (length del)"] sint_word [of "int (length ups)"] by simp_all
  have mem: "key \<in> set del \<longleftrightarrow> key \<notin> keys ?T" if "key \<in> keys ?F" for key
    using that by (auto simp: del_def GetItemIndexHashed_eq [OF ok(3)] GetItemIndex_items item_index_None keys_def snap_items_def)
  have kept: "filter (\<lambda>x. fst x \<notin> set del) ?F = after ?F ?T []"
    using mem by (simp add: after_def keys_def) (rule filter_cong, auto simp: keys_def)
  have F: "map (item_of from) (indices from) = ?F" by (simp add: snap_items_def item_of_def)
  have "distinct (map fst (after ?F ?T [] @ []))" using assms(1) after_distinct [of ?F "[]"] by (simp add: delta_ok_def)
  from after_fits [OF assms(1) _ this, of ?T] have "fits (after ?F ?T [])" by simp
  then obtain b where b: "keep_items from del (indices from) empty_builder = Some (b, 0)" "holds_items b (after ?F ?T [])"
    using keep_items_eq [OF ok(1) order_refl holds_empty, of del] unfolding F kept [symmetric] by auto
  let ?us = "\<lparr>us_Coder = dc', us_Builder = b, us_Data = concat ups, us_Room = int (length (concat ups))\<rparr>"
  obtain us' where us': "unpack_updates (length ups) from ?us = Some (us', 0)" "holds_items (us_Builder us') (after ?F ?T ?T)"
    using unpack_stream [OF assms(1), of "[]" ?T ?us] b(2) assms(2) by (auto simp: ups_def)
  let ?s = "snap_of (after ?F ?T ?T)"
  have fin: "UnpackDelta dc' from ?d (4 * int (3 + length (d_Data ?d))) = Some (us_Coder us', Inr (?s, snap_TotalSize ?s))"
    using b(1) us'(1) Finish_items [OF us'(2)] by (simp add: UnpackDelta_def Init_empty Let_def cnt del: length_concat)
  have f: "fits (after ?F ?T ?T)" using us'(2) by (simp add: holds_items_def)
  have m: "mset (snap_items ?s) = mset ?T" by (simp add: snap_items_of [OF f] after_all [OF assms(1)])
  then have "snap_Crc ?s = snap_Crc to" unfolding snap_Crc_items by (rule sum_list_mset)
  then show ?thesis unfolding c prod.case size fin using snap_of_valid [OF f] m by blast
qed

theorem delta_roundtrip_witness:
  "case CreateDelta new_delta_coder (snap_of [(0x50001, [7, 8])]) (snap_of [(0x50001, [9, 8]), (0x60002, [1])]) of (d, n) \<Rightarrow>
    \<exists>dc'' s sz. UnpackDelta new_delta_coder (snap_of [(0x50001, [7, 8])]) d (if n = 0 then 12 else n) = Some (dc'', Inr (s, sz)) \<and>
      mset (snap_items s) = {#(0x50001, [9, 8]), (0x60002, [1])#}"
proof -
  let ?F = "[(0x50001, [7, 8])] :: snap_item list" and ?T = "[(0x50001, [9, 8]), (0x60002, [1])] :: snap_item list"
  have f: "fits ?F" "fits ?T" by (simp_all add: fits_def MAX_ITEMS_def MAX_SIZE_def)
  have "list_all (key_ok \<circ> fst) ?F" "list_all (key_ok \<circ> fst) ?T" by (simp_all add: key_ok_def)
  note ok = snap_of_ok [OF f(1) this(1)] snap_of_ok [OF f(2) this(2)]
  have h: "hash_fits s" if "length (indices s) \<le> 2" for s
    using that by (auto simp: hash_fits_def HASHLIST_BUCKET_SIZE_def intro: le_trans [OF length_filter_le])
  have "length (indices (snap_of ?F)) = 1" "length (indices (snap_of ?T)) = 2"
    using snap_of_parts(2) [OF f(1)] snap_of_parts(2) [OF f(2)] by (simp_all add: indices_def)
  then have "delta_ok new_delta_coder (snap_of ?F) (snap_of ?T)" using ok h
    by (simp add: delta_ok_def snap_items_of [OF f(1)] snap_items_of [OF f(2)] sized_def static_size_def InternalType_def
        MAX_NETOBJSIZES_def new_delta_coder_def)
  from delta_roundtrip [OF this refl] show ?thesis by (auto simp: snap_items_of [OF f(2)] split: prod.splits)
qed

end
