(* ===== verification/SnapIdPool.thy ===== *)
theory SnapIdPool
  imports Prelude
begin

text \<open>
  The pool of snapshot item ids (\<open>src/engine/server/snap_id_pool.cpp\<close>): a free list and a queue of ids that may not
  be used again for five seconds, both threaded through one array. The arrays of the record are functions of the
  id; the clock is an argument.
\<close>

section \<open>The pool\<close>

definition MAX_IDS :: int where "MAX_IDS = 32 * 1024"

datatype id_state = ID_FREE | ID_ALLOCATED | ID_TIMED

record id_pool =
  m_Next :: "int \<Rightarrow> int"
  m_State :: "int \<Rightarrow> id_state"
  m_Timeout :: "int \<Rightarrow> int"
  m_FirstFree :: int
  m_FirstTimed :: int
  m_LastTimed :: int
  m_Usage :: int
  m_InUsage :: int

definition pool_Reset :: "id_pool \<Rightarrow> id_pool" where
  "pool_Reset p = p\<lparr>m_Next := (\<lambda>i. if i = MAX_IDS - 1 then - 1 else i + 1), m_State := (\<lambda>i. ID_FREE),
     m_FirstFree := 0, m_FirstTimed := - 1, m_LastTimed := - 1, m_Usage := 0, m_InUsage := 0\<rparr>"

definition RemoveFirstTimeout :: "id_pool \<Rightarrow> id_pool" where
  "RemoveFirstTimeout p =
     (let first = m_FirstTimed p;
          next_timed = m_Next p first;
          p = p\<lparr>m_Next := (m_Next p)(first := m_FirstFree p), m_State := (m_State p)(first := ID_FREE), m_FirstFree := first\<rparr>;
          p = p\<lparr>m_FirstTimed := next_timed\<rparr>;
          p = (if next_timed = - 1 then p\<lparr>m_LastTimed := - 1\<rparr> else p)
      in p\<lparr>m_Usage := m_Usage p - 1\<rparr>)"

text \<open>The loops over the timed ids; there are at most \<open>MAX_IDS\<close> of them, so \<open>MAX_IDS\<close> is enough fuel.\<close>

fun expire :: "nat \<Rightarrow> (int \<Rightarrow> bool) \<Rightarrow> id_pool \<Rightarrow> id_pool" where
  "expire 0 due p = p"
| "expire (Suc n) due p =
     (if m_FirstTimed p \<noteq> - 1 \<and> due (m_Timeout p (m_FirstTimed p)) then expire n due (RemoveFirstTimeout p) else p)"

definition NewId :: "id_pool \<Rightarrow> int \<Rightarrow> id_pool \<times> int option" where
  "NewId p now =
     (let p = expire (nat MAX_IDS) (\<lambda>t. t < now) p; i = m_FirstFree p
      in if i = - 1 then (p, None)
         else (p\<lparr>m_FirstFree := m_Next p i, m_State := (m_State p)(i := ID_ALLOCATED),
                 m_Usage := m_Usage p + 1, m_InUsage := m_InUsage p + 1\<rparr>, Some i))"

definition TimeoutIds :: "id_pool \<Rightarrow> id_pool" where
  "TimeoutIds p = expire (nat MAX_IDS) (\<lambda>t. True) p"

text \<open>\<open>None\<close> is a failed assertion.\<close>

definition FreeId :: "id_pool \<Rightarrow> int \<Rightarrow> int \<Rightarrow> id_pool option" where
  "FreeId p i now =
     (if i < 0 then Some p
      else if \<not> i < MAX_IDS \<or> m_State p i \<noteq> ID_ALLOCATED then None
      else
        let p = p\<lparr>m_InUsage := m_InUsage p - 1, m_State := (m_State p)(i := ID_TIMED),
                  m_Timeout := (m_Timeout p)(i := now + time_freq * 5), m_Next := (m_Next p)(i := - 1)\<rparr>
        in Some (if m_LastTimed p \<noteq> - 1
                 then p\<lparr>m_Next := (m_Next p)(m_LastTimed p := i), m_LastTimed := i\<rparr>
                 else p\<lparr>m_FirstTimed := i, m_LastTimed := i\<rparr>))"

section \<open>The two lists\<close>

fun chain :: "(int \<Rightarrow> int) \<Rightarrow> int \<Rightarrow> int list \<Rightarrow> bool" where
  "chain nx first [] \<longleftrightarrow> first = - 1"
| "chain nx first (x # xs) \<longleftrightarrow> first = x \<and> chain nx (nx x) xs"

lemma chain_upd: "i \<notin> set xs \<Longrightarrow> chain (nx(i := v)) first xs = chain nx first xs"
  by (induction xs arbitrary: first) auto

lemma chain_snoc:
  "chain nx first xs \<Longrightarrow> xs \<noteq> [] \<Longrightarrow> i \<notin> set xs \<Longrightarrow> distinct xs \<Longrightarrow> nx i = - 1 \<Longrightarrow>
   chain (nx(last xs := i)) first (xs @ [i])"
proof (induction xs arbitrary: first)
  case (Cons x xs)
  show ?case
  proof (cases xs)
    case Nil
    then show ?thesis using Cons.prems by auto
  next
    case (Cons y ys)
    then have "x \<noteq> last xs" using Cons.prems by (metis distinct.simps(2) last_in_set list.discI)
    then show ?thesis using Cons.IH [of "nx x"] Cons.prems \<open>xs = y # ys\<close> by (auto simp: fun_upd_def)
  qed
qed simp

text \<open>The ids that are free, in the order of the free list, and those that wait, oldest first.\<close>

definition pool_ok :: "id_pool \<Rightarrow> int list \<Rightarrow> int list \<Rightarrow> int \<Rightarrow> bool" where
  "pool_ok p free timed now \<longleftrightarrow>
     chain (m_Next p) (m_FirstFree p) free \<and> chain (m_Next p) (m_FirstTimed p) timed \<and>
     m_LastTimed p = (if timed = [] then - 1 else last timed) \<and>
     distinct (free @ timed) \<and> set (free @ timed) \<subseteq> {0..<MAX_IDS} \<and>
     (\<forall>i\<in>{0..<MAX_IDS}. m_State p i = (if i \<in> set free then ID_FREE else if i \<in> set timed then ID_TIMED else ID_ALLOCATED)) \<and>
     m_Usage p = MAX_IDS - int (length free) \<and> m_InUsage p = MAX_IDS - int (length free) - int (length timed) \<and>
     sorted (map (m_Timeout p) timed) \<and> (\<forall>i\<in>set timed. m_Timeout p i \<le> now + time_freq * 5)"

lemma ids_okD:
  assumes "pool_ok p free timed now"
  shows "chain (m_Next p) (m_FirstFree p) free" "chain (m_Next p) (m_FirstTimed p) timed"
    "m_LastTimed p = (if timed = [] then - 1 else last timed)" "distinct (free @ timed)" "set (free @ timed) \<subseteq> {0..<MAX_IDS}"
    "\<And>i. i \<in> {0..<MAX_IDS} \<Longrightarrow> m_State p i = (if i \<in> set free then ID_FREE else if i \<in> set timed then ID_TIMED else ID_ALLOCATED)"
    "sorted (map (m_Timeout p) timed)" "\<And>i. i \<in> set timed \<Longrightarrow> m_Timeout p i \<le> now + time_freq * 5"
  using assms by (auto simp: pool_ok_def)

lemma ids_Reset_ok: "pool_ok (pool_Reset p) [0..MAX_IDS - 1] [] now"
proof -
  have "chain (m_Next (pool_Reset p)) i [i..MAX_IDS - 1]" if "i < MAX_IDS" for i
    using that
  proof (induction "nat (MAX_IDS - 1 - i)" arbitrary: i)
    case 0
    then show ?case by (simp add: pool_Reset_def upto.simps)
  next
    case (Suc n)
    then have "chain (m_Next (pool_Reset p)) (i + 1) [i + 1..MAX_IDS - 1]" by simp
    moreover have "m_Next (pool_Reset p) i = i + 1" using Suc.hyps(2) by (cases "i = MAX_IDS - 1") (simp_all add: pool_Reset_def)
    ultimately show ?case using Suc.prems by (subst upto.simps) simp
  qed
  from this [of 0] show ?thesis by (auto simp: pool_ok_def pool_Reset_def MAX_IDS_def)
qed

lemma remove_ok:
  assumes "pool_ok p free (x # timed) now"
  shows "pool_ok (RemoveFirstTimeout p) (x # free) timed now" "m_Timeout (RemoveFirstTimeout p) = m_Timeout p"
proof -
  note a = ids_okD [OF assms]
  have x: "m_FirstTimed p = x" "x \<notin> set free" "x \<notin> set timed" "0 \<le> x" using a(2,4,5) by auto
  have e: "m_Next p x = - 1 \<longleftrightarrow> timed = []"
  proof (cases timed)
    case (Cons y ys)
    then have "m_Next p x = y" "0 \<le> y" using a(2,5) by auto
    then show ?thesis using Cons by simp
  qed (use a(2) in simp)
  show "m_Timeout (RemoveFirstTimeout p) = m_Timeout p" by (simp add: RemoveFirstTimeout_def Let_def)
  show "pool_ok (RemoveFirstTimeout p) (x # free) timed now"
    using assms x e by (auto simp: pool_ok_def RemoveFirstTimeout_def Let_def chain_upd)
qed

lemma ids_expire_ok:
  "pool_ok p free timed now \<Longrightarrow> length timed \<le> n \<Longrightarrow>
   pool_ok (expire n due p) (rev (takeWhile (\<lambda>i. due (m_Timeout p i)) timed) @ free) (dropWhile (\<lambda>i. due (m_Timeout p i)) timed) now \<and>
   m_Timeout (expire n due p) = m_Timeout p"
proof (induction n arbitrary: p free timed)
  case (Suc n)
  show ?case
  proof (cases timed)
    case Nil
    then have "m_FirstTimed p = - 1" using ids_okD(2) [OF Suc.prems(1)] by simp
    then show ?thesis using Suc.prems Nil by simp
  next
    case (Cons x xs)
    have f: "m_FirstTimed p = x" "0 \<le> x" using ids_okD(2,5) [OF Suc.prems(1)] Cons by auto
    show ?thesis
    proof (cases "due (m_Timeout p x)")
      case True
      then show ?thesis using Suc.IH [OF remove_ok(1) [OF Suc.prems(1) [unfolded Cons]]] Suc.prems(2) f
        remove_ok(2) [OF Suc.prems(1) [unfolded Cons]] by (simp add: Cons)
    next
      case False
      then show ?thesis using Suc.prems(1) f by (simp add: Cons)
    qed
  qed
qed simp

lemma timed_length: "pool_ok p free timed now \<Longrightarrow> length timed \<le> nat MAX_IDS"
  using card_mono [of "{0..<MAX_IDS}" "set timed"] distinct_card [of timed] by (auto simp: pool_ok_def)

lemma NewId_ok:
  fixes t :: int
  assumes "pool_ok p free timed now"
  defines "free' \<equiv> rev (takeWhile (\<lambda>i. m_Timeout p i < t) timed) @ free"
    and "timed' \<equiv> dropWhile (\<lambda>i. m_Timeout p i < t) timed"
  shows "case free' of
      [] \<Rightarrow> snd (NewId p t) = None \<and> pool_ok (fst (NewId p t)) [] timed' now
    | x # xs \<Rightarrow> snd (NewId p t) = Some x \<and> pool_ok (fst (NewId p t)) xs timed' now"
proof -
  let ?q = "expire (nat MAX_IDS) (\<lambda>s. s < t) p"
  have q: "pool_ok ?q free' timed' now"
    using ids_expire_ok [OF assms(1) timed_length [OF assms(1)], of "\<lambda>s. s < t"] by (simp add: free'_def timed'_def)
  note a = ids_okD [OF q]
  show ?thesis
  proof (cases free')
    case Nil
    then have "m_FirstFree ?q = - 1" using a(1) by simp
    then show ?thesis using q Nil by (simp add: NewId_def)
  next
    case (Cons x xs)
    have x: "m_FirstFree ?q = x" "0 \<le> x" "x \<notin> set xs" "x \<notin> set timed'" using a(1,4,5) Cons by auto
    have n: "NewId p t = (?q\<lparr>m_FirstFree := m_Next ?q x, m_State := (m_State ?q)(x := ID_ALLOCATED),
        m_Usage := m_Usage ?q + 1, m_InUsage := m_InUsage ?q + 1\<rparr>, Some x)"
      using x by (simp add: NewId_def Let_def)
    show ?thesis using q x unfolding n by (auto simp: Cons pool_ok_def)
  qed
qed

lemma FreeId_ok:
  assumes "pool_ok p free timed now" "0 \<le> i" "i < MAX_IDS" "m_State p i = ID_ALLOCATED" "now \<le> t"
  shows "\<exists>p'. FreeId p i t = Some p' \<and> pool_ok p' free (timed @ [i]) t \<and> m_Timeout p' = (m_Timeout p)(i := t + time_freq * 5)"
proof -
  note a = ids_okD [OF assms(1)]
  have i: "i \<notin> set free" "i \<notin> set timed" using a(6) [of i] assms(2-4) by (auto split: if_splits)
  let ?nx = "(m_Next p)(i := - 1)" and ?to = "(m_Timeout p)(i := t + time_freq * 5)"
  have c: "chain ?nx (m_FirstFree p) free" "chain ?nx (m_FirstTimed p) timed" using a(1,2) i by (simp_all add: chain_upd)
  have to: "map ?to timed = map (m_Timeout p) timed" using i by auto
  have le: "\<forall>j\<in>set timed. m_Timeout p j \<le> t + time_freq * 5" using a(8) assms(5) by fastforce
  have s: "sorted (map ?to (timed @ [i]))" using a(7) le by (simp add: sorted_append to del: fun_upd_apply) simp
  show ?thesis
  proof (cases "timed = []")
    case True
    then show ?thesis using assms a i c by (auto simp: FreeId_def Let_def pool_ok_def)
  next
    case False
    have l: "m_LastTimed p = last timed" "last timed \<in> set timed" using a(3) False by auto
    have l3: "0 \<le> last timed" using a(5) l(2) by auto
    have f: "last timed \<notin> set free" using a(4) l(2) by auto
    have "chain (?nx(last timed := i)) (m_FirstTimed p) (timed @ [i])"
      using chain_snoc [OF c(2) False i(2)] a(4) by simp
    moreover have "chain (?nx(last timed := i)) (m_FirstFree p) free" using c(1) f by (simp add: chain_upd)
    ultimately show ?thesis using assms a i l l3 s le by (auto simp: FreeId_def Let_def pool_ok_def)
  qed
qed

section \<open>Reachable pools\<close>

text \<open>A pool and the time of the last operation; the clock does not run backwards.\<close>

inductive pool_reachable :: "id_pool \<Rightarrow> int \<Rightarrow> bool" where
  pool_start: "pool_reachable (pool_Reset p) now"
| pool_new: "pool_reachable p now \<Longrightarrow> now \<le> t \<Longrightarrow> pool_reachable (fst (NewId p t)) t"
| pool_free: "pool_reachable p now \<Longrightarrow> now \<le> t \<Longrightarrow> FreeId p i t = Some p' \<Longrightarrow> pool_reachable p' t"
| pool_timeout: "pool_reachable p now \<Longrightarrow> pool_reachable (TimeoutIds p) now"

lemma pool_ok_later: "pool_ok p free timed now \<Longrightarrow> now \<le> t \<Longrightarrow> pool_ok p free timed t"
  by (fastforce simp: pool_ok_def)

lemma FreeId_Some: "FreeId p i t = Some p' \<Longrightarrow> i < 0 \<and> p' = p \<or> 0 \<le> i \<and> i < MAX_IDS \<and> m_State p i = ID_ALLOCATED"
  by (auto simp: FreeId_def split: if_splits)

lemma pool_reachable_ok: "pool_reachable p now \<Longrightarrow> \<exists>free timed. pool_ok p free timed now"
proof (induction rule: pool_reachable.induct)
  case (pool_start p now)
  then show ?case using ids_Reset_ok by blast
next
  case (pool_new p now t)
  then obtain free timed where "pool_ok p free timed t" using pool_ok_later by blast
  from NewId_ok [OF this, of t] show ?case by (auto split: list.splits)
next
  case (pool_free p now t i p')
  then obtain free timed where ok: "pool_ok p free timed now" by blast
  from FreeId_Some [OF pool_free(3)] show ?case
    using FreeId_ok [OF ok, of i t] pool_free(2,3) pool_ok_later [OF ok] by auto
next
  case (pool_timeout p now)
  then show ?case using ids_expire_ok timed_length unfolding TimeoutIds_def by blast
qed

section \<open>Properties\<close>


definition some_pool :: id_pool where
  "some_pool = \<lparr>m_Next = (\<lambda>i. 0), m_State = (\<lambda>i. ID_ALLOCATED), m_Timeout = (\<lambda>i. 0), m_FirstFree = 7, m_FirstTimed = 7,
     m_LastTimed = 7, m_Usage = 7, m_InUsage = 7\<rparr>"

lemma expire_none: "m_FirstTimed p = - 1 \<Longrightarrow> expire n due p = p"
  by (cases n) simp_all


text \<open>The pool does not starve: whenever an id is free, or its five seconds are over, \<open>NewId\<close> finds one, because
  ids wait in the order in which they were given back.\<close>

theorem snap_ids_progress:
  assumes "pool_reachable p now" "now \<le> t" "0 \<le> i" "i < MAX_IDS"
    "m_State p i = ID_FREE \<or> m_State p i = ID_TIMED \<and> m_Timeout p i < t"
  shows "\<exists>p' j. NewId p t = (p', Some j)"
proof -
  obtain free timed where ok: "pool_ok p free timed now" using pool_reachable_ok [OF assms(1)] by blast
  note a = ids_okD [OF ok]
  have "rev (takeWhile (\<lambda>i. m_Timeout p i < t) timed) @ free \<noteq> []"
  proof (cases "free = []")
    case True
    then have i: "i \<in> set timed" "m_Timeout p i < t" using a(6) [of i] assms(3-5) by (auto split: if_splits)
    then obtain x xs where t: "timed = x # xs" by (cases timed) auto
    have "m_Timeout p x \<le> m_Timeout p i" using a(7) i(1) t by auto
    then show ?thesis using i(2) t by simp
  qed simp
  then show ?thesis using NewId_ok [OF ok, of t] by (cases "NewId p t") (auto split: list.splits)
qed

theorem snap_ids_progress_witness:
  "\<exists>p' j. NewId (pool_Reset some_pool) 9 = (p', Some j)"
  by (rule snap_ids_progress [OF pool_start [of some_pool 0], of 9 4]) (simp_all add: pool_Reset_def MAX_IDS_def)

end
