(* ===== verification/NetBan.thy ===== *)
theory NetBan
  imports NetConn
begin

text \<open>
  The ban list (\<open>src/engine/shared/netban.h\<close>, \<open>netban.cpp\<close>): one pool for addresses and one for address ranges, each an
  array of 2048 entries threaded into a free list, a list in use sorted by expiry and hash lists. The doubly linked
  lists are lists of positions in the array. The template argument of the pool is the type of the banned data; its
  comparison and its hash are arguments. \<open>time_timestamp()\<close> is the argument \<open>now\<close>; console output is left out.
\<close>

section \<open>Comparing addresses\<close>

text \<open>The object representation of a \<open>NETADDR\<close> up to the port: the type in little-endian order and the 16 bytes of the
  address.\<close>

definition addr_bytes :: "netaddr \<Rightarrow> byte list" where
  "addr_bytes a = [to_byte (na_type a), to_byte (drop_bit 8 (na_type a)), to_byte (drop_bit 16 (na_type a)),
     to_byte (drop_bit 24 (na_type a))] @ na_ip a"

definition NetComp :: "netaddr \<Rightarrow> netaddr \<Rightarrow> int" where
  "NetComp a b = (let n = (if na_type a = NETTYPE_IPV4 then 8 else 20)
                  in mem_comp (take n (addr_bytes a)) (take n (addr_bytes b)))"

record net_range =
  nr_LB :: netaddr
  nr_UB :: netaddr

definition range_IsValid :: "net_range \<Rightarrow> bool" where
  "range_IsValid r \<longleftrightarrow> na_type (nr_LB r) = na_type (nr_UB r) \<and> NetComp (nr_LB r) (nr_UB r) < 0"

definition range_NetComp :: "net_range \<Rightarrow> net_range \<Rightarrow> int" where
  "range_NetComp r s =
     (if NetComp (nr_LB r) (nr_LB s) \<noteq> 0 \<or> NetComp (nr_UB r) (nr_UB s) \<noteq> 0 then 1 else 0)"

definition addr_NetMatch :: "netaddr \<Rightarrow> netaddr \<Rightarrow> bool" where
  "addr_NetMatch a b \<longleftrightarrow> NetComp a b = 0"

definition range_NetMatch_from :: "net_range \<Rightarrow> netaddr \<Rightarrow> nat \<Rightarrow> nat \<Rightarrow> bool" where
  "range_NetMatch_from r a start n \<longleftrightarrow>
     na_type (nr_LB r) = na_type a \<and>
     (start = 0 \<or> mem_comp (take start (na_ip (nr_LB r))) (take start (na_ip a)) = 0) \<and>
     mem_comp (take (n - start) (drop start (na_ip (nr_LB r)))) (take (n - start) (drop start (na_ip a))) \<le> 0 \<and>
     mem_comp (take (n - start) (drop start (na_ip (nr_UB r)))) (take (n - start) (drop start (na_ip a))) \<ge> 0"

definition range_NetMatch :: "net_range \<Rightarrow> netaddr \<Rightarrow> bool" where
  "range_NetMatch r a = range_NetMatch_from r a 0 (if na_type (nr_LB r) = NETTYPE_IPV4 then 4 else 16)"

section \<open>Hashes\<close>

record net_hash =
  nh_Hash :: int
  nh_HashIndex :: nat

definition byte_sum :: "byte list \<Rightarrow> int" where
  "byte_sum bs = sum_list (map uint bs)"

definition addr_hash :: "netaddr \<Rightarrow> net_hash" where
  "addr_hash a = \<lparr>nh_Hash = (if na_type a = NETTYPE_IPV4 then byte_sum (take 4 (na_ip a)) else byte_sum (take 16 (na_ip a))) AND 0xFF,
     nh_HashIndex = 0\<rparr>"

text \<open>The loop over the common prefix of the two ends. It stops at the first difference; a valid range has one.\<close>

fun prefix_sum :: "byte list \<Rightarrow> byte list \<Rightarrow> int \<times> nat" where
  "prefix_sum (a # as) (b # bs) =
     (if a = b then let (h, i) = prefix_sum as bs in (uint a + h, Suc i) else (0, 0))"
| "prefix_sum _ _ = (0, 0)"

definition range_hash :: "net_range \<Rightarrow> net_hash" where
  "range_hash r = (let (h, i) = prefix_sum (na_ip (nr_LB r)) (na_ip (nr_UB r))
                   in \<lparr>nh_Hash = h AND 0xFF, nh_HashIndex = i\<rparr>)"

definition MakeHashArray :: "netaddr \<Rightarrow> nat \<times> net_hash list" where
  "MakeHashArray a =
     (let n = (if na_type a = NETTYPE_IPV4 then 4 else 16)
      in (n, map (\<lambda>i. \<lparr>nh_Hash = byte_sum (take i (na_ip a)) AND 0xFF, nh_HashIndex = i mod n\<rparr>) [0..<n + 1]))"

section \<open>The pool\<close>

definition EXPIRES_NEVER :: int where "EXPIRES_NEVER = - 1"
definition REASON_LENGTH :: nat where "REASON_LENGTH = 128"
definition MAX_BANS :: nat where "MAX_BANS = 2048"

record ban_info =
  bi_Expires :: int
  bi_Reason :: cstring
  bi_VerbatimReason :: bool

record 'a ban =
  b_Data :: 'a
  b_Info :: ban_info
  b_NetHash :: net_hash

record 'a ban_pool =
  bp_HashList :: "nat \<Rightarrow> int \<Rightarrow> nat list"
  bp_Bans :: "nat \<Rightarrow> 'a ban"
  bp_Free :: "nat list"
  bp_Used :: "nat list"
  bp_CountUsed :: int

fun InsertUsed :: "(nat \<Rightarrow> int) \<Rightarrow> nat \<Rightarrow> nat list \<Rightarrow> nat list" where
  "InsertUsed expires ban [] = [ban]"
| "InsertUsed expires ban (p # ps) =
     (if expires p = EXPIRES_NEVER \<or> (expires ban \<noteq> EXPIRES_NEVER \<and> expires ban \<le> expires p) then ban # p # ps
      else p # InsertUsed expires ban ps)"

definition expires_at :: "'a ban_pool \<Rightarrow> nat \<Rightarrow> int" where
  "expires_at p s = bi_Expires (b_Info (bp_Bans p s))"

definition hash_bucket :: "'a ban_pool \<Rightarrow> net_hash \<Rightarrow> nat list" where
  "hash_bucket p h = bp_HashList p (nh_HashIndex h) (nh_Hash h)"

definition set_bucket :: "'a ban_pool \<Rightarrow> net_hash \<Rightarrow> nat list \<Rightarrow> 'a ban_pool" where
  "set_bucket p h l = p\<lparr>bp_HashList := (bp_HashList p)(nh_HashIndex h := (bp_HashList p (nh_HashIndex h))(nh_Hash h := l))\<rparr>"

definition bans_Add :: "'a ban_pool \<Rightarrow> 'a \<Rightarrow> ban_info \<Rightarrow> net_hash \<Rightarrow> 'a ban_pool \<times> nat option" where
  "bans_Add p data info h =
     (case bp_Free p of
        [] \<Rightarrow> (p, None)
      | s # free \<Rightarrow>
          let p = p\<lparr>bp_Bans := (bp_Bans p)(s := \<lparr>b_Data = data, b_Info = info, b_NetHash = h\<rparr>), bp_Free := free\<rparr>;
              p = set_bucket p h (s # hash_bucket p h);
              p = p\<lparr>bp_Used := InsertUsed (expires_at p) s (bp_Used p)\<rparr>
          in (p\<lparr>bp_CountUsed := bp_CountUsed p + 1\<rparr>, Some s))"

definition bans_Remove :: "'a ban_pool \<Rightarrow> nat \<Rightarrow> 'a ban_pool" where
  "bans_Remove p s =
     (let h = b_NetHash (bp_Bans p s);
          p = set_bucket p h (remove1 s (hash_bucket p h))
      in p\<lparr>bp_Used := remove1 s (bp_Used p), bp_Free := s # bp_Free p, bp_CountUsed := bp_CountUsed p - 1\<rparr>)"

definition bans_Update :: "'a ban_pool \<Rightarrow> nat \<Rightarrow> ban_info \<Rightarrow> 'a ban_pool" where
  "bans_Update p s info =
     (let p = p\<lparr>bp_Bans := (bp_Bans p)(s := (bp_Bans p s)\<lparr>b_Info := info\<rparr>)\<rparr>
      in p\<lparr>bp_Used := InsertUsed (expires_at p) s (remove1 s (bp_Used p))\<rparr>)"

text \<open>Clearing the array has no effect of its own: entries that are not in use are not read.\<close>

definition bans_Reset :: "'a ban_pool \<Rightarrow> 'a ban_pool" where
  "bans_Reset p = p\<lparr>bp_HashList := (\<lambda>i h. []), bp_Used := [], bp_CountUsed := 0, bp_Free := [0..<MAX_BANS]\<rparr>"

definition bans_First :: "'a ban_pool \<Rightarrow> nat option" where
  "bans_First p = (case bp_Used p of [] \<Rightarrow> None | s # _ \<Rightarrow> Some s)"

definition bans_Find :: "('a \<Rightarrow> 'a \<Rightarrow> int) \<Rightarrow> 'a ban_pool \<Rightarrow> 'a \<Rightarrow> net_hash \<Rightarrow> nat option" where
  "bans_Find cmp p data h = List.find (\<lambda>s. cmp (b_Data (bp_Bans p s)) data = 0) (hash_bucket p h)"

definition bans_Get :: "'a ban_pool \<Rightarrow> int \<Rightarrow> nat option" where
  "bans_Get p i = (if i < 0 \<or> i \<ge> bp_CountUsed p then None
     else if nat i < length (bp_Used p) then Some (bp_Used p ! nat i) else None)"

text \<open>The loop of \<open>CNetBan::Update\<close>. Each round removes an entry in use, so their number is enough fuel.\<close>

definition remove_expired :: "'a ban_pool \<Rightarrow> int \<Rightarrow> 'a ban_pool" where
  "remove_expired p now =
     pop_while (length (bp_Used p)) bans_First (\<lambda>q. case bans_First q of None \<Rightarrow> q | Some s \<Rightarrow> bans_Remove q s)
       (\<lambda>s. expires_at p s \<noteq> EXPIRES_NEVER \<and> expires_at p s < now) p"

section \<open>Banning\<close>

text \<open>\<open>local\<close>: the data matches one of the two localhost addresses.\<close>

definition Ban_in ::
  "('a \<Rightarrow> 'a \<Rightarrow> int) \<Rightarrow> ('a \<Rightarrow> net_hash) \<Rightarrow> ('a \<Rightarrow> bool) \<Rightarrow> 'a ban_pool \<Rightarrow> 'a \<Rightarrow> int \<Rightarrow> cstring \<Rightarrow> bool \<Rightarrow> int \<Rightarrow>
   'a ban_pool \<times> int" where
  "Ban_in cmp hash local p data seconds reason verbatim now =
     (if local data then (p, - 1)
      else
        let stamp = (if seconds > 0 then now + seconds else EXPIRES_NEVER);
            info = \<lparr>bi_Expires = stamp, bi_Reason = str_copy reason REASON_LENGTH, bi_VerbatimReason = verbatim\<rparr>;
            h = hash data
        in case bans_Find cmp p data h of
             Some s \<Rightarrow> (bans_Update p s info, 1)
           | None \<Rightarrow> (case bans_Add p data info h of (p, Some s) \<Rightarrow> (p, 0) | (p, None) \<Rightarrow> (p, - 1)))"

definition Unban_in ::
  "('a \<Rightarrow> 'a \<Rightarrow> int) \<Rightarrow> ('a \<Rightarrow> net_hash) \<Rightarrow> 'a ban_pool \<Rightarrow> 'a \<Rightarrow> 'a ban_pool \<times> int" where
  "Unban_in cmp hash p data =
     (case bans_Find cmp p data (hash data) of Some s \<Rightarrow> (bans_Remove p s, 0) | None \<Rightarrow> (p, - 1))"

record net_ban =
  nb_AddrPool :: "netaddr ban_pool"
  nb_RangePool :: "net_range ban_pool"
  nb_LocalhostIpV4 :: netaddr
  nb_LocalhostIpV6 :: netaddr

text \<open>The localhost addresses come from the resolver.\<close>

definition ban_Init :: "net_ban \<Rightarrow> netaddr \<Rightarrow> netaddr \<Rightarrow> net_ban" where
  "ban_Init b v4 v6 = b\<lparr>nb_AddrPool := bans_Reset (nb_AddrPool b), nb_RangePool := bans_Reset (nb_RangePool b),
     nb_LocalhostIpV4 := v4, nb_LocalhostIpV6 := v6\<rparr>"

definition ban_Update :: "net_ban \<Rightarrow> int \<Rightarrow> net_ban" where
  "ban_Update b now = b\<lparr>nb_AddrPool := remove_expired (nb_AddrPool b) now, nb_RangePool := remove_expired (nb_RangePool b) now\<rparr>"

definition BanAddr :: "net_ban \<Rightarrow> netaddr \<Rightarrow> int \<Rightarrow> cstring \<Rightarrow> bool \<Rightarrow> int \<Rightarrow> net_ban \<times> int" where
  "BanAddr b addr seconds reason verbatim now =
     (let (p, r) = Ban_in NetComp addr_hash
        (\<lambda>d. addr_NetMatch d (nb_LocalhostIpV4 b) \<or> addr_NetMatch d (nb_LocalhostIpV6 b))
        (nb_AddrPool b) addr seconds reason verbatim now
      in (b\<lparr>nb_AddrPool := p\<rparr>, r))"

definition BanRange :: "net_ban \<Rightarrow> net_range \<Rightarrow> int \<Rightarrow> cstring \<Rightarrow> int \<Rightarrow> net_ban \<times> int" where
  "BanRange b r seconds reason now =
     (if range_IsValid r then
        let (p, res) = Ban_in range_NetComp range_hash
          (\<lambda>d. range_NetMatch d (nb_LocalhostIpV4 b) \<or> range_NetMatch d (nb_LocalhostIpV6 b))
          (nb_RangePool b) r seconds reason False now
        in (b\<lparr>nb_RangePool := p\<rparr>, res)
      else (b, - 1))"

definition UnbanByAddr :: "net_ban \<Rightarrow> netaddr \<Rightarrow> net_ban \<times> int" where
  "UnbanByAddr b addr =
     (let (p, r) = Unban_in NetComp addr_hash (nb_AddrPool b) addr in (b\<lparr>nb_AddrPool := p\<rparr>, r))"

definition UnbanByRange :: "net_ban \<Rightarrow> net_range \<Rightarrow> net_ban \<times> int" where
  "UnbanByRange b r =
     (if range_IsValid r then
        let (p, res) = Unban_in range_NetComp range_hash (nb_RangePool b) r in (b\<lparr>nb_RangePool := p\<rparr>, res)
      else (b, - 1))"

definition UnbanByIndex :: "net_ban \<Rightarrow> int \<Rightarrow> net_ban \<times> int" where
  "UnbanByIndex b i =
     (case bans_Get (nb_AddrPool b) i of
        Some s \<Rightarrow> (b\<lparr>nb_AddrPool := bans_Remove (nb_AddrPool b) s\<rparr>, 0)
      | None \<Rightarrow>
          (case bans_Get (nb_RangePool b) (i - bp_CountUsed (nb_AddrPool b)) of
             Some s \<Rightarrow> (b\<lparr>nb_RangePool := bans_Remove (nb_RangePool b) s\<rparr>, 0)
           | None \<Rightarrow> (b, - 1)))"

definition UnbanAll :: "net_ban \<Rightarrow> net_ban" where
  "UnbanAll b = b\<lparr>nb_AddrPool := bans_Reset (nb_AddrPool b), nb_RangePool := bans_Reset (nb_RangePool b)\<rparr>"

section \<open>Looking an address up\<close>

definition plain_addr :: "netaddr \<Rightarrow> netaddr" where
  "plain_addr a =
     (if na_type a = NETTYPE_WEBSOCKET_IPV4 then a\<lparr>na_type := NETTYPE_IPV4\<rparr>
      else if na_type a = NETTYPE_WEBSOCKET_IPV6 then a\<lparr>na_type := NETTYPE_IPV6\<rparr>
      else a)"

text \<open>The loop over the prefixes, the longest first; \<open>i\<close> counts down.\<close>

fun find_range :: "net_range ban_pool \<Rightarrow> netaddr \<Rightarrow> nat \<Rightarrow> net_hash list \<Rightarrow> nat \<Rightarrow> nat option" where
  "find_range p a n hashes 0 = None"
| "find_range p a n hashes (Suc i) =
     (case List.find (\<lambda>s. range_NetMatch_from (b_Data (bp_Bans p s)) a i n) (hash_bucket p (hashes ! i)) of
        Some s \<Rightarrow> Some s
      | None \<Rightarrow> find_range p a n hashes i)"

definition find_ban :: "net_ban \<Rightarrow> netaddr \<Rightarrow> ban_info option" where
  "find_ban b orig =
     (let a = plain_addr orig; (n, hashes) = MakeHashArray a
      in case bans_Find NetComp (nb_AddrPool b) a (hashes ! n) of
           Some s \<Rightarrow> Some (b_Info (bp_Bans (nb_AddrPool b) s))
         | None \<Rightarrow> map_option (\<lambda>s. b_Info (bp_Bans (nb_RangePool b) s)) (find_range (nb_RangePool b) a n hashes n))"

text \<open>The message for a player. \<open>str_format\<close> cuts the text to the buffer and drops a broken character.\<close>

definition player_ban_info :: "ban_info \<Rightarrow> int \<Rightarrow> nat \<Rightarrow> cstring" where
  "player_ban_info i now sz =
     (let buf = cstring_of ''You have been banned'';
          mins = (bi_Expires i - now + 59) div 60;
          text = (if \<not> bi_VerbatimReason i \<and> bi_Expires i \<noteq> EXPIRES_NEVER then
                    if mins \<le> 1 then buf @ cstring_of '' for 1 minute ('' @ bi_Reason i @ cstring_of '')''
                    else buf @ cstring_of '' for '' @ decimal (nat mins) @ cstring_of '' minutes ('' @ bi_Reason i @ cstring_of '')''
                  else buf @ cstring_of '' ('' @ bi_Reason i @ cstring_of '')'')
      in str_utf8_fix_truncation (take (sz - 1) text))"

definition IsBanned :: "net_ban \<Rightarrow> netaddr \<Rightarrow> int \<Rightarrow> nat \<Rightarrow> cstring option" where
  "IsBanned b addr now sz = map_option (\<lambda>i. player_ban_info i now sz) (find_ban b addr)"

section \<open>Comparisons\<close>

lemma lexordp_eq_append:
  "length as = length cs \<Longrightarrow> lexordp_eq (as @ bs) (cs @ ds) \<longleftrightarrow> (if as = cs then lexordp_eq bs ds else lexordp_eq as cs)"
  for as :: "byte list"
  by (induction as cs rule: list_induct2) auto

definition addr_ok :: "netaddr \<Rightarrow> bool" where
  "addr_ok a \<longleftrightarrow> length (na_ip a) = 16 \<and> 0 \<le> na_type a \<and> na_type a < 64"

definition addr_len :: "netaddr \<Rightarrow> nat" where
  "addr_len a = (if na_type a = NETTYPE_IPV4 then 4 else 16)"

text \<open>The bytes of an address that count for a ban.\<close>

definition significant :: "netaddr \<Rightarrow> byte list" where
  "significant a = take (addr_len a) (na_ip a)"

lemma length_significant [simp]: "addr_ok a \<Longrightarrow> length (significant a) = addr_len a"
  by (simp add: significant_def addr_ok_def addr_len_def)

lemma type_bytes:
  assumes "addr_ok a" "addr_ok b"
  shows "take 4 (addr_bytes a) = take 4 (addr_bytes b) \<longleftrightarrow> na_type a = na_type b"
proof -
  have "uint (to_byte (na_type a)) = na_type a" "uint (to_byte (na_type b)) = na_type b"
    using assms by (auto simp: addr_ok_def intro!: uint_to_byte)
  then have "to_byte (na_type a) = to_byte (na_type b) \<Longrightarrow> na_type a = na_type b" by metis
  then show ?thesis by (auto simp: addr_bytes_def)
qed

lemma type_bytes_length: "min (length (addr_bytes a)) 4 = 4"
  by (simp add: addr_bytes_def)

lemma NetComp_eq:
  assumes "addr_ok a" "addr_ok b"
  shows "NetComp a b = (if na_type a = na_type b then mem_comp (significant a) (significant b)
     else mem_comp (take 4 (addr_bytes a)) (take 4 (addr_bytes b)))"
proof -
  have s: "take (4 + n) (addr_bytes c) = take 4 (addr_bytes c) @ take n (na_ip c)" for c n
    unfolding take_add by (simp add: addr_bytes_def)
  have n: "(if na_type a = NETTYPE_IPV4 then 8 else 20) = 4 + addr_len a" by (simp add: addr_len_def)
  show ?thesis
    unfolding NetComp_def Let_def n s
    by (subst mem_comp_append) (auto simp: type_bytes [OF assms] significant_def addr_len_def type_bytes_length simp del: take_append)
qed

lemma NetComp_same:
  assumes "addr_ok a" "addr_ok b"
  shows "NetComp a b = 0 \<longleftrightarrow> na_type a = na_type b \<and> significant a = significant b"
proof (cases "na_type a = na_type b")
  case True
  then show ?thesis using assms by (simp add: NetComp_eq mem_comp_eq addr_len_def)
next
  case False
  then show ?thesis by (simp add: NetComp_eq [OF assms] mem_comp_eq type_bytes_length type_bytes [OF assms])
qed

text \<open>The addresses of a range, in lexicographic order of their bytes.\<close>

definition in_range :: "net_range \<Rightarrow> netaddr \<Rightarrow> bool" where
  "in_range r a \<longleftrightarrow> na_type (nr_LB r) = na_type a \<and> lexordp_eq (significant (nr_LB r)) (significant a) \<and>
     lexordp_eq (significant a) (significant (nr_UB r))"

definition range_ok :: "net_range \<Rightarrow> bool" where
  "range_ok r \<longleftrightarrow> addr_ok (nr_LB r) \<and> addr_ok (nr_UB r) \<and> range_IsValid r"

lemma range_okD:
  assumes "range_ok r"
  shows "addr_ok (nr_LB r)" "addr_ok (nr_UB r)" "na_type (nr_UB r) = na_type (nr_LB r)"
    "addr_len (nr_UB r) = addr_len (nr_LB r)" "significant (nr_LB r) \<noteq> significant (nr_UB r)"
  using assms by (auto simp: range_ok_def range_IsValid_def NetComp_eq addr_len_def mem_comp_eq)

lemma range_NetComp_same:
  assumes "range_ok r" "range_ok s"
  shows "range_NetComp r s = 0 \<longleftrightarrow> na_type (nr_LB r) = na_type (nr_LB s) \<and>
    significant (nr_LB r) = significant (nr_LB s) \<and> significant (nr_UB r) = significant (nr_UB s)"
  using range_okD [OF assms(1)] range_okD [OF assms(2)] by (auto simp: range_NetComp_def NetComp_same)

lemma range_NetMatch_iff:
  assumes "range_ok r" "addr_ok a"
  shows "range_NetMatch r a \<longleftrightarrow> in_range r a"
proof -
  have "addr_len (nr_LB r) = addr_len a" if "na_type (nr_LB r) = na_type a" using that by (simp add: addr_len_def)
  then show ?thesis
    using range_okD [OF assms(1)] assms(2)
    by (auto simp: range_NetMatch_def range_NetMatch_from_def in_range_def mem_comp_le mem_comp_ge addr_ok_def
        simp flip: significant_def addr_len_def) (simp_all add: significant_def mem_comp_le mem_comp_ge)
qed

text \<open>What the hash of a range remembers: its ends agree on so many bytes, and no more.\<close>

lemma prefix_sum_spec:
  "prefix_sum as bs = (h, i) \<Longrightarrow> length as = length bs \<Longrightarrow> as \<noteq> bs \<Longrightarrow>
   i < length as \<and> take i as = take i bs \<and> h = byte_sum (take i as)"
  by (induction as bs arbitrary: h i rule: prefix_sum.induct) (auto simp: byte_sum_def split: if_splits prod.splits)

lemma prefix_sum_take:
  "take n as \<noteq> take n bs \<Longrightarrow> prefix_sum (take n as) (take n bs) = prefix_sum as bs"
proof (induction as bs arbitrary: n rule: prefix_sum.induct)
  case (1 a as b bs)
  then show ?case by (cases n) auto
qed auto

lemma range_hash_spec:
  assumes "range_ok r"
  obtains i where "range_hash r = \<lparr>nh_Hash = byte_sum (take i (na_ip (nr_LB r))) AND 0xFF, nh_HashIndex = i\<rparr>"
    "i < addr_len (nr_LB r)" "take i (na_ip (nr_LB r)) = take i (na_ip (nr_UB r))"
proof -
  let ?l = "significant (nr_LB r)" and ?u = "significant (nr_UB r)"
  obtain h i where hi: "prefix_sum ?l ?u = (h, i)" by (cases "prefix_sum ?l ?u")
  from prefix_sum_spec [OF this] range_okD [OF assms]
  have i: "i < addr_len (nr_LB r)" "take i ?l = take i ?u" "h = byte_sum (take i ?l)" by auto
  have e: "prefix_sum (na_ip (nr_LB r)) (na_ip (nr_UB r)) = (h, i)"
    using hi range_okD [OF assms] prefix_sum_take [of "addr_len (nr_LB r)" "na_ip (nr_LB r)" "na_ip (nr_UB r)"]
    by (simp add: significant_def)
  have t: "take i ?l = take i (na_ip (nr_LB r))" "take i ?u = take i (na_ip (nr_UB r))"
    using i(1) range_okD(4) [OF assms] by (simp_all add: significant_def)
  show thesis by (rule that [of i]) (use e i t in \<open>simp_all add: range_hash_def\<close>)
qed

lemma sandwich:
  fixes a :: "byte list"
  assumes "lexordp_eq l a" "lexordp_eq a u" "length l = length a" "length u = length a" "take i l = take i u"
  shows "take i a = take i l"
proof -
  have "lexordp_eq (take i x) (take i y)" if "lexordp_eq x y" "length x = length y" for x y :: "byte list"
    using that lexordp_eq_append [of "take i x" "take i y" "drop i x" "drop i y"]
    by (auto split: if_splits simp: lexordp_eq_refl)
  then show ?thesis using assms by (metis lexordp_eq_antisym)
qed

lemma range_NetMatch_from_iff:
  assumes r: "range_ok r" and a: "addr_ok a" and i: "i < addr_len (nr_LB r)"
    and p: "take i (na_ip (nr_LB r)) = take i (na_ip (nr_UB r))" and n: "n = addr_len a"
  shows "range_NetMatch_from r a i n \<longleftrightarrow> in_range r a"
proof (cases "na_type (nr_LB r) = na_type a")
  case False
  then show ?thesis by (simp add: range_NetMatch_from_def in_range_def)
next
  case True
  then have len: "addr_len (nr_LB r) = n" "addr_len (nr_UB r) = n" using range_okD [OF r] n by (simp_all add: addr_len_def)
  have l16: "length (na_ip (nr_LB r)) = 16" "length (na_ip (nr_UB r)) = 16" "length (na_ip a) = 16" "n \<le> 16"
    using range_okD [OF r] a n by (simp_all add: addr_ok_def addr_len_def)
  have s: "take n x = take i x @ take (n - i) (drop i x)" for x :: "byte list"
    using i len by (simp add: take_add [symmetric])
  have lo: "lexordp_eq (significant (nr_LB r)) (significant a) \<longleftrightarrow>
      (if take i (na_ip (nr_LB r)) = take i (na_ip a)
       then lexordp_eq (take (n - i) (drop i (na_ip (nr_LB r)))) (take (n - i) (drop i (na_ip a)))
       else lexordp_eq (take i (na_ip (nr_LB r))) (take i (na_ip a)))"
    unfolding significant_def len n [symmetric] s [of "na_ip (nr_LB r)"] s [of "na_ip a"]
    by (rule lexordp_eq_append) (use l16 in simp)
  have hi: "lexordp_eq (significant a) (significant (nr_UB r)) \<longleftrightarrow>
      (if take i (na_ip a) = take i (na_ip (nr_UB r))
       then lexordp_eq (take (n - i) (drop i (na_ip a))) (take (n - i) (drop i (na_ip (nr_UB r))))
       else lexordp_eq (take i (na_ip a)) (take i (na_ip (nr_UB r))))"
    unfolding significant_def len n [symmetric] s [of "na_ip (nr_UB r)"] s [of "na_ip a"]
    by (rule lexordp_eq_append) (use l16 in simp)
  have m: "range_NetMatch_from r a i n \<longleftrightarrow> take i (na_ip (nr_LB r)) = take i (na_ip a) \<and>
      lexordp_eq (take (n - i) (drop i (na_ip (nr_LB r)))) (take (n - i) (drop i (na_ip a))) \<and>
      lexordp_eq (take (n - i) (drop i (na_ip a))) (take (n - i) (drop i (na_ip (nr_UB r))))"
    using True l16 by (auto simp: range_NetMatch_from_def mem_comp_le mem_comp_ge mem_comp_eq)
  have "take i (na_ip (nr_LB r)) = take i (na_ip a)" if "in_range r a"
  proof -
    have "take i (significant a) = take i (significant (nr_LB r))"
      by (rule sandwich [where u = "significant (nr_UB r)"])
         (use that range_okD [OF r] a p i len n l16 in \<open>auto simp: in_range_def significant_def min_def\<close>)
    then show ?thesis using i len n by (simp add: significant_def)
  qed
  then show ?thesis using True m lo hi p by (auto simp: in_range_def)
qed

end
