(* ===== verification/BanSafety.thy ===== *)
theory BanSafety
  imports NetBan
begin

text \<open>
  Correctness of the ban list: the invariant of a pool, proved once for addresses and ranges in the locale
  \<open>ban_table\<close>, and the agreement of the hashed look-up with a search through all records.
\<close>

section \<open>Interface: a table of bans\<close>

text \<open>
  \<open>cmp\<close> identifies data, \<open>hash\<close> does not tell identified data apart. The lemmas hold for both pools.
\<close>

definition data_at :: "'a ban_pool \<Rightarrow> nat \<Rightarrow> 'a" where
  "data_at p s = b_Data (bp_Bans p s)"

definition ban_records :: "'a ban_pool \<Rightarrow> ('a \<times> ban_info) list" where
  "ban_records p = map (\<lambda>s. (data_at p s, b_Info (bp_Bans p s))) (bp_Used p)"

definition earlier :: "int \<Rightarrow> int \<Rightarrow> bool" where
  "earlier e f \<longleftrightarrow> f = EXPIRES_NEVER \<or> e \<noteq> EXPIRES_NEVER \<and> e \<le> f"

lemma earlier_trans: "earlier e f \<Longrightarrow> earlier f g \<Longrightarrow> earlier e g"
  by (auto simp: earlier_def)

lemma earlier_linear: "\<not> earlier e f \<Longrightarrow> earlier f e"
  by (auto simp: earlier_def)

lemma InsertUsed_set [simp]: "set (InsertUsed ex s l) = insert s (set l)"
  by (induction l) auto

lemma InsertUsed_distinct [simp]: "distinct (InsertUsed ex s l) \<longleftrightarrow> s \<notin> set l \<and> distinct l"
  by (induction l) auto

lemma InsertUsed_length [simp]: "length (InsertUsed ex s l) = Suc (length l)"
  by (induction l) auto

lemma InsertUsed_sorted:
  "sorted_wrt earlier (map ex l) \<Longrightarrow> sorted_wrt earlier (map ex (InsertUsed ex s l))"
proof (induction l)
  case (Cons q l)
  show ?case
  proof (cases "earlier (ex s) (ex q)")
    case True
    then show ?thesis using Cons.prems by (auto simp: earlier_def intro: earlier_trans)
  next
    case False
    then have "earlier (ex q) (ex s)" by (rule earlier_linear)
    then show ?thesis using Cons False by (auto simp: earlier_def)
  qed
qed simp

lemma length_remove1_int: "s \<in> set l \<Longrightarrow> int (length (remove1 s l)) = int (length l) - 1"
  by (induction l) auto

locale ban_table =
  fixes cmp :: "'a \<Rightarrow> 'a \<Rightarrow> int" and hash :: "'a \<Rightarrow> net_hash" and valid :: "'a \<Rightarrow> bool"
  assumes cmp_refl: "valid x \<Longrightarrow> cmp x x = 0"
    and cmp_sym: "valid x \<Longrightarrow> valid y \<Longrightarrow> cmp x y = 0 \<Longrightarrow> cmp y x = 0"
    and cmp_trans: "valid x \<Longrightarrow> valid y \<Longrightarrow> valid z \<Longrightarrow> cmp x y = 0 \<Longrightarrow> cmp y z = 0 \<Longrightarrow> cmp x z = 0"
    and cmp_hash: "valid x \<Longrightarrow> valid y \<Longrightarrow> cmp x y = 0 \<Longrightarrow> hash x = hash y"
begin

definition pool_ok :: "'a ban_pool \<Rightarrow> bool" where
  "pool_ok p \<longleftrightarrow> distinct (bp_Used p @ bp_Free p) \<and> set (bp_Used p @ bp_Free p) = {..<MAX_BANS} \<and>
     bp_CountUsed p = int (length (bp_Used p)) \<and>
     (\<forall>s\<in>set (bp_Used p). valid (data_at p s) \<and> b_NetHash (bp_Bans p s) = hash (data_at p s)) \<and>
     (\<forall>h. distinct (hash_bucket p h) \<and> set (hash_bucket p h) = {s\<in>set (bp_Used p). b_NetHash (bp_Bans p s) = h}) \<and>
     sorted_wrt earlier (map (expires_at p) (bp_Used p)) \<and>
     (\<forall>s\<in>set (bp_Used p). \<forall>t\<in>set (bp_Used p). cmp (data_at p s) (data_at p t) = 0 \<longrightarrow> s = t)"

lemma pool_okD:
  assumes "pool_ok p"
  shows "distinct (bp_Used p)" "distinct (bp_Free p)" "set (bp_Used p) \<inter> set (bp_Free p) = {}"
    "set (bp_Used p) \<union> set (bp_Free p) = {..<MAX_BANS}" "bp_CountUsed p = int (length (bp_Used p))"
    "\<And>s. s \<in> set (bp_Used p) \<Longrightarrow> valid (data_at p s)"
    "\<And>s. s \<in> set (bp_Used p) \<Longrightarrow> b_NetHash (bp_Bans p s) = hash (data_at p s)"
    "\<And>h. distinct (hash_bucket p h)" "\<And>h. set (hash_bucket p h) = {s\<in>set (bp_Used p). b_NetHash (bp_Bans p s) = h}"
    "sorted_wrt earlier (map (expires_at p) (bp_Used p))"
    "\<And>s t. s \<in> set (bp_Used p) \<Longrightarrow> t \<in> set (bp_Used p) \<Longrightarrow> cmp (data_at p s) (data_at p t) = 0 \<Longrightarrow> s = t"
  using assms by (auto simp: pool_ok_def)

lemma Reset_ok: "pool_ok (bans_Reset p)" "ban_records (bans_Reset p) = []"
  by (auto simp: pool_ok_def bans_Reset_def hash_bucket_def ban_records_def)

lemma Find_Some:
  assumes "pool_ok p" "bans_Find cmp p d h = Some s"
  shows "s \<in> set (bp_Used p) \<and> cmp (data_at p s) d = 0"
proof -
  from assms(2) have "s \<in> set (hash_bucket p h)" "cmp (data_at p s) d = 0"
    by (auto simp: bans_Find_def find_Some_iff data_at_def)
  then show ?thesis using pool_okD(9) [OF assms(1), of h] by simp
qed

lemma Find_None:
  assumes "pool_ok p" "valid d" "bans_Find cmp p d (hash d) = None" "s \<in> set (bp_Used p)"
  shows "cmp (data_at p s) d \<noteq> 0"
proof
  assume c: "cmp (data_at p s) d = 0"
  then have "s \<in> set (hash_bucket p (hash d))"
    using assms pool_okD(6,7,9) [OF assms(1)] cmp_hash by auto
  then show False using assms(3) c by (auto simp: bans_Find_def find_None_iff data_at_def)
qed

lemma Find_iff:
  assumes "pool_ok p" "valid d"
  shows "bans_Find cmp p d (hash d) \<noteq> None \<longleftrightarrow> (\<exists>r\<in>set (ban_records p). cmp (fst r) d = 0)"
  using Find_None [OF assms] Find_Some [OF assms(1)] by (fastforce simp: ban_records_def)

lemma Remove_ok:
  assumes "pool_ok p" "s \<in> set (bp_Used p)"
  shows "pool_ok (bans_Remove p s)" "bp_Used (bans_Remove p s) = remove1 s (bp_Used p)"
    "bp_Bans (bans_Remove p s) = bp_Bans p"
proof -
  let ?q = "bans_Remove p s"
  note d = pool_okD [OF assms(1)]
  have f: "bp_Used ?q = remove1 s (bp_Used p)" "bp_Bans ?q = bp_Bans p" "bp_Free ?q = s # bp_Free p"
    "bp_CountUsed ?q = bp_CountUsed p - 1" "data_at ?q = data_at p" "expires_at ?q = expires_at p"
    by (auto simp: bans_Remove_def set_bucket_def Let_def data_at_def expires_at_def fun_eq_iff)
  have b: "hash_bucket ?q h = (if h = b_NetHash (bp_Bans p s) then remove1 s (hash_bucket p h) else hash_bucket p h)" for h
    by (cases h; cases "b_NetHash (bp_Bans p s)")
       (auto simp: bans_Remove_def set_bucket_def Let_def hash_bucket_def)
  have "map (expires_at p) (remove1 s (bp_Used p)) = map (expires_at p) (filter (\<lambda>t. t \<noteq> s) (bp_Used p))"
    using d(1) by (simp add: distinct_remove1_removeAll removeAll_filter_not_eq eq_commute)
  then have so: "sorted_wrt earlier (map (expires_at p) (remove1 s (bp_Used p)))"
    using d(10) by (simp add: sorted_wrt_map sorted_wrt_filter)
  have len: "int (length (remove1 s (bp_Used p))) = int (length (bp_Used p)) - 1"
    by (rule length_remove1_int [OF assms(2)])
  have u: "set (remove1 s (bp_Used p)) = set (bp_Used p) - {s}" using d(1) by simp
  have c: "set (bp_Used p) - {s} \<union> insert s (set (bp_Free p)) = {..<MAX_BANS}"
    using d(4) assms(2) by auto
  show "pool_ok ?q" unfolding pool_ok_def f b set_append u using c d so len assms(2)
    by (auto simp: u)
  show "bp_Used ?q = remove1 s (bp_Used p)" "bp_Bans ?q = bp_Bans p" by (fact f)+
qed

lemma Add_ok:
  assumes "pool_ok p" "valid d" "\<And>s. s \<in> set (bp_Used p) \<Longrightarrow> cmp (data_at p s) d \<noteq> 0"
    "bans_Add p d info (hash d) = (q, Some s)"
  shows "pool_ok q" "set (ban_records q) = insert (d, info) (set (ban_records p))"
proof -
  note o = pool_okD [OF assms(1)]
  obtain free where fr: "bp_Free p = s # free" using assms(4) by (auto simp: bans_Add_def Let_def split: list.splits)
  let ?b = "(bp_Bans p)(s := \<lparr>b_Data = d, b_Info = info, b_NetHash = hash d\<rparr>)"
  have s: "s \<notin> set (bp_Used p)" "s < MAX_BANS" "distinct free" "s \<notin> set free"
    using o(2,3,4) fr by auto
  define ex where "ex = (\<lambda>t. if t = s then bi_Expires info else expires_at p t)"
  have q: "bp_Used q = InsertUsed ex s (bp_Used p)" "bp_Bans q = ?b" "bp_Free q = free" "bp_CountUsed q = bp_CountUsed p + 1"
    "expires_at q = ex" "data_at q = (\<lambda>t. if t = s then d else data_at p t)"
    using assms(4) fr by (auto simp: bans_Add_def Let_def set_bucket_def ex_def expires_at_def [abs_def] data_at_def fun_eq_iff if_distrib
      cong: if_cong intro!: arg_cong [where f = "\<lambda>e. InsertUsed e s (bp_Used p)"])
  have b: "hash_bucket q h = (if h = hash d then s # hash_bucket p h else hash_bucket p h)" for h
    using assms(4) fr by (cases h; cases "hash d") (auto simp: bans_Add_def set_bucket_def Let_def hash_bucket_def)
  have m: "map ex (bp_Used p) = map (expires_at p) (bp_Used p)" using s(1) by (auto simp: ex_def)
  have so: "sorted_wrt earlier (map ex (InsertUsed ex s (bp_Used p)))"
    by (rule InsertUsed_sorted) (simp only: m o(10))
  have sym: "cmp d (data_at p t) \<noteq> 0" if "t \<in> set (bp_Used p)" for t
    using assms(3) [OF that] cmp_sym [OF assms(2) o(6) [OF that]] by blast
  show "pool_ok q" unfolding pool_ok_def q b set_append
    using o so s fr assms(2) sym assms(3) by (auto simp: cmp_refl)
  show "set (ban_records q) = insert (d, info) (set (ban_records p))"
    using s(1) by (auto simp: ban_records_def q)
qed

lemma Update_ok:
  assumes "pool_ok p" "s \<in> set (bp_Used p)"
  shows "pool_ok (bans_Update p s info)"
    "set (ban_records (bans_Update p s info)) =
     insert (data_at p s, info) {r\<in>set (ban_records p). cmp (fst r) (data_at p s) \<noteq> 0}"
proof -
  let ?q = "bans_Update p s info"
  note o = pool_okD [OF assms(1)]
  define ex where "ex = (\<lambda>t. if t = s then bi_Expires info else expires_at p t)"
  define rest where "rest = remove1 s (bp_Used p)"
  have q: "bp_Used ?q = InsertUsed ex s rest" "bp_Free ?q = bp_Free p" "bp_CountUsed ?q = bp_CountUsed p"
    "expires_at ?q = ex" "data_at ?q = data_at p" "hash_bucket ?q = hash_bucket p"
    "b_NetHash (bp_Bans ?q t) = b_NetHash (bp_Bans p t)"
    "b_Info (bp_Bans ?q t) = (if t = s then info else b_Info (bp_Bans p t))" for t
    by (auto simp: bans_Update_def Let_def ex_def rest_def expires_at_def [abs_def] data_at_def hash_bucket_def fun_eq_iff if_distrib
      cong: if_cong intro!: arg_cong [where f = "\<lambda>e. InsertUsed e s rest"])
  have r: "set rest = set (bp_Used p) - {s}" "distinct rest" "s \<notin> set rest" "int (length rest) + 1 = int (length (bp_Used p))"
    using o(1) length_remove1_int [OF assms(2)] by (auto simp: rest_def)
  have "map ex rest = map (expires_at p) (filter (\<lambda>t. t \<noteq> s) (bp_Used p))"
    using o(1) by (auto simp: rest_def ex_def distinct_remove1_removeAll removeAll_filter_not_eq eq_commute)
  then have "sorted_wrt earlier (map ex rest)"
    using o(10) by (simp add: sorted_wrt_map sorted_wrt_filter)
  then have so: "sorted_wrt earlier (map ex (InsertUsed ex s rest))" by (rule InsertUsed_sorted)
  have u: "insert s (set (bp_Used p) - {s}) = set (bp_Used p)" using assms(2) by auto
  show "pool_ok ?q" unfolding pool_ok_def q set_append InsertUsed_set r u
    using o so r assms(2) by auto
  have same: "cmp (data_at p t) (data_at p s) = 0 \<longleftrightarrow> t = s" if "t \<in> set (bp_Used p)" for t
    using o(11) [OF that assms(2)] cmp_refl [OF o(6) [OF assms(2)]] by blast
  show "set (ban_records ?q) = insert (data_at p s, info) {r\<in>set (ban_records p). cmp (fst r) (data_at p s) \<noteq> 0}"
    using r(1) u by (auto simp: ban_records_def q same)
qed

lemma Remove_records:
  assumes "pool_ok p" "s \<in> set (bp_Used p)"
  shows "set (ban_records (bans_Remove p s)) = {r\<in>set (ban_records p). cmp (fst r) (data_at p s) \<noteq> 0}"
proof -
  note o = pool_okD [OF assms(1)]
  have same: "cmp (data_at p t) (data_at p s) = 0 \<longleftrightarrow> t = s" if "t \<in> set (bp_Used p)" for t
    using o(11) [OF that assms(2)] cmp_refl [OF o(6) [OF assms(2)]] by blast
  have d: "data_at (bans_Remove p s) = data_at p" using Remove_ok(3) [OF assms] by (simp add: data_at_def fun_eq_iff)
  show ?thesis using o(1) by (auto simp: ban_records_def Remove_ok [OF assms] d same)
qed

lemma same_as:
  assumes "valid x" "valid y" "valid z" "cmp y z = 0"
  shows "cmp x y = 0 \<longleftrightarrow> cmp x z = 0"
  using assms cmp_trans cmp_sym by meson

lemma records_valid: "pool_ok p \<Longrightarrow> r \<in> set (ban_records p) \<Longrightarrow> valid (fst r)"
  using pool_okD(6) by (auto simp: ban_records_def)

text \<open>A ban replaces the records of the same data; when it fails nothing changes.\<close>

lemma Ban_in_ok:
  assumes "pool_ok p" "valid d" "Ban_in cmp hash local p d seconds reason verbatim now = (q, res)"
  shows "pool_ok q \<and> (res = - 1 \<and> q = p \<or>
    \<not> local d \<and> (\<exists>d'. valid d' \<and> cmp d' d = 0 \<and> set (ban_records q) =
      insert (d', \<lparr>bi_Expires = (if seconds > 0 then now + seconds else EXPIRES_NEVER), bi_Reason = str_copy reason REASON_LENGTH,
                 bi_VerbatimReason = verbatim\<rparr>) {r\<in>set (ban_records p). cmp (fst r) d \<noteq> 0}))"
proof (cases "local d")
  case True
  then show ?thesis using assms by (simp add: Ban_in_def)
next
  case False
  let ?i = "\<lparr>bi_Expires = (if seconds > 0 then now + seconds else EXPIRES_NEVER), bi_Reason = str_copy reason REASON_LENGTH,
                 bi_VerbatimReason = verbatim\<rparr>"
  show ?thesis
  proof (cases "bans_Find cmp p d (hash d)")
    case (Some s)
    from Find_Some [OF assms(1) Some] have s: "s \<in> set (bp_Used p)" "cmp (data_at p s) d = 0" by auto
    have v: "valid (data_at p s)" using pool_okD(6) [OF assms(1) s(1)] .
    have "{r\<in>set (ban_records p). cmp (fst r) (data_at p s) \<noteq> 0} = {r\<in>set (ban_records p). cmp (fst r) d \<noteq> 0}"
      using same_as [OF _ v assms(2) s(2)] records_valid [OF assms(1)] by auto
    moreover have "q = bans_Update p s ?i" using assms(3) Some False by (simp add: Ban_in_def Let_def)
    ultimately show ?thesis using Update_ok [OF assms(1) s(1), of ?i] s v False by auto
  next
    case None
    have n: "cmp (data_at p s) d \<noteq> 0" if "s \<in> set (bp_Used p)" for s
      using Find_None [OF assms(1,2) None that] .
    then have e: "{r\<in>set (ban_records p). cmp (fst r) d \<noteq> 0} = set (ban_records p)" by (auto simp: ban_records_def)
    show ?thesis
    proof (cases "snd (bans_Add p d ?i (hash d))")
      case None
      then have "res = - 1 \<and> q = p"
        using assms(3) False \<open>bans_Find cmp p d (hash d) = None\<close>
        by (auto simp: Ban_in_def Let_def bans_Add_def split: list.splits)
      then show ?thesis using assms(1) by simp
    next
      case (Some s)
      then have a: "bans_Add p d ?i (hash d) = (q, Some s)"
        using assms(3) False \<open>bans_Find cmp p d (hash d) = None\<close>
        by (cases "bans_Add p d ?i (hash d)") (auto simp: Ban_in_def Let_def)
      show ?thesis using Add_ok [OF assms(1,2) n a] e False assms(2) cmp_refl [OF assms(2)] by auto
    qed
  qed
qed

lemma Unban_in_ok:
  assumes "pool_ok p" "valid d"
  shows "pool_ok (fst (Unban_in cmp hash p d))"
    "set (ban_records (fst (Unban_in cmp hash p d))) = {r\<in>set (ban_records p). cmp (fst r) d \<noteq> 0}"
proof -
  have "pool_ok (fst (Unban_in cmp hash p d)) \<and>
    set (ban_records (fst (Unban_in cmp hash p d))) = {r\<in>set (ban_records p). cmp (fst r) d \<noteq> 0}"
  proof (cases "bans_Find cmp p d (hash d)")
    case (Some s)
    from Find_Some [OF assms(1) Some] have s: "s \<in> set (bp_Used p)" "cmp (data_at p s) d = 0" by auto
    have "{r\<in>set (ban_records p). cmp (fst r) (data_at p s) \<noteq> 0} = {r\<in>set (ban_records p). cmp (fst r) d \<noteq> 0}"
      using same_as [OF _ pool_okD(6) [OF assms(1) s(1)] assms(2) s(2)] records_valid [OF assms(1)] by auto
    then show ?thesis using Remove_ok [OF assms(1) s(1)] Remove_records [OF assms(1) s(1)] Some by (simp add: Unban_in_def)
  next
    case None
    then show ?thesis using Find_None [OF assms None] assms(1) by (auto simp: Unban_in_def ban_records_def)
  qed
  then show "pool_ok (fst (Unban_in cmp hash p d))"
    "set (ban_records (fst (Unban_in cmp hash p d))) = {r\<in>set (ban_records p). cmp (fst r) d \<noteq> 0}" by auto
qed

lemma Get_used: "pool_ok p \<Longrightarrow> bans_Get p i = Some s \<Longrightarrow> s \<in> set (bp_Used p)"
  by (auto simp: bans_Get_def split: if_splits)

lemma expire_loop:
  "pool_ok p \<Longrightarrow> length (bp_Used p) \<le> n \<Longrightarrow>
   (let q = pop_while n bans_First (\<lambda>q. case bans_First q of None \<Rightarrow> q | Some s \<Rightarrow> bans_Remove q s) P p
    in pool_ok q \<and> bp_Bans q = bp_Bans p \<and> bp_Used q = dropWhile P (bp_Used p))"
proof (induction n arbitrary: p)
  case (Suc n)
  show ?case
  proof (cases "bp_Used p")
    case Nil
    then show ?thesis using Suc.prems by (simp add: bans_First_def)
  next
    case (Cons s ss)
    then have u: "bp_Used (bans_Remove p s) = ss" "bp_Bans (bans_Remove p s) = bp_Bans p" "pool_ok (bans_Remove p s)"
      using Remove_ok [OF Suc.prems(1), of s] by auto
    show ?thesis
      using Suc.IH [OF u(3)] Suc.prems u(1,2) Cons by (simp add: bans_First_def Let_def)
  qed
qed simp

lemma expire_ok:
  assumes "pool_ok p"
  shows "pool_ok (remove_expired p now)"
    "ban_records (remove_expired p now) =
     filter (\<lambda>r. bi_Expires (snd r) = EXPIRES_NEVER \<or> now \<le> bi_Expires (snd r)) (ban_records p)"
proof -
  let ?P = "\<lambda>s. expires_at p s \<noteq> EXPIRES_NEVER \<and> expires_at p s < now"
  have l: "pool_ok (remove_expired p now)" "bp_Bans (remove_expired p now) = bp_Bans p"
    "bp_Used (remove_expired p now) = dropWhile ?P (bp_Used p)"
    using expire_loop [OF assms, of "length (bp_Used p)" ?P] by (simp_all add: remove_expired_def Let_def)
  have "dropWhile ?P us = filter (\<lambda>s. \<not> ?P s) us" if "sorted_wrt earlier (map (expires_at p) us)" for us
    using that
  proof (induction us)
    case (Cons u us)
    then have "\<not> ?P u \<Longrightarrow> filter (\<lambda>s. \<not> ?P s) us = us"
      by (intro filter_True) (auto simp: earlier_def)
    then show ?case using Cons by auto
  qed simp
  from this [OF pool_okD(10) [OF assms]] l show "pool_ok (remove_expired p now)"
    "ban_records (remove_expired p now) =
     filter (\<lambda>r. bi_Expires (snd r) = EXPIRES_NEVER \<or> now \<le> bi_Expires (snd r)) (ban_records p)"
    by (auto simp: ban_records_def filter_map comp_def data_at_def expires_at_def not_less)
qed

end

interpretation addr_bans: ban_table NetComp addr_hash addr_ok
  by unfold_locales
     (auto simp: NetComp_same addr_hash_def significant_def addr_len_def split: if_splits)

lemma range_hash_cong:
  assumes "range_ok r" "range_ok s" "range_NetComp r s = 0"
  shows "range_hash r = range_hash s"
proof -
  have e: "significant (nr_LB r) = significant (nr_LB s)" "significant (nr_UB r) = significant (nr_UB s)"
    using range_NetComp_same [OF assms(1,2)] assms(3) by auto
  have "prefix_sum (na_ip (nr_LB x)) (na_ip (nr_UB x)) = prefix_sum (significant (nr_LB x)) (significant (nr_UB x))"
    if "range_ok x" for x
    using range_okD [OF that] prefix_sum_take [of "addr_len (nr_LB x)" "na_ip (nr_LB x)" "na_ip (nr_UB x)"]
    by (simp add: significant_def)
  with assms e show ?thesis by (simp add: range_hash_def)
qed

interpretation range_bans: ban_table range_NetComp range_hash range_ok
  by unfold_locales (auto simp: range_NetComp_same intro: range_hash_cong)

section \<open>The whole ban list\<close>

definition is_local :: "net_ban \<Rightarrow> netaddr \<Rightarrow> bool" where
  "is_local b a \<longleftrightarrow> a = nb_LocalhostIpV4 b \<or> a = nb_LocalhostIpV6 b"

definition ban_ok :: "net_ban \<Rightarrow> bool" where
  "ban_ok b \<longleftrightarrow> addr_bans.pool_ok (nb_AddrPool b) \<and> range_bans.pool_ok (nb_RangePool b) \<and>
     addr_ok (nb_LocalhostIpV4 b) \<and> addr_ok (nb_LocalhostIpV6 b) \<and>
     (\<forall>r\<in>set (ban_records (nb_AddrPool b)). \<forall>a. is_local b a \<longrightarrow> NetComp (fst r) a \<noteq> 0) \<and>
     (\<forall>r\<in>set (ban_records (nb_RangePool b)). \<forall>a. is_local b a \<longrightarrow> \<not> in_range (fst r) a)"

text \<open>The records that hold for an address: those of the address itself and the ranges it lies in.\<close>

definition banned_by :: "net_ban \<Rightarrow> netaddr \<Rightarrow> ban_info list" where
  "banned_by b a = map snd (filter (\<lambda>r. NetComp (fst r) (plain_addr a) = 0) (ban_records (nb_AddrPool b))) @
     map snd (filter (\<lambda>r. in_range (fst r) (plain_addr a)) (ban_records (nb_RangePool b)))"

lemma plain_addr_ok: "addr_ok a \<Longrightarrow> addr_ok (plain_addr a)"
  by (simp add: plain_addr_def addr_ok_def NETTYPE_IPV4_def NETTYPE_IPV6_def)

lemma bucket_range:
  assumes ok: "range_bans.pool_ok p" and a: "addr_ok a" and i: "i < addr_len a"
    and h: "h = \<lparr>nh_Hash = byte_sum (take i (na_ip a)) AND 0xFF, nh_HashIndex = i\<rparr>" and s: "s \<in> set (hash_bucket p h)"
  shows "s \<in> set (bp_Used p) \<and> (range_NetMatch_from (data_at p s) a i (addr_len a) \<longleftrightarrow> in_range (data_at p s) a)"
proof -
  note o = range_bans.pool_okD [OF ok]
  have u: "s \<in> set (bp_Used p)" "range_hash (data_at p s) = h" using s o(7,9) by auto
  obtain j where j: "range_hash (data_at p s) = \<lparr>nh_Hash = byte_sum (take j (na_ip (nr_LB (data_at p s)))) AND 0xFF, nh_HashIndex = j\<rparr>"
    "j < addr_len (nr_LB (data_at p s))"
    "take j (na_ip (nr_LB (data_at p s))) = take j (na_ip (nr_UB (data_at p s)))"
    by (rule range_hash_spec [OF o(6) [OF u(1)]])
  have "j = i" using j(1) u(2) h by simp
  with j range_NetMatch_from_iff [OF o(6) [OF u(1)] a j(2,3) refl] u(1) show ?thesis by simp
qed

lemma range_bucket:
  assumes r: "range_ok r" and a: "addr_ok a" and m: "in_range r a"
  obtains i where "i < addr_len a" "range_hash r = \<lparr>nh_Hash = byte_sum (take i (na_ip a)) AND 0xFF, nh_HashIndex = i\<rparr>"
proof -
  obtain i where i: "range_hash r = \<lparr>nh_Hash = byte_sum (take i (na_ip (nr_LB r))) AND 0xFF, nh_HashIndex = i\<rparr>"
    "i < addr_len (nr_LB r)" "take i (na_ip (nr_LB r)) = take i (na_ip (nr_UB r))"
    by (rule range_hash_spec [OF r])
  have len: "addr_len (nr_LB r) = addr_len a" "addr_len (nr_UB r) = addr_len a"
    using m range_okD [OF r] by (auto simp: in_range_def addr_len_def)
  have "take i (significant a) = take i (significant (nr_LB r))"
    by (rule sandwich [where u = "significant (nr_UB r)"])
       (use m range_okD [OF r] a len i in \<open>auto simp: in_range_def significant_def min_def addr_ok_def\<close>)
  then have "take i (na_ip a) = take i (na_ip (nr_LB r))" using i(2) len by (simp add: significant_def)
  with i len show thesis by (intro that) auto
qed

lemma find_range_spec:
  assumes ok: "range_bans.pool_ok p" and a: "addr_ok a" and n: "n = addr_len a"
    and hs: "\<And>i. i < n \<Longrightarrow> hs ! i = \<lparr>nh_Hash = byte_sum (take i (na_ip a)) AND 0xFF, nh_HashIndex = i\<rparr>"
  shows "k \<le> n \<Longrightarrow> case find_range p a n hs k of
      Some s \<Rightarrow> s \<in> set (bp_Used p) \<and> in_range (data_at p s) a
    | None \<Rightarrow> \<forall>i<k. \<forall>s\<in>set (hash_bucket p (hs ! i)). \<not> in_range (data_at p s) a"
proof (induction k)
  case (Suc k)
  then have k: "k < addr_len a" using n by simp
  note b = bucket_range [OF ok a k hs]
  show ?case
  proof (cases "List.find (\<lambda>s. range_NetMatch_from (b_Data (bp_Bans p s)) a k n) (hash_bucket p (hs ! k))")
    case None
    then have "\<not> in_range (data_at p s) a" if "s \<in> set (hash_bucket p (hs ! k))" for s
      using b [OF _ that] that n k by (auto simp: find_None_iff data_at_def)
    then show ?thesis using Suc None by (auto simp: less_Suc_eq split: option.splits)
  next
    case (Some s)
    then have "s \<in> set (hash_bucket p (hs ! k))" "range_NetMatch_from (data_at p s) a k n"
      by (auto simp: find_Some_iff data_at_def)
    then show ?thesis using b n k Some by simp
  qed
qed simp

lemma in_records:
  "s \<in> set (bp_Used p) \<Longrightarrow> P (data_at p s) \<Longrightarrow> b_Info (bp_Bans p s) \<in> set (map snd (filter (\<lambda>r. P (fst r)) (ban_records p)))"
  by (force simp: ban_records_def)

lemma find_ban_spec:
  assumes ok: "ban_ok b" and a: "addr_ok addr"
  shows "case find_ban b addr of None \<Rightarrow> banned_by b addr = [] | Some i \<Rightarrow> i \<in> set (banned_by b addr)"
proof -
  let ?p = "nb_AddrPool b" and ?q = "nb_RangePool b"
  define a' where "a' = plain_addr addr"
  have a: "addr_ok a'" using plain_addr_ok [OF a] by (simp add: a'_def)
  have p: "addr_bans.pool_ok ?p" and q: "range_bans.pool_ok ?q" using ok by (auto simp: ban_ok_def)
  obtain hs where hs: "MakeHashArray a' = (addr_len a', hs)" by (simp add: MakeHashArray_def Let_def addr_len_def)
  have i: "hs ! i = \<lparr>nh_Hash = byte_sum (take i (na_ip a')) AND 0xFF, nh_HashIndex = i\<rparr>" if "i < addr_len a'" for i
    using hs that by (auto simp: MakeHashArray_def Let_def addr_len_def nth_append split: if_splits)
  have e: "hs ! addr_len a' = addr_hash a'"
    using hs by (auto simp: MakeHashArray_def Let_def addr_len_def addr_hash_def nth_append split: if_splits)
  show ?thesis
  proof (cases "bans_Find NetComp ?p a' (addr_hash a')")
    case (Some s)
    then show ?thesis
      using addr_bans.Find_Some [OF p Some] hs e in_records [of s ?p "\<lambda>d. NetComp d a' = 0"]
      by (simp add: find_ban_def a'_def [symmetric] banned_by_def)
  next
    case None
    have n: "filter (\<lambda>r. NetComp (fst r) a' = 0) (ban_records ?p) = []"
      using addr_bans.Find_None [OF p a None] by (auto simp: ban_records_def filter_empty_conv)
    have f: "find_ban b addr = map_option (\<lambda>s. b_Info (bp_Bans ?q s)) (find_range ?q a' (addr_len a') hs (addr_len a'))"
      using None hs e by (simp add: find_ban_def a'_def [symmetric])
    note r = find_range_spec [OF q a refl i order.refl]
    show ?thesis
    proof (cases "find_range ?q a' (addr_len a') hs (addr_len a')")
      case (Some s)
      then show ?thesis using r f in_records [of s ?q "\<lambda>d. in_range d a'"] by (simp add: banned_by_def a'_def [symmetric])
    next
      case None
      have "\<not> in_range (data_at ?q s) a'" if s: "s \<in> set (bp_Used ?q)" for s
      proof
        assume m: "in_range (data_at ?q s) a'"
        note o = range_bans.pool_okD [OF q]
        obtain j where j: "j < addr_len a'" "range_hash (data_at ?q s) = hs ! j"
          by (rule range_bucket [OF o(6) [OF s] a m]) (use i in auto)
        then have "s \<in> set (hash_bucket ?q (hs ! j))" using o(7) [OF s] o(9) s by simp
        then show False using r None j m by auto
      qed
      then show ?thesis using f n None by (auto simp: banned_by_def a'_def [symmetric] ban_records_def filter_empty_conv)
    qed
  qed
qed

text \<open>The operations, as the server and the console call them.\<close>

inductive ban_step :: "net_ban \<Rightarrow> net_ban \<Rightarrow> bool" where
  step_addr: "addr_ok a \<Longrightarrow> ban_step b (fst (BanAddr b a seconds reason verbatim now))"
| step_range: "addr_ok (nr_LB r) \<Longrightarrow> addr_ok (nr_UB r) \<Longrightarrow> ban_step b (fst (BanRange b r seconds reason now))"
| step_unban_addr: "addr_ok a \<Longrightarrow> ban_step b (fst (UnbanByAddr b a))"
| step_unban_range: "addr_ok (nr_LB r) \<Longrightarrow> addr_ok (nr_UB r) \<Longrightarrow> ban_step b (fst (UnbanByRange b r))"
| step_unban_index: "ban_step b (fst (UnbanByIndex b i))"
| step_unban_all: "ban_step b (UnbanAll b)"
| step_update: "ban_step b (ban_Update b now)"

inductive ban_reachable :: "net_ban \<Rightarrow> bool" where
  reach_init: "addr_ok v4 \<Longrightarrow> addr_ok v6 \<Longrightarrow> ban_reachable (ban_Init b v4 v6)"
| reach_step: "ban_reachable b \<Longrightarrow> ban_step b c \<Longrightarrow> ban_reachable c"

inductive_cases ban_stepE: "ban_step b c"

lemma ban_okI:
  assumes "ban_ok b" "addr_bans.pool_ok p" "range_bans.pool_ok q"
    "\<And>r a. r \<in> set (ban_records p) \<Longrightarrow> is_local b a \<Longrightarrow> NetComp (fst r) a \<noteq> 0"
    "\<And>r a. r \<in> set (ban_records q) \<Longrightarrow> is_local b a \<Longrightarrow> \<not> in_range (fst r) a"
    "nb_AddrPool c = p" "nb_RangePool c = q" "nb_LocalhostIpV4 c = nb_LocalhostIpV4 b" "nb_LocalhostIpV6 c = nb_LocalhostIpV6 b"
  shows "ban_ok c"
  using assms unfolding ban_ok_def is_local_def by auto

lemma ban_okD:
  assumes "ban_ok b"
  shows "addr_bans.pool_ok (nb_AddrPool b)" "range_bans.pool_ok (nb_RangePool b)"
    "\<And>r a. r \<in> set (ban_records (nb_AddrPool b)) \<Longrightarrow> is_local b a \<Longrightarrow> NetComp (fst r) a \<noteq> 0"
    "\<And>r a. r \<in> set (ban_records (nb_RangePool b)) \<Longrightarrow> is_local b a \<Longrightarrow> \<not> in_range (fst r) a"
    "\<And>a. is_local b a \<Longrightarrow> addr_ok a"
  using assms unfolding ban_ok_def is_local_def by auto

lemma BanAddr_ok:
  assumes b: "ban_ok b" and a: "addr_ok a"
  shows "ban_ok (fst (BanAddr b a seconds reason verbatim now))"
proof -
  let ?l = "\<lambda>d. addr_NetMatch d (nb_LocalhostIpV4 b) \<or> addr_NetMatch d (nb_LocalhostIpV6 b)"
  obtain p r where pr: "Ban_in NetComp addr_hash ?l (nb_AddrPool b) a seconds reason verbatim now = (p, r)"
    by (cases "Ban_in NetComp addr_hash ?l (nb_AddrPool b) a seconds reason verbatim now")
  note o = ban_okD [OF b]
  note B = addr_bans.Ban_in_ok [OF o(1) a pr]
  have "NetComp (fst x) c \<noteq> 0" if "x \<in> set (ban_records p)" "is_local b c" for x c
  proof (cases "x \<in> set (ban_records (nb_AddrPool b))")
    case True
    then show ?thesis using o(3) that by blast
  next
    case False
    then have "\<not> ?l a" "addr_ok (fst x)" "NetComp (fst x) a = 0" using B that by auto
    then show ?thesis using that(2) o(5) [OF that(2)] a by (auto simp: addr_NetMatch_def is_local_def NetComp_same)
  qed
  then show ?thesis
    by (intro ban_okI [OF b, where p = p and q = "nb_RangePool b"]) (use B o pr in \<open>auto simp: BanAddr_def\<close>)
qed

lemma BanRange_ok:
  assumes b: "ban_ok b" and a: "addr_ok (nr_LB r)" "addr_ok (nr_UB r)"
  shows "ban_ok (fst (BanRange b r seconds reason now))"
proof (cases "range_IsValid r")
  case True
  then have v: "range_ok r" using a by (simp add: range_ok_def)
  let ?l = "\<lambda>d. range_NetMatch d (nb_LocalhostIpV4 b) \<or> range_NetMatch d (nb_LocalhostIpV6 b)"
  obtain p res where pr: "Ban_in range_NetComp range_hash ?l (nb_RangePool b) r seconds reason False now = (p, res)"
    by (cases "Ban_in range_NetComp range_hash ?l (nb_RangePool b) r seconds reason False now")
  note o = ban_okD [OF b]
  note B = range_bans.Ban_in_ok [OF o(2) v pr]
  have "\<not> in_range (fst x) c" if "x \<in> set (ban_records p)" "is_local b c" for x c
  proof (cases "x \<in> set (ban_records (nb_RangePool b))")
    case True
    then show ?thesis using o(4) that by blast
  next
    case False
    then have x: "\<not> ?l r" "range_ok (fst x)" "range_NetComp (fst x) r = 0" using B that by auto
    then have "in_range (fst x) c = in_range r c" by (auto simp: in_range_def range_NetComp_same v)
    then show ?thesis using x(1) that(2) o(5) [OF that(2)] by (auto simp: is_local_def range_NetMatch_iff v)
  qed
  then show ?thesis
    by (intro ban_okI [OF b, where p = "nb_AddrPool b" and q = p]) (use B o pr True in \<open>auto simp: BanRange_def\<close>)
qed (simp add: BanRange_def b)

lemma drop_addr_ok:
  assumes b: "ban_ok b" and p: "addr_bans.pool_ok p" "set (ban_records p) \<subseteq> set (ban_records (nb_AddrPool b))"
  shows "ban_ok (b\<lparr>nb_AddrPool := p\<rparr>)"
  by (intro ban_okI [OF b, where p = p and q = "nb_RangePool b"]) (use p ban_okD [OF b] in auto)

lemma drop_range_ok:
  assumes b: "ban_ok b" and p: "range_bans.pool_ok p" "set (ban_records p) \<subseteq> set (ban_records (nb_RangePool b))"
  shows "ban_ok (b\<lparr>nb_RangePool := p\<rparr>)"
  by (intro ban_okI [OF b, where p = "nb_AddrPool b" and q = p]) (use p ban_okD [OF b] in auto)

lemma UnbanByIndex_ok:
  assumes "ban_ok b"
  shows "ban_ok (fst (UnbanByIndex b i))"
proof -
  note o = ban_okD [OF assms]
  have a: "ban_ok (b\<lparr>nb_AddrPool := bans_Remove (nb_AddrPool b) s\<rparr>)" if "bans_Get (nb_AddrPool b) j = Some s" for j s
    using addr_bans.Get_used [OF o(1) that]
    by (intro drop_addr_ok [OF assms]) (auto simp: addr_bans.Remove_ok [OF o(1)] addr_bans.Remove_records [OF o(1)])
  have r: "ban_ok (b\<lparr>nb_RangePool := bans_Remove (nb_RangePool b) s\<rparr>)" if "bans_Get (nb_RangePool b) j = Some s" for j s
    using range_bans.Get_used [OF o(2) that]
    by (intro drop_range_ok [OF assms]) (auto simp: range_bans.Remove_ok [OF o(2)] range_bans.Remove_records [OF o(2)])
  show ?thesis using a r assms by (auto simp: UnbanByIndex_def split: option.split)
qed

lemma ban_step_ok: "ban_step b c \<Longrightarrow> ban_ok b \<Longrightarrow> ban_ok c"
proof (induction rule: ban_step.induct)
  case (step_unban_addr a b)
  then show ?case using addr_bans.Unban_in_ok [OF ban_okD(1) [OF step_unban_addr(2)] step_unban_addr(1)] step_unban_addr(2)
    by (cases "Unban_in NetComp addr_hash (nb_AddrPool b) a") (auto simp: UnbanByAddr_def intro!: drop_addr_ok)
next
  case (step_unban_range r b)
  then show ?case using range_bans.Unban_in_ok [OF ban_okD(2) [OF step_unban_range(3)], of r] step_unban_range
    by (cases "Unban_in range_NetComp range_hash (nb_RangePool b) r")
       (auto simp: UnbanByRange_def range_ok_def intro!: drop_range_ok)
next
  case (step_unban_all b)
  then have "ban_ok ((b\<lparr>nb_AddrPool := bans_Reset (nb_AddrPool b)\<rparr>)\<lparr>nb_RangePool := bans_Reset (nb_RangePool b)\<rparr>)"
    by (intro drop_addr_ok drop_range_ok) (simp_all add: addr_bans.Reset_ok range_bans.Reset_ok)
  then show ?case by (simp add: UnbanAll_def)
next
  case (step_update b now)
  then have "ban_ok ((b\<lparr>nb_AddrPool := remove_expired (nb_AddrPool b) now\<rparr>)\<lparr>nb_RangePool := remove_expired (nb_RangePool b) now\<rparr>)"
    using ban_okD [OF step_update]
    by (intro drop_addr_ok drop_range_ok) (auto simp: addr_bans.expire_ok range_bans.expire_ok)
  then show ?case by (simp add: ban_Update_def)
qed (simp_all add: BanAddr_ok BanRange_ok UnbanByIndex_ok)

lemma ban_reachable_ok: "ban_reachable b \<Longrightarrow> ban_ok b"
proof (induction rule: ban_reachable.induct)
  case (reach_init v4 v6 b)
  then show ?case
    by (simp add: ban_ok_def ban_Init_def addr_bans.Reset_ok range_bans.Reset_ok)
qed (rule ban_step_ok)

lemma IsBanned_spec:
  assumes "ban_ok b" "addr_ok a"
  shows "case IsBanned b a now sz of None \<Rightarrow> banned_by b a = []
    | Some msg \<Rightarrow> msg \<in> (\<lambda>i. player_ban_info i now sz) ` set (banned_by b a)"
  using find_ban_spec [OF assms] by (auto simp: IsBanned_def split: option.splits)

lemma IsBanned_iff: "ban_ok b \<Longrightarrow> addr_ok a \<Longrightarrow> IsBanned b a now sz = None \<longleftrightarrow> banned_by b a = []"
  using IsBanned_spec [of b a now sz] by (auto split: option.splits)

section \<open>Properties\<close>

text \<open>C9. The look-up through the hash lists finds an address banned exactly when some record of the ban list holds for
  it: one of the address itself, or a range it lies in; the message is that of such a record.\<close>

theorem ban_lookup:
  assumes "ban_reachable b" "addr_ok a"
  shows "case IsBanned b a now sz of None \<Rightarrow> banned_by b a = []
    | Some msg \<Rightarrow> msg \<in> (\<lambda>i. player_ban_info i now sz) ` set (banned_by b a)"
  by (rule IsBanned_spec [OF ban_reachable_ok [OF assms(1)] assms(2)])

definition ipv4 :: "byte list \<Rightarrow> netaddr" where
  "ipv4 bs = \<lparr>na_type = NETTYPE_IPV4, na_ip = bs @ replicate 12 0, na_port = 8303\<rparr>"

definition some_range :: net_range where
  "some_range = \<lparr>nr_LB = ipv4 [10, 0, 1, 0], nr_UB = ipv4 [10, 0, 3, 255]\<rparr>"

definition no_bans :: "'a ban_pool" where
  "no_bans = \<lparr>bp_HashList = (\<lambda>i h. []), bp_Bans = (\<lambda>s. undefined), bp_Free = [], bp_Used = [], bp_CountUsed = 0\<rparr>"

definition some_bans :: net_ban where
  "some_bans = ban_Init \<lparr>nb_AddrPool = no_bans, nb_RangePool = no_bans, nb_LocalhostIpV4 = zero_addr, nb_LocalhostIpV6 = zero_addr\<rparr>
     (ipv4 [127, 0, 0, 1]) \<lparr>na_type = NETTYPE_IPV6, na_ip = replicate 15 0 @ [1], na_port = 0\<rparr>"

lemma some_bans_reachable: "ban_reachable some_bans"
  unfolding some_bans_def
  by (rule ban_reachable.reach_init) (simp_all add: addr_ok_def ipv4_def NETTYPE_IPV4_def NETTYPE_IPV6_def)

theorem ban_lookup_witness:
  "IsBanned (fst (BanRange some_bans some_range 60 [104, 105] 1000)) (ipv4 [10, 0, 2, 7]) 1000 128 \<noteq> None"
proof -
  let ?b = "fst (BanRange some_bans some_range 60 [104, 105] 1000)"
  have b: "ban_reachable ?b"
    by (rule ban_reachable.reach_step [OF some_bans_reachable step_range]) (simp_all add: some_range_def addr_ok_def ipv4_def NETTYPE_IPV4_def)
  have f: "[0..<MAX_BANS] = 0 # [1..<MAX_BANS]" by (simp add: upt_rec [of 0] MAX_BANS_def)
  have v: "range_IsValid some_range"
    by (simp add: range_IsValid_def some_range_def NetComp_def ipv4_def addr_bytes_def NETTYPE_IPV4_def)
  have p: "bp_Used (nb_RangePool ?b) = [0]" "data_at (nb_RangePool ?b) 0 = some_range"
    using v by (simp_all add: BanRange_def some_bans_def Let_def ban_Init_def bans_Reset_def f Ban_in_def range_NetMatch_def
        range_NetMatch_from_def some_range_def ipv4_def NETTYPE_IPV4_def NETTYPE_IPV6_def bans_Find_def hash_bucket_def
        bans_Add_def set_bucket_def data_at_def split: prod.split)
  have "in_range some_range (ipv4 [10, 0, 2, 7])"
    by (simp add: in_range_def some_range_def ipv4_def significant_def addr_len_def)
  then have "banned_by ?b (ipv4 [10, 0, 2, 7]) \<noteq> []"
    using p by (simp add: banned_by_def ban_records_def plain_addr_def ipv4_def NETTYPE_IPV4_def
        NETTYPE_WEBSOCKET_IPV4_def NETTYPE_WEBSOCKET_IPV6_def)
  with ban_lookup [OF b, of "ipv4 [10, 0, 2, 7]" 1000 128] show ?thesis
    by (auto simp: addr_ok_def ipv4_def NETTYPE_IPV4_def split: option.splits)
qed

text \<open>The periodic update removes exactly the bans whose time is over, in both pools, and keeps the order of the
  others.\<close>

theorem ban_expiry:
  assumes "ban_reachable b"
  shows "ban_records (nb_AddrPool (ban_Update b now)) =
      filter (\<lambda>r. bi_Expires (snd r) = EXPIRES_NEVER \<or> now \<le> bi_Expires (snd r)) (ban_records (nb_AddrPool b)) \<and>
    ban_records (nb_RangePool (ban_Update b now)) =
      filter (\<lambda>r. bi_Expires (snd r) = EXPIRES_NEVER \<or> now \<le> bi_Expires (snd r)) (ban_records (nb_RangePool b))"
  using ban_okD [OF ban_reachable_ok [OF assms]]
  by (simp add: ban_Update_def addr_bans.expire_ok range_bans.expire_ok)

theorem ban_expiry_witness:
  "ban_records (nb_AddrPool (ban_Update some_bans 5)) = []"
  using ban_expiry [OF some_bans_reachable, of 5] by (simp add: some_bans_def ban_Init_def addr_bans.Reset_ok)

text \<open>Neither of the two localhost addresses is ever banned, by itself or by a range.\<close>

theorem localhost_never_banned:
  assumes "ban_reachable b" "a = nb_LocalhostIpV4 b \<or> a = nb_LocalhostIpV6 b"
    "na_type a \<noteq> NETTYPE_WEBSOCKET_IPV4" "na_type a \<noteq> NETTYPE_WEBSOCKET_IPV6"
  shows "IsBanned b a now sz = None"
proof -
  note ok = ban_reachable_ok [OF assms(1)]
  have l: "is_local b a" "plain_addr a = a" using assms by (auto simp: is_local_def plain_addr_def)
  then have "banned_by b a = []" using ban_okD(3,4) [OF ok] by (auto simp: banned_by_def filter_empty_conv)
  then show ?thesis using IsBanned_iff [OF ok ban_okD(5) [OF ok l(1)]] by simp
qed

theorem localhost_never_banned_witness:
  "IsBanned (fst (BanAddr some_bans (ipv4 [127, 0, 0, 1]) 60 [] True 1000)) (ipv4 [127, 0, 0, 1]) 1000 128 = None"
proof -
  let ?b = "fst (BanAddr some_bans (ipv4 [127, 0, 0, 1]) 60 [] True 1000)"
  have b: "ban_reachable ?b"
    by (rule ban_reachable.reach_step [OF some_bans_reachable step_addr]) (simp add: addr_ok_def ipv4_def NETTYPE_IPV4_def)
  have "nb_LocalhostIpV4 ?b = ipv4 [127, 0, 0, 1]"
    by (simp add: BanAddr_def some_bans_def Let_def ban_Init_def split: prod.split)
  then show ?thesis
    by (intro localhost_never_banned [OF b])
       (simp_all add: ipv4_def NETTYPE_IPV4_def NETTYPE_WEBSOCKET_IPV4_def NETTYPE_WEBSOCKET_IPV6_def)
qed

text \<open>Banning the address of a client that is connected through a websocket has no effect: the look-up turns the
  address into the plain one, the record keeps the websocket type, and the two never compare equal.\<close>

theorem websocket_ban_ineffective:
  assumes "ban_reachable b" "addr_ok a" "na_type a = NETTYPE_WEBSOCKET_IPV4 \<or> na_type a = NETTYPE_WEBSOCKET_IPV6"
    "IsBanned b a now sz = None"
  shows "IsBanned (fst (BanAddr b a seconds reason verbatim now)) a later sz = None"
proof -
  note ok = ban_reachable_ok [OF assms(1)]
  let ?c = "fst (BanAddr b a seconds reason verbatim now)"
  obtain p r where pr: "Ban_in NetComp addr_hash (\<lambda>d. addr_NetMatch d (nb_LocalhostIpV4 b) \<or> addr_NetMatch d (nb_LocalhostIpV6 b))
      (nb_AddrPool b) a seconds reason verbatim now = (p, r)" by fastforce
  have c: "nb_AddrPool ?c = p" "nb_RangePool ?c = nb_RangePool b" using pr by (simp_all add: BanAddr_def)
  have n: "banned_by b a = []" using assms IsBanned_iff [OF ok] by blast
  have t: "na_type (plain_addr a) \<noteq> na_type a"
    using assms(3) by (auto simp: plain_addr_def NETTYPE_IPV4_def NETTYPE_IPV6_def NETTYPE_WEBSOCKET_IPV4_def NETTYPE_WEBSOCKET_IPV6_def)
  have "NetComp (fst x) (plain_addr a) \<noteq> 0" if "x \<in> set (ban_records p)" for x
  proof (cases "x \<in> set (ban_records (nb_AddrPool b))")
    case True
    then show ?thesis using n by (auto simp: banned_by_def filter_empty_conv)
  next
    case False
    then have "addr_ok (fst x)" "NetComp (fst x) a = 0"
      using addr_bans.Ban_in_ok [OF ban_okD(1) [OF ok] assms(2) pr] that by auto
    then show ?thesis using t assms(2) plain_addr_ok [OF assms(2)] by (auto simp: NetComp_same)
  qed
  then have "banned_by ?c a = []" using n c by (auto simp: banned_by_def filter_empty_conv)
  then show ?thesis using IsBanned_iff [OF BanAddr_ok [OF ok assms(2)] assms(2)] by blast
qed

theorem websocket_ban_ineffective_witness:
  "IsBanned (fst (BanAddr some_bans ((ipv4 [10, 0, 2, 7])\<lparr>na_type := NETTYPE_WEBSOCKET_IPV4\<rparr>) 60 [] True 1000))
     ((ipv4 [10, 0, 2, 7])\<lparr>na_type := NETTYPE_WEBSOCKET_IPV4\<rparr>) 1001 128 = None"
proof -
  let ?a = "(ipv4 [10, 0, 2, 7])\<lparr>na_type := NETTYPE_WEBSOCKET_IPV4\<rparr>"
  have a: "addr_ok ?a" by (simp add: addr_ok_def ipv4_def NETTYPE_WEBSOCKET_IPV4_def)
  have "banned_by some_bans ?a = []"
    by (simp add: banned_by_def some_bans_def ban_Init_def Let_def addr_bans.Reset_ok range_bans.Reset_ok)
  then have "IsBanned some_bans ?a 1000 128 = None" using IsBanned_iff [OF ban_reachable_ok [OF some_bans_reachable] a] by blast
  with websocket_ban_ineffective [OF some_bans_reachable a] show ?thesis by simp
qed

end
