(* ===== verification/ConnResume.thy ===== *)
theory ConnResume
  imports ConnSafety
begin

text \<open>
  Resuming a connection after a time-out: the resend buffer of the old connection is copied block by block into a
  fresh one. It always fits, so the assertion of \<open>ResumeConnection\<close> cannot fail.
\<close>

section \<open>A ring filled from the start\<close>

text \<open>Used blocks from the start, then at most one free block of \<open>room\<close> bytes, the next to be taken.\<close>

definition filling :: "ring \<Rightarrow> nat \<Rightarrow> bool" where
  "filling rb room \<longleftrightarrow> (\<exists>U G. m_Items rb = U @ G \<and> used U \<and> gap G \<and> (G = [] \<longrightarrow> U \<noteq> []) \<and> total_size G = room \<and>
     m_pProduce rb = m_Addr (hd (G @ U)) \<and> \<not> m_Recycle rb \<and> tiled 0 (U @ G) \<and> total_size (U @ G) = m_RingSize rb)"

lemma filling_fresh: "filling fresh_ring (m_RingSize fresh_ring)"
  by (auto simp: filling_def fresh_ring_def ring_Init_def ring_Clear_def NET_CONN_BUFFERSIZE_def ITEM_SIZE_def intro: exI [of _ "[]"])

lemma wanted_pos: "0 < wanted_size sz"
proof -
  have "0 < (sz + 47) div 24" by (simp add: div_greater_zero_iff)
  then show ?thesis by (simp add: wanted_size_def ITEM_SIZE_def)
qed

lemma filling_Allocate:
  assumes f: "filling rb room" and w: "wanted_size sz \<le> room"
  obtains rb' a room' where "Allocate rb sz = (rb', Some a)" "filling rb' room'" "room \<le> room' + wanted_size sz + ITEM_SIZE"
    "room' \<noteq> 0 \<Longrightarrow> room = room' + wanted_size sz" "m_RingSize rb' = m_RingSize rb"
proof -
  obtain U G where g: "m_Items rb = U @ G" "used U" "gap G" "total_size G = room"
      "m_pProduce rb = m_Addr (hd (G @ U))" "\<not> m_Recycle rb" "tiled 0 (U @ G)" "total_size (U @ G) = m_RingSize rb"
    using f by (auto simp: filling_def)
  let ?w = "wanted_size sz"
  obtain x where x: "G = [x]" "m_Free x" "m_Size x = room" using g(3,4) w wanted_pos [of sz] by (cases rule: gap_cases) auto
  have items: "m_Items rb = U @ x # []" using g(1) x by simp
  have pr: "m_pProduce rb = m_Addr x" using g(5) x by simp
  have nx: "m_Addr x \<notin> addrs U" using tiled_distinct [OF g(7)] x by auto
  have fb: "find_block rb ?w = Some (m_Addr x)"
    using x w nx by (simp add: find_block_def is_free_def pr items item_at_split)
  have le: "?w \<le> m_RingSize rb" using g(8) x w by simp
  have al: "Allocate rb sz = (take_block rb (m_Addr x) ?w, Some (m_Addr x))"
    using le fb by (simp add: Allocate_def)
  define split where "split \<longleftrightarrow> room > ?w + ITEM_SIZE"
  define r where "r = (if split then [\<lparr>m_Addr = m_Addr x + ?w, m_Free = True, m_Size = room - ?w\<rparr>] else [])"
  define n where "n = (if split then x\<lparr>m_Size := ?w\<rparr> else x)"
  have nr: "m_Addr n = m_Addr x" "m_Addr x \<notin> addrs r" using wanted_pos [of sz] by (auto simp: n_def r_def)
  have s: "split_item (m_Items rb) (m_Addr x) ?w = U @ n # r"
    using split_item_split [OF nx, of "[]" ?w] x by (simp add: items n_def r_def split_def)
  have m: "set_item_free False (m_Addr x) (U @ n # r) = U @ n\<lparr>m_Free := False\<rparr> # r"
    using set_item_free_split [of n U r False] nr nx by simp
  have nb: "NextBlock (rb\<lparr>m_Items := U @ n # r\<rparr>) (m_Addr x) = m_Addr (hd (r @ U @ [n]))"
    using NextBlock_split [of "rb\<lparr>m_Items := U @ n # r\<rparr>" U n r] nr nx by simp
  have hd: "m_Addr (hd (r @ U @ [n])) = m_Addr (hd (r @ U @ [n\<lparr>m_Free := False\<rparr>]))" by (cases r; cases U) simp_all
  have t: "take_block rb (m_Addr x) ?w = rb\<lparr>m_Items := U @ n\<lparr>m_Free := False\<rparr> # r,
      m_pProduce := m_Addr (hd (r @ U @ [n\<lparr>m_Free := False\<rparr>]))\<rparr>"
    unfolding take_block_def Let_def s by (simp add: nb m hd)
  show thesis
  proof (rule that [OF al, of "total_size r"])
    have "tiled 0 (U @ n\<lparr>m_Free := False\<rparr> # r)" "total_size (U @ n\<lparr>m_Free := False\<rparr> # r) = m_RingSize rb"
      using g(7,8) x w wanted_pos [of sz] by (auto simp: n_def r_def split_def)
    then show "filling (take_block rb (m_Addr x) ?w) (total_size r)"
      unfolding filling_def t using g(2,6)
      by (intro exI [of _ "U @ [n\<lparr>m_Free := False\<rparr>]"] exI [of _ r]) (auto simp: r_def gap_def)
  qed (use w in \<open>auto simp: t r_def split_def\<close>)
qed

section \<open>The copy\<close>

definition chunk_room :: "(nat \<Rightarrow> chunk_resend) \<Rightarrow> item \<Rightarrow> nat" where
  "chunk_room f x = wanted_size (RESEND_SIZE + length (r_Data (f (m_Addr x))))"

definition queued :: "ring \<Rightarrow> (nat \<Rightarrow> chunk_resend) \<Rightarrow> chunk_resend list" where
  "queued rb f = map (\<lambda>x. f (m_Addr x)) (contents rb)"

lemma chunk_room_min: "ITEM_SIZE < chunk_room f x"
proof -
  have "3 \<le> (40 + n + 47) div 24" for n :: nat by presburger
  then show ?thesis by (simp add: chunk_room_def wanted_size_def ITEM_SIZE_def RESEND_SIZE_def)
qed

lemma contents_room:
  assumes "ring_ok rb" "\<forall>x\<in>set (contents rb). block_ok f x"
  shows "sum_list (map (chunk_room f) (contents rb)) \<le> m_RingSize rb"
proof -
  have "sum_list (map (chunk_room f) (contents rb)) \<le> total_size (contents rb)"
    using assms(2) unfolding total_size_def by (intro sum_list_mono) (simp add: block_ok_def chunk_room_def)
  also have "total_size (dropWhile P xs @ takeWhile P xs) = total_size xs" for P xs
    using takeWhile_dropWhile_id [of P xs] by (metis add.commute total_size_simps(3))
  then have "total_size (contents rb) \<le> total_size (used_items (m_Items rb))"
    by (simp add: contents_def del: total_size_simps(3))
  also have "\<dots> \<le> total_size (m_Items rb)"
    by (induction "m_Items rb" rule: rev_induct) (simp_all add: used_items_def total_size_def sum_list_filter_le_nat)
  finally show ?thesis using assms(1) by (simp add: ring_ok_def)
qed

definition with_buffer :: "conn \<Rightarrow> ring \<Rightarrow> (nat \<Rightarrow> chunk_resend) \<Rightarrow> conn" where
  "with_buffer c rb f = c\<lparr>cn_Buffer := rb, cn_Resends := f\<rparr>"

lemma with_buffer_simps [simp]:
  "with_buffer (with_buffer c rb f) rb' f' = with_buffer c rb' f'" "with_buffer c (cn_Buffer c) (cn_Resends c) = c"
  by (simp_all add: with_buffer_def)

lemma contents_distinct_list:
  assumes "ring_ok rb"
  shows "distinct (contents rb)"
proof -
  have "distinct (m_Items rb)"
    using tiled_distinct [of 0 "m_Items rb"] assms by (simp add: ring_ok_def distinct_map)
  then have u: "distinct (used_items (m_Items rb))" by (simp add: used_items_def)
  have "distinct (dropWhile P xs @ takeWhile P xs) = distinct (takeWhile P xs @ dropWhile P xs)" for P and xs :: "item list"
    by (simp only: distinct_append Int_commute conj_commute conj_left_commute)
  then show ?thesis using u by (simp add: contents_def del: distinct_append)
qed

text \<open>Adding one chunk to a buffer that is being filled.\<close>

lemma Allocate_queued:
  assumes "buffer_resends_ok c" "resend_ok r" "Allocate (cn_Buffer c) (RESEND_SIZE + length (r_Data r)) = (rb, Some a)"
  shows "buffer_resends_ok (with_buffer c rb ((cn_Resends c)(a := r)))"
    "queued rb ((cn_Resends c)(a := r)) = queued (cn_Buffer c) (cn_Resends c) @ [r]"
proof -
  have ok: "ring_ok (cn_Buffer c)" "\<not> m_Recycle (cn_Buffer c)" using assms(1) by (simp_all add: buffer_resends_ok_def ring_queue_def)
  obtain n where n: "m_Addr n = a" "wanted_size (RESEND_SIZE + length (r_Data r)) \<le> m_Size n"
      "ring_after (cn_Buffer c) (contents (cn_Buffer c) @ [n]) rb"
    using Allocate_contents [OF ok(1), of "RESEND_SIZE + length (r_Data r)"] assms(3) ok(2) by (auto simp: allocated_def)
  then have rb: "ring_ok rb" "\<not> m_Recycle rb" "contents rb = contents (cn_Buffer c) @ [n]" "m_RingSize rb = m_RingSize (cn_Buffer c)"
    using ok(2) by (auto simp: ring_after_def)
  have d: "n \<notin> set (contents (cn_Buffer c))" using contents_distinct_list [OF rb(1)] by (simp add: rb(3))
  then have old: "m_Addr x \<noteq> a" if "x \<in> set (contents (cn_Buffer c))" for x
    using contents_distinct [OF rb(1), of x n] that n(1) rb(3) by auto
  show "queued rb ((cn_Resends c)(a := r)) = queued (cn_Buffer c) (cn_Resends c) @ [r]"
    using old n(1) by (simp add: queued_def rb(3))
  have "block_ok ((cn_Resends c)(a := r)) x" if "x \<in> set (contents rb)" for x
    using that old n assms(1,2) by (auto simp: rb(3) block_ok_def buffer_resends_ok_def)
  then show "buffer_resends_ok (with_buffer c rb ((cn_Resends c)(a := r)))"
    using assms(1) rb by (auto simp: with_buffer_def buffer_resends_ok_def ring_queue_def)
qed

lemma copy_resends_fits:
  assumes "ring_queue rb" "length (contents rb) \<le> n" "\<forall>x\<in>set (contents rb). resend_ok (f (m_Addr x))"
    "buffer_resends_ok c" "filling (cn_Buffer c) room" "sum_list (map (chunk_room f) (contents rb)) \<le> room"
  shows "\<exists>rb' g. fst (copy_resends n c rb f) = with_buffer c rb' g \<and> buffer_resends_ok (with_buffer c rb' g) \<and>
    queued rb' g = queued (cn_Buffer c) (cn_Resends c) @ queued rb f"
  using assms
proof (induction n arbitrary: rb c room)
  case 0
  then show ?case by (intro exI [of _ "cn_Buffer c"] exI [of _ "cn_Resends c"]) (simp add: queued_def)
next
  case (Suc n)
  have ok: "ring_ok rb" "\<not> m_Recycle rb" using Suc.prems(1) by (simp_all add: ring_queue_def)
  show ?case
  proof (cases "contents rb")
    case Nil
    then have "ring_First rb = None" using ring_First_contents [OF ok(1)] by simp
    then show ?thesis using Suc.prems Nil
      by (intro exI [of _ "cn_Buffer c"] exI [of _ "cn_Resends c"]) (simp add: queued_def)
  next
    case (Cons x xs)
    let ?r = "f (m_Addr x)" and ?q = "fst (PopFirst rb)"
    have first: "ring_First rb = Some (m_Addr x)" using ring_First_contents [OF ok(1)] Cons by simp
    have q: "ring_queue ?q" "contents ?q = xs"
      using PopFirst_contents [OF ok(1)] ok Cons by (simp_all add: ring_after_def ring_queue_def)
    have w: "wanted_size (RESEND_SIZE + length (r_Data ?r)) \<le> room" using Suc.prems(6) Cons by (simp add: chunk_room_def)
    obtain rb' a room' where al: "Allocate (cn_Buffer c) (RESEND_SIZE + length (r_Data ?r)) = (rb', Some a)"
        "filling rb' room'" "room \<le> room' + chunk_room f x + ITEM_SIZE" "room' \<noteq> 0 \<Longrightarrow> room = room' + chunk_room f x"
      by (rule filling_Allocate [OF Suc.prems(5) w]) (auto simp: chunk_room_def)
    have r: "resend_ok ?r" using Suc.prems(3) Cons by simp
    define c' where "c' = with_buffer c rb' ((cn_Resends c)(a := ?r))"
    note new = Allocate_queued [OF Suc.prems(4) r al(1)]
    have room: "sum_list (map (chunk_room f) xs) \<le> room'"
    proof (cases "room' = 0")
      case True
      then have "sum_list (map (chunk_room f) xs) \<le> ITEM_SIZE" using al(3) Suc.prems(6) Cons by simp
      moreover have "ITEM_SIZE < chunk_room f y" for y by (rule chunk_room_min)
      ultimately have "xs = []" by (cases xs) (simp_all add: not_less [symmetric] trans_less_add1)
      then show ?thesis by simp
    next
      case False
      then show ?thesis using al(4) Suc.prems(6) Cons by simp
    qed
    have "\<exists>rb'' g. fst (copy_resends n c' ?q f) = with_buffer c' rb'' g \<and> buffer_resends_ok (with_buffer c' rb'' g) \<and>
        queued rb'' g = queued (cn_Buffer c') (cn_Resends c') @ queued ?q f"
    proof (rule Suc.IH [where room = room'])
      show "buffer_resends_ok c'" using new(1) by (simp add: c'_def)
      show "filling (cn_Buffer c') room'" using al(2) by (simp add: c'_def with_buffer_def)
    qed (use q Suc.prems(2,3) Cons room in auto)
    then obtain rb'' g where g: "fst (copy_resends n c' ?q f) = with_buffer c' rb'' g" "buffer_resends_ok (with_buffer c' rb'' g)"
        "queued rb'' g = queued (cn_Buffer c') (cn_Resends c') @ queued ?q f" by blast
    have "copy_resends (Suc n) c rb f = copy_resends n c' ?q f"
      using first al(1) by (simp add: c'_def with_buffer_def)
    moreover have "with_buffer c' rb'' g = with_buffer c rb'' g" by (simp add: c'_def)
    moreover have "queued (cn_Buffer c') (cn_Resends c') = queued (cn_Buffer c) (cn_Resends c) @ [?r]"
      using new(2) by (simp add: c'_def with_buffer_def)
    moreover have "queued rb f = ?r # queued ?q f" by (simp add: queued_def Cons q(2))
    ultimately show ?thesis using g by (intro exI [of _ rb''] exI [of _ g]) simp
  qed
qed

lemma buffer_resends_with: "buffer_resends_ok (with_buffer c rb f) = buffer_resends_ok (with_buffer d rb f)"
  by (simp add: buffer_resends_ok_def with_buffer_def)

lemma ResumeConnection_spec:
  fixes now :: int
  assumes "conn_ok c" "conn_ok old"
  defines "d \<equiv> fst (ResumeConnection c (cn_PeerAddr old) (cn_Sequence old) (cn_Ack old) (cn_SecurityToken old)
     (cn_Buffer old) (cn_Resends old) (cn_Sixup old) now)"
  shows "conn_ok d \<and> queued (cn_Buffer d) (cn_Resends d) = queued (cn_Buffer old) (cn_Resends old) \<and> cn_State d = ONLINE \<and>
    cn_PeerAddr d = cn_PeerAddr old \<and> cn_Sequence d = cn_Sequence old \<and> cn_Ack d = cn_Ack old \<and>
    cn_SecurityToken d = cn_SecurityToken old \<and> cn_Sixup d = cn_Sixup old \<and> cn_Token d = cn_Token c \<and>
    cn_TimeoutSituation d = cn_TimeoutSituation c \<and> cn_TimeoutProtected d = cn_TimeoutProtected c \<and> cn_ErrorString d = []"
proof -
  define e where "e = (SetPeerAddr (c\<lparr>cn_Sequence := cn_Sequence old, cn_Ack := cn_Ack old, cn_RemoteClosed := False, cn_State := ONLINE\<rparr>)
      (cn_PeerAddr old))\<lparr>cn_ErrorString := [], cn_LastSendTime := now, cn_LastRecvTime := now, cn_LastUpdateTime := now,
        cn_SecurityToken := cn_SecurityToken old, cn_Sixup := cn_Sixup old, cn_Buffer := fresh_ring\<rparr>"
  have d: "d = fst (copy_resends (length (m_Items (cn_Buffer old))) e (cn_Buffer old) (cn_Resends old))"
    by (simp add: d_def ResumeConnection_def Let_def e_def fresh_ring_def)
  have o: "ring_queue (cn_Buffer old)" "ring_ok (cn_Buffer old)" "m_RingSize (cn_Buffer old) = m_RingSize fresh_ring"
    "\<forall>x\<in>set (contents (cn_Buffer old)). block_ok (cn_Resends old) x"
    using assms(2) by (simp_all add: conn_ok_def buffer_resends_ok_def ring_queue_def)
  have e: "cn_Buffer e = fresh_ring" by (simp add: e_def)
  have be: "buffer_resends_ok e" using ring_Init_queue by (simp add: buffer_resends_ok_def e fresh_ring_def)
  obtain rb g where g: "d = with_buffer e rb g" "buffer_resends_ok (with_buffer e rb g)"
      "queued rb g = queued (cn_Buffer e) (cn_Resends e) @ queued (cn_Buffer old) (cn_Resends old)"
    using copy_resends_fits [OF o(1) contents_length [OF o(2)], of "cn_Resends old" e "m_RingSize fresh_ring"]
      contents_room [OF o(2,4)] o(3,4) be filling_fresh by (auto simp: d e block_ok_def)
  have "queued (cn_Buffer e) (cn_Resends e) = []" using ring_Init_queue by (simp add: queued_def e fresh_ring_def)
  then show ?thesis using g(2,3) assms(1,2)
    unfolding g(1) by (auto simp: conn_ok_def with_buffer_def e_def SetPeerAddr_def)
qed

section \<open>Properties\<close>

text \<open>Resuming never fails an assertion: every chunk of the other connection that is not acknowledged yet fits into the
  fresh resend buffer and arrives there in order, and the sequence numbers and the peer are taken over.\<close>

theorem resume_keeps_queue:
  assumes "conn_reachable cfg c" "conn_reachable cfg old"
    "d = fst (ResumeConnection c (cn_PeerAddr old) (cn_Sequence old) (cn_Ack old) (cn_SecurityToken old)
       (cn_Buffer old) (cn_Resends old) (cn_Sixup old) now)"
  shows "\<not> cn_Aborted d \<and> queued (cn_Buffer d) (cn_Resends d) = queued (cn_Buffer old) (cn_Resends old) \<and>
    cn_State d = ONLINE \<and> cn_PeerAddr d = cn_PeerAddr old \<and> cn_Sequence d = cn_Sequence old \<and> cn_Ack d = cn_Ack old"
  using ResumeConnection_spec [OF conn_reachable_ok [OF assms(1)] conn_reachable_ok [OF assms(2)], of now] assms(3)
  by (simp add: conn_ok_def)

definition some_online :: conn where
  "some_online = DirectInit (conn_Init some_conn True) zero_addr 7 9 True 0"

lemma some_online_reachable: "conn_reachable some_config some_online"
  unfolding some_online_def
  by (rule conn_reachable.reach_step [OF conn_reachable.reach_init step_direct]) (simp_all add: some_conn_def)

definition some_queue :: conn where
  "some_queue = fst (QueueChunk some_online NET_CHUNKFLAG_VITAL [1, 2, 3] 5)"

theorem resume_keeps_queue_witness:
  "let d = fst (ResumeConnection some_online (cn_PeerAddr some_queue) (cn_Sequence some_queue) (cn_Ack some_queue)
       (cn_SecurityToken some_queue) (cn_Buffer some_queue) (cn_Resends some_queue) (cn_Sixup some_queue) 50)
   in map r_Data (queued (cn_Buffer d) (cn_Resends d)) = [[1, 2, 3]] \<and> cn_Sequence d = 1"
proof -
  have r: "conn_reachable some_config some_queue" unfolding some_queue_def
    by (rule conn_reachable.reach_step [OF some_online_reachable step_queue]) (simp add: NET_MAX_CHUNK_SIZE_def)
  have "map r_Data (queued (cn_Buffer some_queue) (cn_Resends some_queue)) = [[1, 2, 3]] \<and> cn_Sequence some_queue = 1"
    by (simp add: some_queue_def some_online_def QueueChunk_def QueueChunkEx_def Let_def has_flag_def net_flags net_sizes
        DirectInit_def SetPeerAddr_def conn_Init_def ResetStats_def ClearPeerAddr_def conn_Reset_def some_conn_def empty_construct_def
        append_chunk_def chunk_header_Pack_def Allocate_def ring_Init_def ring_Clear_def NET_CONN_BUFFERSIZE_def ITEM_SIZE_def
        wanted_size_def RESEND_SIZE_def find_block_def is_free_def take_block_def NextBlock_def set_item_free_def queued_def
        contents_def used_items_def)
  with resume_keeps_queue [OF some_online_reachable r refl, of 50] show ?thesis by (simp add: Let_def)
qed

text \<open>A resumed 0.7 connection keeps the token of the address it had before. A packet whose header carries any other
  token, such as the token of the address the client comes back from, is rejected.\<close>

theorem resume_sixup_rejects:
  assumes "conn_reachable cfg c" "conn_reachable cfg old" "cn_Sixup old" "token \<noteq> cn_Token c"
    "d = fst (ResumeConnection c (cn_PeerAddr old) (cn_Sequence old) (cn_Ack old) (cn_SecurityToken old)
       (cn_Buffer old) (cn_Resends old) (cn_Sixup old) now)"
  shows "Feed cfg d p addr token response later = (d, False)"
proof -
  have "cn_Sixup d" "cn_Token d = cn_Token c" "cn_State d = ONLINE"
    using ResumeConnection_spec [OF conn_reachable_ok [OF assms(1)] conn_reachable_ok [OF assms(2)], of now] assms(3,5) by simp_all
  then show ?thesis using assms(4) by (simp add: Feed_def strip_token_def)
qed

theorem resume_sixup_rejects_witness:
  "let d = fst (ResumeConnection some_online (cn_PeerAddr some_online) 0 0 7 (cn_Buffer some_online) (cn_Resends some_online) True 50)
   in Feed some_config d empty_construct zero_addr 10 0 60 = (d, False)"
proof -
  have "cn_Sixup some_online" "cn_Token some_online = 9" "cn_Sequence some_online = 0" "cn_Ack some_online = 0" "cn_SecurityToken some_online = 7"
    by (simp_all add: some_online_def DirectInit_def Let_def SetPeerAddr_def conn_Reset_def)
  with resume_sixup_rejects [OF some_online_reachable some_online_reachable, of 10 _ 50 empty_construct zero_addr 0 60]
  show ?thesis by (simp add: Let_def)
qed

end
