(* ===== verification/NetServer.thy ===== *)
theory NetServer
  imports NetBan NetConn Packer
begin

text \<open>
  \<open>CNetServer\<close> (\<open>src/engine/shared/network_server.cpp\<close>): the client slots, the tokens that protect against spoofed
  addresses, the three handshakes (0.6 with the relay token, 0.6 vanilla through a fake map and input message, 0.7),
  the limits per address and per second, and the receive loop.

  Arguments stand for what the code gets from outside: \<open>sha\<close> is SHA-256 of the crypto library, \<open>now\<close> is \<open>time_get()\<close>,
  \<open>stamp\<close> is \<open>time_timestamp()\<close>, \<open>recv k\<close> is the \<open>k\<close>-th datagram of \<open>net_udp_recv\<close> in a call. Datagrams the server
  sends on its own are appended to \<open>sv_Sent\<close>, the callbacks to its owner to \<open>sv_Events\<close>; what the owner does in a
  callback is not modelled. A failed \<open>dbg_assert\<close> sets \<open>sv_Aborted\<close>. Log output is left out.
\<close>

section \<open>State\<close>

definition NET_MAX_CLIENTS :: nat where "NET_MAX_CLIENTS = 128"
definition NET_CONNLIMIT_IPS :: nat where "NET_CONNLIMIT_IPS = 256"

definition NETSENDFLAG_VITAL :: int where "NETSENDFLAG_VITAL = 1"
definition NETSENDFLAG_CONNLESS :: int where "NETSENDFLAG_CONNLESS = 2"
definition NETSENDFLAG_FLUSH :: int where "NETSENDFLAG_FLUSH = 4"
definition NETSENDFLAG_EXTENDED :: int where "NETSENDFLAG_EXTENDED = 8"

definition NETMSG_MAP_CHANGE :: int where "NETMSG_MAP_CHANGE = 2"
definition NETMSG_MAP_DATA :: int where "NETMSG_MAP_DATA = 3"
definition NETMSG_CON_READY :: int where "NETMSG_CON_READY = 4"
definition NETMSG_SNAPEMPTY :: int where "NETMSG_SNAPEMPTY = 6"
definition NETMSG_INPUT :: int where "NETMSG_INPUT = 16"

record spam_conn =
  sc_Addr :: netaddr
  sc_Time :: int
  sc_LastSeen :: int
  sc_Conns :: int

datatype server_event =
  NewClient int bool
| NewClientNoAuth int
| ClientRejoin int bool bool
| DelClient int cstring

record server_config =
  m_Conn :: conn_config
  m_SvSixup :: bool
  m_SvConnlimit :: int
  m_SvConnlimitTime :: int
  m_SvVanillaAntiSpoof :: bool
  m_Password :: cstring
  m_SvVanConnPerSecond :: int
  m_SvVanConnRepliesPerSecond :: int
  m_SvMaxPacketsPerRecv :: int
  m_SvPreConnDecompressPerSecond :: int
  m_SvBanRepliesPerSecond :: int

record server =
  sv_NetBan :: net_ban
  sv_Slots :: "conn list"
  sv_MaxClients :: nat
  sv_MaxClientsPerIp :: int
  sv_FlushBatch :: bool
  sv_FlushPending :: "bool list"
  sv_SecurityTokenSeed :: "byte list"
  sv_VConnFirst :: int
  sv_VConnNum :: int
  sv_NumRecvPackets :: int
  sv_BudgetStart :: int
  sv_NumPreConnDecompress :: int
  sv_NumBanReplies :: int
  sv_SpamConns :: "spam_conn list"
  sv_Unpacker :: chunk_unpacker
  sv_Sent :: "(netaddr \<times> byte list) list"
  sv_Events :: "server_event list"
  sv_Aborted :: bool

definition sv_transmit :: "server \<Rightarrow> netaddr \<Rightarrow> byte list option \<Rightarrow> server" where
  "sv_transmit sv addr d =
     (case d of None \<Rightarrow> sv\<lparr>sv_Aborted := True\<rparr> | Some bs \<Rightarrow> sv\<lparr>sv_Sent := sv_Sent sv @ [(addr, bs)]\<rparr>)"

definition sv_event :: "server \<Rightarrow> server_event \<Rightarrow> server" where
  "sv_event sv e = sv\<lparr>sv_Events := sv_Events sv @ [e]\<rparr>"

definition set_slot :: "server \<Rightarrow> nat \<Rightarrow> conn \<Rightarrow> server" where
  "set_slot sv i c = sv\<lparr>sv_Slots := (sv_Slots sv)[i := c]\<rparr>"

abbreviation slot :: "server \<Rightarrow> nat \<Rightarrow> conn" where
  "slot sv i \<equiv> sv_Slots sv ! i"

text \<open>\<open>net_addr_comp_noport\<close> finds no difference.\<close>

definition same_host :: "netaddr \<Rightarrow> netaddr \<Rightarrow> bool" where
  "same_host a b \<longleftrightarrow> na_type a = na_type b \<and> na_ip a = na_ip b"

section \<open>Opening and the periodic update\<close>

text \<open>\<open>fresh\<close> are the constructed connections, \<open>seed\<close> the random bytes; the socket opens.\<close>

definition server_Open :: "net_ban \<Rightarrow> conn list \<Rightarrow> byte list \<Rightarrow> int \<Rightarrow> int \<Rightarrow> server" where
  "server_Open bans fresh seed max_clients max_per_ip =
     \<lparr>sv_NetBan = bans, sv_Slots = map (\<lambda>c. conn_Init c True) fresh,
      sv_MaxClients = nat (max 1 (min max_clients (int NET_MAX_CLIENTS))), sv_MaxClientsPerIp = max_per_ip,
      sv_FlushBatch = False, sv_FlushPending = replicate NET_MAX_CLIENTS False, sv_SecurityTokenSeed = seed,
      sv_VConnFirst = 0, sv_VConnNum = 0, sv_NumRecvPackets = 0, sv_BudgetStart = 0, sv_NumPreConnDecompress = 0,
      sv_NumBanReplies = 0,
      sv_SpamConns = replicate NET_CONNLIMIT_IPS \<lparr>sc_Addr = zero_addr, sc_Time = 0, sc_LastSeen = 0, sc_Conns = 0\<rparr>,
      sv_Unpacker = \<lparr>cu_Valid = False, cu_Addr = zero_addr, cu_CurrentChunk = 0, cu_CurrentOffset = 0, cu_ClientId = 0,
                     cu_Data = empty_construct\<rparr>,
      sv_Sent = [], sv_Events = [], sv_Aborted = False\<rparr>"

text \<open>\<open>own\<close>: the reason is the connection's own error string.\<close>

definition server_Drop :: "server \<Rightarrow> nat \<Rightarrow> cstring \<Rightarrow> bool \<Rightarrow> int \<Rightarrow> server" where
  "server_Drop sv i reason own now =
     (let sv = sv_event sv (DelClient (int i) reason)
      in set_slot sv i (conn_Disconnect (slot sv i) (Some reason) own now))"

definition errored :: "conn \<Rightarrow> bool" where
  "errored c \<longleftrightarrow> cn_State c = ERROR \<and> (\<not> cn_TimeoutProtected c \<or> \<not> cn_TimeoutSituation c)"

definition update_slot :: "server_config \<Rightarrow> int \<Rightarrow> server \<Rightarrow> nat \<Rightarrow> server" where
  "update_slot cfg now sv i =
     (let sv = set_slot sv i (conn_Update (m_Conn cfg) (slot sv i) now)
      in if errored (slot sv i) then server_Drop sv i (cn_ErrorString (slot sv i)) True now else sv)"

definition server_Update :: "server_config \<Rightarrow> server \<Rightarrow> int \<Rightarrow> server" where
  "server_Update cfg sv now =
     (let sv = sv\<lparr>sv_NumRecvPackets := 0\<rparr>;
          sv = (if now > sv_BudgetStart sv + time_freq
                then sv\<lparr>sv_BudgetStart := now, sv_NumPreConnDecompress := 0, sv_NumBanReplies := 0\<rparr> else sv)
      in foldl (update_slot cfg now) sv [0..<sv_MaxClients sv])"

definition BeginFlushBatch :: "server \<Rightarrow> server" where
  "BeginFlushBatch sv = sv\<lparr>sv_FlushBatch := True\<rparr>"

definition flush_pending :: "int \<Rightarrow> server \<Rightarrow> nat \<Rightarrow> server" where
  "flush_pending now sv i =
     (if \<not> sv_FlushPending sv ! i then sv
      else
        let sv = sv\<lparr>sv_FlushPending := (sv_FlushPending sv)[i := False]\<rparr>
        in if cn_State (slot sv i) = ONLINE then set_slot sv i (fst (Flush (slot sv i) now)) else sv)"

definition EndFlushBatch :: "server \<Rightarrow> int \<Rightarrow> server" where
  "EndFlushBatch sv now = foldl (flush_pending now) (sv\<lparr>sv_FlushBatch := False\<rparr>) [0..<sv_MaxClients sv]"

section \<open>Tokens\<close>

definition srv_GetToken :: "(byte list \<Rightarrow> byte list) \<Rightarrow> server \<Rightarrow> netaddr \<Rightarrow> token" where
  "srv_GetToken sha sv addr =
     (let t = ToSecurityToken (sha (sv_SecurityTokenSeed sv @ take 20 (addr_bytes addr)))
      in if t = NET_SECURITY_TOKEN_UNKNOWN \<or> t = NET_SECURITY_TOKEN_UNSUPPORTED then 1 else t)"

definition GetGlobalToken :: "(byte list \<Rightarrow> byte list) \<Rightarrow> server \<Rightarrow> token" where
  "GetGlobalToken sha sv = srv_GetToken sha sv zero_addr"

text \<open>\<open>absolute\<close> of the smallest integer overflows in the code; here it stays.\<close>

definition GetVanillaToken :: "(byte list \<Rightarrow> byte list) \<Rightarrow> server \<Rightarrow> netaddr \<Rightarrow> token" where
  "GetVanillaToken sha sv addr = (let t = srv_GetToken sha sv addr in if sint t < 0 then - t else t)"

definition server_SendControl :: "server \<Rightarrow> netaddr \<Rightarrow> int \<Rightarrow> byte list \<Rightarrow> token \<Rightarrow> server" where
  "server_SendControl sv addr msg extra token = sv_transmit sv addr (SendControlMsg 0 msg extra token False)"

definition SendTokenSixup :: "(byte list \<Rightarrow> byte list) \<Rightarrow> server \<Rightarrow> netaddr \<Rightarrow> token \<Rightarrow> server" where
  "SendTokenSixup sha sv addr token =
     (let buf = WriteSecurityToken (srv_GetToken sha sv addr) @ replicate (NET_TOKENREQUEST_DATASIZE - 4) 0;
          sz = (if token = NET_SECURITY_TOKEN_UNKNOWN then NET_TOKENREQUEST_DATASIZE else 4)
      in sv_transmit sv addr (SendControlMsg 0 NET_CTRLMSG_TOKEN (take sz buf) token True))"

section \<open>Accepting a client\<close>

definition NumClientsWithAddr :: "server \<Rightarrow> netaddr \<Rightarrow> int" where
  "NumClientsWithAddr sv addr =
     int (length (filter (\<lambda>c. \<not> (cn_State c = OFFLINE \<or> errored c) \<and> same_host addr (cn_PeerAddr c))
       (take (sv_MaxClients sv) (sv_Slots sv))))"

text \<open>\<open>Connlimit\<close>: whether the address made too many connections. An unknown address takes the entry that was not
  seen for the longest time.\<close>

definition oldest_spam :: "spam_conn list \<Rightarrow> nat" where
  "oldest_spam cs = foldl (\<lambda>old i. if sc_LastSeen (cs ! i) < sc_LastSeen (cs ! old) then i else old) 0 [0..<length cs]"

definition Connlimit :: "server_config \<Rightarrow> server \<Rightarrow> netaddr \<Rightarrow> int \<Rightarrow> server \<times> bool" where
  "Connlimit cfg sv addr now =
     (let cs = sv_SpamConns sv in
      case List.find (\<lambda>i. same_host (sc_Addr (cs ! i)) addr) [0..<length cs] of
        Some i \<Rightarrow>
          let s = (cs ! i)\<lparr>sc_LastSeen := now\<rparr>
          in if sc_Time s > now - time_freq * m_SvConnlimitTime cfg \<and> sc_Conns s \<ge> m_SvConnlimit cfg
             then (sv\<lparr>sv_SpamConns := cs[i := s]\<rparr>, True)
             else
               let s = (if sc_Time s > now - time_freq * m_SvConnlimitTime cfg then s
                        else s\<lparr>sc_Time := now, sc_Conns := 0\<rparr>)
               in (sv\<lparr>sv_SpamConns := cs[i := s\<lparr>sc_Conns := sc_Conns s + 1\<rparr>]\<rparr>, False)
      | None \<Rightarrow>
          (sv\<lparr>sv_SpamConns := cs[oldest_spam cs := \<lparr>sc_Addr = addr, sc_Time = now, sc_LastSeen = now, sc_Conns = 1\<rparr>]\<rparr>, False))"

text \<open>A control message that closes the connection before it exists, with a text and its terminator.\<close>

definition refuse :: "server \<Rightarrow> netaddr \<Rightarrow> cstring \<Rightarrow> token \<Rightarrow> bool \<Rightarrow> server" where
  "refuse sv addr text token sixup = sv_transmit sv addr (SendControlMsg 0 NET_CTRLMSG_CLOSE (text @ [0]) token sixup)"

definition init_slot :: "server \<Rightarrow> nat \<Rightarrow> netaddr \<Rightarrow> token \<Rightarrow> token \<Rightarrow> bool \<Rightarrow> bool \<Rightarrow> int \<Rightarrow> server" where
  "init_slot sv i addr security_token token sixup vanilla now =
     (let c = DirectInit (slot sv i) addr security_token token sixup now;
          c = (if vanilla then c\<lparr>cn_UnknownSeq := True, cn_Sequence := 6\<rparr> else c)
      in set_slot sv i c)"

definition offline_slot :: "server \<Rightarrow> nat option" where
  "offline_slot sv = List.find (\<lambda>i. cn_State (slot sv i) = OFFLINE) [0..<sv_MaxClients sv]"

text \<open>\<open>rejoin\<close> is the slot of a client that connects again, if any.\<close>

definition TryAcceptClient ::
  "server_config \<Rightarrow> server \<Rightarrow> netaddr \<Rightarrow> token \<Rightarrow> nat option \<Rightarrow> bool \<Rightarrow> bool \<Rightarrow> token \<Rightarrow> int \<Rightarrow> server" where
  "TryAcceptClient cfg sv addr security_token rejoin vanilla sixup token now =
     (if sixup \<and> \<not> m_SvSixup cfg then
        refuse sv addr (cstring_of ''0.7 connections are not accepted at this time'') security_token sixup
      else case rejoin of
        Some i \<Rightarrow> sv_event (init_slot sv i addr security_token token sixup vanilla now) (ClientRejoin (int i) sixup vanilla)
      | None \<Rightarrow>
          let (sv, spamming) = Connlimit cfg sv addr now
          in if spamming then refuse sv addr (cstring_of ''Too many connections in a short time'') security_token sixup
             else if NumClientsWithAddr sv addr + 1 > sv_MaxClientsPerIp sv then
               refuse sv addr (take 127 (cstring_of ''Only '' @
                   (if sv_MaxClientsPerIp sv < 0 then 45 # decimal (nat (- sv_MaxClientsPerIp sv)) else decimal (nat (sv_MaxClientsPerIp sv))) @
                   cstring_of '' players with the same IP are allowed'')) security_token sixup
             else case offline_slot sv of
               None \<Rightarrow> refuse sv addr (cstring_of ''This server is full'') security_token sixup
             | Some i \<Rightarrow>
                 let sv = init_slot sv i addr security_token token sixup vanilla now
                 in if vanilla then sv_event sv (NewClientNoAuth (int i)) else sv_event sv (NewClient (int i) sixup))"

section \<open>The vanilla handshake\<close>

definition g_DummyMapCrc :: i32 where "g_DummyMapCrc = 0x6AF73DAF"

definition g_aDummyMapData :: "byte list" where
  "g_aDummyMapData = [
    68, 65, 84, 65, 4, 0, 0, 0, 16, 1, 0, 0, 244, 0, 0, 0, 2, 0, 0, 0, 3, 0, 0, 0, 2, 0, 0, 0, 172, 0, 0, 0,
    28, 0, 0, 0, 4, 0, 0, 0, 0, 0, 0, 0, 1, 0, 0, 0, 5, 0, 0, 0, 1, 0, 0, 0, 2, 0, 0, 0, 0, 0, 0, 0, 36, 0, 0,
    0, 104, 0, 0, 0, 0, 0, 0, 0, 14, 0, 0, 0, 16, 0, 0, 0, 16, 0, 0, 0, 0, 0, 4, 0, 28, 0, 0, 0, 1, 0, 0, 0, 0,
    0, 0, 0, 0, 0, 0, 0, 0, 0, 0, 0, 0, 0, 0, 0, 0, 0, 0, 0, 2, 0, 0, 0, 0, 0, 5, 0, 60, 0, 0, 0, 0, 0, 0, 0,
    2, 0, 0, 0, 0, 0, 0, 0, 2, 0, 0, 0, 2, 0, 0, 0, 2, 0, 0, 0, 1, 0, 0, 0, 255, 0, 0, 0, 255, 0, 0, 0, 255, 0,
    0, 0, 255, 0, 0, 0, 255, 255, 255, 255, 0, 0, 0, 0, 255, 255, 255, 255, 0, 0, 0, 0, 1, 0, 5, 0, 60, 0, 0,
    0, 0, 0, 0, 0, 2, 0, 0, 0, 0, 0, 0, 0, 2, 0, 0, 0, 2, 0, 0, 0, 2, 0, 0, 0, 0, 0, 0, 0, 255, 0, 0, 0, 255,
    0, 0, 0, 255, 0, 0, 0, 255, 0, 0, 0, 255, 255, 255, 255, 0, 0, 0, 0, 255, 255, 255, 255, 1, 0, 0, 0, 120,
    156, 99, 100, 96, 96, 96, 68, 194, 0, 0, 56, 0, 5, 120, 156, 99, 100, 96, 96, 96, 68, 194, 0, 0, 56, 0, 5]"

text \<open>\<open>SendMsgs\<close>: the messages as vital chunks numbered from 1.\<close>

fun pack_msgs :: "int \<Rightarrow> byte list list \<Rightarrow> byte list option" where
  "pack_msgs i [] = Some []"
| "pack_msgs i (m # ms) =
     (case chunk_header_Pack \<lparr>h_Flags = NET_CHUNKFLAG_VITAL, h_Size = int (length m), h_Sequence = i + 1\<rparr> 4 of
        None \<Rightarrow> None
      | Some h \<Rightarrow> map_option (\<lambda>r. h @ m @ r) (pack_msgs (i + 1) ms))"

definition SendMsgs :: "server \<Rightarrow> netaddr \<Rightarrow> packer list \<Rightarrow> server" where
  "SendMsgs sv addr msgs =
     (if \<not> (0 < length msgs \<and> int (length msgs) \<le> NET_MAX_PACKET_CHUNKS) then sv\<lparr>sv_Aborted := True\<rparr>
      else case pack_msgs 0 (map m_Written msgs) of
        None \<Rightarrow> sv\<lparr>sv_Aborted := True\<rparr>
      | Some data \<Rightarrow> sv_transmit sv addr (SendPacket
          \<lparr>m_Flags = 0, m_Ack = 0, m_NumChunks = int (length msgs), m_aChunkData = data, m_aExtraData = []\<rparr>
          NET_SECURITY_TOKEN_UNSUPPORTED False))"

definition msg_id :: "int \<Rightarrow> i32" where
  "msg_id m = word_of_int (push_bit 1 m OR 1)"

definition MapChangeMsg :: "bool \<Rightarrow> packer" where
  "MapChangeMsg flooding =
     (let p = AddInt CPacker (msg_id NETMSG_MAP_CHANGE)
      in if flooding then AddInt (AddInt (AddString p (cstring_of ''dm1'') 0 True) 0xf2159e6e) 5805
         else AddInt (AddInt (AddString p (cstring_of ''dummy'') 0 True) g_DummyMapCrc) (word_of_nat (length g_aDummyMapData)))"

definition MapDataMsg :: "bool \<Rightarrow> packer" where
  "MapDataMsg flooding =
     (let p = AddInt CPacker (msg_id NETMSG_MAP_DATA)
      in if flooding then AddInt (AddInt (AddInt (AddInt p 1) 0) 0) 0
         else AddRaw (AddInt (AddInt (AddInt (AddInt p 1) g_DummyMapCrc) 0) (word_of_nat (length g_aDummyMapData))) g_aDummyMapData)"

definition ConReadyMsg :: packer where
  "ConReadyMsg = AddInt CPacker (msg_id NETMSG_CON_READY)"

definition SnapEmptyMsg :: "token \<Rightarrow> packer" where
  "SnapEmptyMsg token = AddInt (AddInt (AddInt CPacker (msg_id NETMSG_SNAPEMPTY)) token) (token + 1)"

definition vanilla_anti_spoof :: "server_config \<Rightarrow> bool" where
  "vanilla_anti_spoof cfg \<longleftrightarrow> m_SvVanillaAntiSpoof cfg \<and> m_Password cfg = []"

text \<open>The answer to a vanilla connect message: a fake map and three empty snapshots that carry the token.\<close>

definition vanilla_handshake :: "(byte list \<Rightarrow> byte list) \<Rightarrow> server_config \<Rightarrow> server \<Rightarrow> netaddr \<Rightarrow> nat option \<Rightarrow> int \<Rightarrow> server" where
  "vanilla_handshake sha cfg sv addr slot_id now =
     (let sv = (if now > sv_VConnFirst sv + time_freq then sv\<lparr>sv_VConnFirst := now, sv_VConnNum := 0\<rparr> else sv);
          sv = sv\<lparr>sv_VConnNum := sv_VConnNum sv + 1\<rparr>
      in if m_SvVanConnRepliesPerSecond cfg \<noteq> 0 \<and> sv_VConnNum sv > m_SvVanConnRepliesPerSecond cfg then sv
         else
           let flooding = (m_SvVanConnPerSecond cfg \<noteq> 0 \<and> sv_VConnNum sv > m_SvVanConnPerSecond cfg);
               sv = (case slot_id of None \<Rightarrow> sv
                     | Some i \<Rightarrow> set_slot sv i ((slot sv i)\<lparr>cn_SecurityToken := NET_SECURITY_TOKEN_UNKNOWN\<rparr>));
               sv = server_SendControl sv addr NET_CTRLMSG_CONNECTACCEPT [] NET_SECURITY_TOKEN_UNSUPPORTED;
               snap = SnapEmptyMsg (GetVanillaToken sha sv addr)
           in SendMsgs sv addr [MapChangeMsg flooding, MapDataMsg flooding, ConReadyMsg, snap, snap, snap])"

text \<open>The message id and the first argument of an input message that a packet starts with.\<close>

definition preconn_input :: "construct \<Rightarrow> (int \<times> token) option" where
  "preconn_input p =
     (if m_DataSize p < 2 then None
      else
        let (header, hsize) = chunk_header_Unpack (m_aChunkData p) 4;
            remaining = int (m_DataSize p) - int hsize
        in if remaining < 0 then None
           else
             let u = unpacker_Reset (take (nat (min (h_Size header) remaining)) (drop hsize (m_aChunkData p)));
                 (u, msg) = GetInt u;
                 (u, token) = GetInt u
             in Some (drop_bit 1 (sint msg), token))"

definition OnPreConnMsg :: "(byte list \<Rightarrow> byte list) \<Rightarrow> server_config \<Rightarrow> server \<Rightarrow> netaddr \<Rightarrow> construct \<Rightarrow> nat option \<Rightarrow> int \<Rightarrow> server" where
  "OnPreConnMsg sha cfg sv addr p slot_id now =
     (let ctrl = has_flag (m_Flags p) NET_PACKETFLAG_CONTROL;
          fresh = (case slot_id of None \<Rightarrow> True
                   | Some i \<Rightarrow> cn_SecurityToken (slot sv i) = NET_SECURITY_TOKEN_UNKNOWN \<or>
                       ctrl \<and> cn_SecurityToken (slot sv i) = NET_SECURITY_TOKEN_UNSUPPORTED)
      in if \<not> fresh then sv
         else if ctrl \<and> byte_at (m_aChunkData p) 0 = NET_CTRLMSG_CONNECT then
           if vanilla_anti_spoof cfg then vanilla_handshake sha cfg sv addr slot_id now
           else
             let sv = server_SendControl sv addr NET_CTRLMSG_CONNECTACCEPT [] NET_SECURITY_TOKEN_UNSUPPORTED
             in TryAcceptClient cfg sv addr NET_SECURITY_TOKEN_UNSUPPORTED slot_id False False 0 now
         else if \<not> ctrl \<and> vanilla_anti_spoof cfg then
           (case preconn_input p of
              None \<Rightarrow> sv
            | Some (msg, token) \<Rightarrow>
                if msg = NETMSG_INPUT \<and> token = GetVanillaToken sha sv addr
                then TryAcceptClient cfg sv addr NET_SECURITY_TOKEN_UNSUPPORTED slot_id True False 0 now
                else sv)
         else sv)"

section \<open>The handshakes with a token\<close>

definition IsDDNetControlMsg :: "construct \<Rightarrow> bool" where
  "IsDDNetControlMsg p =
     (if \<not> has_flag (m_Flags p) NET_PACKETFLAG_CONTROL \<or> m_DataSize p < 1 then False
      else byte_at (m_aChunkData p) 0 = NET_CTRLMSG_CONNECT \<and> m_DataSize p \<ge> 1 + 4 + 4 \<and>
           take 4 (drop 1 (m_aChunkData p)) = SECURITY_TOKEN_MAGIC \<or>
           byte_at (m_aChunkData p) 0 = NET_CTRLMSG_ACCEPT \<and> m_DataSize p \<ge> 1 + 4)"

definition OnTokenCtrlMsg :: "(byte list \<Rightarrow> byte list) \<Rightarrow> server_config \<Rightarrow> server \<Rightarrow> netaddr \<Rightarrow> int \<Rightarrow> construct \<Rightarrow> nat option \<Rightarrow> int \<Rightarrow> server" where
  "OnTokenCtrlMsg sha cfg sv addr msg p slot_id now =
     (if msg = NET_CTRLMSG_CONNECT then
        server_SendControl sv addr NET_CTRLMSG_CONNECTACCEPT SECURITY_TOKEN_MAGIC (srv_GetToken sha sv addr)
      else if msg = NET_CTRLMSG_ACCEPT then
        let token = ToSecurityToken (drop 1 (m_aChunkData p))
        in if token = srv_GetToken sha sv addr then TryAcceptClient cfg sv addr token slot_id False False 0 now else sv
      else sv)"

text \<open>The result is the new response token, and the chunk handed to the caller if there is one. The token in the
  answer to a 0.7 connect message is in the byte order of the (little-endian) machine.\<close>

definition OnSixupCtrlMsg ::
  "(byte list \<Rightarrow> byte list) \<Rightarrow> server_config \<Rightarrow> server \<Rightarrow> netaddr \<Rightarrow> int \<Rightarrow> construct \<Rightarrow> token \<Rightarrow> token \<Rightarrow> nat option \<Rightarrow> int \<Rightarrow>
   server \<times> token \<times> net_chunk option" where
  "OnSixupCtrlMsg sha cfg sv addr msg p response token slot_id now =
     (if m_DataSize p < 1 + 4 then (sv, response, None)
      else
        let response = ToSecurityToken (drop 1 (m_aChunkData p))
        in if msg = NET_CTRLMSG_TOKEN then
             if m_DataSize p \<ge> NET_TOKENREQUEST_DATASIZE then (SendTokenSixup sha sv addr response, response, None)
             else (sv, response, Some \<lparr>ch_ClientId = - 1, ch_Address = addr, ch_Flags = 0, ch_Data = []\<rparr>)
           else if msg = NET_CTRLMSG_CONNECT then
             let my = srv_GetToken sha sv addr;
                 sv = sv_transmit sv addr (SendControlMsg 0 NET_CTRLMSG_CONNECTACCEPT (rev (uint_to_bytes_be my)) response True)
             in (if token = my then TryAcceptClient cfg sv addr response slot_id False True token now else sv, response, None)
           else (sv, response, None))"

definition GetClientSlot :: "server \<Rightarrow> netaddr \<Rightarrow> nat option" where
  "GetClientSlot sv addr =
     List.find (\<lambda>i. cn_State (slot sv i) \<noteq> OFFLINE \<and> cn_State (slot sv i) \<noteq> ERROR \<and> cn_PeerAddr (slot sv i) = addr)
       [0..<sv_MaxClients sv]"

section \<open>Receiving\<close>

text \<open>The next chunk of the packet being unpacked. When the owner has dropped the client meanwhile, the rest of the packet
  is forgotten.\<close>

definition next_chunk :: "server \<Rightarrow> server \<times> net_chunk option" where
  "next_chunk sv =
     (let i = nat (cu_ClientId (sv_Unpacker sv));
          (u, c, chunk) = UnpackNextChunk (sv_Unpacker sv) (slot sv i);
          sv = (set_slot sv i c)\<lparr>sv_Unpacker := u\<rparr>
      in case chunk of
           None \<Rightarrow> (sv, None)
         | Some ch \<Rightarrow>
             if cn_State (slot sv (nat (ch_ClientId ch))) \<noteq> OFFLINE then (sv, Some ch)
             else (sv\<lparr>sv_Unpacker := chunk_unpacker_Reset (sv_Unpacker sv)\<rparr>, None))"

text \<open>A packet for a connection is fed to it and, when it counts and holds chunks, put up for unpacking.\<close>

definition feed_slot :: "server_config \<Rightarrow> server \<Rightarrow> nat \<Rightarrow> construct \<Rightarrow> netaddr \<Rightarrow> token \<Rightarrow> token \<Rightarrow> int \<Rightarrow> server" where
  "feed_slot cfg sv i p addr token response now =
     (case Feed (m_Conn cfg) (slot sv i) p addr token response now of
        (c, ok) \<Rightarrow>
          let p' = (case strip_token (slot sv i) p of None \<Rightarrow> p | Some q \<Rightarrow> q);
              sv = set_slot sv i c
          in if ok \<and> \<not> has_flag (m_Flags p) NET_PACKETFLAG_CONTROL \<and> m_DataSize p' > 0 \<and> m_NumChunks p' > 0 then
               if cu_Valid (sv_Unpacker sv) then sv\<lparr>sv_Aborted := True\<rparr>
               else sv\<lparr>sv_Unpacker := FeedPacket addr p' (int i)\<rparr>
             else sv)"

text \<open>A connection-less packet for the caller, with its extra data.\<close>

type_synonym received = "net_chunk \<times> byte list"

definition connless_chunk :: "netaddr \<Rightarrow> construct \<Rightarrow> received" where
  "connless_chunk addr p =
     (let extended = has_flag (m_Flags p) NET_PACKETFLAG_EXTENDED
      in (\<lparr>ch_ClientId = - 1, ch_Address = addr,
           ch_Flags = (if extended then NETSENDFLAG_CONNLESS OR NETSENDFLAG_EXTENDED else NETSENDFLAG_CONNLESS),
           ch_Data = m_aChunkData p\<rparr>, if extended then m_aExtraData p else []))"

definition handle_packet ::
  "(byte list \<Rightarrow> byte list) \<Rightarrow> server_config \<Rightarrow> server \<Rightarrow> netaddr \<Rightarrow> construct \<Rightarrow> bool \<Rightarrow> token \<Rightarrow> token \<Rightarrow> nat option \<Rightarrow> int \<Rightarrow>
   server \<times> token \<times> received option" where
  "handle_packet sha cfg sv addr p sixup token response slot_id now =
     (if has_flag (m_Flags p) NET_PACKETFLAG_CONNLESS then
        if sixup \<and> token \<noteq> srv_GetToken sha sv addr \<and> token \<noteq> GetGlobalToken sha sv then (sv, response, None)
        else (sv, response, Some (connless_chunk addr p))
      else
        let ctrl = has_flag (m_Flags p) NET_PACKETFLAG_CONTROL;
            msg = byte_at (m_aChunkData p) 0;
            (sv, response, chunk) =
              (if sixup \<and> ctrl then OnSixupCtrlMsg sha cfg sv addr msg p response token slot_id now
               else if IsDDNetControlMsg p \<and> ctrl then (OnTokenCtrlMsg sha cfg sv addr msg p slot_id now, response, None)
               else (OnPreConnMsg sha cfg sv addr p slot_id now, response, None))
        in case chunk of
             Some ch \<Rightarrow> (sv, response, Some (ch, []))
           | None \<Rightarrow> (case slot_id of
                 None \<Rightarrow> (sv, response, None)
               | Some i \<Rightarrow> (feed_slot cfg sv i p addr token response now, response, None)))"

text \<open>Decompression is only allowed for packets that can still be authentic.\<close>

definition AllowDecompression :: "server_config \<Rightarrow> server \<Rightarrow> byte list \<Rightarrow> nat option \<Rightarrow> bool" where
  "AllowDecompression cfg sv data slot_id =
     (case slot_id of
        None \<Rightarrow> vanilla_anti_spoof cfg \<and>
          (m_SvPreConnDecompressPerSecond cfg = 0 \<or> sv_NumPreConnDecompress sv < m_SvPreConnDecompressPerSecond cfg)
      | Some i \<Rightarrow>
          if cn_Sixup (slot sv i) then
            length data \<ge> NET_PACKETHEADERSIZE + 4 \<and> ToSecurityToken (drop NET_PACKETHEADERSIZE data) = cn_Token (slot sv i)
          else True)"

text \<open>One datagram. The token of a 0.6 packet is not set by the code and not looked at either.\<close>

definition recv_packet ::
  "(byte list \<Rightarrow> byte list) \<Rightarrow> server_config \<Rightarrow> server \<Rightarrow> netaddr \<Rightarrow> byte list \<Rightarrow> token \<Rightarrow> int \<Rightarrow> int \<Rightarrow>
   server \<times> token \<times> received option" where
  "recv_packet sha cfg sv addr data response now stamp =
     (let sv = sv\<lparr>sv_NumRecvPackets := sv_NumRecvPackets sv + 1\<rparr> in
      case IsBanned (sv_NetBan sv) addr stamp 128 of
        Some text \<Rightarrow>
          (if m_SvBanRepliesPerSecond cfg = 0 \<or> sv_NumBanReplies sv < m_SvBanRepliesPerSecond cfg
           then refuse (sv\<lparr>sv_NumBanReplies := sv_NumBanReplies sv + 1\<rparr>) addr text NET_SECURITY_TOKEN_UNSUPPORTED False
           else sv, response, None)
      | None \<Rightarrow>
          (case UnpackPacketFlags data of
             None \<Rightarrow> (sv, response, None)
           | Some flags \<Rightarrow>
               let slot_id = (if has_flag flags NET_PACKETFLAG_CONNLESS then None else GetClientSlot sv addr);
                   sixup = (case slot_id of None \<Rightarrow> False | Some i \<Rightarrow> cn_Sixup (slot sv i));
                   (decompressed, result) = UnpackPacket data sixup (AllowDecompression cfg sv data slot_id)
                     (Some NET_SECURITY_TOKEN_UNKNOWN) (Some response);
                   sv = (if slot_id = None \<and> decompressed
                         then sv\<lparr>sv_NumPreConnDecompress := sv_NumPreConnDecompress sv + 1\<rparr> else sv)
               in case result of
                    Unpacked p sixup token response \<Rightarrow>
                      handle_packet sha cfg sv addr p sixup (the token) (the response) slot_id now
                  | _ \<Rightarrow> (sv, NET_SECURITY_TOKEN_UNKNOWN, None)))"

text \<open>\<open>Recv\<close> loops until there is a chunk for the caller, nothing is left to receive or the budget of the batch is used
  up; \<open>k\<close> counts the datagrams of the call. Not returning would be \<open>None\<close>.\<close>

partial_function (option) Recv_loop ::
  "(byte list \<Rightarrow> byte list) \<Rightarrow> server_config \<Rightarrow> (nat \<Rightarrow> (netaddr \<times> byte list) option) \<Rightarrow> int \<Rightarrow> int \<Rightarrow> nat \<Rightarrow> server \<Rightarrow> token \<Rightarrow>
   (server \<times> token \<times> received option) option" where
  "Recv_loop sha cfg recv now stamp k sv response =
     (case next_chunk sv of
        (sv, Some ch) \<Rightarrow> Some (sv, response, Some (ch, []))
      | (sv, None) \<Rightarrow>
          if m_SvMaxPacketsPerRecv cfg \<noteq> 0 \<and> sv_NumRecvPackets sv \<ge> m_SvMaxPacketsPerRecv cfg then Some (sv, response, None)
          else (case recv k of
             None \<Rightarrow> Some (sv, response, None)
           | Some (addr, data) \<Rightarrow>
               if data = [] then Some (sv, response, None)
               else (case recv_packet sha cfg sv addr data response now stamp of
                  (sv, response, Some ch) \<Rightarrow> Some (sv, response, Some ch)
                | (sv, response, None) \<Rightarrow> Recv_loop sha cfg recv now stamp (Suc k) sv response)))"

definition server_Recv ::
  "(byte list \<Rightarrow> byte list) \<Rightarrow> server_config \<Rightarrow> (nat \<Rightarrow> (netaddr \<times> byte list) option) \<Rightarrow> int \<Rightarrow> int \<Rightarrow> server \<Rightarrow> token \<Rightarrow>
   (server \<times> token \<times> received option) option" where
  "server_Recv sha cfg recv now stamp sv response = Recv_loop sha cfg recv now stamp 0 sv response"

section \<open>Sending and the owner's requests\<close>

definition server_Send :: "server \<Rightarrow> net_chunk \<Rightarrow> byte list \<Rightarrow> int \<Rightarrow> server" where
  "server_Send sv chunk extra now =
     (let connless = has_flag (ch_Flags chunk) NETSENDFLAG_CONNLESS; n = length (ch_Data chunk); i = nat (ch_ClientId chunk)
      in if (if connless then n > NET_MAX_CONNLESS_PAYLOAD else int n > NET_MAX_CHUNK_SIZE) then sv\<lparr>sv_Aborted := True\<rparr>
         else if connless then
           sv_transmit sv (ch_Address chunk)
             (SendPacketConnless (ch_Data chunk) (has_flag (ch_Flags chunk) NETSENDFLAG_EXTENDED) extra)
         else if \<not> (0 \<le> ch_ClientId chunk \<and> i < sv_MaxClients sv) then sv\<lparr>sv_Aborted := True\<rparr>
         else
           let flags = (if has_flag (ch_Flags chunk) NETSENDFLAG_VITAL then NET_CHUNKFLAG_VITAL else 0);
               (c, res) = QueueChunk (slot sv i) flags (ch_Data chunk) now;
               sv = set_slot sv i c
           in if res = 0 \<and> has_flag (ch_Flags chunk) NETSENDFLAG_FLUSH then
                if sv_FlushBatch sv then sv\<lparr>sv_FlushPending := (sv_FlushPending sv)[i := True]\<rparr>
                else set_slot sv i (fst (Flush (slot sv i) now))
              else sv)"

definition SetMaxClientsPerIp :: "server \<Rightarrow> int \<Rightarrow> server" where
  "SetMaxClientsPerIp sv n = sv\<lparr>sv_MaxClientsPerIp := max 1 (min n (int NET_MAX_CLIENTS))\<rparr>"

definition HasErrored :: "server \<Rightarrow> nat \<Rightarrow> bool" where
  "HasErrored sv i \<longleftrightarrow> cn_State (slot sv i) = ERROR"

definition ResumeOldConnection :: "server \<Rightarrow> nat \<Rightarrow> nat \<Rightarrow> int \<Rightarrow> server" where
  "ResumeOldConnection sv i orig now =
     (let old = slot sv orig;
          c = fst (ResumeConnection (slot sv i) (cn_PeerAddr old) (cn_Sequence old) (cn_Ack old) (cn_SecurityToken old)
                     (cn_Buffer old) (cn_Resends old) (cn_Sixup old) now);
          sv = set_slot sv i c
      in set_slot sv orig (conn_Reset (slot sv orig)))"

definition IgnoreTimeouts :: "server \<Rightarrow> nat \<Rightarrow> server" where
  "IgnoreTimeouts sv i = set_slot sv i ((slot sv i)\<lparr>cn_TimeoutProtected := True\<rparr>)"

definition ResetErrorString :: "server \<Rightarrow> nat \<Rightarrow> server" where
  "ResetErrorString sv i = set_slot sv i ((slot sv i)\<lparr>cn_ErrorString := []\<rparr>)"

end
