(* ===== verification/ServerSafety.thy ===== *)
theory ServerSafety
  imports NetServer ConnResume BanSafety
begin

text \<open>
  Correctness of the server's connection handling: the invariant of the slots under every operation, the limits on
  clients, the protection against spoofed addresses and the end of the receive loop.
\<close>

section \<open>What the operations of a connection leave alone\<close>

definition peer :: "conn \<Rightarrow> conn_state \<times> netaddr \<times> bool \<times> bool \<times> cstring" where
  "peer c = (cn_State c, cn_PeerAddr c, cn_TimeoutProtected c, cn_TimeoutSituation c, cn_ErrorString c)"

named_theorems peer_simps "operations that leave the state and the address of a connection alone"

lemma peer_transmit [peer_simps]: "peer (transmit c a d) = peer c"
  by (simp add: peer_def transmit_def split: option.split)

lemma peer_fields [peer_simps]:
  "peer (c\<lparr>cn_SecurityToken := t\<rparr>) = peer c" "peer (c\<lparr>cn_PeerAck := n\<rparr>) = peer c" "peer (c\<lparr>cn_ResendRequested := b\<rparr>) = peer c"
  "peer (c\<lparr>cn_LastRecvTime := n\<rparr>) = peer c" "peer (c\<lparr>cn_LastSendTime := n\<rparr>) = peer c" "peer (c\<lparr>cn_LastResendTime := n\<rparr>) = peer c"
  "peer (c\<lparr>cn_Construct := p\<rparr>) = peer c" "peer (c\<lparr>cn_Buffer := rb\<rparr>) = peer c" "peer (c\<lparr>cn_Resends := f\<rparr>) = peer c"
  "peer (c\<lparr>cn_Sequence := n\<rparr>) = peer c" "peer (c\<lparr>cn_Ack := n\<rparr>) = peer c" "peer (c\<lparr>cn_UnknownSeq := b\<rparr>) = peer c"
  "peer (c\<lparr>cn_Aborted := b\<rparr>) = peer c" "peer (c\<lparr>cn_RemoteClosed := b\<rparr>) = peer c"
  by (simp_all add: peer_def)

lemma peer_Flush [peer_simps]: "peer (fst (Flush c now)) = peer c"
  by (simp add: Flush_def Let_def peer_simps)

lemma peer_append_chunk [peer_simps]: "peer (append_chunk c f d s) = peer c"
  by (simp add: append_chunk_def peer_simps split: option.split)

lemma peer_QueueChunkEx [peer_simps]: "peer (fst (QueueChunkEx c f d s now)) = peer c"
  by (simp add: QueueChunkEx_def Let_def peer_simps split: prod.split option.split)

lemma peer_QueueChunk [peer_simps]: "peer (fst (QueueChunk c f d now)) = peer c"
  by (simp add: QueueChunk_def Let_def peer_simps)

lemma peer_ResendChunk [peer_simps]: "peer (ResendChunk c a now) = peer c"
  by (simp add: ResendChunk_def Let_def peer_simps)

lemma peer_Resend [peer_simps]: "peer (Resend c now) = peer c"
proof -
  have "peer (foldl (\<lambda>c a. ResendChunk c a now) c as) = peer c" for as c
    by (induction as arbitrary: c) (simp_all add: peer_simps)
  then show ?thesis by (simp add: Resend_def)
qed

lemma peer_AnswerResendRequest [peer_simps]: "peer (AnswerResendRequest cfg c now) = peer c"
  by (simp add: AnswerResendRequest_def peer_simps)

lemma peer_AckChunks [peer_simps]: "peer (AckChunks c ack) = peer c"
  by (simp add: AckChunks_def peer_simps)

lemma peer_SendControl [peer_simps]: "peer (SendControl c msg extra now) = peer c"
  by (simp add: SendControl_def peer_simps)

lemma peer_SendConnect [peer_simps]: "peer (SendConnect c now) = peer c"
proof -
  have "peer (foldl (\<lambda>c addr. transmit c addr (g c)) c as) = peer c" for as c g
    by (induction as arbitrary: c) (simp_all add: peer_simps)
  then show ?thesis by (simp add: SendConnect_def peer_simps)
qed

lemma peer_keep_alive [peer_simps]: "peer (keep_alive c now) = peer c"
  by (simp add: keep_alive_def Let_def peer_simps)

lemma peer_SignalResend [peer_simps]: "peer (SignalResend c) = peer c"
  by (simp add: SignalResend_def peer_simps)

lemma peer_UnpackNextChunk: "UnpackNextChunk u c = (u', c', r) \<Longrightarrow> peer c' = peer c"
proof (induction u c arbitrary: u' c' r rule: UnpackNextChunk.induct)
  case (1 u c)
  obtain h n where hn: "chunk_header_Unpack (drop (cu_CurrentOffset u) (m_aChunkData (cu_Data u)))
      (if cn_Sixup c then 6 else 4) = (h, n)" by fastforce
  show ?case using "1.prems"
    by (subst (asm) UnpackNextChunk.simps)
       (auto simp: hn Let_def peer_simps dest!: "1.IH" [rotated -1] split: if_splits verdict.splits)
qed

lemma peerD:
  assumes "peer c' = peer c"
  shows "cn_State c' = cn_State c" "cn_PeerAddr c' = cn_PeerAddr c" "cn_TimeoutProtected c' = cn_TimeoutProtected c"
    "cn_TimeoutSituation c' = cn_TimeoutSituation c" "cn_ErrorString c' = cn_ErrorString c"
  using assms by (simp_all add: peer_def)

section \<open>The invariant of a slot\<close>

definition conn_half_ok :: "conn \<Rightarrow> bool" where
  "conn_half_ok c \<longleftrightarrow> conn_ok c \<and> cn_State c \<in> {OFFLINE, ONLINE, ERROR} \<and> length (cn_ErrorString c) < 256"

definition slot_ok :: "conn \<Rightarrow> bool" where
  "slot_ok c \<longleftrightarrow> conn_half_ok c \<and> (cn_TimeoutSituation c \<longrightarrow> cn_TimeoutProtected c)"

lemmas slot_ok_defs = slot_ok_def conn_half_ok_def

text \<open>A slot that counts as a client.\<close>

definition live :: "conn \<Rightarrow> bool" where
  "live c \<longleftrightarrow> \<not> (cn_State c = OFFLINE \<or> errored c)"

text \<open>Moves that keep the invariant and make no client.\<close>

definition keeps :: "conn \<Rightarrow> conn \<Rightarrow> bool" where
  "keeps c c' \<longleftrightarrow> (slot_ok c \<longrightarrow> slot_ok c' \<and> (live c' \<longrightarrow> live c \<and> cn_PeerAddr c' = cn_PeerAddr c))"

lemma keeps_trans: "keeps c d \<Longrightarrow> keeps d e \<Longrightarrow> keeps c e"
  by (auto simp: keeps_def)

lemma keeps_peer: "peer c' = peer c \<Longrightarrow> (conn_ok c \<Longrightarrow> conn_ok c') \<Longrightarrow> keeps c c'"
  by (auto simp: keeps_def slot_ok_defs live_def errored_def dest: peerD)

lemma keeps_offline: "conn_ok c' \<Longrightarrow> cn_State c' = OFFLINE \<Longrightarrow> \<not> cn_TimeoutSituation c' \<Longrightarrow> length (cn_ErrorString c') < 256 \<Longrightarrow> keeps c c'"
  by (simp add: keeps_def slot_ok_defs live_def)

lemma SetError_frame [simp]:
  "cn_State (SetError c s) = cn_State c" "cn_PeerAddr (SetError c s) = cn_PeerAddr c"
  "cn_TimeoutProtected (SetError c s) = cn_TimeoutProtected c" "cn_TimeoutSituation (SetError c s) = cn_TimeoutSituation c"
  "length (cn_ErrorString (SetError c s)) < 256"
proof -
  have "length (str_copy s 256) \<le> length (take 255 s)" by (simp add: str_copy_def fix_truncation_length del: length_take)
  then show "length (cn_ErrorString (SetError c s)) < 256" by (simp add: SetError_def)
qed (simp_all add: SetError_def)

lemma str_copy_short: "length (str_copy s 256) < 256"
  using SetError_frame(5) [of some_conn s] by (simp add: SetError_def)

lemma conn_Reset_frame [simp]:
  "cn_State (conn_Reset c) = OFFLINE" "\<not> cn_TimeoutSituation (conn_Reset c)" "cn_ErrorString (conn_Reset c) = cn_ErrorString c"
  by (simp_all add: conn_Reset_def)

lemma keeps_Disconnect:
  assumes "\<And>s. reason = Some s \<Longrightarrow> length s < 1392"
  shows "keeps c (conn_Disconnect c reason own now)"
proof (cases "cn_State c = OFFLINE")
  case True
  then show ?thesis by (simp add: conn_Disconnect_def keeps_def)
next
  case False
  have "length (cn_ErrorString (conn_Disconnect c reason own now)) < 256" if "length (cn_ErrorString c) < 256"
    using that False peerD(5) [OF peer_SendControl]
    by (auto simp: conn_Disconnect_def Let_def str_copy_short split: option.split)
  moreover have "cn_State (conn_Disconnect c reason own now) = OFFLINE \<and> \<not> cn_TimeoutSituation (conn_Disconnect c reason own now)"
    using False by (simp add: conn_Disconnect_def Let_def)
  ultimately show ?thesis using conn_Disconnect_ok [where c = c and reason = reason and own = own and now = now] assms
    by (simp add: keeps_def slot_ok_defs live_def)
qed

lemma conn_Disconnect_offline [simp]: "cn_State (conn_Disconnect c reason own now) = OFFLINE"
  by (simp add: conn_Disconnect_def Let_def)

lemma Feed_peer:
  assumes "cn_State c = ONLINE" "fst (Feed cfg c p addr t r now) = c'"
  shows "peer c' = peer c \<or> cn_State c' = ERROR \<and> cn_PeerAddr c' = cn_PeerAddr c \<and>
    cn_TimeoutSituation c' = cn_TimeoutSituation c \<and> cn_TimeoutProtected c' = cn_TimeoutProtected c \<and> (length (cn_ErrorString c) < 256 \<longrightarrow> length (cn_ErrorString c') < 256)"
proof -
  have f: "feed_control d ctrl q addr r now = d" if "cn_State d = ONLINE" for d ctrl q
    using that by (simp add: feed_control_def)
  define d where "d = AnswerResendRequest cfg (if has_flag (m_Flags p) NET_PACKETFLAG_RESEND then c\<lparr>cn_PeerAck := m_Ack p, cn_ResendRequested := True\<rparr>
    else c\<lparr>cn_PeerAck := m_Ack p\<rparr>) now"
  have d: "peer d = peer c" by (simp add: d_def peer_simps)
  have q: "m_Flags q = m_Flags p" "m_Ack q = m_Ack p" if "strip_token c p = Some q" for q
    using that by (auto simp: strip_token_def Let_def split: if_splits)
  show ?thesis
  proof (cases "strip_token c p = None \<or> \<not> IsPeerAddress c addr \<or> cn_Sixup c \<and> t \<noteq> cn_Token c \<or> \<not> ack_acceptable c (m_Ack p)")
    case True
    then have "Feed cfg c p addr t r now = (c, False)"
      using assms(1) by (intro Feed_rejected) auto
    then show ?thesis using assms(2) by simp
  next
    case False
    then obtain q where s: "strip_token c p = Some q" by auto
    have st: "(cn_State c = OFFLINE) = False" and ip: "IsPeerAddress c addr = True"
      and tk: "(cn_Sixup c \<and> t \<noteq> cn_Token c) = False" and ac: "ack_acceptable c (m_Ack q) = True"
      using False assms(1) q [OF s] by auto
    have on: "cn_State d = ONLINE" using peerD(1) [OF d] assms(1) by simp
    have "Feed cfg c p addr t r now =
       (if has_flag (m_Flags q) NET_PACKETFLAG_CONTROL \<and> byte_at (m_aChunkData p) 0 = NET_CTRLMSG_CLOSE then
          (if \<not> cn_BlockCloseMsg (d\<lparr>cn_State := ERROR, cn_RemoteClosed := True\<rparr>)
           then SetError (d\<lparr>cn_State := ERROR, cn_RemoteClosed := True\<rparr>) (close_reason (m_aChunkData q))
           else d\<lparr>cn_State := ERROR, cn_RemoteClosed := True\<rparr>, False)
        else
          let e = (if has_flag (m_Flags q) NET_PACKETFLAG_CONTROL then feed_control d (byte_at (m_aChunkData p) 0) q addr r now
                   else if cn_State d = PENDING then d\<lparr>cn_LastRecvTime := now, cn_State := ONLINE\<rparr> else d)
          in (if cn_State e = ONLINE then AckChunks (e\<lparr>cn_LastRecvTime := now\<rparr>) (m_Ack q) else e, True))"
      unfolding Feed_def Let_def d_def q [OF s, symmetric]
      by (simp only: st ip tk ac s option.case if_False if_True not_True_eq_False)
    then have e: "Feed cfg c p addr t r now =
       (if has_flag (m_Flags q) NET_PACKETFLAG_CONTROL \<and> byte_at (m_aChunkData p) 0 = NET_CTRLMSG_CLOSE then
          (if \<not> cn_BlockCloseMsg d
           then SetError (d\<lparr>cn_State := ERROR, cn_RemoteClosed := True\<rparr>) (close_reason (m_aChunkData q))
           else d\<lparr>cn_State := ERROR, cn_RemoteClosed := True\<rparr>, False)
        else (AckChunks (d\<lparr>cn_LastRecvTime := now\<rparr>) (m_Ack q), True))"
      using on f [OF on] by simp
    show ?thesis using assms(2) peerD [OF d] unfolding e
      by (auto simp: peer_simps d split: if_splits)
  qed
qed

lemma keeps_Feed:
  assumes "cn_State c = ONLINE"
  shows "keeps c (fst (Feed cfg c p addr t r now))"
  using Feed_peer [OF assms refl, of cfg p addr t r now] Feed_ok [of c cfg p addr t r now] assms
  by (auto simp: keeps_def slot_ok_defs live_def errored_def dest: peerD)

lemma check_resend_cases:
  "peer (check_resend cfg c now) = peer c \<or>
   cn_State (check_resend cfg c now) = ERROR \<and> cn_PeerAddr (check_resend cfg c now) = cn_PeerAddr c \<and>
   cn_TimeoutSituation (check_resend cfg c now) \<and> length (cn_ErrorString (check_resend cfg c now)) < 256"
proof -
  have "length (cn_ErrorString (SetError d s)) < 256" for d s by (rule SetError_frame(5))
  then show ?thesis by (simp add: check_resend_def peer_simps split: option.split)
qed

lemma Update_half:
  assumes "slot_ok c"
  shows "conn_half_ok (conn_Update cfg c now) \<and>
    (live (conn_Update cfg c now) \<longrightarrow> live c \<and> cn_PeerAddr (conn_Update cfg c now) = cn_PeerAddr c) \<and>
    (cn_TimeoutSituation (conn_Update cfg c now) \<longrightarrow> cn_TimeoutProtected (conn_Update cfg c now) \<or> cn_State (conn_Update cfg c now) = ERROR)"
proof -
  define c1 where "c1 = (if cn_State c = ERROR \<and> cn_TimeoutSituation c \<and> now - cn_LastRecvTime c > time_freq * m_ConnTimeoutProtection cfg
    then SetError (c\<lparr>cn_TimeoutSituation := False\<rparr>) (cstring_of ''Timeout Protection over'') else c)"
  define c2 where "c2 = AnswerResendRequest cfg (c\<lparr>cn_TimeoutSituation := False\<rparr>) now"
  define c3 where "c3 = (if cn_State c2 \<noteq> CONNECT \<and> now - cn_LastRecvTime c2 > time_freq * m_ConnTimeout cfg
    then (SetError (c2\<lparr>cn_State := ERROR\<rparr>) (cstring_of ''Timeout''))\<lparr>cn_TimeoutSituation := True\<rparr> else c2)"
  define c5 where "c5 = conn_Update cfg c now"
  have ok: "conn_ok c \<Longrightarrow> conn_ok c5" unfolding c5_def by (rule conn_Update_ok)
  show ?thesis
  proof (cases "cn_State c = OFFLINE \<or> cn_State c = ERROR")
    case True
    then have "c5 = c1" by (auto simp: c5_def conn_Update_def Let_def c1_def)
    moreover have "length (cn_ErrorString c1) < 256 \<or> c1 = c" by (auto simp: c1_def)
    moreover have "cn_State c1 = cn_State c" "cn_PeerAddr c1 = cn_PeerAddr c" "cn_TimeoutProtected c1 = cn_TimeoutProtected c"
      "cn_TimeoutSituation c1 \<Longrightarrow> cn_TimeoutSituation c" by (auto simp: c1_def split: if_splits)
    ultimately show ?thesis using ok assms unfolding c5_def [symmetric]
      by (auto simp: slot_ok_defs live_def errored_def)
  next
    case False
    have e: "c5 = keep_alive (check_resend cfg c3 now) now"
      using False by (simp add: c5_def conn_Update_def Let_def c2_def c3_def)
    have "peer c2 = peer (c\<lparr>cn_TimeoutSituation := False\<rparr>)" by (simp add: c2_def peer_simps)
    then have c2: "cn_State c2 = cn_State c" "cn_PeerAddr c2 = cn_PeerAddr c" "\<not> cn_TimeoutSituation c2" "cn_ErrorString c2 = cn_ErrorString c"
      by (simp_all add: peer_def)
    then have c3: "cn_PeerAddr c3 = cn_PeerAddr c" "cn_State c3 = cn_State c \<and> \<not> cn_TimeoutSituation c3 \<or> cn_State c3 = ERROR"
      "length (cn_ErrorString c3) < 256 \<or> cn_ErrorString c3 = cn_ErrorString c"
      by (auto simp: c3_def)
    have "peer c5 = peer (check_resend cfg c3 now)" unfolding e by (rule peer_keep_alive)
    note c5 = peerD [OF this]
    have "cn_PeerAddr c5 = cn_PeerAddr c \<and> (cn_State c5 = cn_State c \<and> \<not> cn_TimeoutSituation c5 \<or> cn_State c5 = ERROR) \<and>
        (length (cn_ErrorString c5) < 256 \<or> cn_ErrorString c5 = cn_ErrorString c)"
    proof (cases "peer (check_resend cfg c3 now) = peer c3")
      case True
      from peerD [OF this] show ?thesis using c5 c3 by auto
    next
      case False
      then show ?thesis using check_resend_cases [of cfg c3 now] c5 c3 by auto
    qed
    then show ?thesis using ok False assms unfolding c5_def [symmetric]
      by (auto simp: slot_ok_defs live_def errored_def)
  qed
qed

definition updated_conn :: "conn_config \<Rightarrow> conn \<Rightarrow> int \<Rightarrow> conn" where
  "updated_conn cfg c now = (let c = conn_Update cfg c now
     in if errored c then conn_Disconnect c (Some (cn_ErrorString c)) True now else c)"

lemma keeps_Update: "keeps c (updated_conn cfg c now)"
proof (cases "slot_ok c")
  case True
  define d where "d = conn_Update cfg c now"
  have d: "conn_half_ok d" "live d \<Longrightarrow> live c \<and> cn_PeerAddr d = cn_PeerAddr c"
    "cn_TimeoutSituation d \<Longrightarrow> cn_TimeoutProtected d \<or> cn_State d = ERROR" using Update_half [OF True] by (auto simp: d_def)
  show ?thesis
  proof (cases "errored d")
    case True
    have "keeps c (conn_Disconnect d (Some (cn_ErrorString d)) True now)"
    proof (rule keeps_offline)
      show "conn_ok (conn_Disconnect d (Some (cn_ErrorString d)) True now)"
        using d(1) by (intro conn_Disconnect_ok) (auto simp: conn_half_ok_def)
      show "\<not> cn_TimeoutSituation (conn_Disconnect d (Some (cn_ErrorString d)) True now)"
        "length (cn_ErrorString (conn_Disconnect d (Some (cn_ErrorString d)) True now)) < 256"
        using True d(1) peerD(5) [OF peer_SendControl]
        by (auto simp: conn_Disconnect_def Let_def errored_def conn_half_ok_def)
    qed simp
    then show ?thesis using True by (simp add: updated_conn_def d_def Let_def)
  next
    case False
    then have "cn_TimeoutSituation d \<longrightarrow> cn_TimeoutProtected d" using d(3) by (auto simp: errored_def)
    then show ?thesis using d False by (auto simp: keeps_def slot_ok_def updated_conn_def d_def [symmetric] Let_def)
  qed
qed (simp add: keeps_def)

section \<open>The invariant of the server\<close>

text \<open>\<open>lim\<close> bounds the clients per address.\<close>

definition server_ok :: "int \<Rightarrow> server \<Rightarrow> bool" where
  "server_ok lim sv \<longleftrightarrow>
     length (sv_Slots sv) = NET_MAX_CLIENTS \<and> 0 < sv_MaxClients sv \<and> sv_MaxClients sv \<le> NET_MAX_CLIENTS \<and>
     (\<forall>c\<in>set (sv_Slots sv). slot_ok c) \<and> (\<forall>addr. NumClientsWithAddr sv addr \<le> lim) \<and> sv_MaxClientsPerIp sv \<le> lim \<and>
     (\<forall>d\<in>set (sv_Sent sv). length (snd d) \<le> NET_MAX_PACKETSIZE) \<and> \<not> sv_Aborted sv \<and>
     0 \<le> cu_ClientId (sv_Unpacker sv) \<and> cu_ClientId (sv_Unpacker sv) < int (sv_MaxClients sv)"

lemma NumClientsWithAddr_live:
  "NumClientsWithAddr sv addr = int (length (filter (\<lambda>c. live c \<and> same_host addr (cn_PeerAddr c)) (take (sv_MaxClients sv) (sv_Slots sv))))"
  by (simp add: NumClientsWithAddr_def live_def)

lemma server_ok_frame [frame_simps]:
  "server_ok lim (sv\<lparr>sv_FlushBatch := b\<rparr>) = server_ok lim sv" "server_ok lim (sv\<lparr>sv_FlushPending := bs\<rparr>) = server_ok lim sv"
  "server_ok lim (sv\<lparr>sv_VConnFirst := n\<rparr>) = server_ok lim sv" "server_ok lim (sv\<lparr>sv_VConnNum := n\<rparr>) = server_ok lim sv"
  "server_ok lim (sv\<lparr>sv_NumRecvPackets := n\<rparr>) = server_ok lim sv" "server_ok lim (sv\<lparr>sv_BudgetStart := n\<rparr>) = server_ok lim sv"
  "server_ok lim (sv\<lparr>sv_NumPreConnDecompress := n\<rparr>) = server_ok lim sv" "server_ok lim (sv\<lparr>sv_NumBanReplies := n\<rparr>) = server_ok lim sv"
  "server_ok lim (sv\<lparr>sv_SpamConns := cs\<rparr>) = server_ok lim sv" "server_ok lim (sv\<lparr>sv_Events := es\<rparr>) = server_ok lim sv"
  "server_ok lim (sv\<lparr>sv_NetBan := nb\<rparr>) = server_ok lim sv" "server_ok lim (sv_event sv e) = server_ok lim sv"
  by (simp_all add: server_ok_def NumClientsWithAddr_def sv_event_def)

lemma count_update_le:
  "(P y \<Longrightarrow> i < length xs \<Longrightarrow> P (xs ! i)) \<Longrightarrow> length (filter P (take n (xs[i := y]))) \<le> length (filter P (take n xs))"
proof (induction xs arbitrary: i n)
  case (Cons x xs)
  show ?case
  proof (cases i)
    case 0
    then show ?thesis using Cons.prems by (cases n) auto
  next
    case (Suc j)
    then show ?thesis using Cons.IH [of j "n - 1"] Cons.prems by (cases n) auto
  qed
qed simp

lemma count_update_Suc: "length (filter P (take n (xs[i := y]))) \<le> Suc (length (filter P (take n xs)))"
proof (induction xs arbitrary: i n)
  case (Cons x xs)
  show ?case
  proof (cases i)
    case 0
    then show ?thesis by (cases n) auto
  next
    case (Suc j)
    then show ?thesis using Cons.IH [of "n - 1" j] by (cases n) auto
  qed
qed simp

lemma set_slot_frame [simp]:
  "sv_MaxClients (set_slot sv i c) = sv_MaxClients sv" "sv_MaxClientsPerIp (set_slot sv i c) = sv_MaxClientsPerIp sv"
  "sv_Unpacker (set_slot sv i c) = sv_Unpacker sv" "sv_Slots (set_slot sv i c) = (sv_Slots sv)[i := c]"
  "sv_Sent (set_slot sv i c) = sv_Sent sv" "sv_Aborted (set_slot sv i c) = sv_Aborted sv"
  "sv_NetBan (set_slot sv i c) = sv_NetBan sv" "sv_SecurityTokenSeed (set_slot sv i c) = sv_SecurityTokenSeed sv"
  "sv_NumRecvPackets (set_slot sv i c) = sv_NumRecvPackets sv" "sv_FlushPending (set_slot sv i c) = sv_FlushPending sv"
  "sv_Events (set_slot sv i c) = sv_Events sv" "sv_FlushBatch (set_slot sv i c) = sv_FlushBatch sv"
  by (simp_all add: set_slot_def)

lemma server_okD:
  assumes "server_ok lim sv"
  shows "length (sv_Slots sv) = NET_MAX_CLIENTS" "0 < sv_MaxClients sv" "sv_MaxClients sv \<le> NET_MAX_CLIENTS"
    "\<And>i. i < NET_MAX_CLIENTS \<Longrightarrow> slot_ok (slot sv i)" "\<And>addr. NumClientsWithAddr sv addr \<le> lim"
    "sv_MaxClientsPerIp sv \<le> lim" "\<not> sv_Aborted sv" "nat (cu_ClientId (sv_Unpacker sv)) < NET_MAX_CLIENTS"
    "nat (cu_ClientId (sv_Unpacker sv)) < sv_MaxClients sv"
  using assms by (auto simp: server_ok_def nat_less_iff)

lemma slots_updated: "\<forall>c\<in>set xs. P c \<Longrightarrow> P y \<Longrightarrow> \<forall>c\<in>set (xs[i := y]). P c"
  by (auto dest: set_update_subset_insert [THEN subsetD])

lemma set_slot_ok:
  assumes ok: "server_ok lim sv" and i: "i < NET_MAX_CLIENTS" and k: "keeps (slot sv i) c"
  shows "server_ok lim (set_slot sv i c)"
proof -
  note o = server_okD [OF ok]
  have c: "slot_ok c" "live c \<Longrightarrow> live (slot sv i) \<and> cn_PeerAddr c = cn_PeerAddr (slot sv i)"
    using k o(4) [OF i] by (auto simp: keeps_def)
  have "NumClientsWithAddr (set_slot sv i c) a \<le> NumClientsWithAddr sv a" for a
    unfolding NumClientsWithAddr_live using c(2) by (auto intro!: count_update_le)
  then have n: "NumClientsWithAddr (set_slot sv i c) a \<le> lim" for a using o(5) order.trans by blast
  show ?thesis using ok slots_updated [of "sv_Slots sv" slot_ok c i] c(1) n by (simp add: server_ok_def)
qed

lemma new_client_ok:
  assumes ok: "server_ok lim sv" and c: "slot_ok c" "cn_PeerAddr c = addr"
    and n: "NumClientsWithAddr sv addr + 1 \<le> lim"
  shows "server_ok lim (set_slot sv i c)"
proof -
  note o = server_okD [OF ok]
  have "NumClientsWithAddr (set_slot sv i c) a \<le> lim" for a
  proof (cases "same_host a addr")
    case True
    then have "same_host a = same_host addr" by (auto simp: same_host_def fun_eq_iff)
    then have "NumClientsWithAddr sv a = NumClientsWithAddr sv addr" by (simp add: NumClientsWithAddr_def)
    moreover have "NumClientsWithAddr (set_slot sv i c) a \<le> NumClientsWithAddr sv a + 1"
      using count_update_Suc [of "\<lambda>c. live c \<and> same_host a (cn_PeerAddr c)" "sv_MaxClients sv" "sv_Slots sv" i c]
      by (simp add: NumClientsWithAddr_live)
    ultimately show ?thesis using n by simp
  next
    case False
    then have "NumClientsWithAddr (set_slot sv i c) a \<le> NumClientsWithAddr sv a"
      unfolding NumClientsWithAddr_live using c(2) by (auto intro!: count_update_le)
    then show ?thesis using o(5) order.trans by blast
  qed
  then show ?thesis using ok slots_updated [of "sv_Slots sv" slot_ok c i] c(1) by (simp add: server_ok_def)
qed

lemma sv_transmit_ok:
  assumes "server_ok lim sv" "\<exists>bs. d = Some bs \<and> length bs \<le> NET_MAX_PACKETSIZE"
  shows "server_ok lim (sv_transmit sv a d)"
  using assms by (auto simp: server_ok_def sv_transmit_def NumClientsWithAddr_def)

lemma refuse_ok: "server_ok lim sv \<Longrightarrow> length text \<le> 1000 \<Longrightarrow> server_ok lim (refuse sv a text t six)"
  unfolding refuse_def by (intro sv_transmit_ok control_ok) simp_all

lemma server_SendControl_ok: "server_ok lim sv \<Longrightarrow> length extra \<le> 1000 \<Longrightarrow> server_ok lim (server_SendControl sv a msg extra t)"
  unfolding server_SendControl_def by (intro sv_transmit_ok control_ok) simp_all

section \<open>The operations keep the invariant\<close>

lemma server_Drop_ok:
  assumes "server_ok lim sv" "i < NET_MAX_CLIENTS" "length reason < 1392"
  shows "server_ok lim (server_Drop sv i reason own now)"
  unfolding server_Drop_def Let_def
  by (rule set_slot_ok) (use assms in \<open>auto simp: frame_simps sv_event_def intro!: keeps_Disconnect\<close>)

lemma update_slot_eq:
  "i < length (sv_Slots sv) \<Longrightarrow> update_slot cfg now sv i =
   (set_slot sv i (updated_conn (m_Conn cfg) (slot sv i) now))\<lparr>sv_Events := sv_Events sv @
     (let c = conn_Update (m_Conn cfg) (slot sv i) now in if errored c then [DelClient (int i) (cn_ErrorString c)] else [])\<rparr>"
  by (cases sv) (simp add: update_slot_def updated_conn_def Let_def server_Drop_def sv_event_def set_slot_def)

lemma update_slot_ok:
  assumes "server_ok lim sv" "i < NET_MAX_CLIENTS"
  shows "server_ok lim (update_slot cfg now sv i)"
  using update_slot_eq [of i sv cfg now] assms server_okD(1) [OF assms(1)] set_slot_ok [OF assms keeps_Update]
  by (simp add: frame_simps)

lemma foldl_invariant: "P s \<Longrightarrow> (\<And>s x. x \<in> set xs \<Longrightarrow> P s \<Longrightarrow> P (f s x)) \<Longrightarrow> P (foldl f s xs)"
  by (induction xs arbitrary: s) auto

lemma server_Update_ok: "server_ok lim sv \<Longrightarrow> server_ok lim (server_Update cfg sv now)"
  unfolding server_Update_def Let_def
  by (rule foldl_invariant) (auto simp: frame_simps dest: server_okD(3) intro!: update_slot_ok split: if_splits)

lemma keeps_Flush: "keeps c (fst (Flush c now))"
  by (rule keeps_peer) (simp_all add: peer_simps Flush_ok)

lemma flush_pending_ok: "server_ok lim sv \<Longrightarrow> i < NET_MAX_CLIENTS \<Longrightarrow> server_ok lim (flush_pending now sv i)"
  by (auto simp: flush_pending_def Let_def frame_simps intro!: set_slot_ok keeps_Flush)

lemma EndFlushBatch_ok: "server_ok lim sv \<Longrightarrow> server_ok lim (EndFlushBatch sv now)"
  unfolding EndFlushBatch_def
  by (rule foldl_invariant) (auto simp: frame_simps dest: server_okD(3) intro!: flush_pending_ok)

lemma server_Send_ok:
  assumes "server_ok lim sv" "\<not> has_flag (ch_Flags ch) NETSENDFLAG_CONNLESS \<Longrightarrow> 0 \<le> ch_ClientId ch \<and> ch_ClientId ch < int (sv_MaxClients sv)"
    "if has_flag (ch_Flags ch) NETSENDFLAG_CONNLESS then length (ch_Data ch) \<le> NET_MAX_CONNLESS_PAYLOAD
     else int (length (ch_Data ch)) \<le> NET_MAX_CHUNK_SIZE" "length extra = 4"
  shows "server_ok lim (server_Send sv ch extra now)"
proof (cases "has_flag (ch_Flags ch) NETSENDFLAG_CONNLESS")
  case True
  then have "\<exists>bs. SendPacketConnless (ch_Data ch) e extra = Some bs \<and> length bs \<le> NET_MAX_PACKETSIZE" for e
    using assms(3,4) by (auto simp: SendPacketConnless_def net_sizes NET_HEADER_EXTENDED_def)
  then show ?thesis using True assms(1,3) by (auto simp: server_Send_def Let_def intro!: sv_transmit_ok)
next
  case False
  let ?i = "nat (ch_ClientId ch)"
  have i: "?i < NET_MAX_CLIENTS" "?i < sv_MaxClients sv" "0 \<le> ch_ClientId ch"
    using assms(2) [OF False] server_okD(3) [OF assms(1)] by auto
  define fl where "fl = (if has_flag (ch_Flags ch) NETSENDFLAG_VITAL then NET_CHUNKFLAG_VITAL else 0)"
  define c where "c = fst (QueueChunk (slot sv ?i) fl (ch_Data ch) now)"
  have k: "keeps (slot sv ?i) c"
    unfolding c_def using assms(3) False by (intro keeps_peer) (auto simp: peer_simps intro!: QueueChunk_ok)
  have ok: "server_ok lim (set_slot sv ?i c)" by (rule set_slot_ok [OF assms(1) i(1) k])
  have ok2: "server_ok lim (set_slot (set_slot sv ?i c) ?i (fst (Flush (slot (set_slot sv ?i c) ?i) now)))"
    by (rule set_slot_ok [OF ok i(1) keeps_Flush])
  obtain res where q: "QueueChunk (slot sv ?i) fl (ch_Data ch) now = (c, res)" unfolding c_def by (metis prod.collapse)
  show ?thesis using False assms(3) i ok ok2 by (simp add: server_Send_def Let_def fl_def [symmetric] q frame_simps)
qed

lemma IgnoreTimeouts_ok: "server_ok lim sv \<Longrightarrow> i < NET_MAX_CLIENTS \<Longrightarrow> server_ok lim (IgnoreTimeouts sv i)"
  unfolding IgnoreTimeouts_def
  by (rule set_slot_ok) (auto simp: keeps_def slot_ok_defs live_def errored_def frame_simps)

lemma ResetErrorString_ok: "server_ok lim sv \<Longrightarrow> i < NET_MAX_CLIENTS \<Longrightarrow> server_ok lim (ResetErrorString sv i)"
  unfolding ResetErrorString_def
  by (rule set_slot_ok) (auto simp: keeps_def slot_ok_defs live_def errored_def frame_simps)

lemma count_update_less:
  "i < n \<Longrightarrow> i < length xs \<Longrightarrow> P (xs ! i) \<Longrightarrow> \<not> P y \<Longrightarrow>
   Suc (length (filter P (take n (xs[i := y])))) = length (filter P (take n xs))"
proof (induction xs arbitrary: i n)
  case (Cons x xs)
  show ?case
  proof (cases i)
    case 0
    then show ?thesis using Cons.prems by (cases n) auto
  next
    case (Suc j)
    then show ?thesis using Cons.IH [of j "n - 1"] Cons.prems by (cases n) auto
  qed
qed simp

lemma ResumeOldConnection_ok:
  assumes ok: "server_ok lim sv" and i: "i < NET_MAX_CLIENTS" and j: "j < sv_MaxClients sv" "j \<noteq> i"
    and on: "cn_State (slot sv j) = ONLINE"
  shows "server_ok lim (ResumeOldConnection sv i j now)"
proof -
  note o = server_okD [OF ok]
  have jm: "j < NET_MAX_CLIENTS" using j(1) o(3) by simp
  let ?old = "slot sv j"
  define d where "d = fst (ResumeConnection (slot sv i) (cn_PeerAddr ?old) (cn_Sequence ?old) (cn_Ack ?old) (cn_SecurityToken ?old)
     (cn_Buffer ?old) (cn_Resends ?old) (cn_Sixup ?old) now)"
  have c: "conn_ok (slot sv i)" "conn_ok ?old" "cn_TimeoutSituation (slot sv i) \<longrightarrow> cn_TimeoutProtected (slot sv i)"
    using o(4) [OF i] o(4) [OF jm] by (auto simp: slot_ok_defs)
  note r = ResumeConnection_spec [OF c(1,2), of now, folded d_def]
  have d: "slot_ok d" "cn_PeerAddr d = cn_PeerAddr ?old" using r c(3) by (auto simp: slot_ok_defs)
  let ?sv = "set_slot sv j (conn_Reset ?old)"
  have "keeps ?old (conn_Reset ?old)"
    using o(4) [OF jm] by (intro keeps_offline conn_Reset_ok) (auto simp: slot_ok_defs)
  then have ok1: "server_ok lim ?sv" by (rule set_slot_ok [OF ok jm])
  have "NumClientsWithAddr ?sv (cn_PeerAddr ?old) + 1 \<le> lim"
    using count_update_less [of j "sv_MaxClients sv" "sv_Slots sv" "\<lambda>c. live c \<and> same_host (cn_PeerAddr ?old) (cn_PeerAddr c)" "conn_Reset ?old"]
      o(5) [of "cn_PeerAddr ?old"] j(1) jm o(1) on
    by (simp add: NumClientsWithAddr_live live_def errored_def same_host_def)
  then have "server_ok lim (set_slot ?sv i d)" by (rule new_client_ok [OF ok1 d])
  moreover have "set_slot ?sv i d = ResumeOldConnection sv i j now"
    using j(2) by (simp add: ResumeOldConnection_def Let_def d_def [symmetric] set_slot_def list_update_swap)
  ultimately show ?thesis by simp
qed

section \<open>Accepting clients\<close>

text \<open>The state in which a packet from \<open>addr\<close> is handled, \<open>sid\<close> being the slot of its connection.\<close>

definition ready :: "int \<Rightarrow> nat option \<Rightarrow> netaddr \<Rightarrow> server \<Rightarrow> bool" where
  "ready lim sid addr sv \<longleftrightarrow> server_ok lim sv \<and>
     (case sid of None \<Rightarrow> True
      | Some i \<Rightarrow> i < sv_MaxClients sv \<and> cn_State (slot sv i) = ONLINE \<and> cn_PeerAddr (slot sv i) = addr)"

text \<open>What no handler touches.\<close>

definition core :: "server \<Rightarrow> chunk_unpacker \<times> int \<times> nat \<times> int \<times> byte list \<times> net_ban" where
  "core sv = (sv_Unpacker sv, sv_NumRecvPackets sv, sv_MaxClients sv, sv_MaxClientsPerIp sv, sv_SecurityTokenSeed sv, sv_NetBan sv)"

named_theorems core_simps "handlers leave the core alone"

lemma core_basic [core_simps]:
  "core (set_slot sv i c) = core sv" "core (sv_transmit sv a d) = core sv" "core (sv_event sv e) = core sv"
  "core (sv\<lparr>sv_SpamConns := cs\<rparr>) = core sv" "core (sv\<lparr>sv_VConnNum := n\<rparr>) = core sv" "core (sv\<lparr>sv_VConnFirst := n\<rparr>) = core sv"
  "core (sv\<lparr>sv_Aborted := b\<rparr>) = core sv" "core (refuse sv a x t six) = core sv" "core (server_SendControl sv a m x t) = core sv"
  "core (SendTokenSixup sha sv a t) = core sv" "core (init_slot sv i a t u six v now) = core sv"
  by (simp_all add: core_def set_slot_def sv_transmit_def sv_event_def refuse_def server_SendControl_def SendTokenSixup_def
      init_slot_def Let_def split: option.split)

lemma coreD:
  assumes "core sv' = core sv"
  shows "sv_Unpacker sv' = sv_Unpacker sv" "sv_NumRecvPackets sv' = sv_NumRecvPackets sv" "sv_MaxClients sv' = sv_MaxClients sv"
    "sv_MaxClientsPerIp sv' = sv_MaxClientsPerIp sv" "sv_SecurityTokenSeed sv' = sv_SecurityTokenSeed sv" "sv_NetBan sv' = sv_NetBan sv"
  using assms by (simp_all add: core_def)

lemma sv_transmit_frame [simp]:
  "sv_Slots (sv_transmit sv a d) = sv_Slots sv" "sv_MaxClients (sv_transmit sv a d) = sv_MaxClients sv"
  "sv_Slots (sv_event sv e) = sv_Slots sv" "sv_MaxClients (sv_event sv e) = sv_MaxClients sv"
  "sv_Slots (refuse sv a x t six) = sv_Slots sv" "sv_MaxClients (refuse sv a x t six) = sv_MaxClients sv"
  "sv_Slots (server_SendControl sv a m x t) = sv_Slots sv" "sv_MaxClients (server_SendControl sv a m x t) = sv_MaxClients sv"
  by (simp_all add: sv_transmit_def sv_event_def refuse_def server_SendControl_def split: option.split)

lemma ready_transmit:
  "ready lim sid addr sv \<Longrightarrow> \<exists>bs. d = Some bs \<and> length bs \<le> NET_MAX_PACKETSIZE \<Longrightarrow> ready lim sid addr (sv_transmit sv a d)"
  by (cases sid) (auto simp: ready_def sv_transmit_ok)

lemma ready_refuse: "ready lim sid addr sv \<Longrightarrow> length text \<le> 1000 \<Longrightarrow> ready lim sid addr (refuse sv a text t six)"
  unfolding refuse_def by (intro ready_transmit control_ok) simp_all

lemma ready_SendControl: "ready lim sid addr sv \<Longrightarrow> length extra \<le> 1000 \<Longrightarrow> ready lim sid addr (server_SendControl sv a msg extra t)"
  unfolding server_SendControl_def by (intro ready_transmit control_ok) simp_all

lemma ready_event [simp]: "ready lim sid addr (sv_event sv e) = ready lim sid addr sv"
  by (simp add: ready_def frame_simps split: option.split)

lemma ready_fields [frame_simps]:
  "ready lim sid addr (sv\<lparr>sv_VConnFirst := n\<rparr>) = ready lim sid addr sv" "ready lim sid addr (sv\<lparr>sv_VConnNum := n\<rparr>) = ready lim sid addr sv"
  "ready lim sid addr (sv\<lparr>sv_SpamConns := cs\<rparr>) = ready lim sid addr sv"
  "ready lim sid addr (sv\<lparr>sv_NumPreConnDecompress := n\<rparr>) = ready lim sid addr sv"
  by (simp_all add: ready_def frame_simps split: option.split)

lemma ready_slot:
  assumes "ready lim (Some i) addr sv" "keeps (slot sv i) c" "cn_State c = ONLINE" "cn_PeerAddr c = addr"
  shows "ready lim (Some i) addr (set_slot sv i c)"
  using assms server_okD(1,3) [of lim sv] by (simp add: ready_def set_slot_ok)

definition new_conn :: "conn \<Rightarrow> netaddr \<Rightarrow> token \<Rightarrow> token \<Rightarrow> bool \<Rightarrow> bool \<Rightarrow> int \<Rightarrow> conn" where
  "new_conn c addr security_token token sixup vanilla now =
     (let c = DirectInit c addr security_token token sixup now
      in if vanilla then c\<lparr>cn_UnknownSeq := True, cn_Sequence := 6\<rparr> else c)"

lemma init_slot_eq: "init_slot sv i addr t u six van now = set_slot sv i (new_conn (slot sv i) addr t u six van now)"
  by (simp add: init_slot_def new_conn_def Let_def)

lemma new_conn_ok:
  assumes "slot_ok c"
  shows "slot_ok (new_conn c addr t u six van now)" "cn_State (new_conn c addr t u six van now) = ONLINE"
    "cn_PeerAddr (new_conn c addr t u six van now) = addr"
proof -
  let ?d = "DirectInit c addr t u six now"
  have "conn_ok ?d" using assms DirectInit_ok by (simp add: slot_ok_defs)
  then have ok: "conn_ok ?d" "conn_ok (?d\<lparr>cn_UnknownSeq := True, cn_Sequence := 6\<rparr>)"
    by (simp_all add: conn_ok_def buffer_resends_ok_def NET_MAX_SEQUENCE_def)
  have f: "cn_State ?d = ONLINE" "cn_PeerAddr ?d = addr" "\<not> cn_TimeoutSituation ?d" "cn_ErrorString ?d = []"
    by (simp_all add: DirectInit_def Let_def SetPeerAddr_def)
  show "slot_ok (new_conn c addr t u six van now)" "cn_State (new_conn c addr t u six van now) = ONLINE"
    "cn_PeerAddr (new_conn c addr t u six van now) = addr"
    using ok f by (auto simp: new_conn_def Let_def slot_ok_defs)
qed

lemma Connlimit_spam: "\<exists>cs. fst (Connlimit cfg sv addr now) = sv\<lparr>sv_SpamConns := cs\<rparr>"
  by (auto simp: Connlimit_def Let_def split: option.split)

lemma offline_slotD: "offline_slot sv = Some i \<Longrightarrow> i < sv_MaxClients sv \<and> cn_State (slot sv i) = OFFLINE"
  by (auto simp: offline_slot_def find_Some_iff)

lemma cstring_of_length [simp]: "length (cstring_of s) = length s"
  by (simp add: cstring_of_def)

lemma TryAcceptClient_ready:
  assumes r: "ready lim sid addr sv"
  shows "ready lim sid addr (TryAcceptClient cfg sv addr t sid van six u now) \<and>
    core (TryAcceptClient cfg sv addr t sid van six u now) = core sv"
proof (cases "six \<and> \<not> m_SvSixup cfg")
  case True
  then show ?thesis using r by (simp add: TryAcceptClient_def ready_refuse core_simps)
next
  case False
  show ?thesis
  proof (cases sid)
    case (Some i)
    then have i: "i < NET_MAX_CLIENTS" "cn_State (slot sv i) = ONLINE" "cn_PeerAddr (slot sv i) = addr" "slot_ok (slot sv i)"
      using r server_okD(3,4) [of lim sv] by (auto simp: ready_def)
    let ?c = "new_conn (slot sv i) addr t u six van now"
    have "keeps (slot sv i) ?c" using new_conn_ok [OF i(4)] i by (simp add: keeps_def live_def errored_def)
    then have "ready lim sid addr (set_slot sv i ?c)" using r Some new_conn_ok [OF i(4)] by (simp add: ready_slot)
    then show ?thesis using False Some by (auto simp: TryAcceptClient_def init_slot_eq core_simps)
  next
    case None
    obtain cs spam where c: "Connlimit cfg sv addr now = (sv\<lparr>sv_SpamConns := cs\<rparr>, spam)"
      using Connlimit_spam [of cfg sv addr now] by (metis prod.collapse)
    define sv1 where "sv1 = sv\<lparr>sv_SpamConns := cs\<rparr>"
    have r1: "ready lim sid addr sv1" "core sv1 = core sv" using r by (simp_all add: sv1_def frame_simps core_simps)
    have ok1: "server_ok lim sv1" using r1 by (simp add: ready_def)
    have new: "ready lim sid addr (init_slot sv1 i addr t u six van now)"
      if "offline_slot sv1 = Some i" "NumClientsWithAddr sv1 addr + 1 \<le> sv_MaxClientsPerIp sv1" for i
    proof -
      have "slot_ok (slot sv1 i)" using offline_slotD [OF that(1)] server_okD(3,4) [OF ok1] by auto
      from new_client_ok [OF ok1 new_conn_ok(1,3) [OF this]] server_okD(6) [OF ok1] that(2)
      show ?thesis by (simp add: ready_def None init_slot_eq)
    qed
    have e: "TryAcceptClient cfg sv addr t sid van six u now =
        (if spam then refuse sv1 addr (cstring_of ''Too many connections in a short time'') t six
         else if NumClientsWithAddr sv1 addr + 1 > sv_MaxClientsPerIp sv1 then
           refuse sv1 addr (take 127 (cstring_of ''Only '' @
             (if sv_MaxClientsPerIp sv1 < 0 then 45 # decimal (nat (- sv_MaxClientsPerIp sv1)) else decimal (nat (sv_MaxClientsPerIp sv1))) @
             cstring_of '' players with the same IP are allowed'')) t six
         else case offline_slot sv1 of
           None \<Rightarrow> refuse sv1 addr (cstring_of ''This server is full'') t six
         | Some i \<Rightarrow> let sv = init_slot sv1 i addr t u six van now
             in if van then sv_event sv (NewClientNoAuth (int i)) else sv_event sv (NewClient (int i) six))"
      using False unfolding TryAcceptClient_def None option.case c [folded sv1_def] prod.case Let_def by auto
    show ?thesis unfolding e Let_def
      using r1 new by (auto simp: ready_refuse core_simps split: option.split simp del: take_append)
  qed
qed

section \<open>The handlers\<close>

lemma AddInt_length: "length (m_Written (AddInt p i)) \<le> length (m_Written p) + 5"
  using length_packed(2) [of i] by (auto simp: AddInt_def Pack_eq MAX_BYTES_PACKED_def split: if_splits)

lemma AddRaw_length: "length (m_Written (AddRaw p d)) \<le> length (m_Written p) + length d"
  by (simp add: AddRaw_def)

lemma handshake_lengths:
  "length (m_Written (MapChangeMsg b)) \<le> 30" "length (m_Written (MapDataMsg b)) \<le> 400"
  "length (m_Written ConReadyMsg) \<le> 30" "length (m_Written (SnapEmptyMsg t)) \<le> 15"
proof -
  show "length (m_Written (MapChangeMsg b)) \<le> 30" by (cases b; simp only:; code_simp)
  have e: "length (m_Written CPacker) = 0" by (simp add: CPacker_def packer_Reset_def)
  have i: "length (m_Written p) \<le> n \<Longrightarrow> length (m_Written (AddInt p i)) \<le> n + 5" for p n i
    using AddInt_length [of p i] by simp
  have r: "length (m_Written p) \<le> n \<Longrightarrow> length (m_Written (AddRaw p d)) \<le> n + length d" for p n d
    using AddRaw_length [of p d] by simp
  have d: "length g_aDummyMapData = 288" by (simp add: g_aDummyMapData_def)
  show "length (m_Written ConReadyMsg) \<le> 30" using i [OF eq_imp_le [OF e], of "msg_id NETMSG_CON_READY"] by (simp add: ConReadyMsg_def)
  show "length (m_Written (SnapEmptyMsg t)) \<le> 15"
    unfolding SnapEmptyMsg_def using i [OF i [OF i [OF eq_imp_le [OF e]]]] by simp
  have m: "length (m_Written (AddInt (AddInt (AddInt (AddInt (AddInt CPacker x1) x2) x3) x4) x5)) \<le> 25" for x1 x2 x3 x4 x5
    using i [OF i [OF i [OF i [OF i [OF eq_imp_le [OF e]]]]]] by simp
  have "length (m_Written (AddRaw (AddInt (AddInt (AddInt (AddInt (AddInt CPacker x1) x2) x3) x4) x5) g_aDummyMapData)) \<le> 400"
    for x1 x2 x3 x4 x5 by (rule order_trans [OF r [OF m]]) (simp add: d)
  moreover have "length (m_Written (AddInt (AddInt (AddInt (AddInt (AddInt CPacker x1) x2) x3) x4) x5)) \<le> 400"
    for x1 x2 x3 x4 x5 by (rule order_trans [OF m]) simp
  ultimately show "length (m_Written (MapDataMsg b)) \<le> 400" by (simp add: MapDataMsg_def Let_def)
qed

lemma pack_msgs_ok:
  "list_all (\<lambda>m. int (length m) \<le> NET_MAX_CHUNK_SIZE) ms \<Longrightarrow>
   \<exists>d. pack_msgs k ms = Some d \<and> length d \<le> sum_list (map (\<lambda>m. length m + 3) ms)"
proof (induction ms arbitrary: k)
  case (Cons m ms)
  obtain h where h: "chunk_header_Pack \<lparr>h_Flags = NET_CHUNKFLAG_VITAL, h_Size = int (length m), h_Sequence = k + 1\<rparr> 4 = Some h" "length h \<le> 3"
    using chunk_header_some [of "length m" 4] Cons.prems by auto
  obtain d where "pack_msgs (k + 1) ms = Some d" "length d \<le> sum_list (map (\<lambda>m. length m + 3) ms)"
    using Cons.IH [of "k + 1"] Cons.prems by auto
  with h show ?case by simp
qed simp

lemma SendMsgs_ready:
  assumes "ready lim sid addr sv" "msgs \<noteq> []" "length msgs \<le> 255" "list_all (\<lambda>p. int (length (m_Written p)) \<le> NET_MAX_CHUNK_SIZE) msgs"
    "sum_list (map (\<lambda>p. length (m_Written p) + 3) msgs) \<le> 1390"
  shows "ready lim sid addr (SendMsgs sv a msgs)"
proof -
  obtain d where d: "pack_msgs 0 (map m_Written msgs) = Some d" "length d \<le> 1390"
    using pack_msgs_ok [of "map m_Written msgs" 0] assms(4,5) by (auto simp: list_all_iff comp_def)
  have n: "0 < length msgs \<and> int (length msgs) \<le> NET_MAX_PACKET_CHUNKS" "1 \<le> int (length msgs)"
    using assms(2,3) by (auto simp: net_sizes Suc_le_eq)
  have "\<exists>bs. SendPacket \<lparr>m_Flags = 0, m_Ack = 0, m_NumChunks = int (length msgs), m_aChunkData = d, m_aExtraData = []\<rparr>
      NET_SECURITY_TOKEN_UNSUPPORTED False = Some bs \<and> length bs \<le> NET_MAX_PACKETSIZE"
    by (rule send_ok) (use n d(2) in \<open>simp_all add: IsValidConnectionOrientedPacket_def has_flag_def net_sizes\<close>)
  then show ?thesis using assms(1) n d(1) by (simp add: SendMsgs_def ready_transmit)
qed

lemma SendMsgs_core [core_simps]: "core (SendMsgs sv a msgs) = core sv"
  by (simp add: SendMsgs_def core_simps split: option.split)

lemma vanilla_handshake_ready:
  assumes "ready lim sid addr sv"
  shows "ready lim sid addr (vanilla_handshake sha cfg sv addr sid now) \<and> core (vanilla_handshake sha cfg sv addr sid now) = core sv"
proof -
  define sv1 where "sv1 = (if now > sv_VConnFirst sv + time_freq then sv\<lparr>sv_VConnFirst := now, sv_VConnNum := 0\<rparr> else sv)"
  define sv2 where "sv2 = sv1\<lparr>sv_VConnNum := sv_VConnNum sv1 + 1\<rparr>"
  have sv2: "ready lim sid addr sv2" "core sv2 = core sv" using assms by (simp_all add: sv2_def sv1_def frame_simps core_simps)
  define sv3 where "sv3 = (case sid of None \<Rightarrow> sv2 | Some i \<Rightarrow> set_slot sv2 i ((slot sv2 i)\<lparr>cn_SecurityToken := NET_SECURITY_TOKEN_UNKNOWN\<rparr>))"
  have "ready lim sid addr sv3"
  proof (cases sid)
    case (Some i)
    have "keeps (slot sv2 i) ((slot sv2 i)\<lparr>cn_SecurityToken := NET_SECURITY_TOKEN_UNKNOWN\<rparr>)"
      by (rule keeps_peer) (simp_all add: peer_simps frame_simps)
    then show ?thesis unfolding sv3_def Some option.case
      by (intro ready_slot) (use sv2(1) Some in \<open>auto simp: ready_def\<close>)
  qed (use sv2 in \<open>simp add: sv3_def\<close>)
  moreover have "core sv3 = core sv" using sv2 by (simp add: sv3_def core_simps split: option.split)
  moreover define sv4 where "sv4 = server_SendControl sv3 addr NET_CTRLMSG_CONNECTACCEPT [] NET_SECURITY_TOKEN_UNSUPPORTED"
  ultimately have sv4: "ready lim sid addr sv4" "core sv4 = core sv" by (simp_all add: ready_SendControl core_simps)
  have send: "ready lim sid addr (SendMsgs sv4 addr [MapChangeMsg fl, MapDataMsg fl, ConReadyMsg, SnapEmptyMsg t, SnapEmptyMsg t, SnapEmptyMsg t])" for fl t
    using sv4(1) by (rule SendMsgs_ready)
      (use handshake_lengths(1,2) [of fl] handshake_lengths(3) handshake_lengths(4) [of t] in \<open>auto simp: net_sizes\<close>)
  have e: "vanilla_handshake sha cfg sv addr sid now =
      (if m_SvVanConnRepliesPerSecond cfg \<noteq> 0 \<and> sv_VConnNum sv2 > m_SvVanConnRepliesPerSecond cfg then sv2
       else let fl = (m_SvVanConnPerSecond cfg \<noteq> 0 \<and> sv_VConnNum sv2 > m_SvVanConnPerSecond cfg);
                snap = SnapEmptyMsg (GetVanillaToken sha sv4 addr)
            in SendMsgs sv4 addr [MapChangeMsg fl, MapDataMsg fl, ConReadyMsg, snap, snap, snap])"
    unfolding vanilla_handshake_def Let_def sv1_def [symmetric] sv2_def [symmetric] sv3_def [symmetric] sv4_def [symmetric] by (rule refl)
  show ?thesis unfolding e Let_def using sv2 send sv4(2) by (simp add: core_simps)
qed

lemma OnPreConnMsg_ready:
  assumes "ready lim sid addr sv"
  shows "ready lim sid addr (OnPreConnMsg sha cfg sv addr p sid now) \<and> core (OnPreConnMsg sha cfg sv addr p sid now) = core sv"
proof -
  let ?sv = "server_SendControl sv addr NET_CTRLMSG_CONNECTACCEPT [] NET_SECURITY_TOKEN_UNSUPPORTED"
  have "ready lim sid addr ?sv" "core ?sv = core sv" using assms by (simp_all add: ready_SendControl core_simps)
  then show ?thesis
    using TryAcceptClient_ready [of lim sid addr ?sv] TryAcceptClient_ready [OF assms] vanilla_handshake_ready [OF assms] assms
    unfolding OnPreConnMsg_def Let_def by (auto split: option.split)
qed

lemma OnTokenCtrlMsg_ready:
  assumes "ready lim sid addr sv"
  shows "ready lim sid addr (OnTokenCtrlMsg sha cfg sv addr msg p sid now) \<and> core (OnTokenCtrlMsg sha cfg sv addr msg p sid now) = core sv"
  using TryAcceptClient_ready [OF assms] assms
  by (simp add: OnTokenCtrlMsg_def Let_def ready_SendControl core_simps SECURITY_TOKEN_MAGIC_def)

lemma SendTokenSixup_ready: "ready lim sid addr sv \<Longrightarrow> ready lim sid addr (SendTokenSixup sha sv a t)"
  unfolding SendTokenSixup_def Let_def
  by (rule ready_transmit, assumption, rule control_ok) (auto simp: NET_TOKENREQUEST_DATASIZE_def WriteSecurityToken_def uint_to_bytes_be_def)

lemma OnSixupCtrlMsg_ready:
  assumes "ready lim sid addr sv"
  shows "ready lim sid addr (fst (OnSixupCtrlMsg sha cfg sv addr msg p rsp t sid now)) \<and>
    core (fst (OnSixupCtrlMsg sha cfg sv addr msg p rsp t sid now)) = core sv"
proof -
  let ?sv = "sv_transmit sv addr (SendControlMsg 0 NET_CTRLMSG_CONNECTACCEPT (rev (uint_to_bytes_be (srv_GetToken sha sv addr)))
      (ToSecurityToken (drop 1 (m_aChunkData p))) True)"
  have "ready lim sid addr ?sv" "core ?sv = core sv"
    by (rule ready_transmit [OF assms control_ok]) (simp_all add: uint_to_bytes_be_def core_simps)
  then show ?thesis using TryAcceptClient_ready [of lim sid addr ?sv] SendTokenSixup_ready [OF assms] assms
    unfolding OnSixupCtrlMsg_def Let_def by (simp add: core_simps)
qed

section \<open>Receiving\<close>

lemma GetClientSlot_ready:
  assumes "server_ok lim sv" "GetClientSlot sv addr = sid"
  shows "ready lim sid addr sv"
proof (cases sid)
  case (Some i)
  then have i: "i < sv_MaxClients sv" "cn_State (slot sv i) \<noteq> OFFLINE" "cn_State (slot sv i) \<noteq> ERROR" "cn_PeerAddr (slot sv i) = addr"
    using assms(2) by (auto simp: GetClientSlot_def find_Some_iff)
  then have "slot_ok (slot sv i)" using server_okD(3,4) [OF assms(1)] by auto
  then show ?thesis using i assms(1) Some by (auto simp: ready_def slot_ok_defs)
qed (simp add: ready_def assms(1))

lemma ready_None: "server_ok lim sv \<Longrightarrow> ready lim None addr sv"
  by (simp add: ready_def)

text \<open>A server that is about to receive: the unpacker has nothing left.\<close>

definition idle :: "int \<Rightarrow> server \<Rightarrow> bool" where
  "idle lim sv \<longleftrightarrow> server_ok lim sv \<and> \<not> cu_Valid (sv_Unpacker sv)"

lemma UnpackNextChunk_client:
  "UnpackNextChunk u c = (u', c', r) \<Longrightarrow> cu_ClientId u' = cu_ClientId u \<and> (r = None \<longrightarrow> \<not> cu_Valid u') \<and>
    (\<forall>ch. r = Some ch \<longrightarrow> ch_ClientId ch = cu_ClientId u)"
proof (induction u c arbitrary: u' c' r rule: UnpackNextChunk.induct)
  case (1 u c)
  obtain h n where hn: "chunk_header_Unpack (drop (cu_CurrentOffset u) (m_aChunkData (cu_Data u)))
      (if cn_Sixup c then 6 else 4) = (h, n)" by fastforce
  show ?case using "1.prems"
    by (subst (asm) UnpackNextChunk.simps)
       (auto simp: hn Let_def dest!: "1.IH" [rotated -1] split: if_splits verdict.splits)
qed

lemma server_ok_Unpacker:
  "server_ok lim sv \<Longrightarrow> 0 \<le> cu_ClientId u \<Longrightarrow> cu_ClientId u < int (sv_MaxClients sv) \<Longrightarrow> server_ok lim (sv\<lparr>sv_Unpacker := u\<rparr>)"
  by (simp add: server_ok_def NumClientsWithAddr_def)

lemma next_chunk_ok:
  assumes ok: "server_ok lim sv" and n: "next_chunk sv = (sv', r)"
  shows "server_ok lim sv'" "r = None \<Longrightarrow> \<not> cu_Valid (sv_Unpacker sv')" "sv_NumRecvPackets sv' = sv_NumRecvPackets sv"
    "sv_MaxClients sv' = sv_MaxClients sv"
proof -
  note o = server_okD [OF ok]
  let ?i = "nat (cu_ClientId (sv_Unpacker sv))"
  obtain u c ch where u: "UnpackNextChunk (sv_Unpacker sv) (slot sv ?i) = (u, c, ch)" by (cases "UnpackNextChunk (sv_Unpacker sv) (slot sv ?i)")
  note cl = UnpackNextChunk_client [OF u]
  have "keeps (slot sv ?i) c" by (rule keeps_peer) (use peer_UnpackNextChunk [OF u] UnpackNextChunk_ok [OF _ u] in auto)
  then have s: "server_ok lim (set_slot sv ?i c)" using set_slot_ok [OF ok o(8)] by blast
  have range: "0 \<le> cu_ClientId u" "cu_ClientId u < int (sv_MaxClients sv)" using cl ok by (auto simp: server_ok_def)
  then have s': "server_ok lim ((set_slot sv ?i c)\<lparr>sv_Unpacker := v\<rparr>)" if "cu_ClientId v = cu_ClientId u" for v
    using that by (intro server_ok_Unpacker s) simp_all
  show "server_ok lim sv'" "r = None \<Longrightarrow> \<not> cu_Valid (sv_Unpacker sv')" "sv_NumRecvPackets sv' = sv_NumRecvPackets sv"
    "sv_MaxClients sv' = sv_MaxClients sv"
    using n s' cl by (auto simp: next_chunk_def Let_def u chunk_unpacker_Reset_def split: option.splits if_splits)
qed

lemma feed_slot_ok:
  assumes r: "ready lim (Some i) addr sv" and v: "\<not> cu_Valid (sv_Unpacker sv)"
  shows "server_ok lim (feed_slot cfg sv i p addr t rsp now)"
    "sv_NumRecvPackets (feed_slot cfg sv i p addr t rsp now) = sv_NumRecvPackets sv"
    "sv_MaxClients (feed_slot cfg sv i p addr t rsp now) = sv_MaxClients sv"
proof -
  have i: "i < NET_MAX_CLIENTS" "i < sv_MaxClients sv" "cn_State (slot sv i) = ONLINE" "server_ok lim sv"
    using r server_okD(3) [of lim sv] by (auto simp: ready_def)
  obtain c ok where c: "Feed (m_Conn cfg) (slot sv i) p addr t rsp now = (c, ok)" by (cases "Feed (m_Conn cfg) (slot sv i) p addr t rsp now")
  have s: "server_ok lim (set_slot sv i c)"
    using keeps_Feed [OF i(3), of "m_Conn cfg" p addr t rsp now] c by (intro set_slot_ok i) simp
  then have "server_ok lim ((set_slot sv i c)\<lparr>sv_Unpacker := FeedPacket addr q (int i)\<rparr>)" for q
    by (rule server_ok_Unpacker) (use i(2) in \<open>simp_all add: FeedPacket_def\<close>)
  with s v show "server_ok lim (feed_slot cfg sv i p addr t rsp now)"
    "sv_NumRecvPackets (feed_slot cfg sv i p addr t rsp now) = sv_NumRecvPackets sv"
    "sv_MaxClients (feed_slot cfg sv i p addr t rsp now) = sv_MaxClients sv"
    by (simp_all add: feed_slot_def c Let_def)
qed

lemma handle_packet_ok:
  assumes r: "ready lim sid addr sv" and v: "\<not> cu_Valid (sv_Unpacker sv)"
    and h: "handle_packet sha cfg sv addr p six t rsp sid now = (sv', rsp', res)"
  shows "server_ok lim sv' \<and> sv_NumRecvPackets sv' = sv_NumRecvPackets sv \<and> sv_MaxClients sv' = sv_MaxClients sv"
proof (cases "has_flag (m_Flags p) NET_PACKETFLAG_CONNLESS")
  case True
  then show ?thesis using h r by (auto simp: handle_packet_def ready_def split: if_splits)
next
  case False
  define ctrl where "ctrl = has_flag (m_Flags p) NET_PACKETFLAG_CONTROL"
  define msg where "msg = byte_at (m_aChunkData p) 0"
  define x where "x = (if six \<and> ctrl then OnSixupCtrlMsg sha cfg sv addr msg p rsp t sid now
               else if IsDDNetControlMsg p \<and> ctrl then (OnTokenCtrlMsg sha cfg sv addr msg p sid now, rsp, None)
               else (OnPreConnMsg sha cfg sv addr p sid now, rsp, None))"
  obtain sv1 rsp1 ch where x1: "x = (sv1, rsp1, ch)" by (cases x)
  have "ready lim sid addr (fst x) \<and> core (fst x) = core sv"
    using OnSixupCtrlMsg_ready [OF r] OnTokenCtrlMsg_ready [OF r] OnPreConnMsg_ready [OF r] by (simp add: x_def)
  then have s1: "ready lim sid addr sv1" "core sv1 = core sv" by (simp_all add: x1)
  have e: "(sv', rsp', res) = (case ch of Some c \<Rightarrow> (sv1, rsp1, Some (c, []))
      | None \<Rightarrow> (case sid of None \<Rightarrow> (sv1, rsp1, None) | Some i \<Rightarrow> (feed_slot cfg sv1 i p addr t rsp1 now, rsp1, None)))"
    using h False unfolding handle_packet_def Let_def ctrl_def [symmetric] msg_def [symmetric] x_def [symmetric] x1 by simp
  have v1: "\<not> cu_Valid (sv_Unpacker sv1)" using v coreD(1) [OF s1(2)] by simp
  have f: "server_ok lim (feed_slot cfg sv1 i p addr t rsp1 now) \<and> sv_NumRecvPackets (feed_slot cfg sv1 i p addr t rsp1 now) = sv_NumRecvPackets sv1 \<and>
      sv_MaxClients (feed_slot cfg sv1 i p addr t rsp1 now) = sv_MaxClients sv1" if "sid = Some i" for i
    using feed_slot_ok [OF _ v1, of lim i addr cfg p t rsp1 now] s1(1) that by simp
  have "server_ok lim sv1" using s1(1) by (simp add: ready_def)
  then show ?thesis using e f coreD(2,3) [OF s1(2)] by (auto split: option.splits)
qed

lemma IsBanned_length: "IsBanned b a now 128 = Some text \<Longrightarrow> length text \<le> 127"
  by (auto simp: IsBanned_def player_ban_info_def Let_def intro!: order.trans [OF fix_truncation_length])

lemma recv_packet_ok:
  assumes ok: "server_ok lim sv" and v: "\<not> cu_Valid (sv_Unpacker sv)"
    and h: "recv_packet sha cfg sv addr data rsp now stamp = (sv', rsp', res)"
  shows "server_ok lim sv' \<and> sv_NumRecvPackets sv' = sv_NumRecvPackets sv + 1 \<and> sv_MaxClients sv' = sv_MaxClients sv"
proof -
  define sv1 where "sv1 = sv\<lparr>sv_NumRecvPackets := sv_NumRecvPackets sv + 1\<rparr>"
  have ok1: "server_ok lim sv1" "\<not> cu_Valid (sv_Unpacker sv1)" "sv_NumRecvPackets sv1 = sv_NumRecvPackets sv + 1" "sv_MaxClients sv1 = sv_MaxClients sv"
    using ok v by (simp_all add: sv1_def frame_simps)
  show ?thesis
  proof (cases "IsBanned (sv_NetBan sv1) addr stamp 128")
    case (Some why)
    let ?r = "refuse (sv1\<lparr>sv_NumBanReplies := sv_NumBanReplies sv1 + 1\<rparr>) addr why NET_SECURITY_TOKEN_UNSUPPORTED False"
    have "server_ok lim ?r" using IsBanned_length [OF Some] ok1(1) by (intro refuse_ok) (simp_all add: frame_simps)
    moreover have "sv_NumRecvPackets ?r = sv_NumRecvPackets sv1" by (simp add: refuse_def sv_transmit_def split: option.split)
    ultimately show ?thesis using h ok1 Some by (auto simp: recv_packet_def sv1_def [symmetric] Let_def split: if_splits)
  next
    case None
    show ?thesis
    proof (cases "UnpackPacketFlags data")
      case None
      with h ok1 \<open>IsBanned (sv_NetBan sv1) addr stamp 128 = None\<close> show ?thesis by (simp add: recv_packet_def sv1_def [symmetric])
    next
      case (Some flags)
      define sid where "sid = (if has_flag flags NET_PACKETFLAG_CONNLESS then None else GetClientSlot sv1 addr)"
      define six where "six = (case sid of None \<Rightarrow> False | Some i \<Rightarrow> cn_Sixup (slot sv1 i))"
      obtain dec result where u: "UnpackPacket data six (AllowDecompression cfg sv1 data sid) (Some NET_SECURITY_TOKEN_UNKNOWN) (Some rsp) = (dec, result)"
        by (cases "UnpackPacket data six (AllowDecompression cfg sv1 data sid) (Some NET_SECURITY_TOKEN_UNKNOWN) (Some rsp)")
      define sv2 where "sv2 = (if sid = None \<and> dec then sv1\<lparr>sv_NumPreConnDecompress := sv_NumPreConnDecompress sv1 + 1\<rparr> else sv1)"
      have "ready lim sid addr sv1" using GetClientSlot_ready [OF ok1(1) refl] ready_None [OF ok1(1)] by (simp add: sid_def)
      then have r2: "ready lim sid addr sv2" "\<not> cu_Valid (sv_Unpacker sv2)" "sv_NumRecvPackets sv2 = sv_NumRecvPackets sv + 1"
        "sv_MaxClients sv2 = sv_MaxClients sv" using ok1 by (auto simp: sv2_def frame_simps)
      have e: "(sv', rsp', res) = (case result of
           Unpacked p s t q \<Rightarrow> handle_packet sha cfg sv2 addr p s (the t) (the q) sid now
         | _ \<Rightarrow> (sv2, NET_SECURITY_TOKEN_UNKNOWN, None))"
        using h None Some unfolding recv_packet_def sv1_def [symmetric] Let_def
        by (simp add: sid_def [symmetric] six_def [symmetric] u sv2_def [symmetric])
      show ?thesis
      proof (cases result)
        case (Unpacked p s t q)
        then show ?thesis using handle_packet_ok [OF r2(1,2), of sha cfg p s "the t" "the q" now sv' rsp' res] e r2(3,4) by simp
      qed (use e r2 in \<open>simp_all add: ready_def\<close>)
    qed
  qed
qed

text \<open>The loop as a whole: whatever it returns satisfies the invariant, and it returns when the batch is bounded or the
  socket runs dry.\<close>

lemma Recv_loop_ok:
  assumes "Recv_loop sha cfg recv now stamp k sv rsp = Some (sv', rsp', res)" "server_ok lim sv"
  shows "server_ok lim sv'"
proof -
  have "server_ok lim sv \<longrightarrow> server_ok lim (fst r)" if "Recv_loop sha cfg recv now stamp k sv rsp = Some r" for r
    using that
  proof (induction rule: Recv_loop.raw_induct [rotated, consumes 1, case_names step])
    case (step self sha cfg recv now stamp k sv rsp r)
    show ?case
    proof
      assume ok: "server_ok lim sv"
      obtain sv1 ch where n: "next_chunk sv = (sv1, ch)" by (cases "next_chunk sv")
      have ok1: "server_ok lim sv1" by (rule next_chunk_ok(1) [OF ok n])
      have v: "\<not> cu_Valid (sv_Unpacker sv1)" if "ch = None" by (rule next_chunk_ok(2) [OF ok n that])
      show "server_ok lim (fst r)"
      proof (cases "ch = None \<and> recv k \<noteq> None")
        case False
        then show ?thesis using step(2) ok1 by (auto simp: n split: option.splits if_splits)
      next
        case True
        then obtain addr data where r: "recv k = Some (addr, data)" "ch = None" by auto
        obtain sv2 rsp2 res where p: "recv_packet sha cfg sv1 addr data rsp now stamp = (sv2, rsp2, res)"
          by (cases "recv_packet sha cfg sv1 addr data rsp now stamp")
        have "server_ok lim sv2" using recv_packet_ok [OF ok1 v [OF r(2)] p] by simp
        moreover have "server_ok lim sv2 \<longrightarrow> server_ok lim (fst r')" if "self sha cfg recv now stamp (Suc k) sv2 rsp2 = Some r'" for r'
          using step(1) [OF that] .
        ultimately show ?thesis using step(2) ok1 by (cases r) (auto simp: n r p split: option.splits if_splits)
      qed
    qed
  qed
  from this [OF assms(1)] assms(2) show ?thesis by simp
qed

lemma Recv_loop_step:
  assumes ok: "server_ok lim sv"
  shows "(\<exists>r. Recv_loop sha cfg recv now stamp k sv rsp = Some r) \<or>
    (\<exists>sv' rsp'. Recv_loop sha cfg recv now stamp k sv rsp = Recv_loop sha cfg recv now stamp (Suc k) sv' rsp' \<and> server_ok lim sv' \<and>
       sv_NumRecvPackets sv' = sv_NumRecvPackets sv + 1 \<and> recv k \<noteq> None \<and>
       (m_SvMaxPacketsPerRecv cfg \<noteq> 0 \<longrightarrow> sv_NumRecvPackets sv < m_SvMaxPacketsPerRecv cfg))"
proof -
  obtain sv1 ch where n: "next_chunk sv = (sv1, ch)" by (cases "next_chunk sv")
  note n1 = next_chunk_ok [OF ok n]
  show ?thesis
  proof (cases "ch \<noteq> None \<or> (m_SvMaxPacketsPerRecv cfg \<noteq> 0 \<and> sv_NumRecvPackets sv1 \<ge> m_SvMaxPacketsPerRecv cfg) \<or> recv k = None \<or> snd (the (recv k)) = []")
    case True
    then show ?thesis by (subst Recv_loop.simps) (auto simp: n split: option.splits)
  next
    case False
    then obtain addr data where r: "recv k = Some (addr, data)" "data \<noteq> []" "ch = None" by auto
    obtain sv2 rsp2 res where p: "recv_packet sha cfg sv1 addr data rsp now stamp = (sv2, rsp2, res)"
      by (cases "recv_packet sha cfg sv1 addr data rsp now stamp")
    note p1 = recv_packet_ok [OF n1(1) n1(2) [OF r(3)] p]
    have e: "Recv_loop sha cfg recv now stamp k sv rsp =
        (case res of Some c \<Rightarrow> Some (sv2, rsp2, Some c) | None \<Rightarrow> Recv_loop sha cfg recv now stamp (Suc k) sv2 rsp2)"
      using False by (subst Recv_loop.simps) (auto simp: n r p split: option.split)
    show ?thesis
    proof (cases res)
      case None
      then show ?thesis using e p1 n1(3) r(1) False by (intro disjI2 exI [of _ sv2] exI [of _ rsp2]) auto
    qed (use e in simp)
  qed
qed

lemma Recv_loop_budget:
  "server_ok lim sv \<Longrightarrow> 0 < m_SvMaxPacketsPerRecv cfg \<Longrightarrow> nat (m_SvMaxPacketsPerRecv cfg - sv_NumRecvPackets sv) \<le> n \<Longrightarrow>
   \<exists>r. Recv_loop sha cfg recv now stamp k sv rsp = Some r"
proof (induction n arbitrary: k sv rsp)
  case 0
  then show ?case using Recv_loop_step [OF 0(1), of sha cfg recv now stamp k rsp] by auto
next
  case (Suc n)
  then show ?case using Recv_loop_step [OF Suc(2), of sha cfg recv now stamp k rsp] Suc(1) by fastforce
qed

lemma Recv_loop_dry:
  "server_ok lim sv \<Longrightarrow> recv m = None \<Longrightarrow> k \<le> m \<Longrightarrow> m - k \<le> n \<Longrightarrow> \<exists>r. Recv_loop sha cfg recv now stamp k sv rsp = Some r"
proof (induction n arbitrary: k sv rsp)
  case 0
  then show ?case using Recv_loop_step [OF 0(1), of sha cfg recv now stamp k rsp] by auto
next
  case (Suc n)
  have "k \<noteq> m" if "recv k \<noteq> None" using that Suc(3) by auto
  then show ?case using Recv_loop_step [OF Suc(2), of sha cfg recv now stamp k rsp] Suc
    by (metis Suc_leI diff_le_self le_neq_implies_less Suc_diff_Suc Suc_le_mono)
qed

section \<open>Reachable servers\<close>

text \<open>What the owner of a server may do, \<open>lim\<close> being a bound on the limits it sets. Reasons and chunks have a bounded length;
  a connection is resumed into another slot, from one that is online.\<close>

inductive server_step :: "(byte list \<Rightarrow> byte list) \<Rightarrow> server_config \<Rightarrow> int \<Rightarrow> server \<Rightarrow> server \<Rightarrow> bool" for sha cfg lim where
  step_update: "server_step sha cfg lim sv (server_Update cfg sv now)"
| step_begin: "server_step sha cfg lim sv (BeginFlushBatch sv)"
| step_end: "server_step sha cfg lim sv (EndFlushBatch sv now)"
| step_drop: "i < NET_MAX_CLIENTS \<Longrightarrow> length reason < 1392 \<Longrightarrow> server_step sha cfg lim sv (server_Drop sv i reason False now)"
| step_recv: "server_Recv sha cfg recv now stamp sv rsp = Some (sv', rsp', res) \<Longrightarrow> server_step sha cfg lim sv sv'"
| step_send: "(\<not> has_flag (ch_Flags ch) NETSENDFLAG_CONNLESS \<Longrightarrow> 0 \<le> ch_ClientId ch \<and> ch_ClientId ch < int (sv_MaxClients sv)) \<Longrightarrow>
    (if has_flag (ch_Flags ch) NETSENDFLAG_CONNLESS then length (ch_Data ch) \<le> NET_MAX_CONNLESS_PAYLOAD
     else int (length (ch_Data ch)) \<le> NET_MAX_CHUNK_SIZE) \<Longrightarrow> length extra = 4 \<Longrightarrow>
    server_step sha cfg lim sv (server_Send sv ch extra now)"
| step_limit: "max 1 (min n (int NET_MAX_CLIENTS)) \<le> lim \<Longrightarrow> server_step sha cfg lim sv (SetMaxClientsPerIp sv n)"
| step_resume: "i < NET_MAX_CLIENTS \<Longrightarrow> j < sv_MaxClients sv \<Longrightarrow> j \<noteq> i \<Longrightarrow> cn_State (slot sv j) = ONLINE \<Longrightarrow>
    server_step sha cfg lim sv (ResumeOldConnection sv i j now)"
| step_ignore: "i < NET_MAX_CLIENTS \<Longrightarrow> server_step sha cfg lim sv (IgnoreTimeouts sv i)"
| step_error_string: "i < NET_MAX_CLIENTS \<Longrightarrow> server_step sha cfg lim sv (ResetErrorString sv i)"
| step_ban: "ban_step (sv_NetBan sv) b \<Longrightarrow> server_step sha cfg lim sv (sv\<lparr>sv_NetBan := b\<rparr>)"

inductive server_reachable :: "(byte list \<Rightarrow> byte list) \<Rightarrow> server_config \<Rightarrow> int \<Rightarrow> server \<Rightarrow> bool" for sha cfg lim where
  reach_open: "length fresh = NET_MAX_CLIENTS \<Longrightarrow> (\<And>c. c \<in> set fresh \<Longrightarrow> cn_Sent c = [] \<and> \<not> cn_Aborted c) \<Longrightarrow> 0 \<le> lim \<Longrightarrow>
    max_per_ip \<le> lim \<Longrightarrow> server_reachable sha cfg lim (server_Open bans fresh seed max_clients max_per_ip)"
| reach_server_step: "server_reachable sha cfg lim sv \<Longrightarrow> server_step sha cfg lim sv sv' \<Longrightarrow> server_reachable sha cfg lim sv'"

inductive_cases server_stepE: "server_step sha cfg lim sv sv'"

lemma SetMaxClientsPerIp_ok: "server_ok lim sv \<Longrightarrow> max 1 (min n (int NET_MAX_CLIENTS)) \<le> lim \<Longrightarrow> server_ok lim (SetMaxClientsPerIp sv n)"
  by (simp add: server_ok_def SetMaxClientsPerIp_def NumClientsWithAddr_def)

lemma server_step_ok: "server_step sha cfg lim sv sv' \<Longrightarrow> server_ok lim sv \<Longrightarrow> server_ok lim sv'"
proof (induction rule: server_step.induct)
  case (step_recv recv now stamp sv rsp sv' rsp' res)
  then show ?case using Recv_loop_ok by (simp add: server_Recv_def)
next
  case (step_send ch sv extra now)
  then show ?case by (intro server_Send_ok) auto
qed (simp_all add: server_Update_ok BeginFlushBatch_def EndFlushBatch_ok server_Drop_ok SetMaxClientsPerIp_ok
    ResumeOldConnection_ok IgnoreTimeouts_ok ResetErrorString_ok frame_simps)

lemma conn_Init_slot_ok: "cn_Sent c = [] \<Longrightarrow> \<not> cn_Aborted c \<Longrightarrow> slot_ok (conn_Init c b) \<and> cn_State (conn_Init c b) = OFFLINE"
  using conn_Init_ok [of c b] by (simp add: slot_ok_defs conn_Init_def ResetStats_def ClearPeerAddr_def)

lemma server_Open_ok:
  assumes "length fresh = NET_MAX_CLIENTS" "\<And>c. c \<in> set fresh \<Longrightarrow> cn_Sent c = [] \<and> \<not> cn_Aborted c" "0 \<le> lim" "per_ip \<le> lim"
  shows "server_ok lim (server_Open bans fresh seed max_clients per_ip)"
proof -
  let ?sv = "server_Open bans fresh seed max_clients per_ip"
  have "slot_ok c \<and> cn_State c = OFFLINE" if "c \<in> set (sv_Slots ?sv)" for c
    using that conn_Init_slot_ok assms(2) by (auto simp: server_Open_def)
  moreover from this have "NumClientsWithAddr ?sv a = 0" for a
    by (auto simp: NumClientsWithAddr_def filter_empty_conv dest: in_set_takeD)
  ultimately show ?thesis using assms
    by (auto simp: server_ok_def) (auto simp: server_Open_def NET_MAX_CLIENTS_def nat_le_iff)
qed

lemma server_reachable_ok: "server_reachable sha cfg lim sv \<Longrightarrow> server_ok lim sv"
  by (induction rule: server_reachable.induct) (auto intro: server_Open_ok server_step_ok)

definition some_server_config :: server_config where
  "some_server_config = \<lparr>m_Conn = some_config, m_SvSixup = True, m_SvConnlimit = 5, m_SvConnlimitTime = 20, m_SvVanillaAntiSpoof = True,
     m_Password = [], m_SvVanConnPerSecond = 10, m_SvVanConnRepliesPerSecond = 100, m_SvMaxPacketsPerRecv = 1000,
     m_SvPreConnDecompressPerSecond = 10, m_SvBanRepliesPerSecond = 10\<rparr>"

definition some_server :: server where
  "some_server = server_Open some_bans (replicate NET_MAX_CLIENTS some_conn) [1, 2, 3] 64 4"

lemma some_server_reachable: "server_reachable sha cfg 4 some_server"
  unfolding some_server_def by (rule reach_open) (auto simp: some_conn_def)



text \<open>The clients of one address never exceed the largest limit that was in force: neither new connections nor resumed
  ones get past it.\<close>

theorem client_limit:
  assumes "server_reachable sha cfg lim sv"
  shows "NumClientsWithAddr sv addr \<le> lim"
  using server_okD(5) [OF server_reachable_ok [OF assms]] .

theorem client_limit_witness:
  "NumClientsWithAddr (SetMaxClientsPerIp some_server 3) zero_addr \<le> 4"
proof -
  have "server_reachable id some_server_config 4 (SetMaxClientsPerIp some_server 3)"
    by (rule reach_server_step [OF some_server_reachable step_limit]) simp
  from client_limit [OF this] show ?thesis .
qed

text \<open>C36. Receiving returns: with a limit on the packets of a batch even when the socket always has another datagram, and
  without one as soon as the socket is empty.\<close>

theorem Recv_returns:
  assumes "server_reachable sha cfg lim sv" "0 < m_SvMaxPacketsPerRecv cfg \<or> recv m = None"
  shows "\<exists>r. server_Recv sha cfg recv now stamp sv response = Some r"
  using assms(2) Recv_loop_budget [OF server_reachable_ok [OF assms(1)]] Recv_loop_dry [OF server_reachable_ok [OF assms(1)]]
  unfolding server_Recv_def by blast

theorem Recv_returns_witness:
  "\<exists>r. server_Recv id some_server_config (\<lambda>_. Some (zero_addr, [0x10, 0, 0, 1])) 50 60 some_server 0 = Some r"
  by (rule Recv_returns [OF some_server_reachable]) (simp add: some_server_config_def)

end
