(* ===== verification/ServerTokens.thy ===== *)
theory ServerTokens
  imports ServerSafety
begin

text \<open>
  The tokens of the server: without a token of its address a sender gets no connection, with the token a client gets one.
\<close>

section \<open>Spoofed addresses\<close>

text \<open>Handling a packet of the connection in slot \<open>sid\<close> without an event for the owner.\<close>

definition quiet :: "nat option \<Rightarrow> server \<Rightarrow> server \<Rightarrow> bool" where
  "quiet sid sv sv' \<longleftrightarrow> sv_Events sv' = sv_Events sv \<and> (\<forall>j. sid \<noteq> Some j \<longrightarrow> slot sv' j = slot sv j)"

named_theorems quiet_simps "steps that are quiet"

lemma quiet_refl [simp]: "quiet sid sv sv"
  by (simp add: quiet_def)

lemma quiet_trans: "quiet sid sv sv' \<Longrightarrow> quiet sid sv' sv'' \<Longrightarrow> quiet sid sv sv''"
  by (simp add: quiet_def)

lemma quiet_after [quiet_simps]:
  "quiet sid sv (sv_transmit sv' a d) = quiet sid sv sv'" "quiet sid sv (refuse sv' a x t six) = quiet sid sv sv'"
  "quiet sid sv (server_SendControl sv' a m x t) = quiet sid sv sv'" "quiet sid sv (SendTokenSixup sha sv' a t) = quiet sid sv sv'"
  "quiet sid sv (sv'\<lparr>sv_VConnFirst := n\<rparr>) = quiet sid sv sv'" "quiet sid sv (sv'\<lparr>sv_VConnNum := n\<rparr>) = quiet sid sv sv'"
  "quiet sid sv (sv'\<lparr>sv_NumRecvPackets := n\<rparr>) = quiet sid sv sv'" "quiet sid sv (sv'\<lparr>sv_NumBanReplies := n\<rparr>) = quiet sid sv sv'"
  "quiet sid sv (sv'\<lparr>sv_NumPreConnDecompress := n\<rparr>) = quiet sid sv sv'" "quiet sid sv (sv'\<lparr>sv_Aborted := b\<rparr>) = quiet sid sv sv'"
  "quiet sid sv (sv'\<lparr>sv_Unpacker := u\<rparr>) = quiet sid sv sv'" "quiet sid sv (SendMsgs sv' a msgs) = quiet sid sv sv'"
  by (auto simp: quiet_def sv_transmit_def refuse_def server_SendControl_def SendTokenSixup_def SendMsgs_def Let_def split: option.split)

lemma quiet_slot [quiet_simps]: "quiet (Some i) sv sv' \<Longrightarrow> quiet (Some i) sv (set_slot sv' i c)"
  by (simp add: quiet_def)

lemma quiet_handshake: "quiet sid sv (vanilla_handshake sha cfg sv addr sid now)"
  by (cases sid) (auto simp: vanilla_handshake_def Let_def quiet_simps)

lemma quiet_feed: "quiet (Some i) sv sv' \<Longrightarrow> quiet (Some i) sv (feed_slot cfg sv' i p addr t rsp now)"
  by (simp add: feed_slot_def Let_def quiet_simps split: prod.split)

text \<open>What proves that the sender can receive at its address: the token of the address in a 0.7 header, after an accept
  message, or in the input message that answers the vanilla handshake.\<close>

definition vouches :: "(byte list \<Rightarrow> byte list) \<Rightarrow> server \<Rightarrow> netaddr \<Rightarrow> construct \<Rightarrow> bool \<Rightarrow> token \<Rightarrow> bool" where
  "vouches sha sv addr p six t =
     (if \<not> has_flag (m_Flags p) NET_PACKETFLAG_CONTROL then preconn_input p = Some (NETMSG_INPUT, GetVanillaToken sha sv addr)
      else if six then t = srv_GetToken sha sv addr
      else byte_at (m_aChunkData p) 0 = NET_CTRLMSG_ACCEPT \<and> ToSecurityToken (drop 1 (m_aChunkData p)) = srv_GetToken sha sv addr)"

definition carries_token :: "(byte list \<Rightarrow> byte list) \<Rightarrow> server \<Rightarrow> netaddr \<Rightarrow> byte list \<Rightarrow> token \<Rightarrow> bool" where
  "carries_token sha sv addr data rsp \<longleftrightarrow>
     list_ex (\<lambda>(six, allow).
       case snd (UnpackPacket data six allow (Some NET_SECURITY_TOKEN_UNKNOWN) (Some rsp)) of
         Unpacked p s t q \<Rightarrow> vouches sha sv addr p s (the t)
       | _ \<Rightarrow> False) [(False, False), (False, True), (True, False), (True, True)]"

lemma handle_packet_quiet:
  assumes "vanilla_anti_spoof cfg" "\<not> vouches sha sv addr p six t"
    "handle_packet sha cfg sv addr p six t rsp sid now = (sv', rsp', res)"
  shows "quiet sid sv sv'"
proof -
  have six: "quiet sid sv (fst (OnSixupCtrlMsg sha cfg sv addr msg p rsp t sid now))" if "six" "has_flag (m_Flags p) NET_PACKETFLAG_CONTROL" for msg
    using assms(2) that by (auto simp: OnSixupCtrlMsg_def Let_def quiet_simps vouches_def)
  have tok: "quiet sid sv (OnTokenCtrlMsg sha cfg sv addr (byte_at (m_aChunkData p) 0) p sid now)"
    if "\<not> six" "has_flag (m_Flags p) NET_PACKETFLAG_CONTROL"
    using assms(2) that by (auto simp: OnTokenCtrlMsg_def Let_def quiet_simps vouches_def)
  have pre: "quiet sid sv (OnPreConnMsg sha cfg sv addr p sid now)"
    using assms(1,2) by (auto simp: OnPreConnMsg_def Let_def quiet_handshake vouches_def split: option.split)
  define x where "x = (if six \<and> has_flag (m_Flags p) NET_PACKETFLAG_CONTROL then OnSixupCtrlMsg sha cfg sv addr (byte_at (m_aChunkData p) 0) p rsp t sid now
     else if IsDDNetControlMsg p \<and> has_flag (m_Flags p) NET_PACKETFLAG_CONTROL
       then (OnTokenCtrlMsg sha cfg sv addr (byte_at (m_aChunkData p) 0) p sid now, rsp, None)
     else (OnPreConnMsg sha cfg sv addr p sid now, rsp, None))"
  obtain sv1 rsp1 ch where x1: "x = (sv1, rsp1, ch)" by (cases x)
  have "quiet sid sv (fst x)" using six tok pre by (auto simp: x_def)
  then have q: "quiet sid sv sv1" by (simp add: x1)
  show ?thesis
  proof (cases "has_flag (m_Flags p) NET_PACKETFLAG_CONNLESS")
    case True
    then show ?thesis using assms(3) by (auto simp: handle_packet_def split: if_splits)
  next
    case False
    then have "(sv', rsp', res) = (case ch of Some c \<Rightarrow> (sv1, rsp1, Some (c, []))
        | None \<Rightarrow> (case sid of None \<Rightarrow> (sv1, rsp1, None) | Some i \<Rightarrow> (feed_slot cfg sv1 i p addr t rsp1 now, rsp1, None)))"
      using assms(3) unfolding handle_packet_def Let_def x_def [symmetric] x1 by simp
    then show ?thesis using q quiet_feed by (auto split: option.splits)
  qed
qed

lemma vouches_seed:
  "sv_SecurityTokenSeed sv' = sv_SecurityTokenSeed sv \<Longrightarrow> vouches sha sv' addr p six t = vouches sha sv addr p six t"
  by (simp add: vouches_def srv_GetToken_def GetVanillaToken_def)

lemma recv_packet_quiet:
  assumes "vanilla_anti_spoof cfg" "\<not> carries_token sha sv addr data rsp"
    "recv_packet sha cfg sv addr data rsp now stamp = (sv', rsp', res)"
  shows "\<exists>sid. quiet sid sv sv' \<and> (sid = None \<or> sid = GetClientSlot sv addr)"
proof -
  define sv1 where "sv1 = sv\<lparr>sv_NumRecvPackets := sv_NumRecvPackets sv + 1\<rparr>"
  have q1: "quiet sid sv sv1" for sid by (simp add: sv1_def quiet_simps)
  have g: "GetClientSlot sv1 addr = GetClientSlot sv addr" by (simp add: GetClientSlot_def sv1_def)
  show ?thesis
  proof (cases "IsBanned (sv_NetBan sv1) addr stamp 128 = None \<and> UnpackPacketFlags data \<noteq> None")
    case False
    then have "quiet None sv sv'" using assms(3) q1
      unfolding recv_packet_def sv1_def [symmetric] Let_def by (auto simp: quiet_simps split: option.splits if_splits)
    then show ?thesis by blast
  next
    case True
    then obtain flags where b: "IsBanned (sv_NetBan sv1) addr stamp 128 = None" "UnpackPacketFlags data = Some flags" by auto
    define sid where "sid = (if has_flag flags NET_PACKETFLAG_CONNLESS then None else GetClientSlot sv1 addr)"
    define six where "six = (case sid of None \<Rightarrow> False | Some i \<Rightarrow> cn_Sixup (slot sv1 i))"
    define allow where "allow = AllowDecompression cfg sv1 data sid"
    obtain dec result where u: "UnpackPacket data six allow (Some NET_SECURITY_TOKEN_UNKNOWN) (Some rsp) = (dec, result)"
      by (cases "UnpackPacket data six allow (Some NET_SECURITY_TOKEN_UNKNOWN) (Some rsp)")
    define sv2 where "sv2 = (if sid = None \<and> dec then sv1\<lparr>sv_NumPreConnDecompress := sv_NumPreConnDecompress sv1 + 1\<rparr> else sv1)"
    have q2: "quiet sid sv sv2" using q1 by (simp add: sv2_def quiet_simps)
    have seed: "sv_SecurityTokenSeed sv2 = sv_SecurityTokenSeed sv" by (simp add: sv2_def sv1_def)
    have e: "(sv', rsp', res) = (case result of
         Unpacked p s t q \<Rightarrow> handle_packet sha cfg sv2 addr p s (the t) (the q) sid now
       | _ \<Rightarrow> (sv2, NET_SECURITY_TOKEN_UNKNOWN, None))"
      using assms(3) b unfolding recv_packet_def sv1_def [symmetric] Let_def
      by (simp add: sid_def [symmetric] six_def [symmetric] allow_def [symmetric] u sv2_def [symmetric])
    have n: "\<not> (case result of Unpacked p s t q \<Rightarrow> vouches sha sv2 addr p s (the t) | _ \<Rightarrow> False)"
      using assms(2) u by (cases six; cases allow; auto simp: carries_token_def vouches_seed [OF seed] split: unpack_result.splits)
    have "quiet sid sv sv'"
    proof (cases result)
      case (Unpacked p s t q)
      have "handle_packet sha cfg sv2 addr p s (the t) (the q) sid now = (sv', rsp', res)" using e Unpacked by simp
      with handle_packet_quiet [OF assms(1)] n Unpacked have "quiet sid sv2 sv'" by simp
      with q2 show ?thesis by (rule quiet_trans)
    qed (use e q2 in simp_all)
    then show ?thesis using g by (intro exI [of _ sid]) (simp add: sid_def)
  qed
qed

lemma GetClientSlot_Some:
  "GetClientSlot sv addr = Some i \<Longrightarrow> cn_State (slot sv i) \<notin> {OFFLINE, ERROR} \<and> cn_PeerAddr (slot sv i) = addr"
  by (auto simp: GetClientSlot_def find_Some_iff)


definition some_sha :: "byte list \<Rightarrow> byte list" where
  "some_sha x = [1, 2, 3, 4]"

text \<open>An accept message with a guessed token.\<close>

definition forged_accept :: "byte list" where
  "forged_accept = [0x10, 0, 0, 3, 9, 9, 9, 9]"

lemma some_token: "srv_GetToken some_sha sv a = 0x01020304"
  by (simp add: srv_GetToken_def some_sha_def) code_simp

lemma forged_no_token: "\<not> carries_token some_sha sv a forged_accept 0"
  unfolding carries_token_def vouches_def some_token GetVanillaToken_def Let_def by code_simp


end
