(* ===== verification/Stun.thy ===== *)
theory Stun
  imports NetConn "HOL-Library.Monad_Syntax"
begin

text \<open>
  STUN (RFC 5389): the messages of \<open>src/engine/shared/stun.cpp\<close> and \<open>CStun\<close> of
  \<open>src/engine/shared/network_stun.cpp\<close>, which finds out the public address of a client.

  Reading a byte behind the message gives \<open>None\<close>, so that a result says that no byte outside was read. The secrets
  of \<open>secure_random_fill\<close> and the clock are arguments; log output is left out.
\<close>

section \<open>Messages\<close>

definition stun_header :: "byte list" where
  "stun_header = [0x00, 0x01, 0x00, 0x00, 0x21, 0x12, 0xA4, 0x42]"

text \<open>\<open>secret\<close> is the new transaction id.\<close>

definition StunMessagePrepare :: "byte list \<Rightarrow> byte list" where
  "StunMessagePrepare secret = stun_header @ secret"

definition rd :: "byte list \<Rightarrow> nat \<Rightarrow> byte option" where
  "rd bs i = (if i < length bs then Some (bs ! i) else None)"

definition rd16 :: "byte list \<Rightarrow> nat \<Rightarrow> nat option" where
  "rd16 bs i = do { a \<leftarrow> rd bs i; b \<leftarrow> rd bs (i + 1); Some (256 * unat a + unat b) }"

definition rd_block :: "byte list \<Rightarrow> nat \<Rightarrow> nat \<Rightarrow> byte list option" where
  "rd_block bs i n = (if i + n \<le> length bs then Some (take n (drop i bs)) else None)"

text \<open>The address in the value of an attribute. The outcomes are a read outside (\<open>None\<close>), the end of parsing with an
  error (\<open>Some None\<close>), and an address or none for a family that is not known.\<close>

definition stun_cookie :: "byte list" where
  "stun_cookie = [0x21, 0x12, 0xA4, 0x42]"

definition xor_mapped :: "byte list \<Rightarrow> byte list \<Rightarrow> nat \<Rightarrow> nat \<Rightarrow> netaddr option option option" where
  "xor_mapped msg secret offset len =
     (if len < 4 then Some None
      else do {
        family \<leftarrow> rd msg (offset + 4 + 1);
        port \<leftarrow> rd16 msg (offset + 4 + 2);
        let port = int port XOR 0x2112;
        if family = 1 then
          if len \<noteq> 8 then Some None
          else do {
            ip \<leftarrow> rd_block msg (offset + 4 + 4) 4;
            Some (Some (Some \<lparr>na_type = NETTYPE_IPV4, na_ip = map2 (XOR) ip stun_cookie @ replicate 12 0, na_port = port\<rparr>)) }
        else if family = 2 then
          if len \<noteq> 20 then Some None
          else do {
            ip \<leftarrow> rd_block msg (offset + 4 + 4) 16;
            Some (Some (Some \<lparr>na_type = NETTYPE_IPV6, na_ip = map2 (XOR) ip (stun_cookie @ secret), na_port = port\<rparr>)) }
        else Some (Some None) })"

text \<open>One attribute of a message of \<open>size\<close> bytes: its length and the address it carries.\<close>

definition stun_attribute :: "byte list \<Rightarrow> nat \<Rightarrow> byte list \<Rightarrow> bool \<Rightarrow> nat \<Rightarrow> (nat \<times> netaddr option) option option" where
  "stun_attribute msg sz secret success offset =
     (if sz < offset + 4 then Some None
      else do {
        type \<leftarrow> rd16 msg offset;
        len \<leftarrow> rd16 msg (offset + 2);
        if sz < offset + 4 + len then Some None
        else if success \<and> type = 0x20 then map_option (map_option (\<lambda>a. (len, a))) (xor_mapped msg secret offset len)
        else if type \<le> 0x7fff then Some None
        else Some (Some (len, None)) })"

text \<open>The loop over the attributes: whether parsing failed, and the first address.\<close>

function stun_attributes :: "byte list \<Rightarrow> nat \<Rightarrow> byte list \<Rightarrow> bool \<Rightarrow> nat \<Rightarrow> netaddr option \<Rightarrow> (bool \<times> netaddr option) option" where
  "stun_attributes msg sz secret success offset found =
     (if sz = offset then Some (success \<and> found = None, found)
      else case stun_attribute msg sz secret success offset of
        None \<Rightarrow> None
      | Some None \<Rightarrow> Some (True, found)
      | Some (Some (len, a)) \<Rightarrow>
          stun_attributes msg sz secret success (offset + 4 + len) (if found = None then a else found))"
  by pat_completeness auto

termination
  by (relation "measure (\<lambda>(msg, sz, secret, success, offset, found). sz - offset)")
     (auto simp: stun_attribute_def split: if_splits)

declare stun_attributes.simps [simp del]

text \<open>The result tells whether parsing failed, whether the response reports success, and the address.\<close>

definition StunMessageParse :: "byte list \<Rightarrow> byte list \<Rightarrow> (bool \<times> bool \<times> netaddr) option" where
  "StunMessageParse msg secret =
     (if length msg < 20 then Some (True, False, zero_addr)
      else do {
        b0 \<leftarrow> rd msg 0; b1 \<leftarrow> rd msg 1;
        len \<leftarrow> rd16 msg 2;
        magic \<leftarrow> rd_block msg 4 4;
        tid \<leftarrow> rd_block msg 8 12;
        if \<not> (b0 = 1 \<and> (b1 = 1 \<or> b1 = 0x11) \<and> length msg \<ge> 20 + len \<and> len mod 4 = 0 \<and> magic = stun_cookie \<and> tid = secret)
        then Some (True, False, zero_addr)
        else
          map_option (\<lambda>(failed, a). (failed, b1 = 1, case a of None \<Rightarrow> zero_addr | Some a \<Rightarrow> a))
            (stun_attributes msg (20 + len) secret (b1 = 1) 20 None) })"

section \<open>The protocol\<close>

record stun_protocol =
  sp_Secret :: "byte list"
  sp_HaveStunServer :: bool
  sp_StunServer :: netaddr
  sp_HaveAddr :: bool
  sp_Addr :: netaddr
  sp_LastResponse :: int
  sp_NextTry :: int
  sp_NumUnsuccessfulTries :: int

definition new_stun :: "byte list \<Rightarrow> stun_protocol" where
  "new_stun secret = \<lparr>sp_Secret = secret, sp_HaveStunServer = False, sp_StunServer = zero_addr, sp_HaveAddr = False,
     sp_Addr = zero_addr, sp_LastResponse = - 1, sp_NextTry = - 1, sp_NumUnsuccessfulTries = - 1\<rparr>"

definition RetryWaitSeconds :: "int \<Rightarrow> int" where
  "RetryWaitSeconds tries = push_bit (nat (max 0 (min tries 9))) 1"

definition stun_Refresh :: "stun_protocol \<Rightarrow> int \<Rightarrow> stun_protocol" where
  "stun_Refresh p now = p\<lparr>sp_NextTry := now\<rparr>"

definition FeedStunServer :: "stun_protocol \<Rightarrow> netaddr \<Rightarrow> int \<Rightarrow> stun_protocol" where
  "FeedStunServer p server now =
     (if sp_HaveStunServer p \<and> sp_StunServer p = server then p
      else stun_Refresh (p\<lparr>sp_HaveStunServer := True, sp_StunServer := server, sp_NumUnsuccessfulTries := 0\<rparr>) now)"

text \<open>The request sent, if any. \<open>secret\<close> is the transaction id of the next request.\<close>

definition stun_Update :: "stun_protocol \<Rightarrow> byte list \<Rightarrow> int \<Rightarrow> stun_protocol \<times> (netaddr \<times> byte list) list" where
  "stun_Update p secret now =
     (if sp_NextTry p = - 1 \<or> now < sp_NextTry p \<or> \<not> sp_HaveStunServer p then (p, [])
      else
        (p\<lparr>sp_NextTry := now + RetryWaitSeconds (sp_NumUnsuccessfulTries p) * time_freq,
           sp_NumUnsuccessfulTries := sp_NumUnsuccessfulTries p + 1, sp_Secret := secret\<rparr>,
         [(sp_StunServer p, StunMessagePrepare secret)]))"

definition stun_OnPacket :: "stun_protocol \<Rightarrow> byte list \<Rightarrow> int \<Rightarrow> (stun_protocol \<times> bool) option" where
  "stun_OnPacket p data now =
     (if sp_NextTry p < 0 \<or> \<not> sp_HaveStunServer p then Some (p, False)
      else do {
        (failed, success, addr) \<leftarrow> StunMessageParse data (sp_Secret p);
        Some (if failed then (p, False)
              else if \<not> success then (p\<lparr>sp_LastResponse := now, sp_HaveAddr := False\<rparr>, True)
              else (p\<lparr>sp_LastResponse := now, sp_NextTry := - 1, sp_NumUnsuccessfulTries := - 1, sp_HaveAddr := True,
                      sp_Addr := addr\<rparr>, True)) })"

datatype connectivity = UNKNOWN | CHECKING | UNREACHABLE | REACHABLE | ADDRESS_KNOWN netaddr

definition stun_GetConnectivity :: "stun_protocol \<Rightarrow> int \<Rightarrow> connectivity" where
  "stun_GetConnectivity p now =
     (if \<not> sp_HaveStunServer p then UNKNOWN
      else
        let tried = (sp_NumUnsuccessfulTries p \<ge> 5 \<and> (sp_LastResponse p = - 1 \<or> now - sp_LastResponse p \<ge> 30 * time_freq))
        in if sp_LastResponse p = - 1 \<and> \<not> tried then CHECKING
           else if tried then UNREACHABLE
           else if \<not> sp_HaveAddr p then REACHABLE
           else ADDRESS_KNOWN (sp_Addr p))"

text \<open>\<open>CStun\<close>: one protocol for IPv6, one for IPv4.\<close>

definition IndexFromNetType :: "int \<Rightarrow> nat option" where
  "IndexFromNetType t = (if t = NETTYPE_IPV6 then Some 0 else if t = NETTYPE_IPV4 then Some 1 else None)"

type_synonym stun = "stun_protocol list"

definition CStun :: "byte list \<Rightarrow> byte list \<Rightarrow> stun" where
  "CStun secret6 secret4 = [new_stun secret6, new_stun secret4]"

definition CStun_FeedStunServer :: "stun \<Rightarrow> netaddr \<Rightarrow> int \<Rightarrow> stun" where
  "CStun_FeedStunServer s server now =
     (case IndexFromNetType (na_type server) of None \<Rightarrow> s | Some i \<Rightarrow> s[i := FeedStunServer (s ! i) server now])"

definition CStun_Refresh :: "stun \<Rightarrow> int \<Rightarrow> stun" where
  "CStun_Refresh s now = map (\<lambda>p. stun_Refresh p now) s"

definition CStun_Update :: "stun \<Rightarrow> (nat \<Rightarrow> byte list) \<Rightarrow> int \<Rightarrow> stun \<times> (netaddr \<times> byte list) list" where
  "CStun_Update s secrets now =
     (let rs = map (\<lambda>(i, p). stun_Update p (secrets i) now) (enumerate 0 s) in (map fst rs, concat (map snd rs)))"

definition CStun_OnPacket :: "stun \<Rightarrow> netaddr \<Rightarrow> byte list \<Rightarrow> int \<Rightarrow> (stun \<times> bool) option" where
  "CStun_OnPacket s addr data now =
     (case IndexFromNetType (na_type addr) of
        None \<Rightarrow> Some (s, False)
      | Some i \<Rightarrow> map_option (\<lambda>(p, b). (s[i := p], b)) (stun_OnPacket (s ! i) data now))"

definition CStun_GetConnectivity :: "stun \<Rightarrow> int \<Rightarrow> int \<Rightarrow> connectivity option" where
  "CStun_GetConnectivity s nettype now = map_option (\<lambda>i. stun_GetConnectivity (s ! i) now) (IndexFromNetType nettype)"

section \<open>Parsing stays inside the message\<close>

lemma rd_Some [simp]: "i < length bs \<Longrightarrow> rd bs i = Some (bs ! i)"
  by (simp add: rd_def)

lemma rd16_Some: "i + 1 < length bs \<Longrightarrow> rd16 bs i = Some (256 * unat (bs ! i) + unat (bs ! (i + 1)))"
  by (simp add: rd16_def)

lemma rd_block_Some: "i + n \<le> length bs \<Longrightarrow> rd_block bs i n = Some (take n (drop i bs))"
  by (simp add: rd_block_def)

lemma xor_mapped_inside:
  assumes "offset + 4 + len \<le> length msg"
  shows "xor_mapped msg secret offset len \<noteq> None"
  using assms by (auto simp: xor_mapped_def rd16_Some rd_block_Some Let_def)

lemma stun_attribute_inside:
  assumes "sz \<le> length msg" "offset \<le> sz"
  shows "\<exists>r. stun_attribute msg sz secret success offset = Some r \<and>
    (\<forall>len a. r = Some (len, a) \<longrightarrow> offset + 4 + len \<le> sz)"
proof (cases "sz < offset + 4")
  case False
  define len where "len = 256 * unat (msg ! (offset + 2)) + unat (msg ! (offset + 2 + 1))"
  have r: "rd16 msg (offset + 2) = Some len" "\<exists>t. rd16 msg offset = Some t"
    using False assms by (simp_all add: len_def rd16_Some)
  then obtain t where t: "rd16 msg offset = Some t" by blast
  show ?thesis
  proof (cases "sz < offset + 4 + len")
    case True
    then show ?thesis using False r(1) t by (simp add: stun_attribute_def)
  next
    case False
    then obtain x where "xor_mapped msg secret offset len = Some x"
      using xor_mapped_inside [of offset len msg secret] assms by auto
    then show ?thesis using False \<open>\<not> sz < offset + 4\<close> r(1) t by (auto simp: stun_attribute_def)
  qed
qed (simp add: stun_attribute_def)

lemma stun_attributes_inside:
  "sz \<le> length msg \<Longrightarrow> offset \<le> sz \<Longrightarrow> stun_attributes msg sz secret success offset found \<noteq> None"
proof (induction msg sz secret success offset found rule: stun_attributes.induct)
  case (1 msg sz secret success offset found)
  obtain r where r: "stun_attribute msg sz secret success offset = Some r"
    "\<And>len a. r = Some (len, a) \<Longrightarrow> offset + 4 + len \<le> sz"
    using stun_attribute_inside [OF 1(2,3)] by blast
  show ?case using 1(1) r 1(2)
    by (subst stun_attributes.simps) (auto split: option.split)
qed

lemma stun_parse_some:
  "\<exists>failed success a. StunMessageParse msg secret = Some (failed, success, a) \<and>
    (failed \<or> 20 \<le> length msg \<and> take 12 (drop 8 msg) = secret)"
proof (cases "length msg < 20")
  case False
  then have "\<exists>r. stun_attributes msg (20 + n) secret b 20 None = Some r" if "20 + n \<le> length msg" for n b
    using stun_attributes_inside [of "20 + n" msg 20] that by simp
  moreover have "rd msg 0 = Some (msg ! 0)" "rd msg 1 = Some (msg ! 1)" using False by (auto simp: rd_def)
  ultimately show ?thesis using False
    by (fastforce simp: StunMessageParse_def rd16_Some rd_block_Some simp del: rd_Some)
qed (auto simp: StunMessageParse_def)

text \<open>Whatever arrives, parsing a STUN message ends, reads no byte outside of it, and accepts it only with the
  transaction id of the last request.\<close>

theorem stun_parse_safe:
  "\<exists>failed success a. StunMessageParse msg secret = Some (failed, success, a) \<and>
    (failed \<or> 20 \<le> length msg \<and> take 12 (drop 8 msg) = secret)"
  by (rule stun_parse_some)

section \<open>Responses\<close>

text \<open>The binding response of RFC 5389 with an XOR-MAPPED-ADDRESS attribute.\<close>

definition be16 :: "int \<Rightarrow> byte list" where
  "be16 n = [to_byte (drop_bit 8 n), to_byte n]"

definition addr_ip :: "netaddr \<Rightarrow> byte list" where
  "addr_ip a = (if na_type a = NETTYPE_IPV4 then take 4 (na_ip a) else na_ip a)"

definition public_addr :: "netaddr \<Rightarrow> bool" where
  "public_addr a \<longleftrightarrow> length (na_ip a) = 16 \<and> 0 \<le> na_port a \<and> na_port a < 65536 \<and>
     (na_type a = NETTYPE_IPV4 \<and> drop 4 (na_ip a) = replicate 12 0 \<or> na_type a = NETTYPE_IPV6)"

definition mapped_attribute :: "byte list \<Rightarrow> netaddr \<Rightarrow> byte list" where
  "mapped_attribute secret a =
     [0x00, 0x20] @ be16 (4 + int (length (addr_ip a))) @ [0, if na_type a = NETTYPE_IPV4 then 1 else 2] @
     be16 (na_port a XOR 0x2112) @ map2 (XOR) (addr_ip a) (stun_cookie @ secret)"

definition binding_response :: "byte list \<Rightarrow> byte list \<Rightarrow> byte list" where
  "binding_response secret attributes = [0x01, 0x01] @ be16 (int (length attributes)) @ stun_cookie @ secret @ attributes"

lemma be16_value:
  assumes "0 \<le> n" "n < 65536"
  shows "256 * unat (to_byte (drop_bit 8 n)) + unat (to_byte n) = nat n"
proof -
  have "uint (to_byte (drop_bit 8 n)) = n div 256" "uint (to_byte n) = n mod 256"
    using assms by (simp_all add: to_byte_def uint_word_of_int drop_bit_eq_div)
  then have "int (256 * unat (to_byte (drop_bit 8 n)) + unat (to_byte n)) = n"
    using mult_div_mod_eq [of 256 n] by simp
  then show ?thesis by linarith
qed

lemma xor_twice [simp]: "(x XOR c) XOR c = x" for x c :: byte
  by (simp add: xor.assoc)

lemma length_be16 [simp]: "length (be16 n) = 2"
  by (simp add: be16_def)

lemma rd16_be16: "0 \<le> n \<Longrightarrow> n < 65536 \<Longrightarrow> i = length xs \<Longrightarrow> rd16 (xs @ be16 n @ ys) i = Some (nat n)"
  by (simp add: rd16_def rd_def nth_append be16_def be16_value)

lemma rd_block_mid: "i = length xs \<Longrightarrow> n = length ys \<Longrightarrow> rd_block (xs @ ys @ zs) i n = Some ys"
  by (simp add: rd_block_def)

lemma response_head:
  assumes "length secret = 12" "length attrs mod 4 = 0" "length attrs < 65536"
  shows "StunMessageParse (binding_response secret attrs) secret =
    map_option (\<lambda>(failed, a). (failed, True, case a of None \<Rightarrow> zero_addr | Some a \<Rightarrow> a))
      (stun_attributes (binding_response secret attrs) (20 + length attrs) secret True 20 None)"
proof -
  let ?m = "binding_response secret attrs"
  have l: "length ?m = 20 + length attrs" using assms by (simp add: binding_response_def stun_cookie_def)
  have "rd16 ([1, 1] @ be16 (int (length attrs)) @ (stun_cookie @ secret @ attrs)) 2 = Some (nat (int (length attrs)))"
    by (rule rd16_be16) (use assms in simp_all)
  then have "rd16 ?m 2 = Some (length attrs)" by (simp add: binding_response_def)
  moreover have "rd_block (([1, 1] @ be16 (int (length attrs))) @ stun_cookie @ (secret @ attrs)) 4 4 = Some stun_cookie"
    by (rule rd_block_mid) (simp_all add: stun_cookie_def)
  then have "rd_block ?m 4 4 = Some stun_cookie" by (simp add: binding_response_def)
  moreover have "rd_block (([1, 1] @ be16 (int (length attrs)) @ stun_cookie) @ secret @ attrs) 8 12 = Some secret"
    by (rule rd_block_mid) (simp_all add: stun_cookie_def assms)
  then have "rd_block ?m 8 12 = Some secret" by (simp add: binding_response_def)
  moreover have "rd ?m 0 = Some 1" "rd ?m 1 = Some 1" by (simp_all add: binding_response_def rd_def)
  ultimately show ?thesis unfolding StunMessageParse_def l using assms by simp
qed

text \<open>The attribute of a response is read back, wherever it stands.\<close>

lemma attribute_read:
  assumes "public_addr a" "length secret = 12" "length pre = offset" "sz = offset + length (mapped_attribute secret a)"
    "msg = pre @ mapped_attribute secret a"
  shows "stun_attribute msg sz secret True offset = Some (Some (4 + length (addr_ip a), Some a))"
proof -
  define p where "p = na_port a XOR 0x2112"
  have p: "0 \<le> p" "p < 65536" "p XOR 0x2112 = na_port a"
  proof -
    have b: "bit (na_port a) n \<Longrightarrow> n < 16" "bit (0x2112 :: int) n \<Longrightarrow> n < 16" for n
      using assms(1) bit_bounded [of "na_port a" 16 n] bit_bounded [of "0x2112" 16 n] by (simp_all add: public_addr_def)
    have "take_bit 16 p = p" by (rule bit_eqI) (auto simp: p_def bit_simps simp del: bit_numerals dest: b)
    then show "0 \<le> p" "p < 65536" using take_bit_nonnegative [of 16 p] take_bit_int_less_exp [of 16 p] by simp_all
    show "p XOR 0x2112 = na_port a" by (simp add: p_def xor.assoc)
  qed
  define ip where "ip = map2 (XOR) (addr_ip a) (stun_cookie @ secret)"
  define n where "n = length (addr_ip a)"
  define fam where "fam = (if na_type a = NETTYPE_IPV4 then 1 else 2 :: byte)"
  have n: "n = (if na_type a = NETTYPE_IPV4 then 4 else 16)" "length ip = n" "n < 17"
    using assms(1,2) by (auto simp: n_def ip_def addr_ip_def public_addr_def stun_cookie_def)
  have m: "msg = pre @ [0x00, 0x20] @ be16 (4 + int n) @ [0, fam] @ be16 p @ ip"
    by (simp add: assms(5) mapped_attribute_def p_def ip_def n_def fam_def)
  have sz: "sz = offset + 8 + n" using assms(4) n by (simp add: mapped_attribute_def ip_def n_def)
  have t: "rd16 msg offset = Some 0x20" using assms(3) by (simp add: m rd16_def rd_def nth_append)
  have "rd16 ((pre @ [0x00, 0x20]) @ be16 (4 + int n) @ ([0, fam] @ be16 p @ ip)) (offset + 2) = Some (nat (4 + int n))"
    by (rule rd16_be16) (use assms(3) n in simp_all)
  then have l: "rd16 msg (offset + 2) = Some (4 + n)" by (simp add: m nat_add_distrib)
  have f: "rd msg (offset + 4 + 1) = Some fam" using assms(3) by (simp add: m rd_def nth_append be16_def)
  have "rd16 ((pre @ [0x00, 0x20] @ be16 (4 + int n) @ [0, fam]) @ be16 p @ ip) (offset + 4 + 2) = Some (nat p)"
    by (rule rd16_be16) (use assms(3) p in simp_all)
  then have pt: "rd16 msg (offset + 4 + 2) = Some (nat p)" by (simp add: m)
  have "rd_block ((pre @ [0x00, 0x20] @ be16 (4 + int n) @ [0, fam] @ be16 p) @ ip @ []) (offset + 4 + 4) n = Some ip"
    by (rule rd_block_mid) (use assms(3) n in simp_all)
  then have b: "rd_block msg (offset + 4 + 4) n = Some ip" by (simp add: m)
  have x: "map2 (XOR) ip (stun_cookie @ secret) = addr_ip a"
  proof -
    have "map2 (XOR) (map2 (XOR) as bs) bs = take (length bs) as" for as bs :: "byte list"
      by (induction as bs rule: list_induct2') simp_all
    then show ?thesis using n assms(2) by (simp add: ip_def n_def stun_cookie_def)
  qed
  have "xor_mapped msg secret offset (4 + n) = Some (Some (Some a))"
  proof (cases "na_type a = NETTYPE_IPV4")
    case True
    then have "length ip = Suc (Suc (Suc (Suc 0)))" using n by simp
    then have "map2 (XOR) ip stun_cookie = map2 (XOR) ip (stun_cookie @ secret)"
      by (auto simp: length_Suc_conv stun_cookie_def)
    then have "map2 (XOR) ip stun_cookie = addr_ip a" using x by simp
    moreover have "take 4 (na_ip a) @ replicate 12 0 = na_ip a"
      using True assms(1) append_take_drop_id [of 4 "na_ip a"] by (simp add: public_addr_def NETTYPE_IPV4_def NETTYPE_IPV6_def)
    ultimately have "map2 (XOR) ip stun_cookie = addr_ip a" "take 4 (na_ip a) @ replicate 12 0 = na_ip a" .
    then show ?thesis using True n b f pt p by (simp add: xor_mapped_def fam_def addr_ip_def)
  next
    case False
    then show ?thesis using n b f pt p x assms(1) by (simp add: xor_mapped_def fam_def addr_ip_def public_addr_def)
  qed
  then show ?thesis using t l sz by (simp add: stun_attribute_def n_def)
qed

lemma attributes_end: "stun_attributes msg sz secret True sz (Some a) = Some (False, Some a)"
  by (subst stun_attributes.simps) simp

lemma length_mapped:
  "public_addr a \<Longrightarrow> length secret = 12 \<Longrightarrow> length (mapped_attribute secret a) = 8 + length (addr_ip a) \<and> length (addr_ip a) \<in> {4, 16}"
  by (auto simp: mapped_attribute_def addr_ip_def public_addr_def stun_cookie_def)

text \<open>A success response is understood: the address a STUN server reports for the request is the one that comes out.\<close>

theorem stun_response_roundtrip:
  assumes "public_addr a" "length secret = 12"
  shows "StunMessageParse (binding_response secret (mapped_attribute secret a)) secret = Some (False, True, a)"
proof -
  let ?at = "mapped_attribute secret a"
  let ?m = "binding_response secret ?at"
  note l = length_mapped [OF assms]
  have m: "?m = ([0x01, 0x01] @ be16 (int (length ?at)) @ stun_cookie @ secret) @ ?at" by (simp add: binding_response_def)
  have "stun_attribute ?m (20 + length ?at) secret True 20 = Some (Some (4 + length (addr_ip a), Some a))"
    by (rule attribute_read [OF assms _ _ m]) (simp_all add: stun_cookie_def assms)
  then have "stun_attributes ?m (20 + length ?at) secret True 20 None = Some (False, Some a)"
    using l attributes_end [of ?m "20 + length ?at" secret a] by (subst stun_attributes.simps) (auto simp: add.commute)
  moreover have "length ?at mod 4 = 0" "length ?at < 65536" using l by auto
  ultimately show ?thesis using response_head [OF assms(2), of ?at] by simp
qed

theorem stun_response_roundtrip_witness:
  "StunMessageParse (binding_response (replicate 12 7) (mapped_attribute (replicate 12 7)
     \<lparr>na_type = NETTYPE_IPV4, na_ip = [192, 0, 2, 1] @ replicate 12 0, na_port = 8303\<rparr>)) (replicate 12 7) =
   Some (False, True, \<lparr>na_type = NETTYPE_IPV4, na_ip = [192, 0, 2, 1] @ replicate 12 0, na_port = 8303\<rparr>)"
  by (rule stun_response_roundtrip) (simp_all add: public_addr_def)

text \<open>RFC 5389 pads the value of an attribute to a multiple of four bytes, which its length does not count. The loop goes
  on right behind the length: a success response is refused when an attribute that needs padding, such as a SOFTWARE
  attribute of one character, stands in front of the address.\<close>

definition software_attribute :: "byte list" where
  "software_attribute = [0x80, 0x22, 0, 1, 88, 0, 0, 0]"

theorem stun_padding_refused:
  assumes "public_addr a" "length secret = 12"
  shows "StunMessageParse (binding_response secret (software_attribute @ mapped_attribute secret a)) secret = Some (True, True, zero_addr)"
proof -
  let ?at = "software_attribute @ mapped_attribute secret a"
  let ?m = "binding_response secret ?at"
  note l = length_mapped [OF assms]
  have at: "length ?at = 16 + length (addr_ip a)" using l by (simp add: software_attribute_def)
  define pre where "pre = [0x01, 0x01] @ be16 (int (length ?at)) @ stun_cookie @ secret"
  have pre: "length pre = 20" by (simp add: pre_def stun_cookie_def assms)
  define b :: "byte list" where "b = [0x80, 0x22, 0, 1, 88, 0, 0, 0, 0x00, 0x20]"
  have m: "?m = pre @ b @ drop 2 (mapped_attribute secret a)"
    by (simp add: binding_response_def pre_def software_attribute_def mapped_attribute_def b_def)
  have r: "rd16 ?m (20 + k) = Some (256 * unat (b ! k) + unat (b ! Suc k))" if "Suc k < length b" for k
    using that pre unfolding m by (simp add: rd16_def rd_def nth_append)
  have "stun_attribute ?m (20 + length ?at) secret True 20 = Some (Some (1, None))"
    using r [of 0] r [of 2] at by (simp add: stun_attribute_def b_def)
  moreover have "stun_attribute ?m (20 + length ?at) secret True 25 = Some None"
    using r [of 5] r [of 7] at by (simp add: stun_attribute_def b_def)
  ultimately have "stun_attributes ?m (20 + length ?at) secret True 20 None = Some (True, None)"
    using at by (subst stun_attributes.simps, simp) (subst stun_attributes.simps, simp)
  moreover have "length ?at mod 4 = 0" "length ?at < 65536" using l at by auto
  ultimately show ?thesis using response_head [OF assms(2), of ?at] by simp
qed

theorem stun_padding_refused_witness:
  "StunMessageParse (binding_response (replicate 12 7) (software_attribute @ mapped_attribute (replicate 12 7)
     \<lparr>na_type = NETTYPE_IPV4, na_ip = [192, 0, 2, 1] @ replicate 12 0, na_port = 8303\<rparr>)) (replicate 12 7) = Some (True, True, zero_addr)"
  by (rule stun_padding_refused) (simp_all add: public_addr_def)

end
