(* ===== verification/NetClient.thy ===== *)
theory NetClient
  imports NetServer Stun
begin

text \<open>
  \<open>CNetClient\<close> (\<open>src/engine/shared/network_client.cpp\<close>): one connection, the token cache for 0.7 servers and STUN, and
  the receive loop that tells their datagrams apart.

  Arguments stand for what comes from outside: \<open>now\<close> is \<open>time_get()\<close>, \<open>secrets\<close> and \<open>random\<close> are random bytes and
  tokens, \<open>recv k\<close> is the \<open>k\<close>-th datagram of a call. Datagrams sent outside the connection are appended to
  \<open>nc_Sent\<close>, \<open>None\<close> marking one that fails an assertion. Opening and closing the socket is left out.
\<close>

section \<open>State\<close>

record net_client =
  nc_Connection :: conn
  nc_Unpacker :: chunk_unpacker
  nc_TokenCache :: token_cache
  nc_Stun :: stun
  nc_Sent :: "datagram list"
  nc_Aborted :: bool

definition no_packet :: chunk_unpacker where
  "no_packet = \<lparr>cu_Valid = False, cu_Addr = zero_addr, cu_CurrentChunk = 0, cu_CurrentOffset = 0, cu_ClientId = 0,
     cu_Data = empty_construct\<rparr>"

definition client_Open :: "conn \<Rightarrow> byte list \<Rightarrow> byte list \<Rightarrow> net_client" where
  "client_Open fresh secret6 secret4 =
     \<lparr>nc_Connection = conn_Init fresh False, nc_Unpacker = no_packet,
      nc_TokenCache = \<lparr>m_TokenCache = [], m_ConnlessPackets = []\<rparr>, nc_Stun = CStun secret6 secret4, nc_Sent = [], nc_Aborted = False\<rparr>"

section \<open>Connecting and the periodic update\<close>

definition with_conn :: "net_client \<Rightarrow> (conn \<Rightarrow> conn) \<Rightarrow> net_client" where
  "with_conn nc f = nc\<lparr>nc_Connection := f (nc_Connection nc)\<rparr>"

definition client_Disconnect :: "net_client \<Rightarrow> cstring option \<Rightarrow> bool \<Rightarrow> int \<Rightarrow> net_client" where
  "client_Disconnect nc reason own now = with_conn nc (\<lambda>c. conn_Disconnect c reason own now)"

definition client_Connect :: "net_client \<Rightarrow> netaddr list \<Rightarrow> int \<Rightarrow> net_client" where
  "client_Connect nc targets now = with_conn nc (\<lambda>c. fst (conn_Connect c targets now))"

definition client_Connect7 :: "net_client \<Rightarrow> netaddr list \<Rightarrow> token \<Rightarrow> int \<Rightarrow> net_client" where
  "client_Connect7 nc targets random now = with_conn nc (\<lambda>c. fst (conn_Connect7 c targets random now))"

definition client_ResetErrorString :: "net_client \<Rightarrow> net_client" where
  "client_ResetErrorString nc = with_conn nc (\<lambda>c. c\<lparr>cn_ErrorString := []\<rparr>)"

definition client_send :: "net_client \<Rightarrow> datagram list \<Rightarrow> net_client" where
  "client_send nc ds = nc\<lparr>nc_Sent := nc_Sent nc @ ds\<rparr>"

definition client_Update :: "conn_config \<Rightarrow> net_client \<Rightarrow> (nat \<Rightarrow> byte list) \<Rightarrow> int \<Rightarrow> net_client" where
  "client_Update cfg nc secrets now =
     (let nc = with_conn nc (\<lambda>c. conn_Update cfg c now);
          nc = (if cn_State (nc_Connection nc) = ERROR
                then client_Disconnect nc (Some (cn_ErrorString (nc_Connection nc))) True now else nc);
          (stun, requests) = CStun_Update (nc_Stun nc) secrets now;
          nc = client_send (nc\<lparr>nc_Stun := stun\<rparr>) (map (\<lambda>(a, bs). (a, Some bs)) requests)
      in nc\<lparr>nc_TokenCache := tc_Update (nc_TokenCache nc) now\<rparr>)"

section \<open>Receiving\<close>

definition client_next_chunk :: "net_client \<Rightarrow> net_client \<times> net_chunk option" where
  "client_next_chunk nc =
     (let (u, c, chunk) = UnpackNextChunk (nc_Unpacker nc) (nc_Connection nc);
          nc = nc\<lparr>nc_Unpacker := u, nc_Connection := c\<rparr>
      in case chunk of
           None \<Rightarrow> (nc, None)
         | Some ch \<Rightarrow>
             if cn_State (nc_Connection nc) \<noteq> OFFLINE then (nc, Some ch)
             else (nc\<lparr>nc_Unpacker := chunk_unpacker_Reset (nc_Unpacker nc)\<rparr>, None))"

text \<open>What \<open>UnpackPacket\<close> leaves in its reference parameter \<open>Sixup\<close>, also when it rejects the packet.\<close>

definition sixup_after :: "byte list \<Rightarrow> bool \<Rightarrow> bool" where
  "sixup_after buf sixup =
     (case UnpackPacketFlags buf of
        None \<Rightarrow> sixup
      | Some flags \<Rightarrow>
          if has_flag flags NET_PACKETFLAG_CONNLESS then uint (buf ! 0) AND 0x3 = 1
          else sixup \<or> has_flag flags NET_PACKETFLAG_UNUSED)"

definition client_feed :: "conn_config \<Rightarrow> net_client \<Rightarrow> construct \<Rightarrow> netaddr \<Rightarrow> token \<Rightarrow> token \<Rightarrow> int \<Rightarrow> net_client" where
  "client_feed cfg nc p addr token response now =
     (if cn_State (nc_Connection nc) = OFFLINE \<or> cn_State (nc_Connection nc) = ERROR then nc
      else
        let (c, ok) = Feed cfg (nc_Connection nc) p addr token response now;
            p' = (case strip_token (nc_Connection nc) p of None \<Rightarrow> p | Some q \<Rightarrow> q);
            nc = nc\<lparr>nc_Connection := c\<rparr>
        in if ok \<and> \<not> has_flag (m_Flags p) NET_PACKETFLAG_CONTROL \<and> m_DataSize p' > 0 \<and> m_NumChunks p' > 0 then
             if cu_Valid (nc_Unpacker nc) then nc\<lparr>nc_Aborted := True\<rparr>
             else nc\<lparr>nc_Unpacker := FeedPacket addr p' 0\<rparr>
           else nc)"

text \<open>One datagram. \<open>sixup\<close> is the local flag of \<open>Recv\<close>, which every call of \<open>UnpackPacket\<close> may change and which the next
  datagram finds as it was left; \<open>junk\<close> is what the uninitialised local token happens to hold.\<close>

definition client_packet ::
  "conn_config \<Rightarrow> net_client \<Rightarrow> netaddr \<Rightarrow> byte list \<Rightarrow> bool \<Rightarrow> token \<Rightarrow> token \<Rightarrow> (nat \<Rightarrow> token) \<Rightarrow> int \<Rightarrow>
   net_client \<times> bool \<times> token \<times> received option" where
  "client_packet cfg nc addr data sixup response junk random now =
     (case CStun_OnPacket (nc_Stun nc) addr data now of
        None \<Rightarrow> (nc\<lparr>nc_Aborted := True\<rparr>, sixup, response, None)
      | Some (stun, True) \<Rightarrow> (nc\<lparr>nc_Stun := stun\<rparr>, sixup, response, None)
      | Some (stun, False) \<Rightarrow>
          let nc = nc\<lparr>nc_Stun := stun\<rparr>
          in case snd (UnpackPacket data sixup True (Some junk) (Some response)) of
               Unpacked p six t q \<Rightarrow>
                 let response = the q;
                     addr = (if six then addr\<lparr>na_type := na_type addr OR NETTYPE_TW7\<rparr> else addr)
                 in if has_flag (m_Flags p) NET_PACKETFLAG_CONNLESS then (nc, six, response, Some (connless_chunk addr p))
                    else
                      let (cache, sent) =
                            (if six \<and> has_flag (m_Flags p) NET_PACKETFLAG_CONTROL \<and> m_DataSize p \<ge> 1 + 4 \<and>
                                byte_at (m_aChunkData p) 0 = NET_CTRLMSG_TOKEN
                             then AddToken (nc_TokenCache nc) addr response now random else (nc_TokenCache nc, []));
                          nc = client_send (nc\<lparr>nc_TokenCache := cache\<rparr>) sent
                      in (client_feed cfg nc p addr (the t) response now, six, response, None)
             | _ \<Rightarrow> (nc, sixup_after data sixup, NET_SECURITY_TOKEN_UNKNOWN, None))"

partial_function (option) client_Recv_loop ::
  "conn_config \<Rightarrow> (nat \<Rightarrow> (netaddr \<times> byte list) option) \<Rightarrow> (nat \<Rightarrow> token) \<Rightarrow> (nat \<Rightarrow> token) \<Rightarrow> int \<Rightarrow> nat \<Rightarrow> net_client \<Rightarrow> bool \<Rightarrow> token \<Rightarrow>
   (net_client \<times> token \<times> received option) option" where
  "client_Recv_loop cfg recv junk random now k nc sixup response =
     (case client_next_chunk nc of
        (nc, Some ch) \<Rightarrow> Some (nc, response, Some (ch, []))
      | (nc, None) \<Rightarrow>
          (case recv k of
             None \<Rightarrow> Some (nc, response, None)
           | Some (addr, data) \<Rightarrow>
               if data = [] then Some (nc, response, None)
               else (case client_packet cfg nc addr data sixup response (junk k) random now of
                  (nc, sixup, response, Some ch) \<Rightarrow> Some (nc, response, Some ch)
                | (nc, sixup, response, None) \<Rightarrow> client_Recv_loop cfg recv junk random now (Suc k) nc sixup response)))"

definition client_Recv ::
  "conn_config \<Rightarrow> (nat \<Rightarrow> (netaddr \<times> byte list) option) \<Rightarrow> (nat \<Rightarrow> token) \<Rightarrow> (nat \<Rightarrow> token) \<Rightarrow> int \<Rightarrow> net_client \<Rightarrow> bool \<Rightarrow> token \<Rightarrow>
   (net_client \<times> token \<times> received option) option" where
  "client_Recv cfg recv junk random now nc sixup response = client_Recv_loop cfg recv junk random now 0 nc sixup response"

section \<open>Sending and state\<close>

definition client_Send :: "net_client \<Rightarrow> net_chunk \<Rightarrow> byte list \<Rightarrow> token \<Rightarrow> int \<Rightarrow> net_client" where
  "client_Send nc chunk extra random now =
     (let connless = has_flag (ch_Flags chunk) NETSENDFLAG_CONNLESS; n = length (ch_Data chunk)
      in if (if connless then n > NET_MAX_CONNLESS_PAYLOAD else int n > NET_MAX_CHUNK_SIZE) then nc\<lparr>nc_Aborted := True\<rparr>
         else if connless then
           if na_type (ch_Address chunk) AND NETTYPE_TW7 \<noteq> 0 then
             let (cache, sent) = tc_SendPacketConnless (nc_TokenCache nc) (ch_Address chunk) (ch_Data chunk) now random
             in client_send (nc\<lparr>nc_TokenCache := cache\<rparr>) sent
           else client_send nc [(ch_Address chunk,
             SendPacketConnless (ch_Data chunk) (has_flag (ch_Flags chunk) NETSENDFLAG_EXTENDED) extra)]
         else if ch_ClientId chunk \<noteq> 0 then nc\<lparr>nc_Aborted := True\<rparr>
         else
           let flags = (if has_flag (ch_Flags chunk) NETSENDFLAG_VITAL then NET_CHUNKFLAG_VITAL else 0);
               nc = with_conn nc (\<lambda>c. fst (QueueChunk c flags (ch_Data chunk) now))
           in if has_flag (ch_Flags chunk) NETSENDFLAG_FLUSH then with_conn nc (\<lambda>c. fst (Flush c now)) else nc)"

datatype netstate = NETSTATE_OFFLINE | NETSTATE_CONNECTING | NETSTATE_ONLINE

definition client_State :: "net_client \<Rightarrow> netstate" where
  "client_State nc =
     (if cn_State (nc_Connection nc) = ONLINE then NETSTATE_ONLINE
      else if cn_State (nc_Connection nc) = OFFLINE then NETSTATE_OFFLINE
      else NETSTATE_CONNECTING)"

definition client_Flush :: "net_client \<Rightarrow> int \<Rightarrow> net_client" where
  "client_Flush nc now = with_conn nc (\<lambda>c. fst (Flush c now))"

definition GotProblems :: "net_client \<Rightarrow> int \<Rightarrow> int \<Rightarrow> bool" where
  "GotProblems nc max_latency now \<longleftrightarrow> now - cn_LastRecvTime (nc_Connection nc) > max_latency"

definition client_FeedStunServer :: "net_client \<Rightarrow> netaddr \<Rightarrow> int \<Rightarrow> net_client" where
  "client_FeedStunServer nc server now = nc\<lparr>nc_Stun := CStun_FeedStunServer (nc_Stun nc) server now\<rparr>"

definition client_RefreshStun :: "net_client \<Rightarrow> int \<Rightarrow> net_client" where
  "client_RefreshStun nc now = nc\<lparr>nc_Stun := CStun_Refresh (nc_Stun nc) now\<rparr>"

definition client_GetConnectivity :: "net_client \<Rightarrow> int \<Rightarrow> int \<Rightarrow> connectivity option" where
  "client_GetConnectivity nc nettype now = CStun_GetConnectivity (nc_Stun nc) nettype now"

end
