(* ===== verification/Handshake.thy ===== *)
theory Handshake
  imports NetClient ServerTokens
begin

text \<open>
  Client and server together: the handshake with the token, and what a stray datagram does to it.
\<close>

section \<open>Control messages of 0.6 on the wire\<close>

lemma control_bytes:
  "SendControlMsg 0 msg extra t False =
     Some (16 # 0 # 0 # to_byte msg # extra @ (if t = NET_SECURITY_TOKEN_UNSUPPORTED then [] else WriteSecurityToken t))"
  by (simp add: SendControlMsg_def SendPacket_def IsValidConnectionOrientedPacket_def has_flag_def net_flags Let_def to_byte_def)

lemma control_flags: "length d \<le> 1000 \<Longrightarrow> UnpackPacketFlags (16 # 0 # 0 # d) = Some 4"
  by (simp add: UnpackPacketFlags_def net_sizes)

definition control_packet :: "byte list \<Rightarrow> construct" where
  "control_packet d = \<lparr>m_Flags = NET_PACKETFLAG_CONTROL, m_Ack = 0, m_NumChunks = 0, m_aChunkData = d, m_aExtraData = []\<rparr>"

lemma control_read:
  assumes "d \<noteq> []" "length d \<le> 1000"
  shows "UnpackPacket (16 # 0 # 0 # d) False allow tok resp =
    (False, unpack_response (control_packet d) False tok (map_option (\<lambda>_. NET_SECURITY_TOKEN_UNKNOWN) resp))"
proof -
  have "IsValidConnectionOrientedPacket (control_packet d)"
    using assms by (simp add: IsValidConnectionOrientedPacket_def control_packet_def has_flag_def net_flags)
  then show ?thesis using assms unfolding UnpackPacket_def control_flags [OF assms(2)] Let_def
    by (simp add: has_flag_def net_flags net_sizes control_packet_def)
qed

text \<open>Read as a packet of 0.7 the same bytes are refused: the control flag of 0.6 is the compression flag of 0.7.\<close>

lemma control_misread:
  assumes "length d \<le> 1000"
  shows "snd (UnpackPacket (16 # 0 # 0 # d) True allow (Some tok) resp) = Rejected"
  using assms unfolding UnpackPacket_def control_flags [OF assms] Let_def
  by (simp add: has_flag_def net_flags net_sizes PacketFlags_SevenToSix_def IsValidConnectionOrientedPacket_def)


section \<open>The server\<close>

text \<open>The part of a server that accepting a client depends on.\<close>

definition lobby :: "server \<Rightarrow> net_ban \<times> conn list \<times> nat \<times> int \<times> byte list \<times> spam_conn list \<times> server_event list" where
  "lobby sv = (sv_NetBan sv, sv_Slots sv, sv_MaxClients sv, sv_MaxClientsPerIp sv, sv_SecurityTokenSeed sv, sv_SpamConns sv, sv_Events sv)"

lemma lobbyD:
  assumes "lobby sv' = lobby sv"
  shows "sv_NetBan sv' = sv_NetBan sv" "sv_Slots sv' = sv_Slots sv" "sv_Events sv' = sv_Events sv"
    "GetClientSlot sv' a = GetClientSlot sv a" "srv_GetToken sha sv' a = srv_GetToken sha sv a"
    "snd (Connlimit cfg sv' a now) = snd (Connlimit cfg sv a now)" "NumClientsWithAddr sv' a = NumClientsWithAddr sv a"
    "sv_MaxClientsPerIp sv' = sv_MaxClientsPerIp sv" "offline_slot sv' = offline_slot sv"
  using assms by (auto simp: lobby_def GetClientSlot_def srv_GetToken_def Connlimit_def Let_def NumClientsWithAddr_def offline_slot_def
      split: option.split)

definition joinable :: "server_config \<Rightarrow> server \<Rightarrow> netaddr \<Rightarrow> nat \<Rightarrow> int \<Rightarrow> int \<Rightarrow> bool" where
  "joinable cfg sv addr i now stamp \<longleftrightarrow>
     IsBanned (sv_NetBan sv) addr stamp 128 = None \<and> GetClientSlot sv addr = None \<and> \<not> snd (Connlimit cfg sv addr now) \<and>
     NumClientsWithAddr sv addr < sv_MaxClientsPerIp sv \<and> offline_slot sv = Some i"

lemma recv_control:
  assumes "IsBanned (sv_NetBan sv) addr stamp 128 = None" "GetClientSlot sv addr = None" "d \<noteq> []" "length d \<le> 1000"
    "unpack_response (control_packet d) False (Some NET_SECURITY_TOKEN_UNKNOWN) (Some NET_SECURITY_TOKEN_UNKNOWN) =
       Unpacked (control_packet d) False (Some t) (Some q)"
  shows "recv_packet sha cfg sv addr (16 # 0 # 0 # d) rsp now stamp =
    handle_packet sha cfg (sv\<lparr>sv_NumRecvPackets := sv_NumRecvPackets sv + 1\<rparr>) addr (control_packet d) False t q None now"
proof -
  have "GetClientSlot (sv\<lparr>sv_NumRecvPackets := n\<rparr>) addr = None" for n using assms(2) by (simp add: GetClientSlot_def)
  then show ?thesis using assms
    unfolding recv_packet_def control_flags [OF assms(4)] Let_def
    by (simp add: control_read has_flag_def net_flags)
qed

lemma length_Write [simp]: "length (WriteSecurityToken t) = 4"
  by (simp add: WriteSecurityToken_def uint_to_bytes_be_def)

lemma To_Write [simp]: "ToSecurityToken (WriteSecurityToken t) = t"
  using uint_be_roundtrip [of t "[]"] by (simp add: ToSecurityToken_def WriteSecurityToken_def)

definition hello :: "byte list" where
  "hello = 1 # SECURITY_TOKEN_MAGIC @ WriteSecurityToken NET_SECURITY_TOKEN_UNKNOWN"

lemma server_hello:
  assumes "IsBanned (sv_NetBan sv) addr stamp 128 = None" "GetClientSlot sv addr = None"
  shows "recv_packet sha cfg sv addr (16 # 0 # 0 # hello) rsp now stamp =
    (server_SendControl (sv\<lparr>sv_NumRecvPackets := sv_NumRecvPackets sv + 1\<rparr>) addr NET_CTRLMSG_CONNECTACCEPT SECURITY_TOKEN_MAGIC
       (srv_GetToken sha sv addr), ToSecurityToken (drop 1 hello), None)"
proof -
  have u: "unpack_response (control_packet hello) False (Some NET_SECURITY_TOKEN_UNKNOWN) (Some NET_SECURITY_TOKEN_UNKNOWN) =
      Unpacked (control_packet hello) False (Some NET_SECURITY_TOKEN_UNKNOWN) (Some (ToSecurityToken (drop 1 hello)))"
    by (simp add: unpack_response_def control_packet_def hello_def has_flag_def net_flags net_ctrl SECURITY_TOKEN_MAGIC_def)
  have l: "hello \<noteq> []" "length hello \<le> 1000" by (simp_all add: hello_def SECURITY_TOKEN_MAGIC_def)
  have t: "srv_GetToken sha (sv\<lparr>sv_NumRecvPackets := n\<rparr>) addr = srv_GetToken sha sv addr" for n by (simp add: srv_GetToken_def)
  show ?thesis unfolding recv_control [OF assms l u]
    by (simp add: handle_packet_def control_packet_def hello_def has_flag_def net_flags net_ctrl IsDDNetControlMsg_def byte_at_def
        OnTokenCtrlMsg_def SECURITY_TOKEN_MAGIC_def t)
qed

lemma server_accept:
  assumes "IsBanned (sv_NetBan sv) addr stamp 128 = None" "GetClientSlot sv addr = None"
  shows "recv_packet sha cfg sv addr (16 # 0 # 0 # 3 # WriteSecurityToken (srv_GetToken sha sv addr)) rsp now stamp =
    (TryAcceptClient cfg (sv\<lparr>sv_NumRecvPackets := sv_NumRecvPackets sv + 1\<rparr>) addr (srv_GetToken sha sv addr) None False False 0 now,
     NET_SECURITY_TOKEN_UNKNOWN, None)"
proof -
  let ?d = "3 # WriteSecurityToken (srv_GetToken sha sv addr)"
  have u: "unpack_response (control_packet ?d) False (Some NET_SECURITY_TOKEN_UNKNOWN) (Some NET_SECURITY_TOKEN_UNKNOWN) =
      Unpacked (control_packet ?d) False (Some NET_SECURITY_TOKEN_UNKNOWN) (Some NET_SECURITY_TOKEN_UNKNOWN)"
    by (simp add: unpack_response_def control_packet_def has_flag_def net_flags net_ctrl)
  have t: "srv_GetToken sha (sv\<lparr>sv_NumRecvPackets := n\<rparr>) addr = srv_GetToken sha sv addr" for n by (simp add: srv_GetToken_def)
  have l: "?d \<noteq> []" "length ?d \<le> 1000" by simp_all
  show ?thesis unfolding recv_control [OF assms l u]
    by (simp add: handle_packet_def control_packet_def has_flag_def net_flags net_ctrl IsDDNetControlMsg_def byte_at_def
        OnTokenCtrlMsg_def t)
qed

lemma TryAccept_joins:
  fixes t :: token
  assumes "joinable cfg sv addr i now stamp" "i < length (sv_Slots sv)"
  defines "sv' \<equiv> TryAcceptClient cfg sv addr t None False False 0 now"
  shows "cn_State (slot sv' i) = ONLINE \<and> cn_PeerAddr (slot sv' i) = addr \<and> cn_SecurityToken (slot sv' i) = t \<and>
    (\<forall>j. j \<noteq> i \<longrightarrow> slot sv' j = slot sv j) \<and> sv_Events sv' = sv_Events sv @ [NewClient (int i) False]"
proof -
  obtain cs where c: "Connlimit cfg sv addr now = (sv\<lparr>sv_SpamConns := cs\<rparr>, False)"
    using Connlimit_spam [of cfg sv addr now] assms(1) by (metis joinable_def prod.collapse)
  define sv1 where "sv1 = sv\<lparr>sv_SpamConns := cs\<rparr>"
  have "NumClientsWithAddr sv1 addr = NumClientsWithAddr sv addr" "offline_slot sv1 = Some i"
    using assms(1) by (simp_all add: sv1_def NumClientsWithAddr_def offline_slot_def joinable_def)
  then have "sv' = sv_event (init_slot sv1 i addr t 0 False False now) (NewClient (int i) False)"
    using assms(1) unfolding sv'_def TryAcceptClient_def c sv1_def [symmetric]
    by (simp add: joinable_def sv1_def Let_def)
  then show ?thesis using assms(2)
    by (simp add: init_slot_eq new_conn_def sv_event_def sv1_def DirectInit_def SetPeerAddr_def Let_def)
qed


section \<open>The client\<close>

lemma short_no_stun:
  assumes "length s = 2" "length d < 20"
  shows "CStun_OnPacket s addr d now = Some (s, False)"
proof -
  have "stun_OnPacket p d now = Some (p, False)" for p
    using assms(2) by (simp add: stun_OnPacket_def StunMessageParse_def)
  then show ?thesis using assms(1)
    by (auto simp: CStun_OnPacket_def IndexFromNetType_def split: option.split if_splits)
qed

text \<open>A client that waits for the server's answer.\<close>

definition waiting :: "net_client \<Rightarrow> netaddr \<Rightarrow> bool" where
  "waiting nc server \<longleftrightarrow> length (nc_Stun nc) = 2 \<and>
     (let c = nc_Connection nc in cn_State c = CONNECT \<and> \<not> cn_Sixup c \<and> cn_SecurityToken c = NET_SECURITY_TOKEN_UNKNOWN \<and>
        server \<in> set (cn_ConnectAddrs c) \<and> cn_PeerAck c = 0 \<and> cn_Sequence c = 0 \<and> cn_Ack c = 0 \<and> \<not> cn_ResendRequested c)"

definition reply :: "token \<Rightarrow> byte list" where
  "reply t = 2 # SECURITY_TOKEN_MAGIC @ WriteSecurityToken t"

lemma client_Connect_waiting:
  assumes "cn_State (nc_Connection nc) = OFFLINE" "length (nc_Stun nc) = 2"
  shows "waiting (client_Connect nc [server] now) server \<and>
    cn_Sent (nc_Connection (client_Connect nc [server] now)) = cn_Sent (nc_Connection nc) @ [(server, 16 # 0 # 0 # hello)]"
  using assms control_bytes [of 1 SECURITY_TOKEN_MAGIC NET_SECURITY_TOKEN_UNKNOWN]
  by (simp add: waiting_def client_Connect_def with_conn_def conn_Connect_def SendConnect_def conn_Reset_def ClearPeerAddr_def
      transmit_def hello_def net_ctrl to_byte_def NET_SECURITY_TOKEN_UNKNOWN_def NET_SECURITY_TOKEN_UNSUPPORTED_def Let_def)

lemma client_reply:
  assumes w: "waiting nc server" and t: "t \<noteq> NET_SECURITY_TOKEN_UNKNOWN" "t \<noteq> NET_SECURITY_TOKEN_UNSUPPORTED"
  shows "\<exists>nc'. client_packet cfg nc server (16 # 0 # 0 # reply t) False rsp junk random now = (nc', False, NET_SECURITY_TOKEN_UNKNOWN, None) \<and>
    cn_State (nc_Connection nc') = ONLINE \<and> cn_SecurityToken (nc_Connection nc') = t \<and>
    cn_Sent (nc_Connection nc') = cn_Sent (nc_Connection nc) @ [(server, 16 # 0 # 0 # 3 # WriteSecurityToken t)] \<and>
    nc_Unpacker nc' = nc_Unpacker nc"
proof -
  let ?c = "nc_Connection nc"
  let ?p = "control_packet (reply t)"
  have w: "length (nc_Stun nc) = 2" "cn_State ?c = CONNECT" "\<not> cn_Sixup ?c" "cn_SecurityToken ?c = NET_SECURITY_TOKEN_UNKNOWN"
      "server \<in> set (cn_ConnectAddrs ?c)" "cn_PeerAck ?c = 0" "cn_Sequence ?c = 0" "cn_Ack ?c = 0" "\<not> cn_ResendRequested ?c"
    using w by (simp_all add: waiting_def Let_def)
  have l: "reply t \<noteq> []" "length (reply t) \<le> 1000" "length (16 # 0 # 0 # reply t) < 20"
    by (simp_all add: reply_def SECURITY_TOKEN_MAGIC_def)
  have u: "unpack_response ?p False (Some junk) (Some NET_SECURITY_TOKEN_UNKNOWN) =
      Unpacked ?p False (Some junk) (Some NET_SECURITY_TOKEN_UNKNOWN)"
    by (simp add: unpack_response_def control_packet_def reply_def has_flag_def net_flags net_ctrl)
  define d where "d = ?c\<lparr>cn_PeerAck := 0, cn_PeerAddr := server, cn_SecurityToken := t\<rparr>"
  have d: "cn_Ack d = 0" "\<not> cn_Sixup d" "cn_SecurityToken d = t" "cn_PeerAddr d = server" "cn_Sent d = cn_Sent ?c"
    using w by (simp_all add: d_def)
  define e where "e = (SendControl d NET_CTRLMSG_ACCEPT [] now)\<lparr>cn_LastRecvTime := now, cn_State := ONLINE\<rparr>"
  have e: "cn_State e = ONLINE" "cn_SecurityToken e = t" "cn_Sent e = cn_Sent ?c @ [(server, 16 # 0 # 0 # 3 # WriteSecurityToken t)]"
    using d t(2) control_bytes [of 3 "[]" t] by (simp_all add: e_def SendControl_def transmit_def net_ctrl to_byte_def)
  have a: "accept_connect (?c\<lparr>cn_PeerAck := 0\<rparr>) ?p server now = e"
    using w by (simp add: accept_connect_def e_def d_def SetPeerAddr_def control_packet_def reply_def SECURITY_TOKEN_MAGIC_def
        NET_SECURITY_TOKEN_UNKNOWN_def Let_def)
  have f: "Feed cfg ?c ?p server junk NET_SECURITY_TOKEN_UNKNOWN now = (AckChunks (e\<lparr>cn_LastRecvTime := now\<rparr>) 0, True)"
    using w e a by (simp add: Feed_def Let_def IsPeerAddress_def strip_token_def ack_acceptable_def control_packet_def has_flag_def
        net_flags AnswerResendRequest_def feed_control_def byte_at_def reply_def net_ctrl)
  have "client_packet cfg nc server (16 # 0 # 0 # reply t) False rsp junk random now =
      (nc\<lparr>nc_Connection := AckChunks (e\<lparr>cn_LastRecvTime := now\<rparr>) 0\<rparr>, False, NET_SECURITY_TOKEN_UNKNOWN, None)"
    using w l u f
    by (simp add: client_packet_def short_no_stun control_read Let_def client_send_def client_feed_def control_packet_def has_flag_def net_flags)
  then show ?thesis using e by (simp add: AckChunks_def)
qed


section \<open>Both together\<close>

text \<open>The client connects and every datagram arrives: connect, connect-accept, accept.\<close>

definition token_handshake ::
  "(byte list \<Rightarrow> byte list) \<Rightarrow> server_config \<Rightarrow> conn_config \<Rightarrow> server \<Rightarrow> net_client \<Rightarrow> netaddr \<Rightarrow> netaddr \<Rightarrow> token \<Rightarrow> token \<Rightarrow> (nat \<Rightarrow> token) \<Rightarrow>
   int \<Rightarrow> int \<Rightarrow> int \<Rightarrow> server \<times> net_client" where
  "token_handshake sha cfg ccfg sv nc addr server rsp junk random cnow now stamp =
     (let nc = client_Connect nc [server] cnow;
          sv = fst (recv_packet sha cfg sv addr (snd (last (cn_Sent (nc_Connection nc)))) rsp now stamp);
          nc = fst (client_packet ccfg nc server (snd (last (sv_Sent sv))) False rsp junk random cnow);
          sv = fst (recv_packet sha cfg sv addr (snd (last (cn_Sent (nc_Connection nc)))) rsp now stamp)
      in (sv, nc))"

lemma srv_GetToken_proper:
  "srv_GetToken sha sv a \<noteq> NET_SECURITY_TOKEN_UNKNOWN" "srv_GetToken sha sv a \<noteq> NET_SECURITY_TOKEN_UNSUPPORTED"
  by (simp_all add: srv_GetToken_def Let_def NET_SECURITY_TOKEN_UNKNOWN_def NET_SECURITY_TOKEN_UNSUPPORTED_def)

text \<open>C5. The handshake with the token works: when the server lets the address in and no datagram is lost, the client ends up
  online, the server gives it the first free slot, tells its owner, and both sides hold the same token.\<close>

theorem handshake_connects:
  assumes "server_reachable sha cfg lim sv" "joinable cfg sv addr i now stamp"
    "cn_State (nc_Connection nc) = OFFLINE" "length (nc_Stun nc) = 2"
    "token_handshake sha cfg ccfg sv nc addr server rsp junk random cnow now stamp = (sv', nc')"
  shows "client_State nc' = NETSTATE_ONLINE \<and> cn_State (slot sv' i) = ONLINE \<and> cn_PeerAddr (slot sv' i) = addr \<and>
    cn_SecurityToken (slot sv' i) = cn_SecurityToken (nc_Connection nc') \<and>
    (\<forall>j. j \<noteq> i \<longrightarrow> slot sv' j = slot sv j) \<and> sv_Events sv' = sv_Events sv @ [NewClient (int i) False]"
proof -
  let ?t = "srv_GetToken sha sv addr"
  define nc1 where "nc1 = client_Connect nc [server] cnow"
  note n1 = client_Connect_waiting [OF assms(3,4), of server cnow, folded nc1_def]
  have j: "IsBanned (sv_NetBan sv) addr stamp 128 = None" "GetClientSlot sv addr = None" using assms(2) by (simp_all add: joinable_def)
  define sv1 where "sv1 = server_SendControl (sv\<lparr>sv_NumRecvPackets := sv_NumRecvPackets sv + 1\<rparr>) addr NET_CTRLMSG_CONNECTACCEPT SECURITY_TOKEN_MAGIC ?t"
  have s1: "sv1 = sv\<lparr>sv_NumRecvPackets := sv_NumRecvPackets sv + 1, sv_Sent := sv_Sent sv @ [(addr, 16 # 0 # 0 # reply ?t)]\<rparr>"
    using control_bytes [of 2 SECURITY_TOKEN_MAGIC ?t] srv_GetToken_proper(2) [of sha sv addr]
    by (simp add: sv1_def server_SendControl_def sv_transmit_def reply_def net_ctrl to_byte_def)
  then have l1: "lobby sv1 = lobby sv" by (simp add: lobby_def)
  note L = lobbyD [OF l1]
  obtain nc2 where n2: "client_packet ccfg nc1 server (16 # 0 # 0 # reply ?t) False rsp junk random cnow = (nc2, False, NET_SECURITY_TOKEN_UNKNOWN, None)"
    "cn_State (nc_Connection nc2) = ONLINE" "cn_SecurityToken (nc_Connection nc2) = ?t"
    "cn_Sent (nc_Connection nc2) = cn_Sent (nc_Connection nc1) @ [(server, 16 # 0 # 0 # 3 # WriteSecurityToken ?t)]"
    using client_reply [OF conjunct1 [OF n1], where t = ?t and cfg = ccfg and rsp = rsp and junk = junk and random = random and now = cnow]
      srv_GetToken_proper by blast
  have "recv_packet sha cfg sv1 addr (16 # 0 # 0 # 3 # WriteSecurityToken ?t) rsp now stamp =
      (TryAcceptClient cfg (sv1\<lparr>sv_NumRecvPackets := sv_NumRecvPackets sv1 + 1\<rparr>) addr ?t None False False 0 now, NET_SECURITY_TOKEN_UNKNOWN, None)"
    using server_accept [of sv1 addr stamp sha cfg rsp now] j L by simp
  moreover define sv2 where "sv2 = sv1\<lparr>sv_NumRecvPackets := sv_NumRecvPackets sv1 + 1\<rparr>"
  ultimately have r: "token_handshake sha cfg ccfg sv nc addr server rsp junk random cnow now stamp =
      (TryAcceptClient cfg sv2 addr ?t None False False 0 now, nc2)"
    using server_hello [OF j, of sha cfg rsp now] n1 n2 s1
    by (simp add: token_handshake_def nc1_def [symmetric] sv1_def [symmetric])
  have l2: "lobby sv2 = lobby sv" using l1 by (simp add: sv2_def lobby_def)
  note L2 = lobbyD [OF l2]
  have "joinable cfg sv2 addr i now stamp" using assms(2) L2 by (simp add: joinable_def)
  moreover have "i < length (sv_Slots sv2)"
    using assms(2) offline_slotD [of sv i] server_okD(1,3) [OF server_reachable_ok [OF assms(1)]] L2 by (simp add: joinable_def)
  ultimately show ?thesis using TryAccept_joins [of cfg sv2 addr i now stamp ?t] r assms(5) n2 L2 by (simp add: client_State_def)
qed

text \<open>A socket that holds some datagrams.\<close>

definition socket :: "(netaddr \<times> byte list) list \<Rightarrow> nat \<Rightarrow> (netaddr \<times> byte list) option" where
  "socket ds k = (if k < length ds then Some (ds ! k) else None)"

lemma idle_next_chunk: "\<not> cu_Valid (nc_Unpacker nc) \<Longrightarrow> client_next_chunk nc = (nc, None)"
  by (cases nc) (simp add: client_next_chunk_def UnpackNextChunk.simps)

lemma waiting_Recv:
  assumes "\<not> cu_Valid (nc_Unpacker nc)" "k < length ds" "ds ! k = (a, d)" "d \<noteq> []"
    "client_packet cfg nc a d six rsp j random now = (nc', six', rsp', None)"
    "junk k = j"
  shows "client_Recv_loop cfg (socket ds) junk random now k nc six rsp = client_Recv_loop cfg (socket ds) junk random now (Suc k) nc' six' rsp'"
  using assms by (subst client_Recv_loop.simps) (simp add: idle_next_chunk socket_def)

lemma dry_Recv:
  "\<not> cu_Valid (nc_Unpacker nc) \<Longrightarrow> client_Recv_loop cfg (socket ds) junk random now (length ds) nc six rsp = Some (nc, rsp, None)"
  by (subst client_Recv_loop.simps) (simp add: idle_next_chunk socket_def)


lemma stray_read:
  assumes "length (nc_Stun nc) = 2"
  shows "client_packet cfg nc a [4, 0, 0] False rsp junk random now = (nc, True, NET_SECURITY_TOKEN_UNKNOWN, None)"
  using assms
  by (simp add: client_packet_def short_no_stun UnpackPacket_def UnpackPacketFlags_def sixup_after_def has_flag_def net_flags net_sizes)

lemma reply_misread:
  assumes "length (nc_Stun nc) = 2"
  shows "\<exists>six. client_packet cfg nc a (16 # 0 # 0 # reply t) True rsp junk random now = (nc, six, NET_SECURITY_TOKEN_UNKNOWN, None)"
proof -
  have "length (reply t) \<le> 1000" "length (16 # 0 # 0 # reply t) < 20" by (simp_all add: reply_def SECURITY_TOKEN_MAGIC_def)
  then show ?thesis using assms by (simp add: client_packet_def short_no_stun control_misread)
qed

text \<open>C37. The receive loop of the client keeps the 0.7 flag of one datagram for the next: three bytes from any address make it
  read the server's answer in the same call as a 0.7 packet and lose it. Alone, the answer brings the client online.\<close>

theorem stray_datagram_hides_answer:
  assumes "waiting nc server" "\<not> cu_Valid (nc_Unpacker nc)"
    "t \<noteq> NET_SECURITY_TOKEN_UNKNOWN" "t \<noteq> NET_SECURITY_TOKEN_UNSUPPORTED"
  shows "(\<exists>nc'. client_Recv cfg (socket [(server, 16 # 0 # 0 # reply t)]) junk random now nc False rsp =
      Some (nc', NET_SECURITY_TOKEN_UNKNOWN, None) \<and> client_State nc' = NETSTATE_ONLINE) \<and>
    client_Recv cfg (socket [(stranger, [4, 0, 0]), (server, 16 # 0 # 0 # reply t)]) junk random now nc False rsp =
      Some (nc, NET_SECURITY_TOKEN_UNKNOWN, None) \<and> client_State nc = NETSTATE_CONNECTING"
proof -
  have s: "length (nc_Stun nc) = 2" "cn_State (nc_Connection nc) = CONNECT" using assms(1) by (simp_all add: waiting_def Let_def)
  obtain nc' where n: "client_packet cfg nc server (16 # 0 # 0 # reply t) False rsp (junk 0) random now = (nc', False, NET_SECURITY_TOKEN_UNKNOWN, None)"
    "cn_State (nc_Connection nc') = ONLINE" "nc_Unpacker nc' = nc_Unpacker nc"
    using client_reply [OF assms(1,3,4)] by blast
  have "client_Recv cfg (socket [(server, 16 # 0 # 0 # reply t)]) junk random now nc False rsp = Some (nc', NET_SECURITY_TOKEN_UNKNOWN, None)"
    unfolding client_Recv_def
    using waiting_Recv [OF assms(2) _ _ _ n(1), where k = 0 and ds = "[(server, 16 # 0 # 0 # reply t)]"] dry_Recv [where ds = "[(server, 16 # 0 # 0 # reply t)]"]
      assms(2) n(3) by simp
  moreover obtain six where m: "client_packet cfg nc server (16 # 0 # 0 # reply t) True NET_SECURITY_TOKEN_UNKNOWN (junk 1) random now =
      (nc, six, NET_SECURITY_TOKEN_UNKNOWN, None)" using reply_misread [OF s(1)] by blast
  let ?ds = "[(stranger, [4, 0, 0]), (server, 16 # 0 # 0 # reply t)]"
  have "client_Recv cfg (socket ?ds) junk random now nc False rsp = Some (nc, NET_SECURITY_TOKEN_UNKNOWN, None)"
    unfolding client_Recv_def
    using waiting_Recv [OF assms(2) _ _ _ stray_read [OF s(1), where junk = "junk 0"], where k = 0 and ds = ?ds]
      waiting_Recv [OF assms(2) _ _ _ m, where k = 1 and ds = ?ds] dry_Recv [OF assms(2), where ds = ?ds] by simp
  ultimately show ?thesis using n(2) s(2) by (simp add: client_State_def)
qed


definition some_client :: net_client where
  "some_client = client_Open some_conn (replicate 12 1) (replicate 12 2)"

lemma some_client_offline: "cn_State (nc_Connection some_client) = OFFLINE" "length (nc_Stun some_client) = 2"
    "\<not> cu_Valid (nc_Unpacker some_client)"
  by (simp_all add: some_client_def client_Open_def conn_Init_def ResetStats_def ClearPeerAddr_def CStun_def no_packet_def)

theorem stray_datagram_hides_answer_witness:
  "client_State (client_Connect some_client [zero_addr] 7) = NETSTATE_CONNECTING"
proof -
  have "\<not> cu_Valid (nc_Unpacker (client_Connect some_client [zero_addr] 7))"
    using some_client_offline(3) by (simp add: client_Connect_def with_conn_def)
  with stray_datagram_hides_answer [OF conjunct1 [OF client_Connect_waiting [OF some_client_offline(1,2), of zero_addr 7]],
      where t = 5 and stranger = zero_addr] show ?thesis
    by (simp add: NET_SECURITY_TOKEN_UNKNOWN_def NET_SECURITY_TOKEN_UNSUPPORTED_def)
qed

lemma some_slots: "slot some_server i = conn_Init some_conn True" if "i < NET_MAX_CLIENTS"
  using that by (simp add: some_server_def server_Open_def)

lemma some_server_joinable: "joinable some_server_config some_server (ipv4 [10, 0, 2, 7]) 0 5 60"
proof -
  have off: "cn_State (conn_Init some_conn True) = OFFLINE" by (simp add: conn_Init_def ResetStats_def ClearPeerAddr_def)
  have m: "sv_MaxClients some_server = 64" "sv_MaxClientsPerIp some_server = 4" "sv_NetBan some_server = some_bans"
    by (simp_all add: some_server_def server_Open_def NET_MAX_CLIENTS_def)
  have all: "cn_State (slot some_server i) = OFFLINE" if "i < 64" for i
    using some_slots [of i] that off by (simp add: NET_MAX_CLIENTS_def)
  have "GetClientSlot some_server (ipv4 [10, 0, 2, 7]) = None"
    using all by (auto simp: GetClientSlot_def m find_None_iff)
  moreover have "offline_slot some_server = Some 0" using all [of 0] by (simp add: offline_slot_def m upt_rec [of 0])
  moreover have "NumClientsWithAddr some_server (ipv4 [10, 0, 2, 7]) = 0"
    using off by (auto simp: NumClientsWithAddr_def some_server_def server_Open_def filter_empty_conv dest!: in_set_takeD)
  moreover have "IsBanned some_bans (ipv4 [10, 0, 2, 7]) 60 128 = None"
    using IsBanned_iff [OF ban_reachable_ok [OF some_bans_reachable], of "ipv4 [10, 0, 2, 7]" 60 128]
    by (simp add: addr_ok_def ipv4_def NETTYPE_IPV4_def banned_by_def some_bans_def ban_Init_def Let_def addr_bans.Reset_ok range_bans.Reset_ok)
  moreover have "\<not> snd (Connlimit some_server_config some_server (ipv4 [10, 0, 2, 7]) 5)"
  proof -
    have "List.find (\<lambda>i. same_host (sc_Addr (sv_SpamConns some_server ! i)) (ipv4 [10, 0, 2, 7])) [0..<length (sv_SpamConns some_server)] = None"
      by (auto simp: find_None_iff some_server_def server_Open_def same_host_def zero_addr_def ipv4_def NETTYPE_IPV4_def)
    then show ?thesis by (simp add: Connlimit_def Let_def)
  qed
  ultimately show ?thesis by (simp add: joinable_def m)
qed

theorem handshake_connects_witness:
  "client_State (snd (token_handshake some_sha some_server_config some_config some_server some_client (ipv4 [10, 0, 2, 7]) zero_addr 0 0 (\<lambda>_. 0) 7 5 60)) =
   NETSTATE_ONLINE"
proof -
  obtain sv' nc' where h: "token_handshake some_sha some_server_config some_config some_server some_client (ipv4 [10, 0, 2, 7]) zero_addr 0 0 (\<lambda>_. 0) 7 5 60 =
      (sv', nc')" by fastforce
  from handshake_connects [OF some_server_reachable some_server_joinable some_client_offline(1,2) h] show ?thesis by (simp add: h)
qed

end
