(* ===== verification/MatchSigner.thy ===== *)
theory MatchSigner
  imports Prelude
begin

text \<open>
  The signer of match events, \<open>src/neonrelay/match_signer.cpp\<close>: base64url, JSON escaping, the canonical
  payload of an event, loading the seed and signing. A \<open>std::string\<close> is a HOL string. The two functions of
  the vendored Ed25519 library are the fields of \<open>ed25519\<close>, a parameter.
\<close>

record ed25519 =
  ed_publickey :: "byte list \<Rightarrow> byte list"
  ed_sign :: "byte list \<Rightarrow> byte list \<Rightarrow> byte list \<Rightarrow> byte list"

record match_signer =
  ms_Seed :: "byte list"
  ms_Public :: "byte list"
  ms_Ready :: bool

definition no_signer :: match_signer where
  "no_signer = \<lparr>ms_Seed = replicate 32 0, ms_Public = replicate 32 0, ms_Ready = False\<rparr>"

definition bytes_of :: "string \<Rightarrow> byte list" where
  "bytes_of = map of_char"

section \<open>base64url\<close>

definition BASE64URL_ALPHABET :: string where
  "BASE64URL_ALPHABET = ''ABCDEFGHIJKLMNOPQRSTUVWXYZabcdefghijklmnopqrstuvwxyz0123456789-_''"

definition base64url_char :: "i32 \<Rightarrow> nat \<Rightarrow> char" where
  "base64url_char v n = BASE64URL_ALPHABET ! unat (drop_bit n v AND 63)"

fun Base64UrlEncode :: "byte list \<Rightarrow> string" where
  "Base64UrlEncode (a # b # c # data) =
     (let v = push_bit 16 (ucast a) OR push_bit 8 (ucast b) OR ucast c in
      base64url_char v 18 # base64url_char v 12 # base64url_char v 6 # base64url_char v 0 #
      Base64UrlEncode data)"
| "Base64UrlEncode [a] =
     (let v = push_bit 16 (ucast a) in [base64url_char v 18, base64url_char v 12])"
| "Base64UrlEncode [a, b] =
     (let v = push_bit 16 (ucast a) OR push_bit 8 (ucast b) in
      [base64url_char v 18, base64url_char v 12, base64url_char v 6])"
| "Base64UrlEncode [] = []"

section \<open>Text of the events\<close>

definition dquote :: char where "dquote = CHR 0x22"
definition backslash :: char where "backslash = CHR 0x5C"

definition digit_char :: "nat \<Rightarrow> char" where
  "digit_char n = ''0123456789abcdef'' ! n"

text \<open>\<open>\u00xx\<close>, what \<open>snprintf\<close> prints for a control character.\<close>

definition json_char :: "char \<Rightarrow> string" where
  "json_char c =
     (let n = of_char c :: nat in
      if c = dquote then [backslash, dquote]
      else if c = backslash then [backslash, backslash]
      else if n = 8 then [backslash, CHR ''b'']
      else if n = 12 then [backslash, CHR ''f'']
      else if n = 10 then [backslash, CHR ''n'']
      else if n = 13 then [backslash, CHR ''r'']
      else if n = 9 then [backslash, CHR ''t'']
      else if n < 0x20 then [backslash, CHR ''u'', CHR ''0'', CHR ''0'', digit_char (n div 16), digit_char (n mod 16)]
      else [c])"

definition JsonEscape :: "string \<Rightarrow> string" where
  "JsonEscape value = concat (map json_char value)"

text \<open>A number written with \<open>operator<<\<close> or \<open>std::to_string\<close>.\<close>

fun nat_text :: "nat \<Rightarrow> string" where
  "nat_text n = (if n < 10 then [digit_char n] else nat_text (n div 10) @ [digit_char (n mod 10)])"

declare nat_text.simps [simp del]

definition int_text :: "int \<Rightarrow> string" where
  "int_text i = (if i < 0 then CHR ''-'' # nat_text (nat (- i)) else nat_text (nat i))"

definition quoted :: "string \<Rightarrow> string" where
  "quoted s = dquote # s @ [dquote]"

definition CanonicalEventJson :: "string \<Rightarrow> string \<Rightarrow> string \<Rightarrow> int \<Rightarrow> int \<Rightarrow> string" where
  "CanonicalEventJson match_id player_id event_type amount_micro occurred_at =
     ''{'' @ quoted ''match_id'' @ '':'' @ quoted (JsonEscape match_id) @
     '','' @ quoted ''player_id'' @ '':'' @ quoted (JsonEscape player_id) @
     '','' @ quoted ''event_type'' @ '':'' @ quoted (JsonEscape event_type) @
     '','' @ quoted ''amount_micro'' @ '':'' @ int_text amount_micro @
     '','' @ quoted ''occurred_at'' @ '':'' @ int_text occurred_at @ ''}''"

text \<open>The loops that write bytes in lower-case hexadecimal, in \<open>game_connection.h\<close>,
  \<open>game_pairing_seal.cpp\<close> and \<open>game_pairing_protocol.cpp\<close>.\<close>

definition Hex :: "byte list \<Rightarrow> string" where
  "Hex data = concat (map (\<lambda>b. [digit_char (unat (drop_bit 4 b)), digit_char (unat (b AND 15))]) data)"

section \<open>The signer\<close>

definition HexValue :: "char \<Rightarrow> int" where
  "HexValue c =
     (let n = of_char c :: int in
      if 48 \<le> n \<and> n \<le> 57 then n - 48
      else if 97 \<le> n \<and> n \<le> 102 then n - 97 + 10
      else if 65 \<le> n \<and> n \<le> 70 then n - 65 + 10
      else - 1)"

fun hex_bytes :: "string \<Rightarrow> byte list option" where
  "hex_bytes (h # l # hex) =
     (let hi = HexValue h; lo = HexValue l in
      if hi < 0 \<or> lo < 0 then None
      else case hex_bytes hex of None \<Rightarrow> None | Some seed \<Rightarrow> Some (to_byte (push_bit 4 hi OR lo) # seed))"
| "hex_bytes _ = Some []"

definition LoadSeedHex :: "ed25519 \<Rightarrow> string \<Rightarrow> match_signer \<Rightarrow> match_signer \<times> bool" where
  "LoadSeedHex ed hex64 sg =
     (if length hex64 \<noteq> 64 then (sg, False)
      else case hex_bytes hex64 of
        None \<Rightarrow> (sg, False)
      | Some seed \<Rightarrow> (sg\<lparr>ms_Seed := seed, ms_Public := ed_publickey ed seed, ms_Ready := True\<rparr>, True))"

text \<open>The file system is a function from paths to contents; \<open>None\<close> is a file that cannot be opened.\<close>

definition trailing_space :: "char \<Rightarrow> bool" where
  "trailing_space c \<longleftrightarrow> of_char c \<in> {32, 9, 13, 10 :: nat}"

definition LoadSeedFile :: "ed25519 \<Rightarrow> (string \<Rightarrow> string option) \<Rightarrow> string \<Rightarrow> match_signer \<Rightarrow> match_signer \<times> bool" where
  "LoadSeedFile ed files path sg =
     (case files path of
        None \<Rightarrow> (sg, False)
      | Some content \<Rightarrow>
          let content = rev (dropWhile trailing_space (rev content)) in
          if content = [] then (sg, False) else LoadSeedHex ed content sg)"

definition PublicKeyBase64Url :: "match_signer \<Rightarrow> string" where
  "PublicKeyBase64Url sg = (if \<not> ms_Ready sg then [] else Base64UrlEncode (ms_Public sg))"

definition Sign :: "ed25519 \<Rightarrow> match_signer \<Rightarrow> string \<Rightarrow> string" where
  "Sign ed sg message =
     (if \<not> ms_Ready sg then []
      else Base64UrlEncode (ed_sign ed (bytes_of message) (ms_Seed sg) (ms_Public sg)))"

definition SignEvent :: "ed25519 \<Rightarrow> match_signer \<Rightarrow> string \<Rightarrow> string \<Rightarrow> string \<Rightarrow> int \<Rightarrow> int \<Rightarrow> string" where
  "SignEvent ed sg match_id player_id event_type amount_micro occurred_at =
     Sign ed sg (CanonicalEventJson match_id player_id event_type amount_micro occurred_at)"

section \<open>Reading the texts back\<close>

text \<open>A reference reader of the rest of a JSON string, as far as \<open>JsonEscape\<close> needs one: it stops behind the
  closing quote.\<close>

definition unescape :: "char \<Rightarrow> char" where
  "unescape c =
     (if c = CHR ''b'' then char_of (8 :: nat) else if c = CHR ''f'' then char_of (12 :: nat)
      else if c = CHR ''n'' then char_of (10 :: nat) else if c = CHR ''r'' then char_of (13 :: nat)
      else if c = CHR ''t'' then char_of (9 :: nat) else c)"

fun read_json :: "string \<Rightarrow> (string \<times> string) option" where
  "read_json [] = None"
| "read_json (c # r) =
     (if c = dquote then Some ([], r)
      else if c \<noteq> backslash then map_option (map_prod ((#) c) id) (read_json r)
      else case r of
        [] \<Rightarrow> None
      | e # r' \<Rightarrow>
          if e \<noteq> CHR ''u'' then map_option (map_prod ((#) (unescape e)) id) (read_json r')
          else case r' of
            _ # _ # h # l # r'' \<Rightarrow>
              map_option (map_prod ((#) (char_of (nat (16 * HexValue h + HexValue l)))) id) (read_json r'')
          | _ \<Rightarrow> None)"

text \<open>A property of the digits is checked digit by digit.\<close>

lemma all_digits: "list_all P [0..<16] \<Longrightarrow> (n :: nat) < 16 \<Longrightarrow> P n"
  by (simp add: list_all_iff)

lemma HexValue_digit:
  assumes "n < 16"
  shows "HexValue (digit_char n) = int n"
  by (rule all_digits [OF _ assms]) (simp add: upt_rec digit_char_def HexValue_def)

lemma read_control:
  assumes "n < 32"
  shows "nat (16 * HexValue (digit_char (n div 16)) + HexValue (digit_char (n mod 16))) = n"
proof -
  have "16 * int (n div 16) + int (n mod 16) = int n" by (simp add: zdiv_int zmod_int)
  then show ?thesis using assms by (simp add: HexValue_digit)
qed

lemma read_json_char: "read_json (json_char c @ r) = map_option (map_prod ((#) c) id) (read_json r)"
proof -
  have c: "char_of m = c" if "of_char c = (m :: nat)" for m using that by auto
  have q: "dquote \<noteq> backslash" "backslash \<noteq> dquote" "dquote \<noteq> CHR ''u''" "backslash \<noteq> CHR ''u''"
    "unescape dquote = dquote" "unescape backslash = backslash"
    by (simp_all add: dquote_def backslash_def unescape_def)
  have u: "unescape (CHR ''b'') = char_of (8 :: nat)" "unescape (CHR ''f'') = char_of (12 :: nat)"
    "unescape (CHR ''n'') = char_of (10 :: nat)" "unescape (CHR ''r'') = char_of (13 :: nat)"
    "unescape (CHR ''t'') = char_of (9 :: nat)"
    by (simp_all add: unescape_def)
  show ?thesis
    by (simp add: json_char_def Let_def q u c read_control)
qed

lemma read_JsonEscape: "read_json (JsonEscape s @ dquote # r) = Some (s, r)"
  by (induction s) (simp_all add: JsonEscape_def read_json_char)

interpretation json_text: codec "\<lambda>_. True" "\<lambda>s. JsonEscape s @ [dquote]" read_json
  by unfold_locales (simp add: read_JsonEscape)

lemma quoted_split: "quoted (JsonEscape s) @ r = quoted (JsonEscape t) @ r' \<longleftrightarrow> s = t \<and> r = r'"
  using json_text.enc_prefix_free [where x = s and y = t and r = r and s = r'] by (auto simp: quoted_def)


definition is_digit :: "char \<Rightarrow> bool" where
  "is_digit c \<longleftrightarrow> 48 \<le> (of_char c :: nat) \<and> of_char c \<le> (57 :: nat)"

lemma is_digit_char: "n < 10 \<Longrightarrow> is_digit (digit_char n)"
  using all_digits [of "\<lambda>n. n < 10 \<longrightarrow> is_digit (digit_char n)" n] by (simp add: upt_rec digit_char_def is_digit_def)

lemma nat_text_digits: "c \<in> set (nat_text n) \<Longrightarrow> is_digit c"
proof (induction n rule: nat_text.induct)
  case (1 n)
  then show ?case by (subst (asm) (2) nat_text.simps) (auto simp: is_digit_char split: if_splits)
qed

text \<open>The value of a decimal numeral.\<close>

definition decimal_value :: "string \<Rightarrow> int" where
  "decimal_value = foldl (\<lambda>v c. 10 * v + HexValue c) 0"

lemma nat_text_value: "decimal_value (nat_text n) = int n"
proof (induction n rule: nat_text.induct)
  case (1 n)
  then show ?case
    by (subst nat_text.simps) (auto simp: decimal_value_def HexValue_digit zdiv_int zmod_int)
qed

lemma nat_text_split:
  assumes "\<not> is_digit c" "\<not> is_digit d"
  shows "nat_text m @ c # r = nat_text n @ d # s \<longleftrightarrow> m = n \<and> c = d \<and> r = s"
proof
  assume e: "nat_text m @ c # r = nat_text n @ d # s"
  have t: "\<not> is_digit c \<Longrightarrow> takeWhile is_digit (nat_text m @ c # r) = nat_text m" for m c r
    by (subst takeWhile_append2) (simp_all add: nat_text_digits)
  have "nat_text m = nat_text n" using arg_cong [OF e, of "takeWhile is_digit"] t assms by simp
  moreover have "m = n" using arg_cong [OF calculation, of decimal_value] unfolding nat_text_value by simp
  ultimately show "m = n \<and> c = d \<and> r = s" using e by simp
qed simp

lemma nat_text_minus: "nat_text m @ c # r \<noteq> CHR ''-'' # s"
proof
  assume e: "nat_text m @ c # r = CHR ''-'' # s"
  moreover have "nat_text m \<noteq> []" by (subst nat_text.simps) simp
  ultimately have "hd (nat_text m) = CHR ''-''" by (cases "nat_text m") auto
  then show False using nat_text_digits [OF hd_in_set [OF \<open>nat_text m \<noteq> []\<close>]] by (simp add: is_digit_def)
qed

lemma int_text_split:
  assumes "\<not> is_digit c" "\<not> is_digit d"
  shows "int_text i @ c # r = int_text j @ d # s \<longleftrightarrow> i = j \<and> c = d \<and> r = s"
  using assms nat_text_minus by (auto simp: int_text_def nat_text_split dest: sym)


section \<open>base64url is a faithful encoding\<close>

lemma length_BASE64URL [simp]: "length BASE64URL_ALPHABET = 64"
  by (simp add: BASE64URL_ALPHABET_def)

lemma distinct_BASE64URL: "distinct BASE64URL_ALPHABET"
  by (simp add: BASE64URL_ALPHABET_def)

lemma word_bound: "unat (v :: i32) mod 4294967296 = unat v"
proof (rule mod_less)
  have "unat v < 2 ^ LENGTH(32)" by (rule unsigned_less)
  then show "unat v < 4294967296" by simp
qed

lemma base64url_char_eq: "base64url_char v n = BASE64URL_ALPHABET ! (unat v div 2 ^ n mod 64)"
proof -
  have "drop_bit n v AND 63 = take_bit 6 (drop_bit n v)"
    by (simp add: take_bit_eq_mask mask_eq_exp_minus_1)
  then have "unat (drop_bit n v AND 63) = unat v div 2 ^ n mod 64"
    by (simp only: unsigned_take_bit_eq unsigned_drop_bit_eq) (simp add: take_bit_eq_mod drop_bit_eq_div word_bound)
  then show ?thesis by (simp only: base64url_char_def)
qed

lemma alphabet_eq_iff: "i < 64 \<Longrightarrow> j < 64 \<Longrightarrow> BASE64URL_ALPHABET ! i = BASE64URL_ALPHABET ! j \<longleftrightarrow> i = j"
  by (simp add: nth_eq_iff_index_eq distinct_BASE64URL)

lemma byte_bound: "unat (b :: byte) < 256"
  using unsigned_less [of b] by simp

lemma unat_ucast_byte: "unat (ucast (b :: byte) :: i32) = unat b"
  using byte_bound [of b] by (simp only: unsigned_ucast_eq) (simp add: take_bit_eq_mod)

lemma unat_push_byte: "n \<le> 16 \<Longrightarrow> unat (push_bit n (ucast (b :: byte)) :: i32) = unat b * 2 ^ n"
proof -
  assume n: "n \<le> 16"
  have "unat b * 2 ^ n < 256 * 2 ^ n" using byte_bound [of b] by simp
  also have "\<dots> \<le> 256 * 2 ^ 16" using n by (intro mult_left_mono power_increasing) auto
  finally have "unat b * 2 ^ n < 2 ^ 32" by simp
  then show ?thesis
    by (simp only: unsigned_push_bit_eq unat_ucast_byte) (simp add: push_bit_eq_mult take_bit_eq_mod)
qed

lemma unat_or_low:
  assumes "2 ^ n dvd unat x" "unat y < 2 ^ n"
  shows "unat (x OR y :: i32) = unat x + unat y"
proof -
  have "uint (x OR y) = uint x OR uint y" by (simp add: uint_or)
  also have "\<dots> = uint x + uint y"
  proof (rule or_eq_add [where n = n])
    have "int (2 ^ n) dvd int (unat x)" using assms(1) by (simp only: of_nat_dvd_iff)
    then show "2 ^ n dvd uint x" by simp
    have "int (unat y) < int (2 ^ n)" using assms(2) by (simp only: of_nat_less_iff)
    then show "uint y < 2 ^ n" by simp
  qed simp
  finally have "int (unat (x OR y)) = int (unat x + unat y)" by simp
  then show ?thesis by (simp only: of_nat_eq_iff)
qed

lemma unat_triple:
  "unat (push_bit 16 (ucast a) OR push_bit 8 (ucast b) OR ucast c :: i32) = unat a * 65536 + unat b * 256 + unat c"
  for a b c :: byte
proof -
  have b: "unat (push_bit 8 (ucast b) :: i32) = unat b * 256" using unat_push_byte [of 8 b] by simp
  have a: "unat (push_bit 16 (ucast a) :: i32) = unat a * 65536" using unat_push_byte [of 16 a] by simp
  have c: "unat (ucast c :: i32) = unat c" by (rule unat_ucast_byte)
  have bc: "unat (push_bit 8 (ucast b) OR ucast c :: i32) = unat b * 256 + unat c"
    using byte_bound [of c] by (subst unat_or_low [where n = 8]) (simp_all add: b c)
  have "unat (push_bit 8 (ucast b) OR ucast c :: i32) < 2 ^ 16"
    using byte_bound [of b] byte_bound [of c] by (simp add: bc)
  then show ?thesis by (subst unat_or_low [where n = 16]) (simp_all add: a bc)
qed


lemma base64_digits:
  assumes "v < (16777216 :: nat)"
  shows "v = (v div 262144 mod 64) * 262144 + (v div 4096 mod 64) * 4096 + (v div 64 mod 64) * 64 + v mod 64"
proof -
  have "v div 4096 = v div 64 div 64" "v div 262144 = v div 4096 div 64" by (simp_all flip: div_mult2_eq)
  moreover have "v div 262144 < 64" using assms by (simp add: less_mult_imp_div_less)
  moreover define p q r where "p = v div 64" "q = v div 4096" "r = v div 262144"
  ultimately have "v = p * 64 + v mod 64" "p = q * 64 + p mod 64" "q = r * 64 + q mod 64" "r mod 64 = r"
    by (simp_all add: div_mult_mod_eq)
  then show ?thesis unfolding p_q_r_def by linarith
qed

lemma base256_digit:
  assumes "a * 256 + b = a' * 256 + (b' :: nat)" "b < 256" "b' < 256"
  shows "a = a' \<and> b = b'"
proof -
  have "b = (a * 256 + b) mod 256" "b' = (a' * 256 + b') mod 256" using assms(2,3) by simp_all
  then have "b = b'" unfolding assms(1) by simp
  then show ?thesis using assms(1) by simp
qed

lemma base256_digits:
  assumes "a * 65536 + b * 256 + c = a' * 65536 + b' * 256 + (c' :: nat)" "b < 256" "c < 256" "b' < 256" "c' < 256"
  shows "a = a' \<and> b = b' \<and> c = c'"
proof -
  have "(a * 256 + b) * 256 + c = (a' * 256 + b') * 256 + c'" using assms(1) by simp
  from base256_digit [OF this assms(3,5)] show ?thesis using base256_digit [OF _ assms(2,4)] by blast
qed

text \<open>The word that three bytes make; the last bytes of the data count as followed by zeros.\<close>

definition triple :: "byte \<Rightarrow> byte \<Rightarrow> byte \<Rightarrow> i32" where
  "triple a b c = push_bit 16 (ucast a) OR push_bit 8 (ucast b) OR ucast c"

lemma triple_zeros:
  "triple a b 0 = push_bit 16 (ucast a) OR push_bit 8 (ucast b)" "triple a 0 0 = push_bit 16 (ucast a)"
  by (simp_all add: triple_def)

lemma unat_triple_eq: "unat (triple a b c) = unat a * 65536 + unat b * 256 + unat c"
  unfolding triple_def by (rule unat_triple)

lemma triple_bound: "unat (triple a b c) < 16777216"
  unfolding unat_triple_eq using byte_bound [of a] byte_bound [of b] byte_bound [of c] by linarith

lemma triple_chars_eq:
  assumes "base64url_char (triple a b c) 18 = base64url_char (triple a' b' c') 18"
    "base64url_char (triple a b c) 12 = base64url_char (triple a' b' c') 12"
    "base64url_char (triple a b c) 6 = base64url_char (triple a' b' c') 6"
    "base64url_char (triple a b c) 0 = base64url_char (triple a' b' c') 0"
  shows "a = a' \<and> b = b' \<and> c = c'"
proof -
  have "unat (triple a b c) = unat (triple a' b' c')"
    using base64_digits [OF triple_bound [of a b c]] base64_digits [OF triple_bound [of a' b' c']] assms
    unfolding base64url_char_eq by (simp add: alphabet_eq_iff)
  then have "unat a = unat a' \<and> unat b = unat b' \<and> unat c = unat c'"
    using base256_digits [OF _ byte_bound byte_bound byte_bound byte_bound] unfolding unat_triple_eq by metis
  then show ?thesis by (simp add: word_unat_eq_iff)
qed

lemma short_chars: "base64url_char (triple a 0 0) 6 = CHR ''A''" "base64url_char (triple a b 0) 0 = CHR ''A''"
  by (simp_all add: base64url_char_eq unat_triple_eq BASE64URL_ALPHABET_def)

lemma Base64UrlEncode_triples:
  "Base64UrlEncode (a # b # c # data) =
     base64url_char (triple a b c) 18 # base64url_char (triple a b c) 12 #
     base64url_char (triple a b c) 6 # base64url_char (triple a b c) 0 # Base64UrlEncode data"
  "Base64UrlEncode [a, b] =
     [base64url_char (triple a b 0) 18, base64url_char (triple a b 0) 12, base64url_char (triple a b 0) 6]"
  "Base64UrlEncode [a] = [base64url_char (triple a 0 0) 18, base64url_char (triple a 0 0) 12]"
  by (simp_all only: Base64UrlEncode.simps Let_def triple_def ucast_0 push_bit_of_0 or.right_neutral)

declare Base64UrlEncode.simps(1-3) [simp del]

lemma Base64UrlEncode_inject: "Base64UrlEncode xs = Base64UrlEncode ys \<Longrightarrow> xs = ys"
proof (induction xs arbitrary: ys rule: Base64UrlEncode.induct)
  case (1 a b c data)
  then show ?case by (cases ys rule: Base64UrlEncode.cases) (auto simp: Base64UrlEncode_triples dest: triple_chars_eq)
next
  case (2 a)
  then show ?case
    by (cases ys rule: Base64UrlEncode.cases)
      (auto simp: Base64UrlEncode_triples dest: triple_chars_eq [where b = 0 and c = 0 and b' = 0 and c' = 0] simp: short_chars)
next
  case (3 a b)
  then show ?case
    by (cases ys rule: Base64UrlEncode.cases)
      (auto simp: Base64UrlEncode_triples dest: triple_chars_eq [where c = 0 and c' = 0] simp: short_chars)
next
  case 4
  then show ?case by (cases ys rule: Base64UrlEncode.cases) (auto simp: Base64UrlEncode_triples)
qed

lemma length_Base64UrlEncode: "length (Base64UrlEncode xs) = (4 * length xs + 2) div 3"
  by (induction xs rule: Base64UrlEncode.induct) (simp_all add: Base64UrlEncode_triples)

lemma Base64UrlEncode_alphabet: "c \<in> set (Base64UrlEncode xs) \<Longrightarrow> c \<in> set BASE64URL_ALPHABET"
  by (induction xs rule: Base64UrlEncode.induct) (auto simp: Base64UrlEncode_triples base64url_char_eq)


lemma radix64: "b < 64 \<Longrightarrow> (a * 64 + b) div 64 = a \<and> (a * 64 + b) mod 64 = (b :: nat)"
  by simp

lemma quad_triple:
  assumes "i < 64" "j < 64" "k < 64" "l < 64"
  obtains a b c where "base64url_char (triple a b c) 18 = BASE64URL_ALPHABET ! i"
    "base64url_char (triple a b c) 12 = BASE64URL_ALPHABET ! j"
    "base64url_char (triple a b c) 6 = BASE64URL_ALPHABET ! k"
    "base64url_char (triple a b c) 0 = BASE64URL_ALPHABET ! l"
    "k mod 4 = 0 \<Longrightarrow> l = 0 \<Longrightarrow> c = 0"
proof
  define v where "v = i * 262144 + j * 4096 + k * 64 + l"
  define a b c :: byte where "a = of_nat (v div 65536)" "b = of_nat (v div 256 mod 256)" "c = of_nat (v mod 256)"
  have "v < 16777216" using assms by (simp add: v_def)
  then have abc: "unat a = v div 65536" "unat b = v div 256 mod 256" "unat c = v mod 256"
    by (simp_all add: a_b_c_def unat_of_nat less_mult_imp_div_less)
  have "v div 65536 = v div 256 div 256" by (simp flip: div_mult2_eq)
  then have u: "unat (triple a b c) = v"
    using div_mult_mod_eq [of v 256] div_mult_mod_eq [of "v div 256" 256] unfolding unat_triple_eq abc by linarith
  have steps: "v div 4096 = v div 64 div 64" "v div 262144 = v div 64 div 64 div 64" by (simp_all flip: div_mult2_eq)
  have v: "v = ((i * 64 + j) * 64 + k) * 64 + l" by (simp add: v_def)
  have l1: "v div 64 = (i * 64 + j) * 64 + k" and l4: "v mod 64 = l"
    unfolding v using radix64 [OF assms(4)] by blast+
  have l2: "((i * 64 + j) * 64 + k) div 64 = i * 64 + j" "((i * 64 + j) * 64 + k) mod 64 = k"
    using radix64 [OF assms(3)] by blast+
  have l3: "(i * 64 + j) div 64 = i" "(i * 64 + j) mod 64 = j" using radix64 [OF assms(2)] by blast+
  have "v div 262144 mod 64 = i" "v div 4096 mod 64 = j" "v div 64 mod 64 = k" "v mod 64 = l"
    unfolding steps l1 l2 l3 l4 using assms(1) by simp_all
  then show "base64url_char (triple a b c) 18 = BASE64URL_ALPHABET ! i"
    "base64url_char (triple a b c) 12 = BASE64URL_ALPHABET ! j"
    "base64url_char (triple a b c) 6 = BASE64URL_ALPHABET ! k"
    "base64url_char (triple a b c) 0 = BASE64URL_ALPHABET ! l"
    by (simp_all add: base64url_char_eq u)
  show "c = 0" if "k mod 4 = 0" "l = 0"
  proof -
    have "k = 4 * (k div 4)" using div_mult_mod_eq [of k 4] that(1) by simp
    then have "v = (i * 1024 + j * 16 + k div 4) * 256" using that(2) by (simp add: v_def)
    then have "v mod 256 = 0" by (simp only: mod_mult_self2_is_0)
    then show ?thesis by (simp add: a_b_c_def)
  qed
qed


lemma Base64UrlEncode_append:
  "length xs = 3 * n \<Longrightarrow> Base64UrlEncode (xs @ ys) = Base64UrlEncode xs @ Base64UrlEncode ys"
proof (induction n arbitrary: xs)
  case (Suc n)
  then obtain a b c zs where "xs = a # b # c # zs" by (auto simp: length_Suc_conv numeral_eq_Suc)
  then show ?case using Suc by (simp add: Base64UrlEncode_triples)
qed simp

lemma alphabet_index:
  assumes "c \<in> set BASE64URL_ALPHABET"
  obtains i where "i < 64" "c = BASE64URL_ALPHABET ! i"
  using assms by (auto simp: in_set_conv_nth)

lemma list_of_3: "length xs = 3 \<Longrightarrow> \<exists>x y z. xs = [x, y, z]"
  by (auto simp: length_Suc_conv numeral_eq_Suc)

lemma Base64UrlEncode_quads:
  assumes "length t = 4 * n" "set t \<subseteq> set BASE64URL_ALPHABET"
  shows "\<exists>xs. length xs = 3 * n \<and> Base64UrlEncode xs = t"
  using assms
proof (induction n arbitrary: t)
  case (Suc n)
  then obtain w x y z u where t: "t = w # x # y # z # u" by (auto simp: length_Suc_conv numeral_eq_Suc)
  obtain xs where xs: "length xs = 3 * n" "Base64UrlEncode xs = u" using Suc.IH [of u] Suc.prems t by auto
  obtain i j k l where q: "i < 64" "w = BASE64URL_ALPHABET ! i" "j < 64" "x = BASE64URL_ALPHABET ! j"
    "k < 64" "y = BASE64URL_ALPHABET ! k" "l < 64" "z = BASE64URL_ALPHABET ! l"
    using Suc.prems(2) t by (auto elim!: alphabet_index)
  obtain a b c where "base64url_char (triple a b c) 18 = w" "base64url_char (triple a b c) 12 = x"
    "base64url_char (triple a b c) 6 = y" "base64url_char (triple a b c) 0 = z"
    using quad_triple [OF q(1,3,5,7)] unfolding q(2,4,6,8) by metis
  then have "Base64UrlEncode (a # b # c # xs) = t" by (simp add: Base64UrlEncode_triples xs t)
  moreover have "length (a # b # c # xs) = 3 * Suc n" using xs by simp
  ultimately show ?case by blast
qed simp

text \<open>The texts of 32 bytes: 43 characters of the alphabet, of which the last one has two free bits that are zero.\<close>

lemma Base64UrlEncode_32:
  "(\<exists>xs. length xs = 32 \<and> Base64UrlEncode xs = t) \<longleftrightarrow>
   length t = 43 \<and> set t \<subseteq> set BASE64URL_ALPHABET \<and>
   (\<exists>k. k < 64 \<and> k mod 4 = 0 \<and> last t = BASE64URL_ALPHABET ! k)"
  (is "?L \<longleftrightarrow> ?R")
proof
  assume ?L
  then obtain xs where xs: "length xs = 32" "Base64UrlEncode xs = t" by blast
  obtain a b where ab: "drop 30 xs = [a, b]"
    using xs(1) length_drop [of 30 xs] by (auto simp: length_Suc_conv numeral_eq_Suc)
  have "t = Base64UrlEncode (take 30 xs) @ Base64UrlEncode [a, b]"
    using Base64UrlEncode_append [of "take 30 xs" 10 "drop 30 xs"] xs(1) append_take_drop_id [of 30 xs] unfolding ab xs(2) [symmetric] by simp
  then have "last t = base64url_char (triple a b 0) 6" by (simp add: Base64UrlEncode_triples)
  moreover have "unat (triple a b 0) div 64 = (unat a * 256 + unat b) * 4" by (simp add: unat_triple_eq)
  ultimately have "last t = BASE64URL_ALPHABET ! ((unat a * 256 + unat b) * 4 mod 64)"
    by (simp add: base64url_char_eq)
  moreover have "(unat a * 256 + unat b) * 4 mod 64 mod 4 = 0" by (simp add: mod_mod_cancel)
  ultimately have "\<exists>k. k < 64 \<and> k mod 4 = 0 \<and> last t = BASE64URL_ALPHABET ! k"
    by (intro exI [of _ "(unat a * 256 + unat b) * 4 mod 64"]) simp
  then show ?R using xs Base64UrlEncode_alphabet [of _ xs] length_Base64UrlEncode [of xs] by auto
next
  assume r: ?R
  then obtain k where k: "k < 64" "k mod 4 = 0" "last t = BASE64URL_ALPHABET ! k" by auto
  obtain x y z where xyz: "drop 40 t = [x, y, z]"
    using list_of_3 [of "drop 40 t"] r by auto
  have t: "t = take 40 t @ [x, y, z]" using append_take_drop_id [of 40 t] xyz by simp
  have "set (take 40 t) \<subseteq> set BASE64URL_ALPHABET" "set [x, y, z] \<subseteq> set BASE64URL_ALPHABET"
    using r set_take_subset [of 40 t] set_drop_subset [of 40 t] unfolding xyz by blast+
  then obtain xs where xs: "length xs = 30" "Base64UrlEncode xs = take 40 t"
    using Base64UrlEncode_quads [of "take 40 t" 10] r by auto
  obtain i j where ij: "i < 64" "x = BASE64URL_ALPHABET ! i" "j < 64" "y = BASE64URL_ALPHABET ! j"
    using \<open>set [x, y, z] \<subseteq> _\<close> by (auto elim!: alphabet_index)
  have z: "z = BASE64URL_ALPHABET ! k" using k(3) arg_cong [OF t, of last] by simp
  obtain a b c where "base64url_char (triple a b c) 18 = x" "base64url_char (triple a b c) 12 = y"
    "base64url_char (triple a b c) 6 = z" "c = 0"
    using quad_triple [OF ij(1,3) k(1), of 0] k(2) unfolding ij z by (metis zero_less_numeral)
  then have "Base64UrlEncode (xs @ [a, b]) = t"
    using Base64UrlEncode_append [of xs 10 "[a, b]"] xs by (subst t) (simp add: Base64UrlEncode_triples)
  then show ?L using xs by (intro exI [of _ "xs @ [a, b]"]) simp
qed


section \<open>What the signer guarantees\<close>

lemma nibbles_bound: "unat (drop_bit 4 (b :: byte)) = unat b div 16" "unat (b AND 15) = unat b mod 16"
proof -
  show "unat (drop_bit 4 b) = unat b div 16"
    using byte_bound [of b] by (simp only: unsigned_drop_bit_eq) (simp add: take_bit_eq_mod drop_bit_eq_div)
  have "b AND 15 = take_bit 4 b" by (simp add: take_bit_eq_mask mask_eq_exp_minus_1)
  then show "unat (b AND 15) = unat b mod 16"
    by (simp only: unsigned_take_bit_eq) (simp add: take_bit_eq_mod)
qed

lemma Hex_simps: "Hex [] = []"
  "Hex (b # bs) = digit_char (unat b div 16) # digit_char (unat b mod 16) # Hex bs"
  by (simp_all add: Hex_def nibbles_bound)

lemma length_Hex [simp]: "length (Hex bs) = 2 * length bs"
  by (induction bs) (simp_all add: Hex_simps)

lemma nibbles_join: "to_byte (push_bit 4 (int (unat b div 16)) OR int (unat b mod 16)) = b"
proof -
  have "push_bit 4 (int (unat b div 16)) OR int (unat b mod 16) = int (unat b div 16) * 16 + int (unat b mod 16)"
    by (subst or_eq_add [where n = 4]) (simp_all add: push_bit_eq_mult)
  also have "\<dots> = int (unat b div 16 * 16 + unat b mod 16)" by (simp only: of_nat_add of_nat_mult of_nat_numeral)
  also have "\<dots> = uint b" by (simp only: div_mult_mod_eq uint_nat)
  finally show ?thesis by (simp only: to_byte_uint)
qed

lemma hex_bytes_Hex: "hex_bytes (Hex bs) = Some bs"
proof (induction bs)
  case (Cons b bs)
  have "HexValue (digit_char (unat b div 16)) = int (unat b div 16)"
    "HexValue (digit_char (unat b mod 16)) = int (unat b mod 16)"
    using byte_bound [of b] by (simp_all add: HexValue_digit less_mult_imp_div_less)
  then show ?case
    by (simp only: Hex_simps hex_bytes.simps Let_def Cons nibbles_join option.case) simp
qed (simp add: Hex_simps)

lemma Hex_inject: "Hex xs = Hex ys \<longleftrightarrow> xs = ys"
  using hex_bytes_Hex by (metis option.inject)

lemma not_space_digit:
  assumes "n < 16"
  shows "\<not> trailing_space (digit_char n)"
  by (rule all_digits [OF _ assms]) (simp add: upt_rec digit_char_def trailing_space_def)

lemma Hex_append: "Hex (xs @ ys) = Hex xs @ Hex ys"
  by (simp add: Hex_def)

lemma strip_Hex:
  assumes "\<forall>c \<in> set ws. trailing_space c" "bs \<noteq> []"
  shows "rev (dropWhile trailing_space (rev (Hex bs @ ws))) = Hex bs"
proof -
  obtain as b where bs: "bs = as @ [b]" using assms(2) by (cases bs rule: rev_cases) auto
  have "Hex bs = Hex as @ [digit_char (unat b div 16), digit_char (unat b mod 16)]"
    unfolding bs Hex_append Hex_simps ..
  moreover have "dropWhile trailing_space (rev ws @ zs) = dropWhile trailing_space zs" for zs
    using assms(1) by (subst dropWhile_append2) simp_all
  ultimately show ?thesis using not_space_digit [of "unat b mod 16"] by simp
qed

text \<open>C14. The canonical payload of an event determines the event: no choice of names, whatever characters they
  contain, makes the payload of another match, player, event, amount or time. A signature over it therefore
  vouches for exactly these five values.\<close>

theorem canonical_event_injective:
  "CanonicalEventJson match_id player_id event_type amount occurred =
   CanonicalEventJson match_id' player_id' event_type' amount' occurred' \<longleftrightarrow>
   match_id = match_id' \<and> player_id = player_id' \<and> event_type = event_type' \<and> amount = amount' \<and> occurred = occurred'"
  using int_text_split [where c = "CHR ''}''" and d = "CHR ''}''" and r = "[]" and s = "[]"]
  by (auto simp: CanonicalEventJson_def quoted_split int_text_split is_digit_def)

text \<open>A seed file that holds 32 bytes in hexadecimal, with any white space behind them, makes the signer ready
  with exactly these bytes and their public key; any other length is refused and leaves the signer as it was.\<close>

theorem seed_file_loads:
  assumes "length seed = 32" "\<forall>c \<in> set ws. trailing_space c" "files path = Some (Hex seed @ ws)"
  shows "LoadSeedFile ed files path sg =
    (sg\<lparr>ms_Seed := seed, ms_Public := ed_publickey ed seed, ms_Ready := True\<rparr>, True)"
proof -
  have "Hex seed \<noteq> []" using assms(1) length_Hex [of seed] by (metis length_0_conv mult_is_0 zero_neq_numeral)
  moreover have "seed \<noteq> []" using assms(1) by auto
  ultimately show ?thesis
    unfolding LoadSeedFile_def assms(3) using strip_Hex [OF assms(2)] assms(1)
    by (simp only: option.case Let_def) (simp add: LoadSeedHex_def hex_bytes_Hex)
qed

text \<open>The test library of the witnesses: it copies bytes instead of computing on the curve.\<close>

definition some_ed25519 :: ed25519 where
  "some_ed25519 = \<lparr>ed_publickey = map (\<lambda>b. b + 1), ed_sign = (\<lambda>message seed public. take 64 (message @ seed @ public))\<rparr>"

definition some_signer :: match_signer where
  "some_signer = \<lparr>ms_Seed = replicate 32 17, ms_Public = replicate 32 18, ms_Ready = True\<rparr>"

lemma seed_file_loads_witness:
  "LoadSeedFile some_ed25519 (\<lambda>path. if path = ''key'' then Some (Hex (replicate 32 17) @ [CHR 0x0D, CHR 0x0A]) else None)
     ''key'' no_signer = (some_signer, True)"
  by (subst seed_file_loads [where seed = "replicate 32 17" and ws = "[CHR 0x0D, CHR 0x0A]"])
    (simp_all add: trailing_space_def no_signer_def some_signer_def some_ed25519_def)

end
