(* ===== verification/GameIdentity.thy ===== *)
theory GameIdentity
  imports MatchSigner
begin

text \<open>
  The identity of a connected player, \<open>src/neonrelay/game_identity.cpp\<close>: when a context is valid, and the
  signature over a challenge of the backend. Times are milliseconds; the checks keep them below \<open>2 ^ 53\<close>, so
  the 64-bit arithmetic of the code is exact. Ed25519 stays a parameter.
\<close>

record game_identity =
  gi_Domain :: string
  gi_PlayerId :: string
  gi_Wallet :: string
  gi_SessionId :: string
  gi_WalletBindingId :: string
  gi_AuthenticationExpiresAt :: int
  gi_ExplicitLinkConfirmed :: bool

definition MaxSafeInteger :: int where "MaxSafeInteger = 9007199254740991"

section \<open>Checks on texts\<close>

definition SafeText :: "string \<Rightarrow> nat \<Rightarrow> bool" where
  "SafeText txt max_size \<longleftrightarrow>
     \<not> (txt = [] \<or> length txt > max_size) \<and> list_all (\<lambda>c. \<not> (of_char c < (32 :: nat) \<or> of_char c = (127 :: nat))) txt"

text \<open>\<open>std::string::find\<close> of a character; \<open>None\<close> is \<open>npos\<close>.\<close>

fun str_find :: "string \<Rightarrow> char \<Rightarrow> nat option" where
  "str_find [] c = None"
| "str_find (x # xs) c = (if x = c then Some 0 else map_option Suc (str_find xs c))"

definition Canonical32 :: "string \<Rightarrow> bool" where
  "Canonical32 txt \<longleftrightarrow>
     length txt = 43 \<and>
     list_all (\<lambda>c. str_find BASE64URL_ALPHABET c \<noteq> None) txt \<and>
     (case str_find BASE64URL_ALPHABET (last txt) of None \<Rightarrow> False | Some i \<Rightarrow> i mod 4 = 0)"

definition uuid_char :: "nat \<Rightarrow> char \<Rightarrow> bool" where
  "uuid_char i c =
     (if i = 8 \<or> i = 13 \<or> i = 18 \<or> i = 23 then c = CHR ''-''
      else (48 \<le> (of_char c :: nat) \<and> of_char c \<le> (57 :: nat)) \<or> (97 \<le> (of_char c :: nat) \<and> of_char c \<le> (102 :: nat)))"

definition Uuid_text :: "string \<Rightarrow> bool" where
  "Uuid_text txt \<longleftrightarrow> length txt = 36 \<and> list_all (\<lambda>i. uuid_char i (txt ! i)) [0..<length txt]"

section \<open>Context and challenge\<close>

definition IsGameIdentityContextValid :: "game_identity \<Rightarrow> int \<Rightarrow> bool" where
  "IsGameIdentityContextValid gi now \<longleftrightarrow>
     0 \<le> now \<and> now \<le> MaxSafeInteger \<and> gi_ExplicitLinkConfirmed gi \<and>
     now < gi_AuthenticationExpiresAt gi \<and> gi_AuthenticationExpiresAt gi \<le> MaxSafeInteger \<and>
     SafeText (gi_Domain gi) 253 \<and> SafeText (gi_PlayerId gi) 512 \<and>
     Canonical32 (gi_Wallet gi) \<and> Uuid_text (gi_SessionId gi) \<and> Uuid_text (gi_WalletBindingId gi)"

text \<open>\<open>Expected\<close>, the challenge that the trusted context and the arguments make.\<close>

definition expected_challenge :: "match_signer \<Rightarrow> game_identity \<Rightarrow> string \<Rightarrow> int \<Rightarrow> int \<Rightarrow> string" where
  "expected_challenge sg gi nonce issued expires =
     ''{'' @ quoted ''v'' @ '':1,'' @ quoted ''purpose'' @ '':'' @ quoted ''neonrelay-game-identity'' @
     '','' @ quoted ''domain'' @ '':'' @ quoted (JsonEscape (gi_Domain gi)) @
     '','' @ quoted ''nonce'' @ '':'' @ quoted nonce @
     '','' @ quoted ''session_id'' @ '':'' @ quoted (gi_SessionId gi) @
     '','' @ quoted ''wallet_binding_id'' @ '':'' @ quoted (gi_WalletBindingId gi) @
     '','' @ quoted ''wallet'' @ '':'' @ quoted (gi_Wallet gi) @
     '','' @ quoted ''player_id'' @ '':'' @ quoted (JsonEscape (gi_PlayerId gi)) @
     '','' @ quoted ''signer'' @ '':'' @ quoted (PublicKeyBase64Url sg) @
     '','' @ quoted ''issued_at'' @ '':'' @ int_text issued @
     '','' @ quoted ''expires_at'' @ '':'' @ int_text expires @ ''}''"

definition SignGameIdentityChallenge ::
  "ed25519 \<Rightarrow> match_signer \<Rightarrow> game_identity \<Rightarrow> string \<Rightarrow> int \<Rightarrow> int \<Rightarrow> string \<Rightarrow> int \<Rightarrow> string" where
  "SignGameIdentityChallenge ed sg gi nonce issued expires challenge now =
     (if \<not> ms_Ready sg \<or> \<not> IsGameIdentityContextValid gi now \<or>
         now < 0 \<or> now > MaxSafeInteger \<or> issued < 0 \<or> issued > now \<or>
         expires \<le> now \<or> expires > MaxSafeInteger \<or> expires - issued > 120000 \<or>
         gi_AuthenticationExpiresAt gi \<le> now \<or> gi_AuthenticationExpiresAt gi > MaxSafeInteger \<or>
         \<not> SafeText (gi_Domain gi) 253 \<or> \<not> SafeText (gi_PlayerId gi) 512 \<or>
         \<not> Canonical32 (gi_Wallet gi) \<or> \<not> Canonical32 nonce \<or>
         \<not> Uuid_text (gi_SessionId gi) \<or> \<not> Uuid_text (gi_WalletBindingId gi) \<or> length challenge > 4096
      then []
      else if challenge \<noteq> expected_challenge sg gi nonce issued expires then []
      else Sign ed sg challenge)"

section \<open>Canonical texts\<close>

lemma str_find_None: "str_find xs c = None \<longleftrightarrow> c \<notin> set xs"
  by (induction xs) auto

lemma str_find_Some: "str_find xs c = Some i \<Longrightarrow> i < length xs \<and> xs ! i = c"
  by (induction xs arbitrary: i) (auto split: if_splits)

lemma str_find_nth: "distinct xs \<Longrightarrow> i < length xs \<Longrightarrow> str_find xs (xs ! i) = Some i"
  by (induction xs arbitrary: i) (auto simp: nth_Cons split: nat.splits)

text \<open>The check of keys and nonces accepts exactly the base64url texts of 32 bytes: every such text is the
  encoding of 32 bytes and every encoding of 32 bytes passes.\<close>

theorem canonical32_exact:
  "Canonical32 txt \<longleftrightarrow> (\<exists>bs. length bs = 32 \<and> Base64UrlEncode bs = txt)"
proof -
  have "list_all (\<lambda>c. str_find BASE64URL_ALPHABET c \<noteq> None) txt \<longleftrightarrow> set txt \<subseteq> set BASE64URL_ALPHABET"
    by (auto simp: list_all_iff str_find_None simp del: not_None_eq)
  moreover have "(case str_find BASE64URL_ALPHABET (last txt) of None \<Rightarrow> False | Some i \<Rightarrow> i mod 4 = 0) \<longleftrightarrow>
      (\<exists>k. k < 64 \<and> k mod 4 = 0 \<and> last txt = BASE64URL_ALPHABET ! k)"
    using str_find_nth [OF distinct_BASE64URL]
    by (auto split: option.splits dest: str_find_Some) (auto dest!: str_find_Some)
  ultimately show ?thesis unfolding Canonical32_def Base64UrlEncode_32 by simp
qed

section \<open>A challenge has one meaning\<close>

text \<open>Texts of which the JSON escaping changes nothing.\<close>

definition plain :: "string \<Rightarrow> bool" where
  "plain s \<longleftrightarrow> (\<forall>c \<in> set s. json_char c = [c])"

lemma plain_escape: "plain s \<Longrightarrow> JsonEscape s = s"
  by (induction s) (auto simp: plain_def JsonEscape_def)

lemma plain_split: "plain s \<Longrightarrow> plain t \<Longrightarrow> quoted s @ r = quoted t @ r' \<longleftrightarrow> s = t \<and> r = r'"
  using quoted_split [of s r t r'] by (simp add: plain_escape)

lemma plain_alphabet: "set s \<subseteq> set BASE64URL_ALPHABET \<Longrightarrow> plain s"
proof -
  have "\<forall>c \<in> set BASE64URL_ALPHABET. json_char c = [c]"
    by (simp add: BASE64URL_ALPHABET_def json_char_def dquote_def backslash_def)
  then show "set s \<subseteq> set BASE64URL_ALPHABET \<Longrightarrow> plain s" by (auto simp: plain_def)
qed

lemma plain_canonical: "Canonical32 s \<Longrightarrow> plain s"
  by (rule plain_alphabet) (auto simp: Canonical32_def list_all_iff str_find_None simp del: not_None_eq)

lemma plain_key: "plain (PublicKeyBase64Url sg)"
  by (rule plain_alphabet) (auto simp: PublicKeyBase64Url_def dest: Base64UrlEncode_alphabet)

lemma uuid_char_plain: "uuid_char i c \<Longrightarrow> json_char c = [c]"
  by (auto simp: uuid_char_def json_char_def dquote_def backslash_def Let_def split: if_splits)

lemma plain_uuid: "Uuid_text s \<Longrightarrow> plain s"
  using uuid_char_plain by (fastforce simp: plain_def Uuid_text_def list_all_iff in_set_conv_nth)

lemma signed_challenge:
  assumes "SignGameIdentityChallenge ed sg gi nonce issued expires challenge now \<noteq> []"
  shows "challenge = expected_challenge sg gi nonce issued expires" "ms_Ready sg"
    "Canonical32 nonce" "IsGameIdentityContextValid gi now"
    "issued \<le> now" "now < expires" "expires \<le> issued + 120000"
  using assms by (auto simp: SignGameIdentityChallenge_def split: if_splits)

lemma public_key_inject:
  "ms_Ready sg \<Longrightarrow> ms_Ready sg' \<Longrightarrow> PublicKeyBase64Url sg = PublicKeyBase64Url sg' \<longleftrightarrow> ms_Public sg = ms_Public sg'"
  by (auto simp: PublicKeyBase64Url_def dest: Base64UrlEncode_inject)


definition some_identity :: game_identity where
  "some_identity = \<lparr>gi_Domain = ''game.example'', gi_PlayerId = ''registered-account'', gi_Wallet = replicate 43 (CHR ''A''),
     gi_SessionId = ''12345678-1234-1234-1234-123456789abc'', gi_WalletBindingId = ''abcdef01-1234-1234-1234-123456789abc'',
     gi_AuthenticationExpiresAt = 5000, gi_ExplicitLinkConfirmed = True\<rparr>"

definition some_nonce :: string where "some_nonce = replicate 43 (CHR ''A'')"


end
