(* ===== verification/GamePairing.thy ===== *)
theory GamePairing
  imports GameIdentity "HOL-Library.Multiset"
begin

text \<open>
  The messages of the pairing service, \<open>src/neonrelay/game_pairing_protocol.cpp\<close>: the envelope of a sealed
  token, the origin of the service, the request and the response. The JSON parser (vendored) and SHA-256 are
  parameters: \<open>json_parse max_memory text\<close> is the value of \<open>json_parse_ex\<close>, \<open>None\<close> when it fails.
\<close>

datatype json_value =
    json_none
  | json_object "(string \<times> json_value) list"
  | json_array "json_value list"
  | json_integer int
  | json_double string
  | json_string string
  | json_boolean bool
  | json_null

type_synonym json_parser = "nat \<Rightarrow> string \<Rightarrow> json_value option"

section \<open>Fields of an object\<close>

fun field_loop :: "(string \<times> json_value) list \<Rightarrow> string \<Rightarrow> json_value option \<Rightarrow> json_value option" where
  "field_loop [] name result = result"
| "field_loop ((n, v) # entries) name result =
     (if n = name then (if result \<noteq> None then None else field_loop entries name (Some v))
      else field_loop entries name result)"

definition Field :: "(string \<times> json_value) list \<Rightarrow> string \<Rightarrow> json_value option" where
  "Field entries name = field_loop entries name None"

definition Text_field :: "(string \<times> json_value) list \<Rightarrow> string \<Rightarrow> string option" where
  "Text_field entries name =
     (case Field entries name of
        Some (json_string s) \<Rightarrow> if length s > 512 then None else Some s
      | _ \<Rightarrow> None)"

definition Integer_field :: "(string \<times> json_value) list \<Rightarrow> string \<Rightarrow> int option" where
  "Integer_field entries name = (case Field entries name of Some (json_integer i) \<Rightarrow> Some i | _ \<Rightarrow> None)"

definition Boolean_field :: "(string \<times> json_value) list \<Rightarrow> string \<Rightarrow> bool option" where
  "Boolean_field entries name = (case Field entries name of Some (json_boolean b) \<Rightarrow> Some b | _ \<Rightarrow> None)"

definition lower_hex_text :: "string \<Rightarrow> nat \<Rightarrow> bool" where
  "lower_hex_text value n \<longleftrightarrow> length value = n \<and> list_all (\<lambda>c. c \<in> set ''0123456789abcdef'') value"

definition HexNonce :: "string \<Rightarrow> bool" where
  "HexNonce value \<longleftrightarrow> lower_hex_text value 64"

section \<open>Envelope\<close>

record pairing_envelope =
  pe_SenderKey :: string
  pe_Iv :: string
  pe_Ciphertext :: string
  pe_Tag :: string
  pe_ExpiresAt :: int

text \<open>\<open>None\<close>: the function returns false and leaves an empty envelope.\<close>

definition ParsePairingEnvelope :: "json_parser \<Rightarrow> string \<Rightarrow> int \<Rightarrow> pairing_envelope option" where
  "ParsePairingEnvelope json_parse json now =
     (if json = [] \<or> length json > 768 \<or> now < 0 \<or> now > MaxSafeInteger then None
      else case json_parse 8192 json of
        Some (json_object root) \<Rightarrow>
          if length root \<noteq> 7 then None
          else (case (Integer_field root ''v'', Integer_field root ''expires_at'', Boolean_field root ''admissionEnabled'') of
            (Some version, Some expiry, Some admission) \<Rightarrow>
              if version \<noteq> 1 \<or> expiry \<le> now \<or> expiry > MaxSafeInteger \<or> admission then None
              else (case (Text_field root ''sender_key'', Text_field root ''iv'', Text_field root ''ciphertext'', Text_field root ''tag'') of
                (Some key, Some iv, Some ciphertext, Some tag) \<Rightarrow>
                  if \<not> lower_hex_text key 64 \<or> \<not> lower_hex_text iv 24 \<or> \<not> lower_hex_text ciphertext 86 \<or> \<not> lower_hex_text tag 32
                  then None
                  else Some \<lparr>pe_SenderKey = key, pe_Iv = iv, pe_Ciphertext = ciphertext, pe_Tag = tag, pe_ExpiresAt = expiry\<rparr>
              | _ \<Rightarrow> None)
          | _ \<Rightarrow> None)
      | _ \<Rightarrow> None)"

section \<open>Origin\<close>

definition host_char :: "char \<Rightarrow> bool" where
  "host_char c \<longleftrightarrow> c \<in> set ''abcdefghijklmnopqrstuvwxyzABCDEFGHIJKLMNOPQRSTUVWXYZ0123456789.-''"

fun has_dots :: "string \<Rightarrow> bool" where
  "has_dots (a # b # s) \<longleftrightarrow> a = CHR ''.'' \<and> b = CHR ''.'' \<or> has_dots (b # s)"
| "has_dots [] \<longleftrightarrow> False"
| "has_dots [_] \<longleftrightarrow> False"

definition stoi :: "string \<Rightarrow> int" where
  "stoi s = foldl (\<lambda>v c. 10 * v + (of_char c - 48)) 0 s"

definition IsPairingOrigin :: "string \<Rightarrow> bool" where
  "IsPairingOrigin origin =
     (if length origin > 220 \<or> take 8 origin \<noteq> ''https://'' then False
      else
        let authority = drop 8 origin;
            host = takeWhile (\<lambda>c. c \<noteq> CHR '':'') authority;
            rest = dropWhile (\<lambda>c. c \<noteq> CHR '':'') authority in
        if host = [] \<or> hd host = CHR ''.'' \<or> last host = CHR ''.'' \<or> has_dots host \<or> \<not> list_all host_char host then False
        else if rest \<noteq> [] then
          let port = tl rest in
          if port = [] \<or> length port > 5 \<or> \<not> list_all is_digit port then False
          else let number = stoi port in \<not> (number < 1 \<or> number > 65535)
        else True)"

section \<open>Request and response\<close>

definition canonical_token :: "string \<Rightarrow> bool" where
  "canonical_token token \<longleftrightarrow>
     list_all (\<lambda>c. c \<in> set BASE64URL_ALPHABET) token \<and>
     (case str_find BASE64URL_ALPHABET (last token) of None \<Rightarrow> False | Some i \<Rightarrow> i mod 4 = 0)"

definition pairing_payload :: "(byte list \<Rightarrow> byte list) \<Rightarrow> string \<Rightarrow> string \<Rightarrow> string \<Rightarrow> string" where
  "pairing_payload sha256 domain connection_nonce token =
     ''{'' @ quoted ''v'' @ '':1,'' @ quoted ''purpose'' @ '':'' @ quoted ''neonrelay-game-pairing'' @
     '','' @ quoted ''domain'' @ '':'' @ quoted (JsonEscape domain) @
     '','' @ quoted ''token_hash'' @ '':'' @ quoted (Hex (sha256 (bytes_of token))) @
     '','' @ quoted ''connection_nonce'' @ '':'' @ quoted connection_nonce @ ''}''"

definition PairingRequestJson ::
  "(byte list \<Rightarrow> byte list) \<Rightarrow> ed25519 \<Rightarrow> match_signer \<Rightarrow> string \<Rightarrow> string \<Rightarrow> string \<Rightarrow> string" where
  "PairingRequestJson sha256 ed sg domain connection_nonce token =
     (if \<not> ms_Ready sg \<or> domain = [] \<or> length domain > 253 \<or> \<not> HexNonce connection_nonce \<or> length token \<noteq> 43 \<or>
         \<not> canonical_token token
      then []
      else
        ''{'' @ quoted ''pairing_token'' @ '':'' @ quoted token @
        '','' @ quoted ''connection_nonce'' @ '':'' @ quoted connection_nonce @
        '','' @ quoted ''signature'' @ '':'' @ quoted (Sign ed sg (pairing_payload sha256 domain connection_nonce token)) @ ''}'')"

text \<open>The context and the nonce of the connection; \<open>None\<close>: false, with both left empty.\<close>

definition ParsePairingResponse :: "json_parser \<Rightarrow> string \<Rightarrow> int \<Rightarrow> (game_identity \<times> string) option" where
  "ParsePairingResponse json_parse json now =
     (if json = [] \<or> length json > 4096 then None
      else case json_parse 16384 json of
        Some (json_object root) \<Rightarrow>
          if length root \<noteq> 9 then None
          else (case (Text_field root ''domain'', Text_field root ''player_id'', Text_field root ''wallet'',
                      Text_field root ''session_id'', Text_field root ''wallet_binding_id'', Text_field root ''connection_nonce'') of
            (Some domain, Some player, Some wallet, Some session, Some binding, Some nonce) \<Rightarrow>
              if \<not> HexNonce nonce then None
              else (case (Integer_field root ''authentication_expires_at'', Boolean_field root ''explicit_link_confirmed'',
                          Boolean_field root ''admissionEnabled'') of
                (Some expiry, Some consent, Some admission) \<Rightarrow>
                  if \<not> consent \<or> admission then None
                  else
                    let gi = \<lparr>gi_Domain = domain, gi_PlayerId = player, gi_Wallet = wallet, gi_SessionId = session,
                              gi_WalletBindingId = binding, gi_AuthenticationExpiresAt = expiry, gi_ExplicitLinkConfirmed = True\<rparr> in
                    if \<not> IsGameIdentityContextValid gi now then None else Some (gi, nonce)
              | _ \<Rightarrow> None)
          | _ \<Rightarrow> None)
      | _ \<Rightarrow> None)"

section \<open>The objects that are accepted\<close>

lemma field_loop_eq:
  "field_loop entries name result =
     (case (result, filter (\<lambda>e. fst e = name) entries) of
        (None, [e]) \<Rightarrow> Some (snd e)
      | (Some v, []) \<Rightarrow> Some v
      | _ \<Rightarrow> None)"
  by (induction entries name result rule: field_loop.induct) (auto split: option.splits list.splits)

lemma Field_Some: "Field entries name = Some v \<longleftrightarrow> filter (\<lambda>e. fst e = name) entries = [(name, v)]"
proof -
  have "fst e = name" if "filter (\<lambda>e. fst e = name) entries = [e]" for e
  proof -
    have "e \<in> set (filter (\<lambda>e. fst e = name) entries)" unfolding that by simp
    then show ?thesis by simp
  qed
  note named = this
  show ?thesis
  proof (cases "filter (\<lambda>e. fst e = name) entries")
    case Nil
    then show ?thesis by (simp add: Field_def field_loop_eq)
  next
    case (Cons e es)
    then show ?thesis using named [of e] by (cases es; cases e) (simp_all add: Field_def field_loop_eq)
  qed
qed

text \<open>An object with as many members as there are names, every name found: its members in some order.\<close>

lemma members_of_fields:
  assumes "distinct (map fst members)" "length entries = length members"
    "\<forall>(n, v) \<in> set members. Field entries n = Some v"
  shows "mset entries = mset members"
  using assms
proof (induction members arbitrary: entries)
  case (Cons e members)
  obtain n v where e: "e = (n, v)" by (cases e)
  define rest where "rest = filter (\<lambda>e. fst e \<noteq> n) entries"
  have f: "filter (\<lambda>e. fst e = n) entries = [(n, v)]" using Cons.prems(3) by (simp add: e Field_Some)
  then have m: "mset entries = add_mset (n, v) (mset rest)"
    using multiset_partition [of "mset entries" "\<lambda>e. fst e = n"] by (simp add: rest_def flip: mset_filter)
  then have "length rest = length members" using Cons.prems(2) by (metis length_Cons size_add_mset size_mset Suc_inject)
  moreover have "Field rest n' = Some v'" if "(n', v') \<in> set members" for n' v'
  proof -
    have "n' \<noteq> n" using that Cons.prems(1) by (force simp: e)
    then have "filter (\<lambda>e. fst e = n') rest = filter (\<lambda>e. fst e = n') entries"
      unfolding rest_def filter_filter by (intro filter_cong) auto
    then show ?thesis using that Cons.prems(3) by (auto simp: Field_Some)
  qed
  ultimately have "mset rest = mset members" using Cons.prems(1) by (intro Cons.IH) auto
  then show ?case by (simp add: m e)
qed simp

lemma fields_of_members:
  assumes "distinct (map fst members)" "mset entries = mset members" "(n, v) \<in> set members"
  shows "Field entries n = Some v"
proof -
  have "filter (\<lambda>e. fst e = n) members = [(n, v)]"
    using assms(1,3)
  proof (induction members)
    case (Cons e members)
    show ?case
    proof (cases "e = (n, v)")
      case True
      then show ?thesis using Cons.prems(1) by (force simp: filter_empty_conv)
    next
      case False
      then have m: "(n, v) \<in> set members" using Cons.prems(2) by simp
      then have "n \<in> set (map fst members)" by (metis fst_conv image_eqI list.set_map)
      then have "fst e \<noteq> n" using Cons.prems(1) by auto
      then show ?thesis using Cons.IH [OF _ m] Cons.prems(1) by simp
    qed
  qed simp
  moreover have "mset (filter (\<lambda>e. fst e = n) entries) = mset (filter (\<lambda>e. fst e = n) members)"
    by (simp only: mset_filter assms(2))
  ultimately have "mset (filter (\<lambda>e. fst e = n) entries) = {#(n, v)#}" by simp
  then show ?thesis by (simp only: Field_Some mset_single_iff)
qed

definition response_members :: "game_identity \<Rightarrow> string \<Rightarrow> (string \<times> json_value) list" where
  "response_members gi nonce =
     [(''domain'', json_string (gi_Domain gi)), (''player_id'', json_string (gi_PlayerId gi)),
      (''wallet'', json_string (gi_Wallet gi)), (''session_id'', json_string (gi_SessionId gi)),
      (''wallet_binding_id'', json_string (gi_WalletBindingId gi)), (''connection_nonce'', json_string nonce),
      (''authentication_expires_at'', json_integer (gi_AuthenticationExpiresAt gi)),
      (''explicit_link_confirmed'', json_boolean True), (''admissionEnabled'', json_boolean False)]"

lemma typed_fields:
  "Text_field root n = Some s \<longleftrightarrow> Field root n = Some (json_string s) \<and> length s \<le> 512"
  "Integer_field root n = Some i \<longleftrightarrow> Field root n = Some (json_integer i)"
  "Boolean_field root n = Some b \<longleftrightarrow> Field root n = Some (json_boolean b)"
  by (auto simp: Text_field_def Integer_field_def Boolean_field_def split: option.splits json_value.splits)

lemma response_names: "distinct (map fst (response_members gi nonce))"
  by (simp add: response_members_def)

lemma valid_lengths:
  assumes "IsGameIdentityContextValid gi now"
  shows "length (gi_Domain gi) \<le> 512" "length (gi_PlayerId gi) \<le> 512" "length (gi_Wallet gi) \<le> 512"
    "length (gi_SessionId gi) \<le> 512" "length (gi_WalletBindingId gi) \<le> 512" "gi_ExplicitLinkConfirmed gi"
  using assms by (auto simp: IsGameIdentityContextValid_def SafeText_def Canonical32_def Uuid_text_def)

lemma response_parsed:
  assumes "ParsePairingResponse json_parse json now = Some (gi, nonce)"
  shows "json \<noteq> [] \<and> length json \<le> 4096 \<and> HexNonce nonce \<and> IsGameIdentityContextValid gi now \<and>
    (\<exists>root. json_parse 16384 json = Some (json_object root) \<and> mset root = mset (response_members gi nonce))"
proof -
  obtain root where p: "json \<noteq> []" "length json \<le> 4096" "json_parse 16384 json = Some (json_object root)" "length root = 9"
    using assms by (auto simp: ParsePairingResponse_def split: if_splits option.splits json_value.splits)
  have f: "Text_field root ''domain'' = Some (gi_Domain gi)" "Text_field root ''player_id'' = Some (gi_PlayerId gi)"
    "Text_field root ''wallet'' = Some (gi_Wallet gi)" "Text_field root ''session_id'' = Some (gi_SessionId gi)"
    "Text_field root ''wallet_binding_id'' = Some (gi_WalletBindingId gi)" "Text_field root ''connection_nonce'' = Some nonce"
    "Integer_field root ''authentication_expires_at'' = Some (gi_AuthenticationExpiresAt gi)"
    "Boolean_field root ''explicit_link_confirmed'' = Some True" "Boolean_field root ''admissionEnabled'' = Some False"
    "HexNonce nonce" "IsGameIdentityContextValid gi now"
    using assms p by (auto simp: ParsePairingResponse_def Let_def split: if_splits option.splits)
  then have "mset root = mset (response_members gi nonce)"
    by (intro members_of_fields response_names) (simp_all add: response_members_def p(4) typed_fields)
  then show ?thesis using p f by blast
qed

lemma response_accepted:
  assumes "json \<noteq> []" "length json \<le> 4096" "HexNonce nonce" "IsGameIdentityContextValid gi now"
    "json_parse 16384 json = Some (json_object root)" "mset root = mset (response_members gi nonce)"
  shows "ParsePairingResponse json_parse json now = Some (gi, nonce)"
proof -
  have l: "length root = 9" using arg_cong [OF assms(6), of size] by (simp add: response_members_def)
  have n: "length nonce \<le> 512" using assms(3) by (simp add: HexNonce_def lower_hex_text_def)
  have f: "(n, v) \<in> set (response_members gi nonce) \<Longrightarrow> Field root n = Some v" for n v
    by (rule fields_of_members [OF response_names assms(6)])
  have t: "Text_field root ''domain'' = Some (gi_Domain gi)" "Text_field root ''player_id'' = Some (gi_PlayerId gi)"
    "Text_field root ''wallet'' = Some (gi_Wallet gi)" "Text_field root ''session_id'' = Some (gi_SessionId gi)"
    "Text_field root ''wallet_binding_id'' = Some (gi_WalletBindingId gi)" "Text_field root ''connection_nonce'' = Some nonce"
    "Integer_field root ''authentication_expires_at'' = Some (gi_AuthenticationExpiresAt gi)"
    "Boolean_field root ''explicit_link_confirmed'' = Some True" "Boolean_field root ''admissionEnabled'' = Some False"
    unfolding typed_fields using valid_lengths [OF assms(4)] n by (simp_all add: f response_members_def)
  have "\<lparr>gi_Domain = gi_Domain gi, gi_PlayerId = gi_PlayerId gi, gi_Wallet = gi_Wallet gi, gi_SessionId = gi_SessionId gi,
      gi_WalletBindingId = gi_WalletBindingId gi, gi_AuthenticationExpiresAt = gi_AuthenticationExpiresAt gi,
      gi_ExplicitLinkConfirmed = True\<rparr> = gi"
    using valid_lengths(6) [OF assms(4)] by (cases gi) simp
  then show ?thesis using assms l by (simp add: ParsePairingResponse_def t)
qed

text \<open>C24. A response of the pairing service is accepted exactly when it is an object with the nine members of the
  protocol, each once, in any order, that state a valid identity, the explicit consent and no admission; the result
  is that identity and the nonce of the response. Nothing else is accepted: no missing, extra or repeated member and
  no member of another type.\<close>

theorem pairing_response_exact:
  "ParsePairingResponse json_parse json now = Some (gi, nonce) \<longleftrightarrow>
   json \<noteq> [] \<and> length json \<le> 4096 \<and> HexNonce nonce \<and> IsGameIdentityContextValid gi now \<and>
   (\<exists>root. json_parse 16384 json = Some (json_object root) \<and> mset root = mset (response_members gi nonce))"
  using response_parsed response_accepted by blast

definition envelope_members :: "pairing_envelope \<Rightarrow> (string \<times> json_value) list" where
  "envelope_members e =
     [(''v'', json_integer 1), (''expires_at'', json_integer (pe_ExpiresAt e)), (''admissionEnabled'', json_boolean False),
      (''sender_key'', json_string (pe_SenderKey e)), (''iv'', json_string (pe_Iv e)),
      (''ciphertext'', json_string (pe_Ciphertext e)), (''tag'', json_string (pe_Tag e))]"

definition envelope_ok :: "pairing_envelope \<Rightarrow> int \<Rightarrow> bool" where
  "envelope_ok e now \<longleftrightarrow>
     now < pe_ExpiresAt e \<and> pe_ExpiresAt e \<le> MaxSafeInteger \<and> lower_hex_text (pe_SenderKey e) 64 \<and>
     lower_hex_text (pe_Iv e) 24 \<and> lower_hex_text (pe_Ciphertext e) 86 \<and> lower_hex_text (pe_Tag e) 32"

lemma envelope_names: "distinct (map fst (envelope_members e))"
  by (simp add: envelope_members_def)

lemma envelope_parsed:
  assumes "ParsePairingEnvelope json_parse json now = Some e"
  shows "json \<noteq> [] \<and> length json \<le> 768 \<and> 0 \<le> now \<and> envelope_ok e now \<and>
    (\<exists>root. json_parse 8192 json = Some (json_object root) \<and> mset root = mset (envelope_members e))"
proof -
  obtain root where p: "json \<noteq> []" "length json \<le> 768" "0 \<le> now" "json_parse 8192 json = Some (json_object root)" "length root = 7"
    using assms by (auto simp: ParsePairingEnvelope_def split: if_splits option.splits json_value.splits)
  have f: "Integer_field root ''v'' = Some 1" "Integer_field root ''expires_at'' = Some (pe_ExpiresAt e)"
    "Boolean_field root ''admissionEnabled'' = Some False" "Text_field root ''sender_key'' = Some (pe_SenderKey e)"
    "Text_field root ''iv'' = Some (pe_Iv e)" "Text_field root ''ciphertext'' = Some (pe_Ciphertext e)"
    "Text_field root ''tag'' = Some (pe_Tag e)" "envelope_ok e now"
    using assms p by (auto simp: ParsePairingEnvelope_def envelope_ok_def split: if_splits option.splits)
  then have "mset root = mset (envelope_members e)"
    by (intro members_of_fields envelope_names) (simp_all add: envelope_members_def p(5) typed_fields)
  then show ?thesis using p f by blast
qed

lemma envelope_accepted:
  assumes "json \<noteq> []" "length json \<le> 768" "0 \<le> now" "envelope_ok e now"
    "json_parse 8192 json = Some (json_object root)" "mset root = mset (envelope_members e)"
  shows "ParsePairingEnvelope json_parse json now = Some e"
proof -
  have l: "length root = 7" using arg_cong [OF assms(6), of size] by (simp add: envelope_members_def)
  have n: "length (pe_SenderKey e) \<le> 512" "length (pe_Iv e) \<le> 512" "length (pe_Ciphertext e) \<le> 512" "length (pe_Tag e) \<le> 512"
    using assms(4) by (simp_all add: envelope_ok_def lower_hex_text_def)
  have f: "(n, v) \<in> set (envelope_members e) \<Longrightarrow> Field root n = Some v" for n v
    by (rule fields_of_members [OF envelope_names assms(6)])
  have t: "Integer_field root ''v'' = Some 1" "Integer_field root ''expires_at'' = Some (pe_ExpiresAt e)"
    "Boolean_field root ''admissionEnabled'' = Some False" "Text_field root ''sender_key'' = Some (pe_SenderKey e)"
    "Text_field root ''iv'' = Some (pe_Iv e)" "Text_field root ''ciphertext'' = Some (pe_Ciphertext e)"
    "Text_field root ''tag'' = Some (pe_Tag e)"
    unfolding typed_fields using n by (simp_all add: f envelope_members_def)
  show ?thesis using assms(1-5) l by (auto simp: ParsePairingEnvelope_def t envelope_ok_def)
qed

section \<open>The origins that are accepted\<close>

text \<open>A host name is a sequence of non-empty labels of letters, digits and hyphens.\<close>

definition label_char :: "char \<Rightarrow> bool" where
  "label_char c \<longleftrightarrow> host_char c \<and> c \<noteq> CHR ''.''"

fun dotted :: "string list \<Rightarrow> string" where
  "dotted [] = []"
| "dotted [l] = l"
| "dotted (l # ls) = l @ CHR ''.'' # dotted ls"

definition host_labels :: "string list \<Rightarrow> bool" where
  "host_labels ls \<longleftrightarrow> ls \<noteq> [] \<and> list_all (\<lambda>l. l \<noteq> [] \<and> list_all label_char l) ls"

definition host_ok :: "string \<Rightarrow> bool" where
  "host_ok host \<longleftrightarrow>
     host \<noteq> [] \<and> hd host \<noteq> CHR ''.'' \<and> last host \<noteq> CHR ''.'' \<and> \<not> has_dots host \<and> list_all host_char host"

lemma has_dots_append:
  "has_dots (l @ r) \<longleftrightarrow> has_dots l \<or> has_dots r \<or> (l \<noteq> [] \<and> r \<noteq> [] \<and> last l = CHR ''.'' \<and> hd r = CHR ''.'')"
proof (induction l rule: has_dots.induct)
  case (3 c)
  show ?case by (cases r) auto
qed auto

lemma label_no_dots: "list_all label_char l \<Longrightarrow> \<not> has_dots l"
  by (induction l rule: has_dots.induct) (auto simp: label_char_def)

lemma label_ends: "l \<noteq> [] \<Longrightarrow> list_all label_char l \<Longrightarrow> hd l \<noteq> CHR ''.'' \<and> last l \<noteq> CHR ''.''"
  using last_in_set [of l] hd_in_set [of l] by (auto simp: list_all_iff label_char_def)

lemma dotted_Cons: "ls \<noteq> [] \<Longrightarrow> dotted (l # ls) = l @ CHR ''.'' # dotted ls"
  by (cases ls) simp_all

lemma has_dots_Cons: "r \<noteq> [] \<Longrightarrow> has_dots (CHR ''.'' # r) \<longleftrightarrow> hd r = CHR ''.'' \<or> has_dots r"
  by (cases r) auto

lemma label_host: "list_all label_char l \<Longrightarrow> list_all host_char l"
  by (auto simp: list_all_iff label_char_def)

lemma labels_host_ok: "host_labels ls \<Longrightarrow> host_ok (dotted ls)"
proof (induction ls rule: dotted.induct)
  case (3 l m ms)
  have i: "host_ok (dotted (m # ms))" using 3 by (simp add: host_labels_def)
  have l: "l \<noteq> []" "list_all label_char l" using 3(2) by (simp_all add: host_labels_def)
  have "host_char (CHR ''.'')" by (simp add: host_char_def)
  then show ?case
    using i label_ends [OF l] label_no_dots [OF l(2)] label_host [OF l(2)] l(1)
    by (simp add: host_ok_def has_dots_append has_dots_Cons)
qed (simp_all add: host_labels_def host_ok_def label_ends label_no_dots label_host)

lemma host_ok_labels: "host_ok host \<Longrightarrow> \<exists>ls. host_labels ls \<and> host = dotted ls"
proof (induction host rule: length_induct)
  case (1 host)
  define l r where "l = takeWhile (\<lambda>c. c \<noteq> CHR ''.'') host" "r = dropWhile (\<lambda>c. c \<noteq> CHR ''.'') host"
  have h: "host = l @ r" by (simp add: l_r_def)
  have "l \<noteq> []" using 1(2) by (cases host) (simp_all add: l_r_def host_ok_def)
  moreover have "list_all label_char l"
    using 1(2) set_takeWhileD by (fastforce simp: l_r_def list_all_iff host_ok_def label_char_def)
  ultimately have l: "l \<noteq> []" "list_all label_char l" by blast+
  show ?case
  proof (cases r)
    case Nil
    then show ?thesis using h l by (intro exI [of _ "[l]"]) (simp add: host_labels_def)
  next
    case (Cons c r')
    have c: "c = CHR ''.''" using Cons hd_dropWhile [of "\<lambda>c. c \<noteq> CHR ''.''" host] by (auto simp: l_r_def)
    have "r' \<noteq> []" using 1(2) h Cons c by (auto simp: host_ok_def)
    then have "host_ok r'" using 1(2) by (auto simp: h Cons c host_ok_def has_dots_append has_dots_Cons)
    moreover have "length r' < length host" by (simp add: h Cons)
    ultimately obtain ls where ls: "host_labels ls" "r' = dotted ls" using 1(1) by blast
    then have "host = dotted (l # ls)" by (simp add: h Cons c dotted_Cons host_labels_def)
    then show ?thesis using ls l by (intro exI [of _ "l # ls"]) (simp add: host_labels_def)
  qed
qed

text \<open>C25. The origins that the server talks to are exactly \<open>https://\<close>, a host of dot-separated non-empty labels and
  an optional port from 1 to 65535 of at most five digits, in at most 220 characters: no path, query, user name,
  address literal or other scheme is accepted.\<close>

theorem origin_grammar:
  "IsPairingOrigin origin \<longleftrightarrow>
   length origin \<le> 220 \<and>
   (\<exists>ls port. host_labels ls \<and> origin = ''https://'' @ dotted ls @ port \<and>
     (port = [] \<or> (\<exists>ds. port = CHR '':'' # ds \<and> list_all is_digit ds \<and> ds \<noteq> [] \<and> length ds \<le> 5 \<and>
        1 \<le> stoi ds \<and> stoi ds \<le> 65535)))"
  (is "?L \<longleftrightarrow> _ \<and> ?R")
proof -
  have colon: "\<not> host_char (CHR '':'')" by (simp add: host_char_def)
  have split: "takeWhile (\<lambda>c. c \<noteq> CHR '':'') (dotted ls @ port) = dotted ls \<and>
      dropWhile (\<lambda>c. c \<noteq> CHR '':'') (dotted ls @ port) = port"
    if "host_labels ls" "port = [] \<or> (\<exists>ds. port = CHR '':'' # ds)" for ls port
  proof -
    have "list_all host_char (dotted ls)" using labels_host_ok [OF that(1)] by (simp add: host_ok_def)
    then have n: "c \<noteq> CHR '':''" if "c \<in> set (dotted ls)" for c using that colon by (metis list_all_iff)
    show ?thesis
      using that(2) by (subst takeWhile_append2, simp add: n, subst dropWhile_append2, simp add: n) auto
  qed
  show ?thesis
  proof
    assume a: ?L
    define h r where "h = takeWhile (\<lambda>c. c \<noteq> CHR '':'') (drop 8 origin)" "r = dropWhile (\<lambda>c. c \<noteq> CHR '':'') (drop 8 origin)"
    have t: "take 8 origin = ''https://''" "length origin \<le> 220" using a unfolding IsPairingOrigin_def by (meson leI)+
    have o: "origin = ''https://'' @ h @ r"
      using append_take_drop_id [of 8 origin] unfolding t(1) h_r_def takeWhile_dropWhile_id by (rule sym)
    have f: "host_ok h" "r \<noteq> [] \<Longrightarrow> tl r \<noteq> [] \<and> length (tl r) \<le> 5 \<and> list_all is_digit (tl r) \<and> 1 \<le> stoi (tl r) \<and> stoi (tl r) \<le> 65535"
      using a unfolding IsPairingOrigin_def Let_def h_r_def [symmetric] host_ok_def by (simp_all split: if_splits)
    obtain ls where ls: "host_labels ls" "h = dotted ls" using host_ok_labels [OF f(1)] by blast
    have "r = [] \<or> (\<exists>ds. r = CHR '':'' # ds \<and> list_all is_digit ds \<and> ds \<noteq> [] \<and> length ds \<le> 5 \<and> 1 \<le> stoi ds \<and> stoi ds \<le> 65535)"
    proof (cases r)
      case (Cons c ds)
      then have "c = CHR '':''" using hd_dropWhile [of "\<lambda>c. c \<noteq> CHR '':''" "drop 8 origin"] by (simp flip: h_r_def)
      then show ?thesis using f(2) Cons by simp
    qed simp
    then show "length origin \<le> 220 \<and> ?R" using t(2) o ls by blast
  next
    assume "length origin \<le> 220 \<and> ?R"
    then obtain ls port where p: "length origin \<le> 220" "host_labels ls" "origin = ''https://'' @ dotted ls @ port"
      "port = [] \<or> (\<exists>ds. port = CHR '':'' # ds \<and> list_all is_digit ds \<and> ds \<noteq> [] \<and> length ds \<le> 5 \<and> 1 \<le> stoi ds \<and> stoi ds \<le> 65535)"
      by blast
    have d: "drop 8 origin = dotted ls @ port" "take 8 origin = ''https://''" by (simp_all add: p(3))
    have w: "takeWhile (\<lambda>c. c \<noteq> CHR '':'') (dotted ls @ port) = dotted ls" "dropWhile (\<lambda>c. c \<noteq> CHR '':'') (dotted ls @ port) = port"
      using split [OF p(2), of port] p(4) by blast+
    show ?L
      using p(1,4) labels_host_ok [OF p(2)] unfolding IsPairingOrigin_def Let_def d w host_ok_def
      by (elim disjE exE) simp_all
  qed
qed

end
