(* ===== verification/GameSeal.thy ===== *)
theory GameSeal
  imports GamePairing
begin

text \<open>
  The sealed pairing offer, \<open>src/neonrelay/game_pairing_seal.cpp\<close> in a build with OpenSSL: an offer with an
  ephemeral X25519 key, and opening the envelope that answers it. The OpenSSL functions are the fields of
  \<open>openssl\<close>; \<open>None\<close> is a call that fails. A key pair that OpenSSL generates is an argument of \<open>seal_Begin\<close>.
\<close>

record openssl =
  ossl_derive :: "byte list \<Rightarrow> byte list \<Rightarrow> byte list option"
  ossl_sha256 :: "byte list \<Rightarrow> byte list option"
  ossl_hkdf :: "byte list \<Rightarrow> byte list \<Rightarrow> byte list \<Rightarrow> byte list option"
  ossl_gcm_decrypt :: "byte list \<Rightarrow> byte list \<Rightarrow> byte list \<Rightarrow> byte list \<Rightarrow> byte list \<Rightarrow> byte list option"

record pairing_seal =
  se_Offer :: string
  se_Signature :: string
  se_Issued :: int
  se_Expires :: int
  se_Attempts :: nat
  se_Key :: "byte list option"

definition new_seal :: pairing_seal where
  "new_seal = \<lparr>se_Offer = [], se_Signature = [], se_Issued = 0, se_Expires = 0, se_Attempts = 0, se_Key = None\<rparr>"

text \<open>\<open>Decode\<close> into an array of \<open>n\<close> bytes.\<close>

fun decode_loop :: "string \<Rightarrow> byte list" where
  "decode_loop (h # l # hex) =
     (case (str_find ''0123456789abcdef'' h, str_find ''0123456789abcdef'' l) of
        (Some a, Some b) \<Rightarrow> to_byte (push_bit 4 (int a) OR int b) # decode_loop hex
      | _ \<Rightarrow> [])"
| "decode_loop _ = []"

definition Decode :: "nat \<Rightarrow> string \<Rightarrow> byte list option" where
  "Decode n hex = (if \<not> lower_hex_text hex (2 * n) then None else Some (decode_loop hex))"

text \<open>\<open>pair\<close> is the generated key pair, if the generation succeeds, with the raw public key if it can be read.\<close>

definition seal_offer :: "string \<Rightarrow> string \<Rightarrow> byte list \<Rightarrow> int \<Rightarrow> string" where
  "seal_offer domain nonce public now =
     ''{'' @ quoted ''v'' @ '':1,'' @ quoted ''purpose'' @ '':'' @ quoted ''neonrelay-game-pairing-seal'' @
     '','' @ quoted ''domain'' @ '':'' @ quoted (JsonEscape domain) @
     '','' @ quoted ''connection_nonce'' @ '':'' @ quoted nonce @
     '','' @ quoted ''server_ephemeral_key'' @ '':'' @ quoted (Hex public) @
     '','' @ quoted ''issued_at'' @ '':'' @ int_text now @
     '','' @ quoted ''expires_at'' @ '':'' @ int_text (now + 120000) @ ''}''"

definition seal_Begin ::
  "ed25519 \<Rightarrow> match_signer \<Rightarrow> string \<Rightarrow> string \<Rightarrow> int \<Rightarrow> (byte list \<times> byte list option) option \<Rightarrow> pairing_seal \<times> bool" where
  "seal_Begin ed sg domain nonce now pair =
     (if \<not> ms_Ready sg \<or> domain = [] \<or> length domain > 253 \<or> \<not> lower_hex_text nonce 64 \<or>
         now < 0 \<or> now > 9007199254620991 \<or> list_ex (\<lambda>c. of_char c < (32 :: nat) \<or> of_char c = (127 :: nat)) domain
      then (new_seal, False)
      else case pair of
        None \<Rightarrow> (new_seal, False)
      | Some (key, raw) \<Rightarrow>
          let se = new_seal\<lparr>se_Key := Some key\<rparr> in
          case raw of
            None \<Rightarrow> (se, False)
          | Some public \<Rightarrow>
              if length public \<noteq> 32 then (se, False)
              else
                let offer = seal_offer domain nonce public now;
                    signature = Sign ed sg offer in
                (se\<lparr>se_Issued := now, se_Expires := now + 120000, se_Offer := offer, se_Signature := signature\<rparr>,
                 signature \<noteq> []))"

section \<open>Opening\<close>

definition seal_key :: "openssl \<Rightarrow> pairing_seal \<Rightarrow> byte list \<Rightarrow> byte list \<Rightarrow> byte list option" where
  "seal_key ssl se key peer =
     (case ossl_derive ssl key peer of
        None \<Rightarrow> None
      | Some shared \<Rightarrow>
          if length shared \<noteq> 32 then None
          else case ossl_sha256 ssl (bytes_of (se_Offer se)) of
            None \<Rightarrow> None
          | Some salt \<Rightarrow>
              if length salt \<noteq> 32 then None
              else case ossl_hkdf ssl salt shared (bytes_of ''neonrelay:game-pairing-seal:v1'') of
                None \<Rightarrow> None
              | Some k \<Rightarrow> if length k \<noteq> 32 then None else Some k)"

definition text_of :: "byte list \<Rightarrow> string" where
  "text_of = map (\<lambda>b. char_of (unat b))"

definition seal_Decrypt ::
  "openssl \<Rightarrow> pairing_seal \<Rightarrow> string \<Rightarrow> string \<Rightarrow> string \<Rightarrow> string \<Rightarrow> pairing_seal \<times> string" where
  "seal_Decrypt ssl se sender iv ciphertext tag =
     (case (Decode 32 sender, Decode 12 iv, Decode 43 ciphertext, Decode 16 tag) of
        (Some peer, Some nonce, Some encrypted, Some auth) \<Rightarrow>
          (case se_Key se of
             None \<Rightarrow> (se, [])
           | Some private_key \<Rightarrow>
             (case seal_key ssl se private_key peer of
                None \<Rightarrow> (se, [])
              | Some key \<Rightarrow>
                  (case ossl_gcm_decrypt ssl key nonce (bytes_of (se_Offer se)) encrypted auth of
                     None \<Rightarrow> (se, [])
                   | Some plain_bytes \<Rightarrow>
                       if length plain_bytes \<noteq> 43 then (se, [])
                       else
                         let token = text_of plain_bytes in
                         (se\<lparr>se_Key := None\<rparr>, if canonical_token token then token else []))))
      | _ \<Rightarrow> (se, []))"

definition OpenEnvelope ::
  "openssl \<Rightarrow> json_parser \<Rightarrow> pairing_seal \<Rightarrow> string \<Rightarrow> int \<Rightarrow> pairing_seal \<times> string" where
  "OpenEnvelope ssl json_parse se json now =
     (if se_Key se = None then (se, [])
      else if now < se_Issued se \<or> now \<ge> se_Expires se then (new_seal, [])
      else if se_Attempts se \<ge> 8 then (new_seal, [])
      else
        let se = se\<lparr>se_Attempts := se_Attempts se + 1\<rparr> in
        case ParsePairingEnvelope json_parse json now of
          None \<Rightarrow> (se, [])
        | Some e \<Rightarrow>
            if pe_ExpiresAt e > se_Expires se then (se, [])
            else seal_Decrypt ssl se (pe_SenderKey e) (pe_Iv e) (pe_Ciphertext e) (pe_Tag e))"

section \<open>An offer opens once\<close>

text \<open>The answers to the envelopes that arrive, one after the other.\<close>

fun open_all :: "openssl \<Rightarrow> json_parser \<Rightarrow> pairing_seal \<Rightarrow> (string \<times> int) list \<Rightarrow> string list" where
  "open_all ssl json_parse se [] = []"
| "open_all ssl json_parse se ((json, now) # rest) =
     (let (se', token) = OpenEnvelope ssl json_parse se json now in token # open_all ssl json_parse se' rest)"

lemma canonical_token_32: "Canonical32 token \<longleftrightarrow> length token = 43 \<and> canonical_token token"
  by (simp add: Canonical32_def canonical_token_def str_find_None del: not_None_eq)

lemma length_text_of [simp]: "length (text_of bs) = length bs"
  by (simp add: text_of_def)

lemma Decrypt_cases:
  assumes "seal_Decrypt ssl se sender iv ciphertext tag = (se', token)"
  shows "se' = se\<lparr>se_Key := None\<rparr> \<and> (token \<noteq> [] \<longrightarrow> Canonical32 token) \<or> se' = se \<and> token = []"
  using assms by (auto simp: seal_Decrypt_def Let_def canonical_token_32 split: option.splits if_splits)

lemma OpenEnvelope_token:
  assumes "OpenEnvelope ssl json_parse se json now = (se', token)" "token \<noteq> []"
  shows "se_Issued se \<le> now" "now < se_Expires se" "se_Attempts se < 8" "se_Key se' = None" "Canonical32 token"
  using assms by (auto simp: OpenEnvelope_def Let_def split: if_splits option.splits dest!: Decrypt_cases)

lemma OpenEnvelope_none:
  assumes "OpenEnvelope ssl json_parse se json now = (se', [])"
  shows "se_Key se' = None \<or>
    se_Issued se' = se_Issued se \<and> se_Expires se' = se_Expires se \<and> se_Attempts se' = se_Attempts se + 1"
  using assms
  by (auto simp: OpenEnvelope_def Let_def new_seal_def split: if_splits option.splits dest!: Decrypt_cases)

lemma open_all_closed: "se_Key se = None \<Longrightarrow> open_all ssl json_parse se xs = replicate (length xs) []"
  by (induction xs) (auto simp: OpenEnvelope_def)

lemma open_all_once:
  assumes "i < length xs" "open_all ssl json_parse se xs ! i \<noteq> []"
  shows "se_Attempts se + i < 8 \<and> se_Issued se \<le> snd (xs ! i) \<and> snd (xs ! i) < se_Expires se \<and>
    Canonical32 (open_all ssl json_parse se xs ! i) \<and>
    open_all ssl json_parse se xs = (replicate (length xs) [])[i := open_all ssl json_parse se xs ! i]"
  using assms
proof (induction xs arbitrary: se i)
  case (Cons x xs)
  obtain json now where x: "x = (json, now)" by (cases x)
  obtain se' token where o: "OpenEnvelope ssl json_parse se json now = (se', token)" by fastforce
  show ?case
  proof (cases "token = []")
    case False
    note t = OpenEnvelope_token [OF o False]
    have "i = 0" using Cons.prems t(4) by (cases i) (simp_all add: x o open_all_closed)
    then show ?thesis using t by (simp add: x o open_all_closed)
  next
    case True
    obtain k where i: "i = Suc k" using Cons.prems(2) True by (cases i) (simp_all add: x o)
    then have k: "k < length xs" "open_all ssl json_parse se' xs ! k \<noteq> []" using Cons.prems by (simp_all add: x o)
    have "se_Key se' \<noteq> None"
    proof
      assume "se_Key se' = None"
      from open_all_closed [OF this] show False using k by simp
    qed
    then have "se_Issued se' = se_Issued se" "se_Expires se' = se_Expires se" "se_Attempts se' = se_Attempts se + 1"
      using OpenEnvelope_none [OF o [unfolded True]] by auto
    then show ?thesis using Cons.IH [OF k] True by (simp add: x o i)
  qed
qed simp

lemma Begin_times:
  "seal_Begin ed sg domain nonce now pair = (se, True) \<Longrightarrow>
   se_Issued se = now \<and> se_Expires se = now + 120000 \<and> se_Attempts se = 0"
  by (auto simp: seal_Begin_def Let_def new_seal_def split: if_splits option.splits)

text \<open>C15. A sealed offer gives out at most one token, whatever envelopes arrive: a token comes out at one of the
  first eight envelopes, within two minutes after the offer was made, it is well-formed, and every other envelope,
  before and after, is answered with nothing.\<close>

theorem seal_opens_once:
  assumes "seal_Begin ed sg domain nonce t0 pair = (se, True)"
    and "i < length envelopes" "open_all ssl json_parse se envelopes ! i \<noteq> []"
  shows "i < 8 \<and> t0 \<le> snd (envelopes ! i) \<and> snd (envelopes ! i) < t0 + 120000 \<and>
    Canonical32 (open_all ssl json_parse se envelopes ! i) \<and>
    open_all ssl json_parse se envelopes =
      (replicate (length envelopes) [])[i := open_all ssl json_parse se envelopes ! i]"
  using open_all_once [OF assms(2,3)] Begin_times [OF assms(1)] by simp

section \<open>The sealed token arrives\<close>

lemma str_find_hex: "n < 16 \<Longrightarrow> str_find ''0123456789abcdef'' (digit_char n) = Some n"
  by (rule all_digits) (simp_all add: upt_rec digit_char_def)

lemma hex_chars: "n < 16 \<Longrightarrow> digit_char n \<in> set ''0123456789abcdef''"
  using str_find_None [of "''0123456789abcdef''" "digit_char n"] str_find_hex [of n] by auto

lemma high_nibble: "unat (b :: byte) div 16 < 16"
  using byte_bound [of b] by (simp add: less_mult_imp_div_less)

lemma lower_hex_Hex: "lower_hex_text (Hex bs) n \<longleftrightarrow> 2 * length bs = n"
proof -
  have "list_all (\<lambda>c. c \<in> set ''0123456789abcdef'') (Hex bs)"
    by (induction bs) (simp_all add: Hex_simps hex_chars high_nibble del: list.set insert_iff)
  then show ?thesis by (simp add: lower_hex_text_def)
qed

lemma Decode_Hex: "length bs = n \<Longrightarrow> Decode n (Hex bs) = Some bs"
proof -
  have "decode_loop (Hex bs) = bs"
    by (induction bs) (simp_all add: Hex_simps str_find_hex high_nibble nibbles_join del: str_find.simps)
  then show "length bs = n \<Longrightarrow> Decode n (Hex bs) = Some bs" by (simp add: Decode_def lower_hex_Hex)
qed

lemma text_of_bytes_of: "text_of (bytes_of s) = s"
proof -
  have "unat (of_char c :: byte) = of_char c" for c
  proof -
    have "unat (of_nat (of_char c) :: byte) = of_char c" by (simp add: unat_of_nat del: of_nat_of_char)
    then show ?thesis by (simp only: of_nat_of_char)
  qed
  then show ?thesis by (induction s) (simp_all add: text_of_def bytes_of_def)
qed

lemma seal_key_cong:
  "se_Offer se = se_Offer se' \<Longrightarrow> ossl_derive ssl key peer = ossl_derive ssl key' peer' \<Longrightarrow>
   seal_key ssl se key peer = seal_key ssl se' key' peer'"
  by (simp only: seal_key_def)

lemma length_bytes_of [simp]: "length (bytes_of s) = length s"
  by (simp add: bytes_of_def)

lemma sealed_opens:
  assumes alive: "se_Key se = Some key" "se_Issued se \<le> now" "now < se_Expires se" "se_Attempts se < 8"
    and agreement: "ossl_derive ssl key client_public = ossl_derive ssl client_key public"
    and gcm: "ossl_gcm_decrypt ssl k iv (bytes_of (se_Offer se)) (fst sealed) (snd sealed) = Some (bytes_of token)"
    and client: "seal_key ssl se client_key public = Some k" "Canonical32 token"
    and sizes: "length client_public = 32" "length iv = 12" "length (fst sealed) = 43" "length (snd sealed) = 16"
    and envelope: "ParsePairingEnvelope json_parse json now = Some \<lparr>pe_SenderKey = Hex client_public, pe_Iv = Hex iv,
      pe_Ciphertext = Hex (fst sealed), pe_Tag = Hex (snd sealed), pe_ExpiresAt = expiry\<rparr>" "expiry \<le> se_Expires se"
  shows "snd (OpenEnvelope ssl json_parse se json now) = token"
proof -
  have "seal_key ssl (se\<lparr>se_Attempts := n\<rparr>) key client_public = Some k" for n
    using client(1) seal_key_cong [OF _ agreement, of "se\<lparr>se_Attempts := n\<rparr>" se] by simp
  then show ?thesis
    using alive envelope gcm sizes client(2)
    by (simp add: OpenEnvelope_def seal_Decrypt_def Decode_Hex text_of_bytes_of Let_def canonical_token_32)
qed

lemma Begin_alive:
  "seal_Begin ed sg domain nonce t0 (Some (key, Some public)) = (se, True) \<Longrightarrow>
   se_Key se = Some key \<and> se_Issued se = t0 \<and> se_Expires se = t0 + 120000 \<and> se_Attempts se = 0 \<and>
   0 \<le> t0 \<and> t0 \<le> 9007199254620991"
  by (auto simp: seal_Begin_def Let_def new_seal_def split: if_splits)

text \<open>C23. A client that answers an offer in time gets its token to the server: with the Diffie-Hellman agreement of
  X25519 and the round trip of AES-GCM, the token that it sealed under the key derived from the offer is the token
  that opening its envelope returns.\<close>

theorem sealed_token_opens:
  assumes offer: "seal_Begin ed sg domain nonce t0 (Some (key, Some public)) = (se, True)"
    and agreement: "ossl_derive ssl key client_public = ossl_derive ssl client_key public"
    and gcm: "ossl_gcm_decrypt ssl k iv (bytes_of (se_Offer se)) (fst sealed) (snd sealed) = Some (bytes_of token)"
    and client: "seal_key ssl se client_key public = Some k" "Canonical32 token"
    and sizes: "length client_public = 32" "length iv = 12" "length (fst sealed) = 43" "length (snd sealed) = 16"
    and envelope: "json \<noteq> []" "length json \<le> 768" "json_parse 8192 json = Some (json_object root)"
      "mset root = mset (envelope_members \<lparr>pe_SenderKey = Hex client_public, pe_Iv = Hex iv, pe_Ciphertext = Hex (fst sealed),
         pe_Tag = Hex (snd sealed), pe_ExpiresAt = expiry\<rparr>)"
    and time: "t0 \<le> now" "now < expiry" "expiry \<le> t0 + 120000"
  shows "snd (OpenEnvelope ssl json_parse se json now) = token"
proof -
  note se = Begin_alive [OF offer]
  show ?thesis
    using time se sizes
    by (intro sealed_opens [OF _ _ _ _ agreement gcm client sizes, where expiry = expiry]
        envelope_accepted [where root = root] envelope)
      (simp_all add: envelope_ok_def MaxSafeInteger_def lower_hex_Hex)
qed

definition some_openssl :: openssl where
  "some_openssl = \<lparr>ossl_derive = (\<lambda>key peer. Some (replicate 32 0)), ossl_sha256 = (\<lambda>data. Some (replicate 32 1)),
     ossl_hkdf = (\<lambda>salt key info. Some (replicate 32 2)),
     ossl_gcm_decrypt = (\<lambda>key nonce aad data tag. if tag = replicate 16 3 then Some data else None)\<rparr>"

definition some_envelope :: pairing_envelope where
  "some_envelope = \<lparr>pe_SenderKey = Hex (replicate 32 4), pe_Iv = Hex (replicate 12 5), pe_Ciphertext = Hex (bytes_of some_nonce),
     pe_Tag = Hex (replicate 16 3), pe_ExpiresAt = 100000\<rparr>"

definition some_parser :: json_parser where
  "some_parser max_memory json = (if json = ''{}'' then Some (json_object (envelope_members some_envelope)) else None)"

definition some_seal :: pairing_seal where
  "some_seal = fst (seal_Begin some_ed25519 some_signer ''game.example'' (Hex (replicate 32 7)) 1000
     (Some (replicate 32 0, Some (replicate 32 0))))"

lemma some_seal_made:
  "seal_Begin some_ed25519 some_signer ''game.example'' (Hex (replicate 32 7)) 1000 (Some (replicate 32 0, Some (replicate 32 0))) =
   (some_seal, True)"
proof -
  have "Sign some_ed25519 some_signer challenge \<noteq> []" for challenge
    using length_Base64UrlEncode [of "ed_sign some_ed25519 (bytes_of challenge) (ms_Seed some_signer) (ms_Public some_signer)"]
    by (auto simp: Sign_def some_signer_def some_ed25519_def)
  then have "snd (seal_Begin some_ed25519 some_signer ''game.example'' (Hex (replicate 32 7)) 1000
      (Some (replicate 32 0, Some (replicate 32 0))))"
    by (simp add: seal_Begin_def lower_hex_Hex Let_def) (simp add: some_signer_def)
  then show ?thesis by (simp add: some_seal_def prod_eq_iff)
qed

lemma some_library:
  "ossl_derive some_openssl key peer = Some (replicate 32 0)"
  "ossl_gcm_decrypt some_openssl key nonce aad data (replicate 16 3) = Some data"
  by (simp_all add: some_openssl_def)

lemma length_some_nonce [simp]: "length some_nonce = 43"
  by (simp add: some_nonce_def)

lemma some_token_32: "Canonical32 some_nonce"
  by code_simp

lemma some_seal_key: "seal_key some_openssl some_seal client_key public = Some (replicate 32 2)"
  by (simp add: seal_key_def some_openssl_def)

lemma sealed_token_opens_witness:
  "snd (OpenEnvelope some_openssl some_parser some_seal ''{}'' 2000) = some_nonce"
  by (rule sealed_token_opens [OF some_seal_made, where client_public = "replicate 32 4" and iv = "replicate 12 5"
        and sealed = "(bytes_of some_nonce, replicate 16 3)" and expiry = 100000
        and root = "envelope_members some_envelope" and k = "replicate 32 2" and client_key = "[]"])
    (simp_all add: some_seal_key some_token_32 some_parser_def some_envelope_def some_library)

lemma some_envelopes:
  "open_all some_openssl some_parser some_seal [(''junk'', 1000), (''{}'', 2000), (''{}'', 3000)] ! 1 = some_nonce"
proof -
  note se = Begin_alive [OF some_seal_made]
  have j: "OpenEnvelope some_openssl some_parser some_seal ''junk'' 1000 = (some_seal\<lparr>se_Attempts := 1\<rparr>, [])"
    using se by (simp add: OpenEnvelope_def ParsePairingEnvelope_def some_parser_def MaxSafeInteger_def)
  have "ParsePairingEnvelope some_parser ''{}'' 2000 = Some some_envelope"
    by (rule envelope_accepted [where root = "envelope_members some_envelope"])
      (simp_all add: envelope_ok_def MaxSafeInteger_def lower_hex_Hex some_envelope_def some_parser_def)
  then have "snd (OpenEnvelope some_openssl some_parser (some_seal\<lparr>se_Attempts := 1\<rparr>) ''{}'' 2000) = some_nonce"
    using se some_seal_key
    by (intro sealed_opens [where sealed = "(bytes_of some_nonce, replicate 16 3)" and k = "replicate 32 2" and expiry = 100000
        and client_public = "replicate 32 4" and iv = "replicate 12 5"])
      (simp_all add: some_envelope_def some_token_32 seal_key_def some_openssl_def)
  then show ?thesis by (simp add: j case_prod_beta)
qed

lemma seal_opens_once_witness:
  "open_all some_openssl some_parser some_seal [(''junk'', 1000), (''{}'', 2000), (''{}'', 3000)] = [[], some_nonce, []]"
proof -
  have "some_nonce \<noteq> []" by (simp add: some_nonce_def)
  then show ?thesis
    using seal_opens_once [OF some_seal_made, of 1 "[(''junk'', 1000), (''{}'', 2000), (''{}'', 3000)]" some_openssl some_parser]
    unfolding some_envelopes by simp
qed

end
