(* ===== verification/GameConnection.thy ===== *)
theory GameConnection
  imports GameSeal
begin

text \<open>
  The pairing state of one connection, \<open>GameConnectionIdentity\<close> in \<open>src/neonrelay/game_connection.h\<close>: sealed
  offers, requests with their generation, completion, expiry and the monotone clock.
\<close>

record game_request =
  rq_Nonce :: string
  rq_Serial :: int

record game_conn =
  gc_Connected :: bool
  gc_Pending :: bool
  gc_Serial :: int
  gc_Deadline :: int
  gc_LastNow :: int
  gc_NextSealAt :: int
  gc_Seal :: "pairing_seal option"
  gc_Nonce :: string
  gc_Domain :: string
  gc_Identity :: "game_identity option"

definition new_connection :: "byte list \<Rightarrow> game_conn" where
  "new_connection random =
     \<lparr>gc_Connected = True, gc_Pending = False, gc_Serial = 0, gc_Deadline = 0, gc_LastNow = 0, gc_NextSealAt = 0,
      gc_Seal = None, gc_Nonce = Hex random, gc_Domain = [], gc_Identity = None\<rparr>"

definition gc_Disconnect :: "game_conn \<Rightarrow> game_conn" where
  "gc_Disconnect c =
     c\<lparr>gc_Connected := False, gc_Pending := False, gc_Identity := None, gc_Seal := None, gc_Domain := [], gc_Nonce := []\<rparr>"

definition gc_Clock :: "game_conn \<Rightarrow> int \<Rightarrow> game_conn \<times> bool" where
  "gc_Clock c now =
     (if \<not> gc_Connected c then (c, False)
      else if now < gc_LastNow c \<or> now > 9007199254620991 then (gc_Disconnect c, False)
      else (c\<lparr>gc_LastNow := now\<rparr>, True))"

definition gc_Matches :: "game_conn \<Rightarrow> game_request \<Rightarrow> bool" where
  "gc_Matches c rq \<longleftrightarrow> gc_Connected c \<and> gc_Pending c \<and> rq_Serial rq = gc_Serial c \<and> rq_Nonce rq = gc_Nonce c"

definition gc_Active :: "game_conn \<Rightarrow> int \<Rightarrow> game_conn \<times> bool" where
  "gc_Active c now =
     (let (c, ok) = gc_Clock c now in
      if \<not> ok then (c, False)
      else
        let c = (case gc_Identity c of
                   None \<Rightarrow> c
                 | Some gi \<Rightarrow> if \<not> IsGameIdentityContextValid gi now then c\<lparr>gc_Identity := None\<rparr> else c) in
        (c, gc_Identity c \<noteq> None))"

text \<open>The sealed offer is its text and the signature.\<close>

definition BeginSealedPairing ::
  "ed25519 \<Rightarrow> match_signer \<Rightarrow> game_conn \<Rightarrow> string \<Rightarrow> int \<Rightarrow> (byte list \<times> byte list option) option \<Rightarrow>
   game_conn \<times> (string \<times> string) option" where
  "BeginSealedPairing ed sg c domain now pair =
     (let (c, ok) = gc_Clock c now in
      if \<not> ok \<or> now < gc_NextSealAt c then (c, None)
      else
        let c = c\<lparr>gc_NextSealAt := now + 2000, gc_Pending := False, gc_Identity := None\<rparr>;
            (se, begun) = seal_Begin ed sg domain (gc_Nonce c) now pair in
        if \<not> begun then (c\<lparr>gc_Seal := None\<rparr>, None)
        else (c\<lparr>gc_Seal := Some se\<rparr>, Some (se_Offer se, se_Signature se)))"

definition OpenSealedPairing :: "openssl \<Rightarrow> json_parser \<Rightarrow> game_conn \<Rightarrow> string \<Rightarrow> int \<Rightarrow> game_conn \<times> string" where
  "OpenSealedPairing ssl json_parse c json now =
     (let (c, ok) = gc_Clock c now in
      case gc_Seal c of
        None \<Rightarrow> (c, [])
      | Some se \<Rightarrow>
          if \<not> ok then (c, [])
          else let (se, token) = OpenEnvelope ssl json_parse se json now in (c\<lparr>gc_Seal := Some se\<rparr>, token))"

definition gc_Begin :: "game_conn \<Rightarrow> string \<Rightarrow> int \<Rightarrow> game_conn \<times> game_request option" where
  "gc_Begin c domain now =
     (let (c, ok) = gc_Clock c now in
      if \<not> ok \<or> domain = [] \<or> length domain > 253 \<or> gc_Serial c = 2 ^ 64 - 1 then (c, None)
      else
        let c = c\<lparr>gc_Identity := None, gc_Seal := None, gc_Domain := domain, gc_Pending := True,
                  gc_Deadline := now + 120000, gc_Serial := gc_Serial c + 1\<rparr> in
        (c, Some \<lparr>rq_Nonce = gc_Nonce c, rq_Serial = gc_Serial c\<rparr>))"

definition gc_Fail :: "game_conn \<Rightarrow> game_request \<Rightarrow> game_conn" where
  "gc_Fail c rq = (if gc_Matches c rq then c\<lparr>gc_Pending := False, gc_Identity := None\<rparr> else c)"

definition gc_IsPending :: "game_conn \<Rightarrow> game_request \<Rightarrow> int \<Rightarrow> game_conn \<times> bool" where
  "gc_IsPending c rq now =
     (let (c, ok) = gc_Clock c now in
      if \<not> ok \<or> \<not> gc_Matches c rq then (c, False)
      else if now \<ge> gc_Deadline c then (gc_Fail c rq, False)
      else (c, True))"

definition gc_Complete :: "game_conn \<Rightarrow> game_request \<Rightarrow> string \<Rightarrow> game_identity \<Rightarrow> int \<Rightarrow> game_conn \<times> bool" where
  "gc_Complete c rq echo_nonce gi now =
     (let (c, ok) = gc_Clock c now in
      if \<not> ok \<or> \<not> gc_Matches c rq then (c, False)
      else
        let c = c\<lparr>gc_Pending := False\<rparr> in
        if now \<ge> gc_Deadline c \<or> echo_nonce \<noteq> gc_Nonce c \<or> gi_Domain gi \<noteq> gc_Domain c \<or>
           \<not> IsGameIdentityContextValid gi now \<or> gi_AuthenticationExpiresAt gi > gc_Deadline c
        then (c, False)
        else (c\<lparr>gc_Identity := Some gi\<rparr>, True))"

definition gc_PlayerId :: "game_conn \<Rightarrow> int \<Rightarrow> game_conn \<times> string option" where
  "gc_PlayerId c now =
     (let (c, ok) = gc_Active c now in
      if \<not> ok then (c, None) else (c, map_option gi_PlayerId (gc_Identity c)))"

definition gc_SignChallenge ::
  "ed25519 \<Rightarrow> match_signer \<Rightarrow> game_conn \<Rightarrow> string \<Rightarrow> int \<Rightarrow> int \<Rightarrow> string \<Rightarrow> int \<Rightarrow> game_conn \<times> string" where
  "gc_SignChallenge ed sg c nonce issued expires challenge now =
     (let (c, ok) = gc_Active c now in
      case gc_Identity c of
        Some gi \<Rightarrow> if \<not> ok then (c, []) else (c, SignGameIdentityChallenge ed sg gi nonce issued expires challenge now)
      | None \<Rightarrow> (c, []))"

section \<open>Runs\<close>

datatype gc_op =
    Op_Disconnect
  | Op_BeginSealed string int "(byte list \<times> byte list option) option"
  | Op_OpenSealed string int
  | Op_Begin string int
  | Op_IsPending game_request int
  | Op_Complete game_request string game_identity int
  | Op_Fail game_request
  | Op_PlayerId int
  | Op_SignChallenge string int int string int

text \<open>The libraries and the key of the server.\<close>

record game_env =
  ge_ed :: ed25519
  ge_signer :: match_signer
  ge_ssl :: openssl
  ge_parser :: json_parser

fun gc_step :: "game_env \<Rightarrow> game_conn \<Rightarrow> gc_op \<Rightarrow> game_conn" where
  "gc_step env c Op_Disconnect = gc_Disconnect c"
| "gc_step env c (Op_BeginSealed domain now pair) = fst (BeginSealedPairing (ge_ed env) (ge_signer env) c domain now pair)"
| "gc_step env c (Op_OpenSealed json now) = fst (OpenSealedPairing (ge_ssl env) (ge_parser env) c json now)"
| "gc_step env c (Op_Begin domain now) = fst (gc_Begin c domain now)"
| "gc_step env c (Op_IsPending rq now) = fst (gc_IsPending c rq now)"
| "gc_step env c (Op_Complete rq nonce gi now) = fst (gc_Complete c rq nonce gi now)"
| "gc_step env c (Op_Fail rq) = gc_Fail c rq"
| "gc_step env c (Op_PlayerId now) = fst (gc_PlayerId c now)"
| "gc_step env c (Op_SignChallenge nonce issued expires challenge now) =
     fst (gc_SignChallenge (ge_ed env) (ge_signer env) c nonce issued expires challenge now)"

definition gc_run :: "game_env \<Rightarrow> game_conn \<Rightarrow> gc_op list \<Rightarrow> game_conn" where
  "gc_run env c ops = foldl (gc_step env) c ops"

lemma gc_run_simps:
  "gc_run env c [] = c" "gc_run env c (ops @ [op]) = gc_step env (gc_run env c ops) op"
  "gc_run env c (op # ops) = gc_run env (gc_step env c op) ops"
  by (simp_all add: gc_run_def)

lemma gc_run_append: "gc_run env c (xs @ ys) = gc_run env (gc_run env c xs) ys"
  by (simp add: gc_run_def)

text \<open>The clock moves forward or the connection is gone.\<close>

definition ticked :: "game_conn \<Rightarrow> int \<Rightarrow> game_conn" where
  "ticked c now = fst (gc_Clock c now)"

lemma Clock_cases:
  obtains "gc_Clock c now = (c\<lparr>gc_LastNow := now\<rparr>, True)" "gc_Connected c" "gc_LastNow c \<le> now" "now \<le> 9007199254620991"
  | "gc_Clock c now = (gc_Disconnect c, False)" "gc_Connected c"
  | "gc_Clock c now = (c, False)" "\<not> gc_Connected c"
  by (cases "gc_Connected c"; cases "now < gc_LastNow c \<or> now > 9007199254620991") (auto simp: gc_Clock_def)

lemma gone_simps [simp]:
  "gc_Connected (gc_Disconnect c) = False" "gc_Pending (gc_Disconnect c) = False" "gc_Identity (gc_Disconnect c) = None"
  "gc_Seal (gc_Disconnect c) = None" "gc_Serial (gc_Disconnect c) = gc_Serial c" "gc_LastNow (gc_Disconnect c) = gc_LastNow c"
  by (simp_all add: gc_Disconnect_def)

lemmas gc_ops = gc_Active_def BeginSealedPairing_def OpenSealedPairing_def gc_Begin_def gc_IsPending_def gc_Complete_def
  gc_PlayerId_def gc_SignChallenge_def gc_Fail_def Let_def

section \<open>What one operation changes\<close>

text \<open>The operations other than an accepted begin and an accepted completion only forget: they keep or clear the
  pending request and the identity.\<close>

definition forgets :: "game_conn \<Rightarrow> game_conn \<Rightarrow> bool" where
  "forgets c c' \<longleftrightarrow>
     (gc_Connected c' \<longrightarrow> gc_Connected c \<and> gc_Nonce c' = gc_Nonce c) \<and>
     (gc_Pending c' \<longrightarrow> gc_Connected c' \<and> gc_Pending c \<and> gc_Domain c' = gc_Domain c \<and> gc_Deadline c' = gc_Deadline c) \<and>
     gc_Serial c' = gc_Serial c \<and>
     (gc_Identity c' = None \<or> gc_Connected c' \<and> gc_Identity c' = gc_Identity c) \<and>
     gc_LastNow c \<le> gc_LastNow c'"

text \<open>A connection that is gone has nothing left.\<close>

definition tidy :: "game_conn \<Rightarrow> bool" where
  "tidy c \<longleftrightarrow> gc_Connected c \<or> \<not> gc_Pending c \<and> gc_Identity c = None"

lemma forgets_refl: "tidy c \<Longrightarrow> forgets c c"
  by (auto simp: forgets_def tidy_def)

lemma forgets_Disconnect: "forgets c (gc_Disconnect c)"
  by (simp add: forgets_def)

lemma Clock_forgets: "tidy c \<Longrightarrow> forgets c (fst (gc_Clock c now))"
  by (rule Clock_cases [of c now]) (auto simp: forgets_def tidy_def)

lemma forgets_tidy: "forgets c c' \<Longrightarrow> tidy c'"
  by (auto simp: forgets_def tidy_def)

lemma Active_forgets: "tidy c \<Longrightarrow> forgets c (fst (gc_Active c now))"
  by (rule Clock_cases [of c now]) (auto simp: forgets_def tidy_def gc_ops split: option.splits)

lemma seal_forgets: "tidy c \<Longrightarrow> forgets c (fst (BeginSealedPairing ed sg c domain now pair))"
  by (rule Clock_cases [of c now]) (auto simp: forgets_def tidy_def gc_ops split: prod.splits)

lemma open_forgets: "tidy c \<Longrightarrow> forgets c (fst (OpenSealedPairing ssl parser c json now))"
  by (rule Clock_cases [of c now]) (auto simp: forgets_def tidy_def gc_ops split: prod.splits option.splits)

lemma IsPending_forgets: "tidy c \<Longrightarrow> forgets c (fst (gc_IsPending c rq now))"
  by (rule Clock_cases [of c now]) (auto simp: forgets_def tidy_def gc_ops)

lemma Fail_forgets: "tidy c \<Longrightarrow> forgets c (gc_Fail c rq)"
  by (auto simp: forgets_def tidy_def gc_ops)

lemma PlayerId_forgets: "tidy c \<Longrightarrow> forgets c (fst (gc_PlayerId c now))"
  using Active_forgets [of c now] by (cases "gc_Active c now") (simp add: gc_PlayerId_def)

lemma Sign_forgets: "tidy c \<Longrightarrow> forgets c (fst (gc_SignChallenge ed sg c nonce issued expires challenge now))"
  using Active_forgets [of c now] by (cases "gc_Active c now") (simp add: gc_SignChallenge_def split: option.splits)

lemma Begin_cases:
  assumes "gc_Begin c domain now = (c', r)" "tidy c"
  shows "r = None \<and> forgets c c' \<or>
    r = Some \<lparr>rq_Nonce = gc_Nonce c, rq_Serial = gc_Serial c + 1\<rparr> \<and> gc_Connected c \<and> gc_LastNow c \<le> now \<and>
    c' = c\<lparr>gc_LastNow := now, gc_Identity := None, gc_Seal := None, gc_Domain := domain, gc_Pending := True,
           gc_Deadline := now + 120000, gc_Serial := gc_Serial c + 1\<rparr>"
  using assms by (rule_tac Clock_cases [of c now]) (auto simp: forgets_def tidy_def gc_ops split: if_splits)

lemma Complete_cases:
  assumes "gc_Complete c rq echo gi now = (c', r)" "tidy c"
  shows "\<not> r \<and> forgets c c' \<or>
    r \<and> gc_Connected c \<and> gc_LastNow c \<le> now \<and> gc_Matches c rq \<and> now < gc_Deadline c \<and> echo = gc_Nonce c \<and>
    gi_Domain gi = gc_Domain c \<and> IsGameIdentityContextValid gi now \<and> gi_AuthenticationExpiresAt gi \<le> gc_Deadline c \<and>
    c' = c\<lparr>gc_LastNow := now, gc_Pending := False, gc_Identity := Some gi\<rparr>"
  using assms by (rule_tac Clock_cases [of c now]) (auto simp: forgets_def tidy_def gc_ops gc_Matches_def split: if_splits)

lemma gc_step_cases:
  assumes "tidy c"
  obtains "forgets c (gc_step env c op)"
  | domain now where "op = Op_Begin domain now" "snd (gc_Begin c domain now) = Some \<lparr>rq_Nonce = gc_Nonce c, rq_Serial = gc_Serial c + 1\<rparr>"
      "gc_Connected c" "gc_LastNow c \<le> now"
      "gc_step env c op = c\<lparr>gc_LastNow := now, gc_Identity := None, gc_Seal := None, gc_Domain := domain, gc_Pending := True,
           gc_Deadline := now + 120000, gc_Serial := gc_Serial c + 1\<rparr>"
  | rq gi now where "op = Op_Complete rq (gc_Nonce c) gi now" "gc_Connected c" "gc_LastNow c \<le> now" "gc_Matches c rq"
      "now < gc_Deadline c" "gi_Domain gi = gc_Domain c" "IsGameIdentityContextValid gi now"
      "gi_AuthenticationExpiresAt gi \<le> gc_Deadline c"
      "gc_step env c op = c\<lparr>gc_LastNow := now, gc_Pending := False, gc_Identity := Some gi\<rparr>"
proof (cases op)
  case (Op_Begin domain now)
  then show ?thesis using Begin_cases [OF surjective_pairing assms, of domain now] that by auto
next
  case (Op_Complete rq echo gi now)
  then show ?thesis using Complete_cases [OF surjective_pairing assms, of rq echo gi now] that by auto
qed (use that assms in \<open>simp_all add: forgets_Disconnect seal_forgets open_forgets IsPending_forgets Fail_forgets
      PlayerId_forgets Sign_forgets\<close>)

section \<open>Where an identity comes from\<close>

text \<open>\<open>requested env c ops pre domain t0 rest\<close>: the run is \<open>pre\<close>, a begin that issued the request with the current
  serial, and \<open>rest\<close>.\<close>

definition requested ::
  "game_env \<Rightarrow> game_conn \<Rightarrow> gc_op list \<Rightarrow> gc_op list \<Rightarrow> string \<Rightarrow> int \<Rightarrow> gc_op list \<Rightarrow> string \<Rightarrow> bool" where
  "requested env c ops pre domain t0 rest nonce \<longleftrightarrow>
     ops = pre @ Op_Begin domain t0 # rest \<and>
     snd (gc_Begin (gc_run env c pre) domain t0) = Some \<lparr>rq_Nonce = nonce, rq_Serial = gc_Serial (gc_run env c ops)\<rparr>"

definition from_request :: "game_env \<Rightarrow> byte list \<Rightarrow> gc_op list \<Rightarrow> game_identity \<Rightarrow> int \<Rightarrow> bool" where
  "from_request env random ops gi now \<longleftrightarrow>
     (\<exists>pre domain t0 mid t1 post.
        requested env (new_connection random) ops pre domain t0
          (mid @ Op_Complete \<lparr>rq_Nonce = Hex random, rq_Serial = gc_Serial (gc_run env (new_connection random) ops)\<rparr>
             (Hex random) gi t1 # post) (Hex random) \<and>
        gi_Domain gi = domain \<and> t0 \<le> t1 \<and> t1 \<le> now \<and> t1 < t0 + 120000 \<and> IsGameIdentityContextValid gi t1 \<and>
        gi_AuthenticationExpiresAt gi \<le> t0 + 120000)"

definition run_ok :: "game_env \<Rightarrow> byte list \<Rightarrow> gc_op list \<Rightarrow> bool" where
  "run_ok env random ops \<longleftrightarrow>
     (let c = gc_run env (new_connection random) ops in
      tidy c \<and>
      (gc_Connected c \<longrightarrow> gc_Nonce c = Hex random \<and> Op_Disconnect \<notin> set ops) \<and>
      (gc_Pending c \<longrightarrow> (\<exists>pre t0 mid. requested env (new_connection random) ops pre (gc_Domain c) t0 mid (Hex random) \<and>
         gc_Deadline c = t0 + 120000 \<and> t0 \<le> gc_LastNow c)) \<and>
      (\<forall>gi. gc_Identity c = Some gi \<longrightarrow> gc_Connected c \<and> from_request env random ops gi (gc_LastNow c)))"

lemma requested_snoc:
  "requested env c ops pre domain t0 rest nonce \<Longrightarrow>
   gc_Serial (gc_run env c (ops @ [op])) = gc_Serial (gc_run env c ops) \<Longrightarrow>
   requested env c (ops @ [op]) pre domain t0 (rest @ [op]) nonce"
  by (simp add: requested_def)

lemma from_request_snoc:
  assumes "from_request env random ops gi now" "now \<le> now'"
    and s: "gc_Serial (gc_run env (new_connection random) (ops @ [op])) = gc_Serial (gc_run env (new_connection random) ops)"
  shows "from_request env random (ops @ [op]) gi now'"
  using assms(1,2) requested_snoc [OF _ s] unfolding from_request_def s by (fastforce dest: order_trans)

lemma run_ok_all: "run_ok env random ops"
proof (induction ops rule: rev_induct)
  case Nil
  show ?case by (simp add: run_ok_def gc_run_simps new_connection_def tidy_def)
next
  case (snoc op ops)
  define c where "c = gc_run env (new_connection random) ops"
  note ok = snoc [unfolded run_ok_def Let_def, folded c_def]
  have run: "gc_run env (new_connection random) (ops @ [op]) = gc_step env c op" by (simp add: gc_run_simps c_def)
  have t: "tidy c" using ok by blast
  have nodisc: "gc_Connected (gc_step env c op) \<Longrightarrow> op \<noteq> Op_Disconnect" by auto
  show ?case
  proof (rule gc_step_cases [OF t, of env op])
    assume f: "forgets c (gc_step env c op)"
    have s: "gc_Serial (gc_run env (new_connection random) (ops @ [op])) = gc_Serial (gc_run env (new_connection random) ops)"
      using f by (simp add: run forgets_def flip: c_def)
    have n: "gc_LastNow c \<le> gc_LastNow (gc_step env c op)" using f by (simp add: forgets_def)
    show ?case
      unfolding run_ok_def Let_def run
    proof (intro conjI impI allI)
      show "tidy (gc_step env c op)" by (rule forgets_tidy [OF f])
      show "gc_Nonce (gc_step env c op) = Hex random" "Op_Disconnect \<notin> set (ops @ [op])"
        if "gc_Connected (gc_step env c op)"
        using that f ok nodisc [OF that] by (auto simp: forgets_def)
      show "\<exists>pre t0 mid. requested env (new_connection random) (ops @ [op]) pre (gc_Domain (gc_step env c op)) t0 mid (Hex random) \<and>
          gc_Deadline (gc_step env c op) = t0 + 120000 \<and> t0 \<le> gc_LastNow (gc_step env c op)"
        if "gc_Pending (gc_step env c op)"
      proof -
        have p: "gc_Pending c" "gc_Domain (gc_step env c op) = gc_Domain c" "gc_Deadline (gc_step env c op) = gc_Deadline c"
          using that f by (simp_all add: forgets_def)
        then obtain pre t0 mid where r: "requested env (new_connection random) ops pre (gc_Domain c) t0 mid (Hex random)"
          "gc_Deadline c = t0 + 120000" "t0 \<le> gc_LastNow c"
          using ok by blast
        show ?thesis using requested_snoc [OF r(1) s] r(2,3) n unfolding p(2,3) by force
      qed
      show "gc_Connected (gc_step env c op)" "from_request env random (ops @ [op]) gi (gc_LastNow (gc_step env c op))"
        if "gc_Identity (gc_step env c op) = Some gi" for gi
        using that f ok from_request_snoc [OF _ n s] by (auto simp: forgets_def)
    qed
  next
    fix domain now
    assume b: "op = Op_Begin domain now"
      "snd (gc_Begin c domain now) = Some \<lparr>rq_Nonce = gc_Nonce c, rq_Serial = gc_Serial c + 1\<rparr>"
      "gc_Connected c" "gc_LastNow c \<le> now"
      "gc_step env c op = c\<lparr>gc_LastNow := now, gc_Identity := None, gc_Seal := None, gc_Domain := domain, gc_Pending := True,
           gc_Deadline := now + 120000, gc_Serial := gc_Serial c + 1\<rparr>"
    have "requested env (new_connection random) (ops @ [op]) ops domain now [] (Hex random)"
      unfolding requested_def run using b ok by (simp flip: c_def)
    then show ?case using b ok t unfolding run_ok_def Let_def run by (auto simp: tidy_def)
  next
    fix rq gi now
    assume b: "op = Op_Complete rq (gc_Nonce c) gi now" "gc_Connected c" "gc_LastNow c \<le> now" "gc_Matches c rq"
      "now < gc_Deadline c" "gi_Domain gi = gc_Domain c" "IsGameIdentityContextValid gi now"
      "gi_AuthenticationExpiresAt gi \<le> gc_Deadline c"
      "gc_step env c op = c\<lparr>gc_LastNow := now, gc_Pending := False, gc_Identity := Some gi\<rparr>"
    have nonce: "gc_Nonce c = Hex random" and rq: "rq = \<lparr>rq_Nonce = Hex random, rq_Serial = gc_Serial c\<rparr>"
      using ok b by (auto simp: gc_Matches_def)
    obtain pre t0 mid where r: "requested env (new_connection random) ops pre (gc_Domain c) t0 mid (Hex random)"
      "gc_Deadline c = t0 + 120000" "t0 \<le> gc_LastNow c"
      using ok b(4) by (auto simp: gc_Matches_def)
    have s: "gc_Serial (gc_run env (new_connection random) (ops @ [op])) = gc_Serial c" by (simp add: run b(9))
    have "from_request env random (ops @ [op]) gi now"
      unfolding from_request_def s
      using requested_snoc [OF r(1), of op] r(2,3) b s
      by (intro exI [of _ pre] exI [of _ "gc_Domain c"] exI [of _ t0] exI [of _ mid] exI [of _ now] exI [of _ "[]"])
        (simp add: nonce rq flip: c_def)
    then show ?case using b ok t nonce unfolding run_ok_def Let_def run by (simp add: tidy_def)
  qed
qed

text \<open>C6. A connection answers with a player name only after that player was authenticated for it: the run has an
  accepted begin, after which no other request was issued, and a completion of exactly this request that echoed the
  nonce of the connection, for the requested domain, with a valid context, in time. The name is that of this
  context, which has not expired, and the connection was never closed.\<close>

theorem player_was_authenticated:
  assumes "gc_PlayerId (gc_run env (new_connection random) ops) now = (c', Some player)"
  shows "\<exists>gi. gi_PlayerId gi = player \<and> IsGameIdentityContextValid gi now \<and> from_request env random ops gi now \<and>
    Op_Disconnect \<notin> set ops"
proof -
  define c where "c = gc_run env (new_connection random) ops"
  note ok = run_ok_all [of env random ops, unfolded run_ok_def Let_def, folded c_def]
  have p: "gc_PlayerId c now = (c', Some player)" using assms by (simp add: c_def)
  obtain gi where gi: "gc_Connected c" "gc_Identity c = Some gi" "gi_PlayerId gi = player" "gc_LastNow c \<le> now"
    "IsGameIdentityContextValid gi now"
    using p by (rule_tac Clock_cases [of c now]) (auto simp: gc_ops split: option.splits if_splits)
  then have "from_request env random ops gi (gc_LastNow c)" using ok by blast
  then have "from_request env random ops gi now" unfolding from_request_def using gi(4) by (meson order_trans)
  then show ?thesis using ok gi by blast
qed

lemma dead_stays:
  assumes "tidy c" "\<not> gc_Matches c rq" "rq_Serial rq \<le> gc_Serial c"
  shows "tidy (gc_step env c op) \<and> \<not> gc_Matches (gc_step env c op) rq \<and> rq_Serial rq \<le> gc_Serial (gc_step env c op)"
proof (rule gc_step_cases [OF assms(1), of env op])
  assume "forgets c (gc_step env c op)"
  then show ?thesis using assms forgets_tidy by (auto simp: forgets_def gc_Matches_def)
qed (use assms in \<open>auto simp: tidy_def gc_Matches_def\<close>)

text \<open>C26. A request that is no longer the pending one (it was completed, it failed or expired, another one was begun,
  a sealed offer was made or the connection closed) never becomes current again, whatever happens later: its
  completion is refused and changes nothing but the clock.\<close>

theorem stale_request_inert:
  assumes "c = gc_run env (new_connection random) ops" "\<not> gc_Matches c rq" "rq_Serial rq \<le> gc_Serial c"
  shows "\<not> gc_Matches (gc_run env c later) rq \<and>
    gc_Complete (gc_run env c later) rq echo gi now = (fst (gc_Clock (gc_run env c later) now), False) \<and>
    gc_Fail (gc_run env c later) rq = gc_run env c later"
proof -
  have t: "tidy c" using run_ok_all [of env random ops] by (simp add: assms(1) run_ok_def Let_def)
  have "tidy (gc_run env c later) \<and> \<not> gc_Matches (gc_run env c later) rq \<and> rq_Serial rq \<le> gc_Serial (gc_run env c later)"
  proof (induction later rule: rev_induct)
    case (snoc op later)
    then show ?case unfolding gc_run_simps by (intro dead_stays) simp_all
  qed (use t assms(2,3) in \<open>simp add: gc_run_simps\<close>)
  then show ?thesis
    by (rule_tac Clock_cases [of "gc_run env c later" now]) (auto simp: gc_Complete_def gc_Fail_def gc_Matches_def)
qed

section \<open>Examples\<close>

lemma some_identity_valid: "0 \<le> now \<Longrightarrow> now < 5000 \<Longrightarrow> IsGameIdentityContextValid some_identity now"
proof -
  have "IsGameIdentityContextValid some_identity 1000" by code_simp
  then show "0 \<le> now \<Longrightarrow> now < 5000 \<Longrightarrow> IsGameIdentityContextValid some_identity now"
    by (simp add: IsGameIdentityContextValid_def MaxSafeInteger_def) (simp add: some_identity_def)
qed

definition some_env :: game_env where
  "some_env = \<lparr>ge_ed = some_ed25519, ge_signer = some_signer, ge_ssl = some_openssl, ge_parser = some_parser\<rparr>"

definition some_random :: "byte list" where "some_random = replicate 32 7"

definition some_pairing :: "gc_op list" where
  "some_pairing =
     [Op_Begin ''game.example'' 1000, Op_Begin ''game.example'' 1050,
      Op_Complete \<lparr>rq_Nonce = Hex some_random, rq_Serial = 2\<rparr> (Hex some_random) some_identity 1100]"

lemma some_pairing_run:
  "gc_run some_env (new_connection some_random) some_pairing =
   (new_connection some_random)\<lparr>gc_Serial := 2, gc_LastNow := 1100, gc_Deadline := 121050, gc_Domain := ''game.example'',
      gc_Identity := Some some_identity\<rparr>"
proof -
  have "gi_Domain some_identity = ''game.example''" "gi_AuthenticationExpiresAt some_identity = 5000"
    by (simp_all add: some_identity_def)
  then show ?thesis
    using some_identity_valid [of 1100]
    by (simp add: some_pairing_def gc_run_simps gc_Begin_def gc_Complete_def gc_Clock_def gc_Matches_def new_connection_def)
qed

lemma some_player: "gc_PlayerId (gc_run some_env (new_connection some_random) some_pairing) 1200 =
   ((gc_run some_env (new_connection some_random) some_pairing)\<lparr>gc_LastNow := 1200\<rparr>, Some ''registered-account'')"
proof -
  have "gi_PlayerId some_identity = ''registered-account''" by (simp add: some_identity_def)
  then show ?thesis
    using some_identity_valid [of 1200] unfolding some_pairing_run
    by (simp add: gc_PlayerId_def gc_Active_def gc_Clock_def new_connection_def)
qed

lemma player_was_authenticated_witness:
  "\<exists>gi. gi_PlayerId gi = ''registered-account'' \<and> IsGameIdentityContextValid gi 1200 \<and>
    from_request some_env some_random some_pairing gi 1200 \<and> Op_Disconnect \<notin> set some_pairing"
  by (rule player_was_authenticated [OF some_player])

lemma stale_request_inert_witness:
  "\<not> snd (gc_Complete (gc_run some_env (gc_run some_env (new_connection some_random) some_pairing) [Op_Begin ''game.example'' 1300])
       \<lparr>rq_Nonce = Hex some_random, rq_Serial = 1\<rparr> (Hex some_random) some_identity 1400)"
proof -
  have "\<not> gc_Matches (gc_run some_env (new_connection some_random) some_pairing) \<lparr>rq_Nonce = Hex some_random, rq_Serial = 1\<rparr>"
    "rq_Serial \<lparr>rq_Nonce = Hex some_random, rq_Serial = 1\<rparr> \<le> gc_Serial (gc_run some_env (new_connection some_random) some_pairing)"
    unfolding some_pairing_run by (simp_all add: gc_Matches_def new_connection_def)
  from stale_request_inert [OF refl this, of "[Op_Begin ''game.example'' 1300]" "Hex some_random" some_identity 1400]
  show ?thesis by simp
qed

end
