(* ===== verification/PairingHttp.thy ===== *)
theory PairingHttp
  imports GameConnection
begin

text \<open>
  The service that redeems pairing tokens, \<open>src/neonrelay/game_pairing_http.cpp\<close>, over a store of connections.
  A \<open>shared_ptr\<close> or \<open>weak_ptr\<close> to a connection is its number in the store; \<open>lock()\<close> is the look-up, \<open>None\<close>
  once the connection object is destroyed. The HTTP library is outside: a request that is handed to it gets the
  next number, and what the library reports of each request at the time of a poll is an argument.
\<close>

datatype http_state = Http_Error | Http_Queued | Http_Running | Http_Done | Http_Aborted

record http_reply =
  hp_State :: http_state
  hp_StatusCode :: int
  hp_Result :: "string option"

definition hp_Done :: "http_reply \<Rightarrow> bool" where
  "hp_Done reply \<longleftrightarrow> hp_State reply \<noteq> Http_Queued \<and> hp_State reply \<noteq> Http_Running"

record pairing_pending =
  pp_Connection :: nat
  pp_Request :: game_request
  pp_Http :: nat
  pp_StartedAt :: int

record pairing_http =
  ph_Origin :: string
  ph_Domain :: string
  ph_Pending :: "pairing_pending list"
  ph_Run :: "(string \<times> string) list"
  ph_Aborted :: "nat list"

type_synonym conn_store = "nat \<Rightarrow> game_conn option"

definition new_pairing_http :: "string \<Rightarrow> string \<Rightarrow> pairing_http" where
  "new_pairing_http origin domain =
     \<lparr>ph_Origin = origin, ph_Domain = domain, ph_Pending = [], ph_Run = [], ph_Aborted = []\<rparr>"

definition PendingCount :: "pairing_http \<Rightarrow> nat" where
  "PendingCount ph = length (ph_Pending ph)"

text \<open>The number of a request is its position in \<open>ph_Run\<close>.\<close>

definition http_Start ::
  "(byte list \<Rightarrow> byte list) \<Rightarrow> ed25519 \<Rightarrow> match_signer \<Rightarrow> pairing_http \<Rightarrow> conn_store \<Rightarrow> nat \<Rightarrow> string \<Rightarrow> int \<Rightarrow>
   pairing_http \<times> conn_store \<times> bool" where
  "http_Start sha256 ed sg ph conns k token now =
     (case conns k of
        None \<Rightarrow> (ph, conns, False)
      | Some c \<Rightarrow>
          if \<not> IsPairingOrigin (ph_Origin ph) \<or> length (ph_Pending ph) \<ge> 128 then (ph, conns, False)
          else
            let body = PairingRequestJson sha256 ed sg (ph_Domain ph) (gc_Nonce c) token in
            if body = [] then (ph, conns, False)
            else
              let (c, request) = gc_Begin c (ph_Domain ph) now; conns = conns(k \<mapsto> c) in
              case request of
                None \<Rightarrow> (ph, conns, False)
              | Some rq \<Rightarrow>
                  let superseded = filter (\<lambda>p. pp_Connection p = k) (ph_Pending ph);
                      ph = ph\<lparr>ph_Pending := filter (\<lambda>p. pp_Connection p \<noteq> k) (ph_Pending ph),
                              ph_Aborted := ph_Aborted ph @ map pp_Http superseded\<rparr>;
                      entry = \<lparr>pp_Connection = k, pp_Request = rq, pp_Http = length (ph_Run ph), pp_StartedAt = now\<rparr> in
                  (ph\<lparr>ph_Pending := ph_Pending ph @ [entry],
                      ph_Run := ph_Run ph @ [(ph_Origin ph @ ''/v2/game/redeem'', body)]\<rparr>, conns, True))"

text \<open>The loop body of \<open>Poll\<close> for one entry: the store, and whether the entry stays and whether its request is
  aborted.\<close>

definition lock_pending :: "conn_store \<Rightarrow> pairing_pending \<Rightarrow> int \<Rightarrow> conn_store \<times> bool" where
  "lock_pending conns p now =
     (case conns (pp_Connection p) of
        None \<Rightarrow> (conns, False)
      | Some c \<Rightarrow> let (c, current) = gc_IsPending c (pp_Request p) now in (conns(pp_Connection p \<mapsto> c), current))"

definition redeem :: "json_parser \<Rightarrow> http_reply \<Rightarrow> conn_store \<Rightarrow> pairing_pending \<Rightarrow> int \<Rightarrow> conn_store \<times> bool" where
  "redeem json_parse reply conns p now =
     (case (conns (pp_Connection p), hp_Result reply) of
        (Some c, Some data) \<Rightarrow>
          if hp_State reply = Http_Done \<and> hp_StatusCode reply = 200 \<and> length data \<le> 4096 then
            (case ParsePairingResponse json_parse data now of
               None \<Rightarrow> (conns, False)
             | Some (gi, nonce) \<Rightarrow>
                 let (c, accepted) = gc_Complete c (pp_Request p) nonce gi now in (conns(pp_Connection p \<mapsto> c), accepted))
          else (conns, False)
      | _ \<Rightarrow> (conns, False))"

definition poll_one ::
  "json_parser \<Rightarrow> (nat \<Rightarrow> http_reply) \<Rightarrow> conn_store \<Rightarrow> pairing_pending \<Rightarrow> int \<Rightarrow> conn_store \<times> bool \<times> bool" where
  "poll_one json_parse replies conns p now =
     (let timed_out = now < pp_StartedAt p \<or> now - pp_StartedAt p \<ge> 10000;
          (conns, current) = lock_pending conns p now;
          reply = replies (pp_Http p) in
      if current \<and> \<not> timed_out \<and> \<not> hp_Done reply then (conns, True, False)
      else
        let (conns, accepted) = (if current \<and> \<not> timed_out then redeem json_parse reply conns p now else (conns, False)) in
        if accepted then (conns, False, False)
        else
          (case conns (pp_Connection p) of
             None \<Rightarrow> conns
           | Some c \<Rightarrow> conns(pp_Connection p \<mapsto> gc_Fail c (pp_Request p)), False, True))"

fun poll_loop ::
  "json_parser \<Rightarrow> (nat \<Rightarrow> http_reply) \<Rightarrow> int \<Rightarrow> conn_store \<Rightarrow> pairing_pending list \<Rightarrow>
   conn_store \<times> pairing_pending list \<times> nat list" where
  "poll_loop json_parse replies now conns [] = (conns, [], [])"
| "poll_loop json_parse replies now conns (p # ps) =
     (let (conns, keep, abort) = poll_one json_parse replies conns p now;
          (conns, kept, aborted) = poll_loop json_parse replies now conns ps in
      (conns, if keep then p # kept else kept, if abort then pp_Http p # aborted else aborted))"

definition http_Poll ::
  "json_parser \<Rightarrow> (nat \<Rightarrow> http_reply) \<Rightarrow> pairing_http \<Rightarrow> conn_store \<Rightarrow> int \<Rightarrow> pairing_http \<times> conn_store" where
  "http_Poll json_parse replies ph conns now =
     (let (conns, kept, aborted) = poll_loop json_parse replies now conns (ph_Pending ph) in
      (ph\<lparr>ph_Pending := kept, ph_Aborted := ph_Aborted ph @ aborted\<rparr>, conns))"

text \<open>The destructor fails what is still pending.\<close>

fun fail_all :: "conn_store \<Rightarrow> pairing_pending list \<Rightarrow> conn_store" where
  "fail_all conns [] = conns"
| "fail_all conns (p # ps) =
     fail_all (case conns (pp_Connection p) of
                 None \<Rightarrow> conns
               | Some c \<Rightarrow> conns(pp_Connection p \<mapsto> gc_Fail c (pp_Request p))) ps"

definition http_Destroy :: "pairing_http \<Rightarrow> conn_store \<Rightarrow> pairing_http \<times> conn_store" where
  "http_Destroy ph conns =
     (ph\<lparr>ph_Pending := [], ph_Aborted := ph_Aborted ph @ map pp_Http (ph_Pending ph)\<rparr>, fail_all conns (ph_Pending ph))"

section \<open>The connections of the client slots\<close>

text \<open>\<open>CGameContext\<close> owns one connection per client slot: a client that connects gets a new object with a fresh
  nonce; the old one of the slot is disconnected, and destroyed because the slot was its owner.\<close>

record identity_slots =
  is_Slots :: "nat \<Rightarrow> nat option"
  is_Conns :: conn_store
  is_Next :: nat

definition release_slot :: "identity_slots \<Rightarrow> nat \<Rightarrow> identity_slots" where
  "release_slot s i =
     (case is_Slots s i of
        None \<Rightarrow> s
      | Some k \<Rightarrow> s\<lparr>is_Conns := (is_Conns s)(k := None), is_Slots := (is_Slots s)(i := None)\<rparr>)"

definition client_connected :: "identity_slots \<Rightarrow> nat \<Rightarrow> byte list \<Rightarrow> identity_slots" where
  "client_connected s i random =
     (let s = release_slot s i in
      s\<lparr>is_Conns := (is_Conns s)(is_Next s \<mapsto> new_connection random),
        is_Slots := (is_Slots s)(i \<mapsto> is_Next s), is_Next := is_Next s + 1\<rparr>)"

definition client_dropped :: "identity_slots \<Rightarrow> nat \<Rightarrow> identity_slots" where
  "client_dropped s i = release_slot s i"

section \<open>One entry\<close>

lemma fun_upd_other: "k \<noteq> pp_Connection p \<Longrightarrow> (conns(pp_Connection p := x)) k = conns k"
  by simp

lemma poll_one_other:
  "poll_one jp replies conns p now = (conns', keep, abort) \<Longrightarrow> k \<noteq> pp_Connection p \<Longrightarrow> conns' k = conns k"
  by (auto simp: poll_one_def lock_pending_def redeem_def Let_def split: prod.splits option.splits if_splits)

lemma poll_one_keep:
  "poll_one jp replies conns p now = (conns', True, abort) \<Longrightarrow>
   pp_StartedAt p \<le> now \<and> now < pp_StartedAt p + 10000 \<and> \<not> abort"
  by (auto simp: poll_one_def Let_def split: prod.splits if_splits)

text \<open>What a poll may do to the connection of an entry: forget, or accept the reply of this very request.\<close>

definition redeemed :: "json_parser \<Rightarrow> http_reply \<Rightarrow> pairing_pending \<Rightarrow> int \<Rightarrow> game_conn \<Rightarrow> game_identity \<Rightarrow> bool" where
  "redeemed jp reply p now c gi \<longleftrightarrow>
     gc_Matches c (pp_Request p) \<and> pp_StartedAt p \<le> now \<and> now < pp_StartedAt p + 10000 \<and>
     hp_State reply = Http_Done \<and> hp_StatusCode reply = 200 \<and>
     (\<exists>data. hp_Result reply = Some data \<and> ParsePairingResponse jp data now = Some (gi, gc_Nonce c)) \<and>
     gi_Domain gi = gc_Domain c"

lemma forgets_trans: "forgets a b \<Longrightarrow> forgets b c \<Longrightarrow> forgets a c"
  by (auto simp: forgets_def)

lemma lock_current:
  "gc_IsPending c rq now = (c', True) \<Longrightarrow> c' = c\<lparr>gc_LastNow := now\<rparr> \<and> gc_Matches c rq"
  by (cases rule: Clock_cases [of c now]) (auto simp: gc_IsPending_def gc_Matches_def split: if_splits)

lemma redeem_cases:
  assumes "redeem jp reply conns p now = (conns2, accepted)" "conns (pp_Connection p) = Some c"
  obtains "\<not> accepted" "conns2 = conns"
  | data gi nonce c2 where "hp_State reply = Http_Done" "hp_StatusCode reply = 200" "length data \<le> 4096"
      "hp_Result reply = Some data" "ParsePairingResponse jp data now = Some (gi, nonce)"
      "gc_Complete c (pp_Request p) nonce gi now = (c2, accepted)" "conns2 = conns(pp_Connection p \<mapsto> c2)"
  using assms by (cases "hp_Result reply") (auto simp: redeem_def split: option.splits if_splits prod.splits)

lemma poll_one_conn:
  assumes one: "poll_one jp replies conns p now = (conns', keep, abort)"
    and c: "conns (pp_Connection p) = Some c" "tidy c"
  shows "\<exists>c'. conns' (pp_Connection p) = Some c' \<and> tidy c' \<and>
    (forgets c c' \<or>
     (\<exists>gi. redeemed jp (replies (pp_Http p)) p now c gi \<and> gc_Identity c' = Some gi \<and> \<not> gc_Pending c'))"
proof -
  obtain c1 current where lock: "gc_IsPending c (pp_Request p) now = (c1, current)" by fastforce
  have f1: "forgets c c1" using IsPending_forgets [OF c(2), of "pp_Request p" now] lock by simp
  have t1: "tidy c1" by (rule forgets_tidy [OF f1])
  have fail: "tidy (gc_Fail c2 rq) \<and> forgets c (gc_Fail c2 rq)" if "forgets c c2" for c2 rq
    using forgets_tidy forgets_trans that Fail_forgets by blast
  show ?thesis
  proof (cases "\<exists>data gi nonce c2. current \<and> pp_StartedAt p \<le> now \<and> now < pp_StartedAt p + 10000 \<and>
      hp_State (replies (pp_Http p)) = Http_Done \<and> hp_StatusCode (replies (pp_Http p)) = 200 \<and> length data \<le> 4096 \<and>
      hp_Result (replies (pp_Http p)) = Some data \<and> ParsePairingResponse jp data now = Some (gi, nonce) \<and>
      gc_Complete c1 (pp_Request p) nonce gi now = (c2, True)")
    case True
    then obtain data gi nonce c2 where a: "current" "pp_StartedAt p \<le> now" "now < pp_StartedAt p + 10000"
      "hp_State (replies (pp_Http p)) = Http_Done" "hp_StatusCode (replies (pp_Http p)) = 200" "length data \<le> 4096"
      "hp_Result (replies (pp_Http p)) = Some data" "ParsePairingResponse jp data now = Some (gi, nonce)"
      "gc_Complete c1 (pp_Request p) nonce gi now = (c2, True)"
      by blast
    have c1: "c1 = c\<lparr>gc_LastNow := now\<rparr>" "gc_Matches c (pp_Request p)" using lock_current [of c "pp_Request p" now c1] lock a(1) by simp_all
    have "conns' (pp_Connection p) = Some c2"
      using one a c by (auto simp: poll_one_def lock_pending_def redeem_def Let_def lock hp_Done_def split: if_splits)
    then show ?thesis
      using Complete_cases [OF a(9) t1] a c1 by (auto simp: redeemed_def tidy_def)
  next
    case False
    have "\<exists>c2. conns' (pp_Connection p) = Some c2 \<and> tidy c2 \<and> forgets c c2"
    proof (cases "current \<and> \<not> (now < pp_StartedAt p \<or> now - pp_StartedAt p \<ge> 10000)")
      case True
      show ?thesis
      proof (cases "hp_Done (replies (pp_Http p))")
        case finished: True
        obtain conns2 accepted where r: "redeem jp (replies (pp_Http p)) (conns(pp_Connection p \<mapsto> c1)) p now = (conns2, accepted)"
          by fastforce
        have n: "\<not> accepted \<and> (\<exists>c2. conns2 (pp_Connection p) = Some c2 \<and> forgets c1 c2)"
        proof (rule redeem_cases [OF r])
          fix data gi nonce c2
          assume d: "hp_State (replies (pp_Http p)) = Http_Done" "hp_StatusCode (replies (pp_Http p)) = 200" "length data \<le> 4096"
            "hp_Result (replies (pp_Http p)) = Some data" "ParsePairingResponse jp data now = Some (gi, nonce)"
            "gc_Complete c1 (pp_Request p) nonce gi now = (c2, accepted)"
            "conns2 = (conns(pp_Connection p \<mapsto> c1))(pp_Connection p \<mapsto> c2)"
          have "\<not> accepted" using False True d by fastforce
          then show ?thesis using Complete_cases [OF d(6) t1] d(7) by simp
        qed (simp_all add: forgets_refl [OF t1])
        then show ?thesis
          using one True finished n c r forgets_trans [OF f1] fail
          by (auto simp: poll_one_def lock_pending_def lock Let_def split: if_splits)
      qed (use one True c f1 t1 in \<open>auto simp: poll_one_def lock_pending_def lock Let_def split: if_splits\<close>)
    qed (use one c f1 t1 fail in \<open>auto simp: poll_one_def lock_pending_def lock Let_def split: if_splits\<close>)
    then show ?thesis by blast
  qed
qed

section \<open>A poll\<close>

lemma poll_one_none:
  "poll_one jp replies conns p now = (conns', keep, abort) \<Longrightarrow> conns k = None \<Longrightarrow> conns' k = None"
  by (cases "k = pp_Connection p")
    (auto simp: poll_one_other, auto simp: poll_one_def lock_pending_def Let_def split: if_splits)

lemma matches_back: "forgets c c1 \<Longrightarrow> gc_Matches c1 rq \<Longrightarrow> gc_Matches c rq \<and> gc_Nonce c1 = gc_Nonce c \<and> gc_Domain c1 = gc_Domain c"
  by (auto simp: forgets_def gc_Matches_def)

lemma poll_loop_conn:
  assumes "poll_loop jp replies now conns ps = (conns', kept, aborted)" "conns k = Some c" "tidy c"
  shows "\<exists>c'. conns' k = Some c' \<and> tidy c' \<and>
    (gc_Identity c' \<noteq> None \<longrightarrow> gc_Identity c' = gc_Identity c \<or>
     (\<exists>p gi. p \<in> set ps \<and> pp_Connection p = k \<and> gc_Identity c' = Some gi \<and> redeemed jp (replies (pp_Http p)) p now c gi))"
  using assms
proof (induction ps arbitrary: conns c kept aborted)
  case (Cons p ps)
  obtain conns1 keep abort where one: "poll_one jp replies conns p now = (conns1, keep, abort)" by (metis prod_cases3)
  obtain kept1 aborted1 where rest: "poll_loop jp replies now conns1 ps = (conns', kept1, aborted1)"
    using Cons.prems(1) one by (auto split: prod.splits)
  show ?case
  proof (cases "pp_Connection p = k")
    case False
    then have "conns1 k = Some c" using poll_one_other [OF one, of k] Cons.prems(2) by simp
    from Cons.IH [OF rest this Cons.prems(3)] show ?thesis by (metis list.set_intros(2))
  next
    case True
    obtain c1 where c1: "conns1 k = Some c1" "tidy c1"
      "forgets c c1 \<or> (\<exists>gi. redeemed jp (replies (pp_Http p)) p now c gi \<and> gc_Identity c1 = Some gi \<and> \<not> gc_Pending c1)"
      using poll_one_conn [OF one _ Cons.prems(3)] Cons.prems(2) True by auto
    obtain c' where c': "conns' k = Some c'" "tidy c'"
      "gc_Identity c' \<noteq> None \<Longrightarrow> gc_Identity c' = gc_Identity c1 \<or>
       (\<exists>p gi. p \<in> set ps \<and> pp_Connection p = k \<and> gc_Identity c' = Some gi \<and> redeemed jp (replies (pp_Http p)) p now c1 gi)"
      using Cons.IH [OF rest c1(1,2)] by blast
    have earlier: "redeemed jp (replies (pp_Http q)) q now c gi" if "redeemed jp (replies (pp_Http q)) q now c1 gi" "forgets c c1" for q gi
      using that matches_back [OF that(2), of "pp_Request q"] by (simp add: redeemed_def)
    have dead: "\<not> redeemed jp (replies (pp_Http q)) q now c1 gi" if "\<not> gc_Pending c1" for q gi
      using that by (simp add: redeemed_def gc_Matches_def)
    have "gc_Identity c' = gc_Identity c \<or>
       (\<exists>q gi. q \<in> set (p # ps) \<and> pp_Connection q = k \<and> gc_Identity c' = Some gi \<and> redeemed jp (replies (pp_Http q)) q now c gi)"
      if "gc_Identity c' \<noteq> None"
      using c1(3)
    proof
      assume f: "forgets c c1"
      then have "gc_Identity c1 = None \<or> gc_Identity c1 = gc_Identity c" by (auto simp: forgets_def)
      then show ?thesis using c'(3) [OF that] earlier [OF _ f] that by (metis list.set_intros(2))
    next
      assume "\<exists>gi. redeemed jp (replies (pp_Http p)) p now c gi \<and> gc_Identity c1 = Some gi \<and> \<not> gc_Pending c1"
      then show ?thesis using c'(3) [OF that] dead True by (metis list.set_intros(1))
    qed
    then show ?thesis using c' by blast
  qed
qed auto

lemma poll_loop_none: "poll_loop jp replies now conns ps = (conns', kept, aborted) \<Longrightarrow> conns k = None \<Longrightarrow> conns' k = None"
  by (induction ps arbitrary: conns conns' kept aborted) (auto split: prod.splits dest: poll_one_none)

lemma poll_loop_kept:
  "poll_loop jp replies now conns ps = (conns', kept, aborted) \<Longrightarrow> p \<in> set kept \<Longrightarrow>
   p \<in> set ps \<and> pp_StartedAt p \<le> now \<and> now < pp_StartedAt p + 10000"
proof (induction ps arbitrary: conns kept aborted)
  case (Cons q ps)
  obtain conns1 keep abort where one: "poll_one jp replies conns q now = (conns1, keep, abort)" by (metis prod_cases3)
  obtain kept1 aborted1 where rest: "poll_loop jp replies now conns1 ps = (conns', kept1, aborted1)"
    using Cons.prems(1) one by (auto split: prod.splits)
  have k: "kept = (if keep then q # kept1 else kept1)" using Cons.prems(1) one rest by simp
  show ?case
    using Cons.IH [OF rest] Cons.prems(2) poll_one_keep [of jp replies conns q now conns1 abort] one
    by (auto simp: k split: if_splits)
qed simp

text \<open>C7. A poll authenticates a connection only with the reply to its own current request: a connection that has an
  identity after the poll had it before, or its pending request is the one whose HTTP request was answered, with
  status 200, less than ten seconds after it was started, by a response that the parser accepts, with the nonce of
  this connection and for its domain. Replies never authenticate another connection, an older request or a
  connection that was replaced.\<close>

theorem poll_authenticates_own:
  assumes "http_Poll jp replies ph conns now = (ph', conns')" "\<And>k c. conns k = Some c \<Longrightarrow> tidy c"
    and "conns' k = Some c'" "gc_Identity c' = Some gi"
  shows "\<exists>c. conns k = Some c \<and>
    (gc_Identity c = Some gi \<or>
     (\<exists>p. p \<in> set (ph_Pending ph) \<and> pp_Connection p = k \<and> redeemed jp (replies (pp_Http p)) p now c gi))"
proof -
  obtain kept aborted where l: "poll_loop jp replies now conns (ph_Pending ph) = (conns', kept, aborted)"
    using assms(1) by (auto simp: http_Poll_def split: prod.splits)
  obtain c where c: "conns k = Some c" using poll_loop_none [OF l, of k] assms(3) by (cases "conns k") auto
  show ?thesis using poll_loop_conn [OF l c assms(2) [OF c]] assms(3,4) c by fastforce
qed

section \<open>A redeemed token\<close>

lemma poll_loop_append:
  "poll_loop jp replies now conns (ps @ qs) =
     (let (conns, kept, aborted) = poll_loop jp replies now conns ps;
          (conns, kept', aborted') = poll_loop jp replies now conns qs in (conns, kept @ kept', aborted @ aborted'))"
  by (induction ps arbitrary: conns) (simp_all add: case_prod_beta Let_def)

lemma poll_loop_other:
  "poll_loop jp replies now conns ps = (conns', kept, aborted) \<Longrightarrow> k \<notin> pp_Connection ` set ps \<Longrightarrow> conns' k = conns k"
proof (induction ps arbitrary: conns kept aborted)
  case (Cons p ps)
  obtain conns1 keep abort where one: "poll_one jp replies conns p now = (conns1, keep, abort)" by (metis prod_cases3)
  obtain kept1 aborted1 where rest: "poll_loop jp replies now conns1 ps = (conns', kept1, aborted1)"
    using Cons.prems(1) one by (auto split: prod.splits)
  show ?case using Cons.IH [OF rest] Cons.prems(2) poll_one_other [OF one, of k] by simp
qed simp

lemma Begin_Some:
  assumes "gc_Begin c domain now = (c', Some rq)"
  shows "c' = c\<lparr>gc_LastNow := now, gc_Identity := None, gc_Seal := None, gc_Domain := domain, gc_Pending := True,
           gc_Deadline := now + 120000, gc_Serial := gc_Serial c + 1\<rparr> \<and>
    rq = \<lparr>rq_Nonce = gc_Nonce c, rq_Serial = gc_Serial c + 1\<rparr> \<and> gc_Connected c"
  using assms by (cases rule: Clock_cases [of c now]) (auto simp: gc_Begin_def Let_def split: if_splits)

lemma Start_True:
  assumes "http_Start sha256 ed sg ph conns k token now = (ph', conns', True)"
  obtains c c' rq body where "conns k = Some c" "gc_Begin c (ph_Domain ph) now = (c', Some rq)" "conns' = conns(k \<mapsto> c')"
    "length (ph_Pending ph) < 128" "IsPairingOrigin (ph_Origin ph)"
    "body = PairingRequestJson sha256 ed sg (ph_Domain ph) (gc_Nonce c) token" "body \<noteq> []"
    "ph_Pending ph' = filter (\<lambda>p. pp_Connection p \<noteq> k) (ph_Pending ph) @
       [\<lparr>pp_Connection = k, pp_Request = rq, pp_Http = length (ph_Run ph), pp_StartedAt = now\<rparr>]"
    "ph_Run ph' = ph_Run ph @ [(ph_Origin ph @ ''/v2/game/redeem'', body)]"
    "ph_Aborted ph' = ph_Aborted ph @ map pp_Http (filter (\<lambda>p. pp_Connection p = k) (ph_Pending ph))"
  using assms by (fastforce simp: http_Start_def Let_def split: option.splits if_splits prod.splits)

lemma Start_False: "http_Start sha256 ed sg ph conns k token now = (ph', conns', False) \<Longrightarrow> ph' = ph"
  by (auto simp: http_Start_def Let_def split: option.splits if_splits prod.splits)


section \<open>The service never overruns\<close>

definition service_ok :: "pairing_http \<Rightarrow> bool" where
  "service_ok ph \<longleftrightarrow>
     PendingCount ph \<le> 128 \<and> distinct (map pp_Connection (ph_Pending ph)) \<and>
     distinct (map pp_Http (ph_Pending ph) @ ph_Aborted ph) \<and>
     set (map pp_Http (ph_Pending ph) @ ph_Aborted ph) \<subseteq> {..<length (ph_Run ph)}"

text \<open>Starts and polls in any order; between them the game does what it likes with the connections.\<close>

inductive service_reachable :: "string \<Rightarrow> string \<Rightarrow> pairing_http \<Rightarrow> bool" for origin domain where
  new: "service_reachable origin domain (new_pairing_http origin domain)"
| started: "service_reachable origin domain ph \<Longrightarrow>
    http_Start sha256 ed sg ph conns k token now = (ph', conns', ok) \<Longrightarrow> service_reachable origin domain ph'"
| polled: "service_reachable origin domain ph \<Longrightarrow>
    http_Poll jp replies ph conns now = (ph', conns') \<Longrightarrow> service_reachable origin domain ph'"

lemma poll_loop_handles:
  "poll_loop jp replies now conns ps = (conns', kept, aborted) \<Longrightarrow>
   mset (map pp_Http kept) + mset aborted \<subseteq># mset (map pp_Http ps) \<and> mset kept \<subseteq># mset ps"
proof (induction ps arbitrary: conns kept aborted)
  case (Cons p ps)
  obtain conns1 keep abort where one: "poll_one jp replies conns p now = (conns1, keep, abort)" by (metis prod_cases3)
  obtain kept1 aborted1 where rest: "poll_loop jp replies now conns1 ps = (conns', kept1, aborted1)"
    using Cons.prems(1) one by (auto split: prod.splits)
  have "\<not> (keep \<and> abort)" using poll_one_keep [of jp replies conns p now conns1 abort] one by auto
  then show ?case
    using Cons.IH [OF rest] Cons.prems one rest
    by (auto simp: subset_mset.add_increasing2 add_mset_subseteq_single_iff intro: subset_mset.order_trans split: if_splits)
qed simp

lemma Start_ok:
  assumes "http_Start sha256 ed sg ph conns k token now = (ph', conns', ok)" "service_ok ph"
  shows "service_ok ph'"
proof (cases ok)
  case True
  let ?no = "filter (\<lambda>p. pp_Connection p \<noteq> k) (ph_Pending ph)" and ?yes = "filter (\<lambda>p. pp_Connection p = k) (ph_Pending ph)"
  obtain rq body where s: "length (ph_Pending ph) < 128" "ph_Pending ph' = ?no @
       [\<lparr>pp_Connection = k, pp_Request = rq, pp_Http = length (ph_Run ph), pp_StartedAt = now\<rparr>]"
    "ph_Run ph' = ph_Run ph @ [(ph_Origin ph @ ''/v2/game/redeem'', body)]" "ph_Aborted ph' = ph_Aborted ph @ map pp_Http ?yes"
    using assms(1) True by (auto elim: Start_True)
  have "mset (map pp_Http (filter (\<lambda>p. pp_Connection p \<noteq> k) ps) @ xs @ map pp_Http (filter (\<lambda>p. pp_Connection p = k) ps)) =
      mset (map pp_Http ps @ xs)" for ps xs
    by (induction ps) (auto simp: union_ac)
  then have m: "mset (map pp_Http ?no @ ph_Aborted ph @ map pp_Http ?yes) = mset (map pp_Http (ph_Pending ph) @ ph_Aborted ph)" .
  have "distinct (map pp_Http ?no @ ph_Aborted ph @ map pp_Http ?yes)"
    using assms(2) mset_eq_imp_distinct_iff [OF m] by (simp add: service_ok_def)
  moreover have "set (map pp_Http ?no @ ph_Aborted ph @ map pp_Http ?yes) \<subseteq> {..<length (ph_Run ph)}"
    using assms(2) mset_eq_setD [OF m] by (simp add: service_ok_def)
  moreover have "length ?no < 128" using order.strict_trans1 [OF length_filter_le s(1)] .
  ultimately show ?thesis
    using assms(2) s unfolding service_ok_def PendingCount_def
    by (auto simp: distinct_map_filter less_Suc_eq)
next
  case False
  then have "ph' = ph" using assms(1) Start_False by (cases ok) auto
  then show ?thesis using assms(2) by simp
qed

lemma distinct_subset_mset: "mset xs \<subseteq># mset ys \<Longrightarrow> distinct ys \<Longrightarrow> distinct xs"
  by (metis distinct_append mset_append mset_eq_imp_distinct_iff subset_mset.add_diff_inverse ex_mset)

lemma Poll_ok:
  assumes "http_Poll jp replies ph conns now = (ph', conns')" "service_ok ph"
  shows "service_ok ph'"
proof -
  obtain kept aborted where l: "poll_loop jp replies now conns (ph_Pending ph) = (conns', kept, aborted)"
    and ph': "ph' = ph\<lparr>ph_Pending := kept, ph_Aborted := ph_Aborted ph @ aborted\<rparr>"
    using assms(1) by (auto simp: http_Poll_def split: prod.splits)
  note h = poll_loop_handles [OF l]
  have m: "mset (map pp_Http kept @ ph_Aborted ph @ aborted) \<subseteq># mset (map pp_Http (ph_Pending ph) @ ph_Aborted ph)"
    using h by (simp add: union_ac subset_mset.add_left_mono)
  have a: "distinct (map pp_Http kept @ ph_Aborted ph @ aborted)"
    by (rule distinct_subset_mset [OF m]) (use assms(2) in \<open>simp add: service_ok_def\<close>)
  have "set (map pp_Http kept @ ph_Aborted ph @ aborted) \<subseteq> set (map pp_Http (ph_Pending ph) @ ph_Aborted ph)"
    using set_mset_mono [OF m] by (simp only: set_mset_mset)
  then have a2: "set (map pp_Http kept @ ph_Aborted ph @ aborted) \<subseteq> {..<length (ph_Run ph)}"
    using assms(2) unfolding service_ok_def by (meson order_trans)
  have "mset (map pp_Connection kept) \<subseteq># mset (map pp_Connection (ph_Pending ph))"
    using h image_mset_subseteq_mono by fastforce
  then have "distinct (map pp_Connection kept)"
    by (rule distinct_subset_mset) (use assms(2) in \<open>simp add: service_ok_def\<close>)
  moreover have "length kept \<le> length (ph_Pending ph)" using h size_mset_mono by fastforce
  ultimately show ?thesis using a a2 assms(2) by (simp add: ph' service_ok_def PendingCount_def)
qed

text \<open>Whatever is started, answered and polled, at most 128 requests are pending, at most one for a connection, and
  no HTTP request is aborted twice or aborted and still waited for.\<close>

theorem service_bounds:
  assumes "service_reachable origin domain ph"
  shows "PendingCount ph \<le> 128 \<and> distinct (map pp_Connection (ph_Pending ph)) \<and>
    distinct (map pp_Http (ph_Pending ph) @ ph_Aborted ph)"
proof -
  have "service_ok ph"
    using assms
  proof (induction rule: service_reachable.induct)
    case new
    show ?case by (simp add: service_ok_def new_pairing_http_def PendingCount_def)
  qed (blast intro: Start_ok Poll_ok)+
  then show ?thesis by (simp add: service_ok_def)
qed

section \<open>Examples\<close>

definition some_sha256 :: "byte list \<Rightarrow> byte list" where "some_sha256 data = replicate 32 9"

definition some_response_parser :: json_parser where
  "some_response_parser max_memory json =
     (if json = ''{}'' then Some (json_object (response_members some_identity (Hex some_random))) else None)"

definition some_replies :: "nat \<Rightarrow> http_reply" where
  "some_replies h = \<lparr>hp_State = Http_Done, hp_StatusCode = 200, hp_Result = Some ''{}''\<rparr>"

definition idle_service :: pairing_http where
  "idle_service = new_pairing_http ''https://game.example'' ''game.example''"

definition some_connections :: conn_store where
  "some_connections = [0 \<mapsto> new_connection some_random]"

definition started_service :: "pairing_http \<times> conn_store \<times> bool" where
  "started_service = http_Start some_sha256 some_ed25519 some_signer idle_service some_connections 0 some_nonce 1000"

lemma some_response: "ParsePairingResponse some_response_parser ''{}'' 2000 = Some (some_identity, Hex some_random)"
  by (rule response_accepted [where root = "response_members some_identity (Hex some_random)"])
    (simp_all add: HexNonce_def lower_hex_Hex some_random_def some_identity_valid some_response_parser_def)

lemma some_start: "started_service =
  (idle_service\<lparr>ph_Pending := [\<lparr>pp_Connection = 0, pp_Request = \<lparr>rq_Nonce = Hex some_random, rq_Serial = 1\<rparr>, pp_Http = 0, pp_StartedAt = 1000\<rparr>],
     ph_Run := [(''https://game.example/v2/game/redeem'',
       PairingRequestJson some_sha256 some_ed25519 some_signer ''game.example'' (Hex some_random) some_nonce)]\<rparr>,
   some_connections(0 \<mapsto> (new_connection some_random)\<lparr>gc_LastNow := 1000, gc_Domain := ''game.example'', gc_Pending := True,
     gc_Deadline := 121000, gc_Serial := 1\<rparr>), True)"
proof -
  have o: "IsPairingOrigin ''https://game.example''" by code_simp
  have "PairingRequestJson some_sha256 some_ed25519 some_signer ''game.example'' (Hex some_random) some_nonce \<noteq> []"
    using some_token_32
    by (simp add: PairingRequestJson_def canonical_token_32 HexNonce_def lower_hex_Hex some_random_def) (simp add: some_signer_def)
  then show ?thesis
    by (simp add: started_service_def http_Start_def some_connections_def idle_service_def new_pairing_http_def o gc_Begin_def
        gc_Clock_def new_connection_def)
qed

lemma some_connections_tidy: "fst (snd started_service) k = Some c \<Longrightarrow> tidy c"
  by (auto simp: some_start tidy_def some_connections_def new_connection_def split: if_splits)


lemma poll_authenticates_own_witness:
  "\<exists>c. fst (snd started_service) 0 = Some c \<and>
    (gc_Identity c = Some some_identity \<or>
     (\<exists>p. p \<in> set (ph_Pending (fst started_service)) \<and> pp_Connection p = 0 \<and>
        redeemed some_response_parser (some_replies (pp_Http p)) p 2000 c some_identity))"
proof -
  have v: "IsGameIdentityContextValid some_identity 2000" by (simp add: some_identity_valid)
  have d: "gi_Domain some_identity = ''game.example''" "gi_AuthenticationExpiresAt some_identity = 5000"
    by (simp_all add: some_identity_def)
  have "\<exists>c2. snd (http_Poll some_response_parser some_replies (fst started_service) (fst (snd started_service)) 2000) 0 = Some c2 \<and>
      gc_Identity c2 = Some some_identity"
    by (simp add: some_start http_Poll_def poll_one_def lock_pending_def gc_IsPending_def gc_Clock_def gc_Matches_def hp_Done_def
        some_replies_def redeem_def some_response gc_Complete_def v d new_connection_def)
  then obtain c2 where c2: "snd (http_Poll some_response_parser some_replies (fst started_service) (fst (snd started_service)) 2000) 0 = Some c2"
    "gc_Identity c2 = Some some_identity" by blast
  show ?thesis
    by (rule poll_authenticates_own [OF surjective_pairing some_connections_tidy c2])
qed

lemma service_bounds_witness: "PendingCount (fst started_service) \<le> 128 \<and> length (ph_Pending (fst started_service)) = 1"
proof -
  have s: "http_Start some_sha256 some_ed25519 some_signer idle_service some_connections 0 some_nonce 1000 =
      (fst started_service, fst (snd started_service), snd (snd started_service))"
    by (simp add: started_service_def)
  have "service_reachable ''https://game.example'' ''game.example'' (fst started_service)"
    using service_reachable.started [OF _ s] service_reachable.new unfolding idle_service_def by blast
  from service_bounds [OF this] show ?thesis by (simp add: some_start)
qed

end
