(* ===== verification/WalletBridge.thy ===== *)
theory WalletBridge
  imports MatchSigner
begin

text \<open>
  The bridge from the wallet layer of the platform to the game, \<open>src/neonrelay/wallet_bridge.cpp\<close>, in a build that
  is not for Android. A C string is a HOL string without the character 0; an array of characters is a list of its
  size, of which the text up to the first 0 counts. A write outside of an array is the result \<open>None\<close>.
\<close>

definition nul :: char where "nul = CHR 0x00"

definition c_text :: "string \<Rightarrow> string" where
  "c_text buf = takeWhile (\<lambda>c. c \<noteq> nul) buf"

definition put :: "string \<Rightarrow> nat \<Rightarrow> char \<Rightarrow> string option" where
  "put buf i c = (if i < length buf then Some (buf[i := c]) else None)"

section \<open>Search\<close>

text \<open>\<open>strstr\<close> and \<open>strchr\<close>: the rest of the string from the match on.\<close>

fun starts_with :: "string \<Rightarrow> string \<Rightarrow> bool" where
  "starts_with s [] \<longleftrightarrow> True"
| "starts_with [] (p # ps) \<longleftrightarrow> False"
| "starts_with (c # s) (p # ps) \<longleftrightarrow> c = p \<and> starts_with s ps"

fun strstr :: "string \<Rightarrow> string \<Rightarrow> string option" where
  "strstr [] needle = (if needle = [] then Some [] else None)"
| "strstr (c # s) needle = (if starts_with (c # s) needle then Some (c # s) else strstr s needle)"

fun strchr :: "string \<Rightarrow> char \<Rightarrow> string option" where
  "strchr [] c = None"
| "strchr (x # s) c = (if x = c then Some (x # s) else strchr s c)"

section \<open>Fields\<close>

text \<open>The copy loop of \<open>JsonString\<close> at index \<open>i\<close> with the rest of the text: the index where it stops and the array.
  One index serves the text and the array.\<close>

fun copy_value :: "nat \<Rightarrow> string \<Rightarrow> string \<Rightarrow> (nat \<times> string) option" where
  "copy_value i [] dst = Some (i, dst)"
| "copy_value i (c # rest) dst =
     (if c = dquote then Some (i, dst)
      else if c = backslash \<and> rest \<noteq> [] then
        let i = i + 1; c = (if hd rest = CHR ''n'' then char_of (10 :: nat) else hd rest) in
        if i \<ge> length dst - 1 then Some (i, dst)
        else case put dst i c of None \<Rightarrow> None | Some dst \<Rightarrow> copy_value (i + 1) (tl rest) dst
      else if i \<ge> length dst - 1 then Some (i, dst)
      else case put dst i c of None \<Rightarrow> None | Some dst \<Rightarrow> copy_value (i + 1) rest dst)"

text \<open>The value of a field starts behind the quote that follows the colon that follows the quoted key.\<close>

definition value_start :: "string \<Rightarrow> string \<Rightarrow> string option" where
  "value_start json key =
     (case strstr json (quoted key) of
        None \<Rightarrow> None
      | Some at \<Rightarrow> strchr (drop (length (quoted key)) at) (CHR '':''))"

definition JsonString :: "string \<Rightarrow> string \<Rightarrow> string \<Rightarrow> (string \<times> bool) option" where
  "JsonString json key dst =
     (if dst = [] \<or> length key + 4 > 64 then Some (dst, False)
      else case value_start json key of
        None \<Rightarrow> Some (dst, False)
      | Some at \<Rightarrow>
          (case strchr at dquote of
             None \<Rightarrow> Some (dst, False)
           | Some at \<Rightarrow>
               (case copy_value 0 (tl at) dst of
                  None \<Rightarrow> None
                | Some (i, dst) \<Rightarrow> map_option (\<lambda>dst. (dst, True)) (put dst (min i (length dst - 1)) nul))))"

definition JsonBool :: "string \<Rightarrow> string \<Rightarrow> bool \<Rightarrow> bool" where
  "JsonBool json key fallback =
     (if length key + 4 > 64 then fallback
      else case value_start json key of
        None \<Rightarrow> fallback
      | Some at \<Rightarrow> starts_with (dropWhile (\<lambda>c. c = CHR '':'' \<or> c = CHR '' '') at) ''true'')"

section \<open>Events\<close>

record wallet_info =
  wi_AccountLabel :: string
  wi_PublicKey :: string
  wi_ErrorMessage :: string
  wi_TransactionSignature :: string
  wi_Connected :: int
  wi_Requesting :: int

text \<open>The listener is its number; \<open>w_Calls\<close> are the calls it received.\<close>

record wallet =
  w_Info :: wallet_info
  w_Listener :: "nat option"
  w_Calls :: "(nat \<times> int \<times> wallet_info) list"

definition initial_wallet :: wallet where
  "initial_wallet =
     \<lparr>w_Info = \<lparr>wi_AccountLabel = replicate 64 nul, wi_PublicKey = replicate 64 nul, wi_ErrorMessage = replicate 128 nul,
        wi_TransactionSignature = replicate 128 nul, wi_Connected = 0, wi_Requesting = 0\<rparr>,
      w_Listener = None, w_Calls = []\<rparr>"

definition wallet_set_listener :: "wallet \<Rightarrow> nat option \<Rightarrow> wallet" where
  "wallet_set_listener w listener = w\<lparr>w_Listener := listener\<rparr>"

definition clear_info :: "wallet_info \<Rightarrow> wallet_info" where
  "clear_info wi = wi\<lparr>wi_AccountLabel := (wi_AccountLabel wi)[0 := nul], wi_PublicKey := (wi_PublicKey wi)[0 := nul],
     wi_ErrorMessage := (wi_ErrorMessage wi)[0 := nul], wi_TransactionSignature := (wi_TransactionSignature wi)[0 := nul],
     wi_Connected := 0\<rparr>"

definition read_info :: "string \<Rightarrow> wallet_info \<Rightarrow> wallet_info option" where
  "read_info json wi =
     (case (JsonString json ''account_label'' (wi_AccountLabel wi), JsonString json ''public_key_base64'' (wi_PublicKey wi),
            JsonString json ''error_message'' (wi_ErrorMessage wi),
            JsonString json ''transaction_signature'' (wi_TransactionSignature wi)) of
        (Some (label, _), Some (key, _), Some (message, _), Some (signature, _)) \<Rightarrow>
          Some (wi\<lparr>wi_AccountLabel := label, wi_PublicKey := key, wi_ErrorMessage := message,
            wi_TransactionSignature := signature, wi_Connected := (if JsonBool json ''connected'' False then 1 else 0)\<rparr>)
      | _ \<Rightarrow> None)"

definition wallet_push_event :: "wallet \<Rightarrow> int \<Rightarrow> string option \<Rightarrow> wallet option" where
  "wallet_push_event w event_type json =
     (let wi = clear_info (w_Info w) in
      case (case json of None \<Rightarrow> Some wi | Some json \<Rightarrow> read_info json wi) of
        None \<Rightarrow> None
      | Some wi \<Rightarrow>
          let wi = wi\<lparr>wi_Requesting := 0\<rparr> in
          Some (w\<lparr>w_Info := wi,
            w_Calls := (case w_Listener w of None \<Rightarrow> w_Calls w | Some l \<Rightarrow> w_Calls w @ [(l, event_type, wi)])\<rparr>))"

definition error_json :: "string \<Rightarrow> string" where
  "error_json message =
     ''{'' @ quoted ''connected'' @ '': false, '' @ quoted ''error_message'' @ '': '' @ quoted message @ ''}''"

definition wallet_platform_request :: "wallet \<Rightarrow> int \<Rightarrow> wallet option" where
  "wallet_platform_request w connect =
     wallet_push_event w 2
       (Some (error_json ''Wallet connection is only available in the Neon Relay Android build.''))"

definition wallet_platform_economy :: "wallet \<Rightarrow> string \<Rightarrow> wallet option" where
  "wallet_platform_economy w json =
     wallet_push_event w 3
       (Some (error_json ''SKR entry payments and prize claims run in the Neon Relay Android build (Mobile Wallet Adapter); see docs/PLAY_ECONOMY.md.''))"

definition wallet_platform_rewards_claim :: "wallet \<Rightarrow> string \<Rightarrow> wallet option" where
  "wallet_platform_rewards_claim w json =
     wallet_push_event w 4
       (Some (error_json ''Reward claims run in the Neon Relay Android build (Mobile Wallet Adapter); see docs/DEVNET_RUNBOOK.md section 7.''))"

definition RequestWallet :: "wallet \<Rightarrow> int \<Rightarrow> wallet option" where
  "RequestWallet w connect =
     (let wi = w_Info w in
      wallet_platform_request
        (w\<lparr>w_Info := wi\<lparr>wi_Requesting := 1, wi_ErrorMessage := (wi_ErrorMessage wi)[0 := nul]\<rparr>\<rparr>) connect)"

definition wallet_request_connect :: "wallet \<Rightarrow> wallet option" where
  "wallet_request_connect w = RequestWallet w 1"

definition wallet_request_disconnect :: "wallet \<Rightarrow> wallet option" where
  "wallet_request_disconnect w = RequestWallet w 0"

definition wallet_request_economy :: "wallet \<Rightarrow> string option \<Rightarrow> wallet option" where
  "wallet_request_economy w json = wallet_platform_economy w (case json of None \<Rightarrow> ''{}'' | Some json \<Rightarrow> json)"

definition wallet_request_rewards_claim :: "wallet \<Rightarrow> string option \<Rightarrow> wallet option" where
  "wallet_request_rewards_claim w json =
     (let wi = w_Info w in
      wallet_platform_rewards_claim
        (w\<lparr>w_Info := wi\<lparr>wi_Requesting := 1, wi_ErrorMessage := (wi_ErrorMessage wi)[0 := nul],
           wi_TransactionSignature := (wi_TransactionSignature wi)[0 := nul]\<rparr>\<rparr>)
        (case json of None \<Rightarrow> ''{}'' | Some json \<Rightarrow> json))"

section \<open>No write leaves the arrays\<close>

lemma put_Some [simp]: "i < length buf \<Longrightarrow> put buf i c = Some (buf[i := c])"
  by (simp add: put_def)

lemma copy_value_total: "\<exists>n dst'. copy_value i at dst = Some (n, dst') \<and> length dst' = length dst"
  by (induction i "at" dst rule: copy_value.induct) (auto simp: put_def Let_def, (metis length_list_update)+)

lemma JsonString_total:
  "\<exists>dst' found. JsonString json key dst = Some (dst', found) \<and> length dst' = length dst \<and>
     (nul \<in> set dst \<longrightarrow> nul \<in> set dst')"
proof (cases "dst = []")
  case False
  have "put buf (min i (length buf - 1)) nul = Some (buf[min i (length buf - 1) := nul]) \<and>
      nul \<in> set (buf[min i (length buf - 1) := nul])" if "length buf = length dst" for buf i
    using that False by (cases "length buf") (simp_all add: set_update_memI min_def)
  note written = this
  show ?thesis
  proof (cases "length key + 4 > 64 \<or> value_start json key = None \<or> strchr (the (value_start json key)) dquote = None")
    case True
    then show ?thesis using False by (auto simp: JsonString_def split: option.splits)
  next
    case found: False
    then obtain v at where "value_start json key = Some v" "strchr v dquote = Some at" by auto
    moreover obtain i buf where "copy_value 0 (tl at) dst = Some (i, buf)" "length buf = length dst"
      using copy_value_total [of 0 "tl at" dst] by blast
    ultimately show ?thesis using False found written [of buf i] by (auto simp: JsonString_def)
  qed
qed (auto simp: JsonString_def)

definition info_ok :: "wallet_info \<Rightarrow> bool" where
  "info_ok wi \<longleftrightarrow>
     length (wi_AccountLabel wi) = 64 \<and> length (wi_PublicKey wi) = 64 \<and> length (wi_ErrorMessage wi) = 128 \<and>
     length (wi_TransactionSignature wi) = 128 \<and> nul \<in> set (wi_AccountLabel wi) \<and> nul \<in> set (wi_PublicKey wi) \<and>
     nul \<in> set (wi_ErrorMessage wi) \<and> nul \<in> set (wi_TransactionSignature wi)"

lemma clear_info_ok: "info_ok wi \<Longrightarrow> info_ok (clear_info wi)"
  by (auto simp: info_ok_def clear_info_def intro!: set_update_memI)

lemma read_info_total: "info_ok wi \<Longrightarrow> \<exists>wi'. read_info json wi = Some wi' \<and> info_ok wi'"
  using JsonString_total [of json "''account_label''" "wi_AccountLabel wi"]
    JsonString_total [of json "''public_key_base64''" "wi_PublicKey wi"]
    JsonString_total [of json "''error_message''" "wi_ErrorMessage wi"]
    JsonString_total [of json "''transaction_signature''" "wi_TransactionSignature wi"]
  by (auto simp: read_info_def info_ok_def)

lemma wallet_push_total:
  assumes "info_ok (w_Info w)"
  shows "\<exists>w'. wallet_push_event w event_type json = Some w' \<and> info_ok (w_Info w') \<and> wi_Requesting (w_Info w') = 0 \<and>
    w_Calls w' = w_Calls w @ (case w_Listener w of None \<Rightarrow> [] | Some l \<Rightarrow> [(l, event_type, w_Info w')])"
proof -
  have "\<exists>wi. (case json of None \<Rightarrow> Some (clear_info (w_Info w)) | Some json \<Rightarrow> read_info json (clear_info (w_Info w))) = Some wi \<and>
      info_ok wi"
    using read_info_total [OF clear_info_ok [OF assms]] clear_info_ok [OF assms] by (cases json) auto
  then obtain wi where "(case json of None \<Rightarrow> Some (clear_info (w_Info w)) | Some json \<Rightarrow> read_info json (clear_info (w_Info w))) = Some wi"
    "info_ok wi" by blast
  moreover have "info_ok (wi\<lparr>wi_Requesting := 0\<rparr>) \<longleftrightarrow> info_ok wi" by (simp add: info_ok_def)
  ultimately show ?thesis by (cases "w_Listener w") (simp_all add: wallet_push_event_def Let_def)
qed

lemma initial_wallet_ok: "info_ok (w_Info initial_wallet)"
  by (simp add: initial_wallet_def info_ok_def)

text \<open>C22. Whatever text the platform pushes, no write leaves one of the four arrays, and each still holds a terminated
  string afterwards; the request that was waiting counts as answered.\<close>

theorem wallet_push_safe:
  assumes "info_ok (w_Info w)"
  shows "\<exists>w'. wallet_push_event w event_type json = Some w' \<and> info_ok (w_Info w') \<and> wi_Requesting (w_Info w') = 0 \<and>
    w_Calls w' = w_Calls w @ (case w_Listener w of None \<Rightarrow> [] | Some l \<Rightarrow> [(l, event_type, w_Info w')])"
  by (rule wallet_push_total [OF assms])

lemma wallet_push_safe_witness:
  "\<exists>w'. wallet_push_event initial_wallet 2 (Some ''junk'') = Some w' \<and> info_ok (w_Info w')"
  using wallet_push_safe [OF initial_wallet_ok, of 2 "Some ''junk''"] by blast

section \<open>Texts by their quotes\<close>

text \<open>A text is split at its quotes: \<open>by_quotes [s0, s1, \<dots>]\<close> is \<open>s0"s1"\<dots>\<close>.\<close>

fun by_quotes :: "string list \<Rightarrow> string" where
  "by_quotes [] = []"
| "by_quotes [s] = s"
| "by_quotes (s # ss) = s @ dquote # by_quotes ss"

fun seek :: "string \<Rightarrow> string list \<Rightarrow> string list option" where
  "seek key (x # y # ss) = (if x = key then Some (y # ss) else seek key (y # ss))"
| "seek key [] = None"
| "seek key [_] = None"

definition unquoted :: "string \<Rightarrow> bool" where
  "unquoted s \<longleftrightarrow> dquote \<notin> set s"

lemma starts_with_append: "starts_with (p @ s) p"
  by (induction p) simp_all

lemma starts_with_key:
  "unquoted x \<Longrightarrow> unquoted key \<Longrightarrow> starts_with (x @ dquote # s) (key @ [dquote]) \<longleftrightarrow> x = key"
proof (induction x arbitrary: key)
  case Nil
  then show ?case by (cases key) (auto simp: unquoted_def)
next
  case (Cons c x)
  then show ?case by (cases key) (auto simp: unquoted_def)
qed

lemma starts_with_last: "unquoted x \<Longrightarrow> \<not> starts_with x (key @ [dquote])"
  by (induction x arbitrary: key; case_tac key) (auto simp: unquoted_def)

lemma strstr_skip: "unquoted s \<Longrightarrow> strstr (s @ dquote # r) (quoted key) = strstr (dquote # r) (quoted key)"
  by (induction s) (auto simp: unquoted_def quoted_def)

lemma strstr_none: "unquoted s \<Longrightarrow> strstr s (quoted key) = None"
  by (induction s) (auto simp: unquoted_def quoted_def)

lemma by_quotes_Cons: "ss \<noteq> [] \<Longrightarrow> by_quotes (s # ss) = s @ dquote # by_quotes ss"
  by (cases ss) simp_all

lemma strstr_quotes:
  assumes "list_all unquoted ss" "unquoted key" "ss \<noteq> []"
  shows "strstr (dquote # by_quotes ss) (quoted key) = map_option (\<lambda>r. quoted key @ by_quotes r) (seek key ss)"
  using assms
proof (induction ss rule: seek.induct)
  case (1 key x y ss)
  have q: "by_quotes (x # y # ss) = x @ dquote # by_quotes (y # ss)" by simp
  show ?case
  proof (cases "x = key")
    case True
    then show ?thesis using starts_with_key [of x key "by_quotes (y # ss)"] 1(2,3) by (simp add: q quoted_def)
  next
    case False
    then have "\<not> starts_with (by_quotes (x # y # ss)) (key @ [dquote])"
      using starts_with_key [of x key] 1(2,3) by (simp add: q)
    then have "strstr (dquote # by_quotes (x # y # ss)) (quoted key) = strstr (x @ dquote # by_quotes (y # ss)) (quoted key)"
      by (simp add: quoted_def q)
    also have "\<dots> = strstr (dquote # by_quotes (y # ss)) (quoted key)" using 1(2) by (intro strstr_skip) simp
    finally show ?thesis using 1 False by simp
  qed
next
  case (3 key x)
  then show ?case using starts_with_last [of x key] strstr_none [of x key] by (simp add: quoted_def)
qed simp

section \<open>What the game shows\<close>

lemma strchr_append: "c \<notin> set xs \<Longrightarrow> strchr (xs @ c # ys) c = Some (c # ys)"
  by (induction xs) auto

lemma strchr_colon:
  "CHR '':'' \<in> set y \<Longrightarrow> strchr (y @ r) (CHR '':'') = Some (dropWhile (\<lambda>c. c \<noteq> CHR '':'') y @ r)"
  by (induction y) auto

lemma strstr_by_quotes:
  assumes "list_all unquoted (s # ss)" "unquoted key" "ss \<noteq> []"
  shows "strstr (by_quotes (s # ss)) (quoted key) = map_option (\<lambda>r. quoted key @ by_quotes r) (seek key ss)"
  using assms strstr_skip [of s "by_quotes ss" key] strstr_quotes [of ss key] by (simp add: by_quotes_Cons)

lemma value_start_quotes:
  assumes "list_all unquoted (s # ss)" "unquoted key" "seek key ss = Some (y # zs)" "CHR '':'' \<in> set y"
  shows "value_start (by_quotes (s # ss)) key =
    Some (dropWhile (\<lambda>c. c \<noteq> CHR '':'') y @ (if zs = [] then [] else dquote # by_quotes zs))"
proof -
  have "ss \<noteq> []" using assms(3) by auto
  have "by_quotes (y # zs) = y @ (if zs = [] then [] else dquote # by_quotes zs)" by (simp add: by_quotes_Cons)
  then show ?thesis
    using strstr_by_quotes [OF assms(1,2) \<open>ss \<noteq> []\<close>] assms(3,4) by (simp add: value_start_def strchr_colon)
qed

text \<open>Values that need no escaping.\<close>

definition plain_value :: "string \<Rightarrow> bool" where
  "plain_value z \<longleftrightarrow> dquote \<notin> set z \<and> backslash \<notin> set z \<and> nul \<notin> set z"

lemma copy_plain:
  assumes "length dst = Suc n" "i \<le> n" "plain_value z" "r = [] \<or> hd r = dquote"
  shows "\<exists>dst'. copy_value i (z @ r) dst = Some (min (i + length z) n, dst') \<and> length dst' = Suc n \<and>
    take (min (i + length z) n) dst' = take i dst @ take (n - i) z"
  using assms
proof (induction z arbitrary: i dst)
  case Nil
  then show ?case by (cases r) auto
next
  case (Cons c z)
  show ?case
  proof (cases "i = n")
    case True
    then show ?thesis using Cons.prems by (auto simp: plain_value_def)
  next
    case False
    have step: "copy_value i ((c # z) @ r) dst = copy_value (Suc i) (z @ r) (dst[i := c])"
      using Cons.prems False by (auto simp: plain_value_def)
    have "plain_value z" using Cons.prems(3) by (simp add: plain_value_def)
    then obtain dst' where d: "copy_value (Suc i) (z @ r) (dst[i := c]) = Some (min (Suc i + length z) n, dst')" "length dst' = Suc n"
      "take (min (Suc i + length z) n) dst' = take (Suc i) (dst[i := c]) @ take (n - Suc i) z"
      using Cons.IH [of "dst[i := c]" "Suc i"] Cons.prems False by auto
    have "take (Suc i) (dst[i := c]) = take i dst @ [c]" using Cons.prems by (simp add: take_Suc_conv_app_nth)
    moreover have "n - i = Suc (n - Suc i)" using False Cons.prems by simp
    ultimately show ?thesis using d unfolding step by simp
  qed
qed

lemma c_text_put:
  assumes "k < length buf" "nul \<notin> set (take k buf)"
  shows "c_text (buf[k := nul]) = take k buf"
proof -
  have "buf[k := nul] = take k buf @ nul # drop (Suc k) buf" using assms(1) by (simp add: upd_conv_take_nth_drop)
  moreover have "takeWhile (\<lambda>c. c \<noteq> nul) (take k buf @ nul # r) = take k buf" for r
    using assms(2) by (subst takeWhile_append2) auto
  ultimately show ?thesis by (simp add: c_text_def)
qed

lemma JsonString_plain:
  assumes "list_all unquoted (s # ss)" "unquoted key" "length key \<le> 60" "seek key ss = Some (y # z # zs)" "CHR '':'' \<in> set y"
    "plain_value z" "length dst = Suc n"
  shows "\<exists>dst'. JsonString (by_quotes (s # ss)) key dst = Some (dst', True) \<and> c_text dst' = take n z"
proof -
  have y: "dquote \<notin> set y" using assms(1,4)
  proof (induction key ss rule: seek.induct)
    case (1 key a b ss)
    then show ?case by (cases "a = key") (auto simp: unquoted_def)
  qed auto
  have c: "strchr (dropWhile (\<lambda>c. c \<noteq> CHR '':'') y @ dquote # by_quotes (z # zs)) dquote = Some (dquote # by_quotes (z # zs))"
    using y set_dropWhileD by (intro strchr_append) fast
  have "by_quotes (z # zs) = z @ (if zs = [] then [] else dquote # by_quotes zs)" by (simp add: by_quotes_Cons)
  then obtain dst' where d: "copy_value 0 (by_quotes (z # zs)) dst = Some (min (length z) n, dst')" "length dst' = Suc n"
    "take (min (length z) n) dst' = take n z"
    using copy_plain [OF assms(7) le0 assms(6), of "if zs = [] then [] else dquote # by_quotes zs"] by (cases "zs = []") auto
  have "nul \<notin> set (take n z)" using assms(6) set_take_subset by (fastforce simp: plain_value_def)
  then have "c_text (dst'[min (length z) n := nul]) = take n z" using c_text_put [of "min (length z) n" dst'] d by simp
  then show ?thesis
    using assms(3,7) d value_start_quotes [OF assms(1,2,4,5)] c by (auto simp: JsonString_def)
qed

text \<open>The texts that the platform layer sends (\<open>WalletEventJson\<close> in the Android application): a missing value is
  \<open>null\<close>; the values here need no escaping.\<close>

definition text_or_null :: "string option \<Rightarrow> string" where
  "text_or_null v = (case v of None \<Rightarrow> ''null'' | Some s \<Rightarrow> quoted s)"

definition wallet_event_json ::
  "bool \<Rightarrow> string option \<Rightarrow> string option \<Rightarrow> string option \<Rightarrow> string option \<Rightarrow> string" where
  "wallet_event_json connected label key message signature =
     ''{'' @ quoted ''connected'' @ '':'' @ (if connected then ''true'' else ''false'') @
     '','' @ quoted ''account_label'' @ '':'' @ text_or_null label @
     '','' @ quoted ''public_key_base64'' @ '':'' @ text_or_null key @
     '','' @ quoted ''error_message'' @ '':'' @ text_or_null message @
     '','' @ quoted ''transaction_signature'' @ '':'' @ text_or_null signature @ ''}''"

definition field_quotes :: "string option \<Rightarrow> string \<Rightarrow> string list" where
  "field_quotes v after = (case v of None \<Rightarrow> ['':null'' @ after] | Some s \<Rightarrow> ['':'', s, after])"

definition event_quotes ::
  "bool \<Rightarrow> string option \<Rightarrow> string option \<Rightarrow> string option \<Rightarrow> string option \<Rightarrow> string list" where
  "event_quotes connected label key message signature =
     [''connected'', '':'' @ (if connected then ''true'' else ''false'') @ '','', ''account_label''] @ field_quotes label '','' @
     [''public_key_base64''] @ field_quotes key '','' @ [''error_message''] @ field_quotes message '','' @
     [''transaction_signature''] @ field_quotes signature ''}''"

lemma wallet_event_quotes:
  "wallet_event_json connected label key message signature =
   by_quotes (''{'' # event_quotes connected label key message signature)"
  by (cases label; cases key; cases message; cases signature)
    (simp_all add: wallet_event_json_def event_quotes_def field_quotes_def text_or_null_def quoted_def)

definition key_names :: "string list" where
  "key_names = [''connected'', ''account_label'', ''public_key_base64'', ''error_message'', ''transaction_signature'']"

definition harmless :: "string option \<Rightarrow> bool" where
  "harmless v \<longleftrightarrow> (case v of None \<Rightarrow> True | Some s \<Rightarrow> plain_value s \<and> s \<notin> set key_names)"

lemma harmless_unquoted: "harmless (Some s) \<Longrightarrow> unquoted s"
  by (simp add: harmless_def plain_value_def unquoted_def)

lemma names_unquoted: "list_all unquoted key_names" "unquoted '':''" "unquoted '',''" "unquoted ''}''" "unquoted ''{''"
  "unquoted '':null,''" "unquoted '':null}''" "unquoted '':true,''" "unquoted '':false,''"
  by (simp_all add: key_names_def unquoted_def dquote_def)

lemma event_unquoted:
  assumes "harmless label" "harmless key" "harmless message" "harmless signature"
  shows "list_all unquoted (''{'' # event_quotes connected label key message signature)"
  using assms names_unquoted harmless_unquoted
  by (cases label; cases key; cases message; cases signature; cases connected)
    (simp_all add: event_quotes_def field_quotes_def key_names_def)

lemma seek_field:
  assumes "harmless v" "key \<in> set key_names" "after \<in> {'','', ''}''}"
  shows "seek key (field_quotes v after @ x # rest) = seek key (x # rest)"
proof -
  have n: "key \<noteq> '':''" "key \<noteq> after" "key \<noteq> '':null'' @ after" using assms(2,3) by (auto simp: key_names_def)
  show ?thesis
  proof (cases v)
    case None
    then show ?thesis using n(3) by (auto simp: field_quotes_def)
  next
    case (Some s)
    then have "s \<noteq> key" using assms(1,2) by (auto simp: harmless_def)
    then show ?thesis using n(1,2) Some by (auto simp: field_quotes_def)
  qed
qed

lemma seek_skip: "x \<noteq> key \<Longrightarrow> ss \<noteq> [] \<Longrightarrow> seek key (x # ss) = seek key ss"
  by (cases ss) auto

lemma seek_here: "ss \<noteq> [] \<Longrightarrow> seek key (key # ss) = Some ss"
  by (cases ss) auto

lemma field_quotes_ne: "field_quotes v after \<noteq> []"
  by (cases v) (simp_all add: field_quotes_def)

text \<open>What follows the key of a field, by the values of the event.\<close>

lemma seek_events:
  fixes connected :: bool
  assumes "harmless label" "harmless key" "harmless message" "harmless signature"
  defines "ss \<equiv> event_quotes connected label key message signature"
  shows "seek ''connected'' ss = Some (tl ss)"
    "seek ''account_label'' ss = Some (field_quotes label '','' @ ''public_key_base64'' # field_quotes key '','' @ [''error_message''] @
       field_quotes message '','' @ [''transaction_signature''] @ field_quotes signature ''}'')"
    "seek ''public_key_base64'' ss = Some (field_quotes key '','' @ ''error_message'' # field_quotes message '','' @
       [''transaction_signature''] @ field_quotes signature ''}'')"
    "seek ''error_message'' ss = Some (field_quotes message '','' @ ''transaction_signature'' # field_quotes signature ''}'')"
    "seek ''transaction_signature'' ss = Some (field_quotes signature ''}'')"
proof -
  have names: "''connected'' \<in> set key_names" "''account_label'' \<in> set key_names" "''public_key_base64'' \<in> set key_names"
    "''error_message'' \<in> set key_names" "''transaction_signature'' \<in> set key_names"
    by (simp_all add: key_names_def)
  have q: "ss = ''connected'' # ('':'' @ (if connected then ''true'' else ''false'') @ '','') # ''account_label'' #
      field_quotes label '','' @ ''public_key_base64'' # field_quotes key '','' @ ''error_message'' #
      field_quotes message '','' @ ''transaction_signature'' # field_quotes signature ''}''"
    by (simp add: ss_def event_quotes_def)
  note sk = seek_skip seek_here seek_field field_quotes_ne names assms(1-4)
  show "seek ''connected'' ss = Some (tl ss)" unfolding q by (simp add: sk)
  show "seek ''account_label'' ss = Some (field_quotes label '','' @ ''public_key_base64'' # field_quotes key '','' @ [''error_message''] @
       field_quotes message '','' @ [''transaction_signature''] @ field_quotes signature ''}'')"
    unfolding q by (simp add: sk)
  show "seek ''public_key_base64'' ss = Some (field_quotes key '','' @ ''error_message'' # field_quotes message '','' @
       [''transaction_signature''] @ field_quotes signature ''}'')"
    unfolding q by (simp add: sk)
  show "seek ''error_message'' ss = Some (field_quotes message '','' @ ''transaction_signature'' # field_quotes signature ''}'')"
    unfolding q by (simp add: sk)
  show "seek ''transaction_signature'' ss = Some (field_quotes signature ''}'')"
    unfolding q by (simp add: sk)
qed

lemma shown_field:
  assumes e: "list_all unquoted (s # ss)" and k: "unquoted key" "length key \<le> 60" "seek key ss = Some (field_quotes v '','' @ following # rest)"
    and v: "harmless v" "plain_value following" "length dst = Suc n"
  shows "\<exists>dst'. JsonString (by_quotes (s # ss)) key dst = Some (dst', True) \<and>
    c_text dst' = take n (case v of Some x \<Rightarrow> x | None \<Rightarrow> following)"
proof (cases v)
  case None
  then show ?thesis using JsonString_plain [OF e k(1,2) _ _ v(2,3), of "'':null,''" rest] k(3) by (simp add: field_quotes_def)
next
  case (Some x)
  then show ?thesis
    using JsonString_plain [OF e k(1,2) _ _ _ v(3), of "'':''" x "'','' # following # rest"] k(3) v(1)
    by (simp add: field_quotes_def harmless_def)
qed

text \<open>C38. What the game shows of an event that the platform layer builds from values without special characters: a
  given value is shown, cut to the size of its array, and the connection state is right; but a value that is missing
  is shown as the name of the next field, because the search for the opening quote runs past \<open>null\<close>. Only a missing
  transaction signature, the last field, is shown as empty.\<close>

theorem wallet_event_shown:
  assumes ok: "info_ok (w_Info w)"
    and v: "harmless label" "harmless key" "harmless message" "harmless signature"
    and push: "wallet_push_event w event_type (Some (wallet_event_json connected label key message signature)) = Some w'"
  shows "c_text (wi_AccountLabel (w_Info w')) = take 63 (case label of Some s \<Rightarrow> s | None \<Rightarrow> ''public_key_base64'') \<and>
    c_text (wi_PublicKey (w_Info w')) = take 63 (case key of Some s \<Rightarrow> s | None \<Rightarrow> ''error_message'') \<and>
    c_text (wi_ErrorMessage (w_Info w')) = take 127 (case message of Some s \<Rightarrow> s | None \<Rightarrow> ''transaction_signature'') \<and>
    c_text (wi_TransactionSignature (w_Info w')) = take 127 (case signature of Some s \<Rightarrow> s | None \<Rightarrow> []) \<and>
    wi_Connected (w_Info w') = (if connected then 1 else 0)"
proof -
  let ?json = "wallet_event_json connected label key message signature"
  define wi where "wi = clear_info (w_Info w)"
  have cl: "c_text (buf[0 := nul]) = []" for buf by (cases buf) (simp_all add: c_text_def)
  have wi: "length (wi_AccountLabel wi) = Suc 63" "length (wi_PublicKey wi) = Suc 63" "length (wi_ErrorMessage wi) = Suc 127"
    "length (wi_TransactionSignature wi) = Suc 127" "c_text (wi_TransactionSignature wi) = []"
    using ok by (simp_all add: wi_def info_ok_def clear_info_def cl)
  have p: "plain_value ''public_key_base64''" "plain_value ''error_message''" "plain_value ''transaction_signature''"
    by (simp_all add: plain_value_def dquote_def backslash_def nul_def)
  have n: "unquoted ''account_label''" "unquoted ''public_key_base64''" "unquoted ''error_message''" "unquoted ''transaction_signature''"
    "unquoted ''connected''"
    using names_unquoted(1) by (simp_all add: key_names_def)
  note e = event_unquoted [OF v, of connected] and k = seek_events [OF v, of connected] and q = wallet_event_quotes
  obtain l where l: "JsonString ?json ''account_label'' (wi_AccountLabel wi) = Some (l, True)"
    "c_text l = take 63 (case label of Some s \<Rightarrow> s | None \<Rightarrow> ''public_key_base64'')"
    using shown_field [OF e n(1) _ k(2) v(1) p(1) wi(1)] unfolding q by auto
  obtain pk where pk: "JsonString ?json ''public_key_base64'' (wi_PublicKey wi) = Some (pk, True)"
    "c_text pk = take 63 (case key of Some s \<Rightarrow> s | None \<Rightarrow> ''error_message'')"
    using shown_field [OF e n(2) _ k(3) v(2) p(2) wi(2)] unfolding q by auto
  obtain m where m: "JsonString ?json ''error_message'' (wi_ErrorMessage wi) = Some (m, True)"
    "c_text m = take 127 (case message of Some s \<Rightarrow> s | None \<Rightarrow> ''transaction_signature'')"
    using shown_field [OF e n(3) _ k(4) v(3) p(3) wi(3)] unfolding q by auto
  obtain t b where t: "JsonString ?json ''transaction_signature'' (wi_TransactionSignature wi) = Some (t, b)"
    "c_text t = take 127 (case signature of Some s \<Rightarrow> s | None \<Rightarrow> [])"
  proof (cases signature)
    case None
    have "value_start (by_quotes (''{'' # event_quotes connected label key message signature)) ''transaction_signature'' = Some '':null}''"
      using value_start_quotes [OF e n(4), of "'':null}''" "[]"] k(5) by (simp add: None field_quotes_def)
    moreover have "strchr '':null}'' dquote = None" by (simp add: dquote_def)
    ultimately have "JsonString ?json ''transaction_signature'' (wi_TransactionSignature wi) = Some (wi_TransactionSignature wi, False)"
      unfolding q by (simp add: JsonString_def)
    then show ?thesis using wi(5) None by (intro that [of "wi_TransactionSignature wi" False]) simp_all
  next
    case (Some x)
    have "plain_value x" using v(4) Some by (simp add: harmless_def)
    then obtain t where "JsonString ?json ''transaction_signature'' (wi_TransactionSignature wi) = Some (t, True)" "c_text t = take 127 x"
      using JsonString_plain [OF e n(4) _ _ _ _ wi(4), of "'':''" x "[''}'']"] k(5) unfolding q
      by (auto simp: Some field_quotes_def)
    then show ?thesis using Some by (intro that [of t True]) simp_all
  qed
  have "JsonBool ?json ''connected'' False = connected"
    using value_start_quotes [OF e n(5), of "'':'' @ (if connected then ''true'' else ''false'') @ '',''"] k(1)
    unfolding q by (cases connected) (simp_all add: JsonBool_def event_quotes_def)
  then have r: "read_info ?json wi = Some (wi\<lparr>wi_AccountLabel := l, wi_PublicKey := pk, wi_ErrorMessage := m,
      wi_TransactionSignature := t, wi_Connected := (if connected then 1 else 0)\<rparr>)"
    by (simp add: read_info_def l(1) pk(1) m(1) t(1))
  have "w_Info w' = (wi\<lparr>wi_AccountLabel := l, wi_PublicKey := pk, wi_ErrorMessage := m,
      wi_TransactionSignature := t, wi_Connected := (if connected then 1 else 0)\<rparr>)\<lparr>wi_Requesting := 0\<rparr>"
    using push unfolding wallet_push_event_def Let_def wi_def [symmetric] option.case r by (auto simp: option.case)
  then show ?thesis using l(2) pk(2) m(2) t(2) by simp
qed

lemma wallet_event_shown_witness:
  "c_text (wi_ErrorMessage (w_Info (the (wallet_push_event initial_wallet 1
     (Some (wallet_event_json True (Some ''main'') (Some ''key'') None None)))))) = ''transaction_signature''"
proof -
  obtain w' where w': "wallet_push_event initial_wallet 1 (Some (wallet_event_json True (Some ''main'') (Some ''key'') None None)) = Some w'"
    using wallet_push_total [OF initial_wallet_ok] by blast
  have "harmless (Some ''main'')" "harmless (Some ''key'')" "harmless None"
    by (simp_all add: harmless_def plain_value_def key_names_def dquote_def backslash_def nul_def)
  from wallet_event_shown [OF initial_wallet_ok this(1,2,3,3) w'] w' show ?thesis by simp
qed

section \<open>Escaped characters\<close>

lemma copy_prefix:
  assumes "plain_value z" "i + length z < length dst - 1"
  shows "\<exists>dst'. copy_value i (z @ r) dst = copy_value (i + length z) r dst' \<and> length dst' = length dst \<and>
    take (i + length z) dst' = take i dst @ z \<and> drop (i + length z) dst' = drop (i + length z) dst"
  using assms
proof (induction z arbitrary: i dst)
  case (Cons c z)
  have step: "copy_value i ((c # z) @ r) dst = copy_value (Suc i) (z @ r) (dst[i := c])"
    using Cons.prems by (auto simp: plain_value_def)
  obtain dst' where d: "copy_value (Suc i) (z @ r) (dst[i := c]) = copy_value (Suc i + length z) r dst'" "length dst' = length dst"
    "take (Suc i + length z) dst' = take (Suc i) (dst[i := c]) @ z" "drop (Suc i + length z) dst' = drop (Suc i + length z) (dst[i := c])"
    using Cons.IH [of "Suc i" "dst[i := c]"] Cons.prems by (auto simp: plain_value_def)
  have "take (Suc i) (dst[i := c]) = take i dst @ [c]" using Cons.prems by (simp add: take_Suc_conv_app_nth)
  then show ?case using d unfolding step by (intro exI [of _ dst']) simp
qed auto

definition escaped :: "char \<Rightarrow> char" where
  "escaped c = (if c = CHR ''n'' then char_of (10 :: nat) else c)"

lemma copy_value_escape:
  "copy_value i (backslash # e # rest) dst =
     (if i + 1 \<ge> length dst - 1 then Some (i + 1, dst) else copy_value (i + 2) rest (dst[i + 1 := escaped e]))"
  by (auto simp: Let_def put_def dquote_def backslash_def escaped_def)

lemma copy_value_char:
  "c \<noteq> dquote \<Longrightarrow> c \<noteq> backslash \<or> rest = [] \<Longrightarrow>
   copy_value i (c # rest) dst = (if i \<ge> length dst - 1 then Some (i, dst) else copy_value (i + 1) rest (dst[i := c]))"
  by (auto simp: put_def)

lemma copy_value_before:
  "copy_value i at dst = Some (n, dst') \<Longrightarrow> i \<le> n \<and> length dst' = length dst \<and> (\<forall>k < i. dst' ! k = dst ! k)"
proof (induction "at" arbitrary: i dst rule: length_induct)
  case (1 "at")
  consider "at = []" | rest where "at = dquote # rest" | e rest where "at = backslash # e # rest"
    | c rest where "at = c # rest" "c \<noteq> dquote" "c \<noteq> backslash \<or> rest = []"
    by (metis list.exhaust)
  then show ?case
  proof cases
    case (3 e rest)
    then show ?thesis
      using 1(2) 1(1) [rule_format, of rest "i + 2" "dst[i + 1 := escaped e]"]
      by (auto simp: copy_value_escape simp del: copy_value.simps split: if_splits)
  next
    case (4 c rest)
    then show ?thesis
      using 1(2) 1(1) [rule_format, of rest "i + 1" "dst[i := c]"]
      by (auto simp: copy_value_char simp del: copy_value.simps split: if_splits)
  qed (use 1(2) in auto)
qed

text \<open>A value with an escaped character is damaged: the text up to the backslash is copied, but the array keeps the
  old byte at the place of the backslash, because the index of the array moves on with that of the text. After a fresh
  start the shown text ends there; later it shows a byte of an earlier event in its place.\<close>

theorem wallet_escape_keeps_stale_byte:
  assumes "length key \<le> 60" "value_start json key = Some at" "strchr at dquote = Some (dquote # z @ backslash # c # r)"
    and "plain_value z" "length z + 1 < length dst"
  shows "\<exists>dst'. JsonString json key dst = Some (dst', True) \<and> take (length z) dst' = z \<and> dst' ! length z = dst ! length z"
proof -
  have small: "0 + length z < length dst - 1" using assms(5) by linarith
  obtain d where d: "copy_value 0 (z @ backslash # c # r) dst = copy_value (length z) (backslash # c # r) d" "length d = length dst"
    "take (length z) d = z" "drop (length z) d = drop (length z) dst"
    using copy_prefix [OF assms(4), of 0 dst "backslash # c # r"] small by (auto simp del: copy_value.simps)
  have dz: "d ! length z = dst ! length z" using arg_cong [OF d(4), of hd] assms(5) d(2) by (simp add: hd_drop_conv_nth)
  obtain n d' where c: "copy_value (length z) (backslash # c # r) d = Some (n, d')" "length d' = length d"
    using copy_value_total by blast
  have m: "length z < n \<and> (\<forall>k \<le> length z. d' ! k = d ! k)"
  proof (cases "length z + 1 \<ge> length d - 1")
    case True
    then show ?thesis using c(1) unfolding copy_value_escape by auto
  next
    case False
    then have "copy_value (length z + 2) r (d[length z + 1 := escaped c]) = Some (n, d')"
      using c(1) unfolding copy_value_escape by simp
    from copy_value_before [OF this] show ?thesis by auto
  qed
  have k: "length z < min n (length d' - 1)" using m c(2) d(2) assms(5) by simp
  have nth: "d' ! k = z ! k" if "k < length z" for k
    using m that arg_cong [OF d(3), of "\<lambda>xs. xs ! k"] by simp
  have "length z \<le> length d'" using c(2) d(2) assms(5) by simp
  then have "take (length z) d' = z" by (intro nth_equalityI) (simp_all add: nth)
  then have "take (length z) (d'[min n (length d' - 1) := nul]) = z" using k by (simp add: take_update_cancel)
  moreover have "d'[min n (length d' - 1) := nul] ! length z = dst ! length z"
  proof -
    have "min n (length d' - 1) \<noteq> length z" using k by (rule less_imp_neq [symmetric])
    then have "d'[min n (length d' - 1) := nul] ! length z = d' ! length z" by (rule nth_list_update_neq)
    then show ?thesis using m dz by simp
  qed
  moreover have "put d' (min n (length d' - 1)) nul = Some (d'[min n (length d' - 1) := nul])"
    using c(2) d(2) assms(5) by (intro put_Some) linarith
  ultimately show ?thesis
    using assms d(1) c(1) by (auto simp: JsonString_def)
qed

lemma wallet_escape_keeps_stale_byte_witness:
  "\<exists>dst'. JsonString (error_json (''say '' @ [backslash, dquote] @ ''hi'')) ''error_message'' (replicate 128 nul) = Some (dst', True) \<and>
    take 4 dst' = ''say '' \<and> dst' ! 4 = nul"
proof -
  have p: "plain_value ''say ''" by (simp add: plain_value_def dquote_def backslash_def nul_def)
  have "value_start (error_json (''say '' @ [backslash, dquote] @ ''hi'')) ''error_message'' =
      Some ('': '' @ dquote # ''say '' @ backslash # dquote # ''hi'' @ [dquote, CHR ''}''])"
    by (simp add: value_start_def error_json_def quoted_def dquote_def backslash_def)
  moreover have "strchr ('': '' @ dquote # ''say '' @ backslash # dquote # ''hi'' @ [dquote, CHR ''}'']) dquote =
      Some (dquote # ''say '' @ backslash # dquote # ''hi'' @ [dquote, CHR ''}''])"
    by (simp add: dquote_def)
  ultimately show ?thesis
    using wallet_escape_keeps_stale_byte [OF _ _ _ p, of "''error_message''" "error_json (''say '' @ [backslash, dquote] @ ''hi'')" _
        dquote "''hi'' @ [dquote, CHR ''}'']" "replicate 128 nul"]
    by (simp add: numeral_eq_Suc)
qed

end
