(* ===== verification/NeonDm.thy ===== *)
theory NeonDm
  imports Prelude
begin

text \<open>
  The combat mode \<open>NeonDM\<close>: the rules (\<open>src/game/server/gamemodes/neon_dm_rules.h\<close>), the controller
  (\<open>neon_dm.cpp\<close>) on top of \<open>IGameController\<close> (\<open>gamecontroller.cpp\<close>), and what players, characters
  and world contribute to a round (\<open>player.cpp\<close>, \<open>entities/character.cpp\<close>, \<open>gameworld.cpp\<close>): health, armor, the
  ammunition of the gun, death, respawn, the reset of the world and the tick.

  Arrays over client ids are functions. Where and whom a shot hits is physics: it comes in as the list of actions of a
  tick. The inactivity check of the controller and the record of the race are left out, as are sounds and messages.
\<close>

section \<open>Rules\<close>

definition MAX_HEALTH :: int where "MAX_HEALTH = 10"
definition MAX_ARMOR :: int where "MAX_ARMOR = 10"
definition MAX_AMMO :: int where "MAX_AMMO = 10"
definition MAX_CLIENTS :: nat where "MAX_CLIENTS = 128"
definition TickSpeed :: int where "TickSpeed = 50"

record damage_result =
  dr_Health :: int
  dr_Armor :: int
  dr_Killed :: bool

definition Damage :: "int \<Rightarrow> int \<Rightarrow> int \<Rightarrow> bool \<Rightarrow> damage_result" where
  "Damage health armor amount self =
     (if amount \<le> 0 \<or> health \<le> 0 then \<lparr>dr_Health = health, dr_Armor = armor, dr_Killed = False\<rparr>
      else
        let amount = (if self then max 1 (amount div 2) else amount);
            (health, amount) = (if armor > 0 \<and> amount > 1 then (health - 1, amount - 1) else (health, amount));
            absorbed = min armor amount;
            armor = armor - absorbed;
            health = max 0 (health - (amount - absorbed))
        in \<lparr>dr_Health = health, dr_Armor = armor, dr_Killed = health = 0\<rparr>)"

definition ScoreDelta :: "bool \<Rightarrow> bool \<Rightarrow> bool \<Rightarrow> int" where
  "ScoreDelta administrative has_killer self = (if administrative then 0 else if \<not> has_killer \<or> self then - 1 else 1)"

datatype round_result = CONTINUE | SUDDEN_DEATH | END

definition RoundResult :: "int \<Rightarrow> int \<Rightarrow> int \<Rightarrow> int \<Rightarrow> int \<Rightarrow> int \<Rightarrow> bool \<Rightarrow> round_result" where
  "RoundResult players best leaders elapsed score_limit time_limit sudden =
     (if players < 2 then CONTINUE
      else
        let limit = (score_limit > 0 \<and> best \<ge> score_limit \<or> time_limit > 0 \<and> elapsed \<ge> time_limit) in
        if \<not> limit \<and> \<not> sudden then CONTINUE
        else if leaders = 1 then END else SUDDEN_DEATH)"

section \<open>State\<close>

datatype dm_weapon = Weapon_Game | Weapon_Self | Weapon_World | Weapon nat

record dm_char =
  ch_Alive :: bool
  ch_Health :: int
  ch_Armor :: int
  ch_GunAmmo :: int
  ch_AmmoRegenStart :: int

record dm_player =
  pl_Ingame :: bool
  pl_Spectator :: bool
  pl_Spawning :: bool
  pl_DieTick :: int
  pl_Character :: "dm_char option"

record dm_config =
  dmc_ScoreLimit :: int
  dmc_TimeLimit :: int

record dm =
  dm_Scores :: "nat \<Rightarrow> int"
  dm_GameOverTick :: int
  dm_SuddenDeath :: bool
  dm_Warmup :: int
  dm_RoundStartTick :: int
  dm_RoundCount :: int
  dm_Paused :: bool
  dm_ResetRequested :: bool
  dm_Players :: "nat \<Rightarrow> dm_player option"
  dm_ClientScores :: "nat \<Rightarrow> int option"
  dm_Tick :: int

definition DoWarmup :: "dm \<Rightarrow> int \<Rightarrow> dm" where
  "DoWarmup s seconds = s\<lparr>dm_Warmup := if seconds < 0 then 0 else seconds * TickSpeed\<rparr>"

text \<open>A fresh controller on a server without players.\<close>

definition new_dm :: "int \<Rightarrow> int \<Rightarrow> dm" where
  "new_dm warmup tick =
     DoWarmup \<lparr>dm_Scores = (\<lambda>_. 0), dm_GameOverTick = - 1, dm_SuddenDeath = False, dm_Warmup = 0, dm_RoundStartTick = tick,
       dm_RoundCount = 0, dm_Paused = False, dm_ResetRequested = False, dm_Players = (\<lambda>_. None),
       dm_ClientScores = (\<lambda>_. None), dm_Tick = tick\<rparr> warmup"

definition set_player :: "dm \<Rightarrow> nat \<Rightarrow> dm_player option \<Rightarrow> dm" where
  "set_player s i p = s\<lparr>dm_Players := (dm_Players s)(i := p)\<rparr>"

definition SetClientScore :: "dm \<Rightarrow> nat \<Rightarrow> int option \<Rightarrow> dm" where
  "SetClientScore s i score =
     (if dm_Players s i = None then s else s\<lparr>dm_ClientScores := (dm_ClientScores s)(i := score)\<rparr>)"

section \<open>Damage and death\<close>

definition killer_of :: "dm \<Rightarrow> int \<Rightarrow> nat option" where
  "killer_of s killer =
     (if 0 \<le> killer \<and> killer < int MAX_CLIENTS \<and> dm_Players s (nat killer) \<noteq> None then Some (nat killer) else None)"

definition add_score :: "dm \<Rightarrow> nat \<Rightarrow> int \<Rightarrow> dm" where
  "add_score s i delta =
     (let score = dm_Scores s i + delta in SetClientScore (s\<lparr>dm_Scores := (dm_Scores s)(i := score)\<rparr>) i (Some score))"

definition OnCharacterDeath :: "dm \<Rightarrow> nat \<Rightarrow> nat option \<Rightarrow> dm_weapon \<Rightarrow> dm" where
  "OnCharacterDeath s victim killer weapon =
     (if dm_GameOverTick s \<noteq> - 1 \<or> dm_Warmup s \<noteq> 0 \<or> dm_ResetRequested s then s
      else
        let delta = ScoreDelta (weapon = Weapon_Game) (killer \<noteq> None) (killer = Some victim) in
        if delta = 0 then s
        else if delta < 0 then add_score s victim delta
        else case killer of None \<Rightarrow> s | Some k \<Rightarrow> add_score s k delta)"

definition char_of_player :: "dm \<Rightarrow> nat \<Rightarrow> (dm_player \<times> dm_char) option" where
  "char_of_player s i = (case dm_Players s i of None \<Rightarrow> None | Some p \<Rightarrow> map_option (Pair p) (pl_Character p))"

definition set_char :: "dm \<Rightarrow> nat \<Rightarrow> dm_player \<Rightarrow> dm_char option \<Rightarrow> dm" where
  "set_char s i p c = set_player s i (Some (p\<lparr>pl_Character := c\<rparr>))"

definition Die :: "dm \<Rightarrow> nat \<Rightarrow> int \<Rightarrow> dm_weapon \<Rightarrow> dm" where
  "Die s victim killer weapon =
     (case char_of_player s victim of
        None \<Rightarrow> s
      | Some (p, c) \<Rightarrow>
          if \<not> ch_Alive c then s
          else
            let s = OnCharacterDeath s victim (killer_of s killer) weapon in
            set_char s victim (p\<lparr>pl_DieTick := dm_Tick s\<rparr>) (Some (c\<lparr>ch_Alive := False\<rparr>)))"

definition TakeDamage :: "dm \<Rightarrow> nat \<Rightarrow> int \<Rightarrow> int \<Rightarrow> dm_weapon \<Rightarrow> dm" where
  "TakeDamage s victim amount from weapon =
     (case char_of_player s victim of
        None \<Rightarrow> s
      | Some (p, c) \<Rightarrow>
          if \<not> ch_Alive c \<or> dm_Paused s then s
          else
            let r = Damage (ch_Health c) (ch_Armor c) amount (from = int victim);
                s = set_char s victim p (Some (c\<lparr>ch_Health := dr_Health r, ch_Armor := dr_Armor r\<rparr>))
            in if dr_Killed r then Die s victim from weapon else s)"

definition KillCharacter :: "dm \<Rightarrow> nat \<Rightarrow> dm_weapon \<Rightarrow> dm" where
  "KillCharacter s i weapon =
     (let s = Die s i (int i) weapon in
      case char_of_player s i of None \<Rightarrow> s | Some (p, c) \<Rightarrow> set_char s i p None)"

section \<open>Characters\<close>

definition IncreaseHealth :: "dm_char \<Rightarrow> int \<Rightarrow> dm_char \<times> bool" where
  "IncreaseHealth c amount =
     (if ch_Health c \<ge> 10 then (c, False) else (c\<lparr>ch_Health := max 0 (min 10 (ch_Health c + amount))\<rparr>, True))"

definition IncreaseArmor :: "dm_char \<Rightarrow> int \<Rightarrow> dm_char \<times> bool" where
  "IncreaseArmor c amount =
     (if ch_Armor c \<ge> 10 then (c, False) else (c\<lparr>ch_Armor := max 0 (min 10 (ch_Armor c + amount))\<rparr>, True))"

text \<open>A new character, after \<open>OnCharacterSpawn\<close>.\<close>

definition OnCharacterSpawn :: dm_char where
  "OnCharacterSpawn =
     (fst (IncreaseHealth \<lparr>ch_Alive = True, ch_Health = 0, ch_Armor = 0, ch_GunAmmo = 0, ch_AmmoRegenStart = - 1\<rparr> 10))
       \<lparr>ch_Armor := 0, ch_GunAmmo := MAX_AMMO\<rparr>"

text \<open>A shot of the gun, and the regeneration of its ammunition; \<open>ready\<close> means that the gun is held and loaded.\<close>

definition gun_shot :: "dm_char \<Rightarrow> dm_char" where
  "gun_shot c =
     (if ch_GunAmmo c = 0 then c
      else c\<lparr>ch_GunAmmo := if ch_GunAmmo c > 0 then ch_GunAmmo c - 1 else ch_GunAmmo c, ch_AmmoRegenStart := - 1\<rparr>)"

definition gun_regen :: "int \<Rightarrow> bool \<Rightarrow> dm_char \<Rightarrow> dm_char" where
  "gun_regen tick ready c =
     (if ready \<and> ch_GunAmmo c < MAX_AMMO then
        let start = (if ch_AmmoRegenStart c < 0 then tick else ch_AmmoRegenStart c) in
        if tick - start \<ge> TickSpeed div 2 then c\<lparr>ch_GunAmmo := ch_GunAmmo c + 1, ch_AmmoRegenStart := - 1\<rparr>
        else c\<lparr>ch_AmmoRegenStart := start\<rparr>
      else c\<lparr>ch_AmmoRegenStart := - 1\<rparr>)"

datatype dm_action =
    Act_Damage nat int int dm_weapon
  | Act_Fall nat
  | Act_Heal nat
  | Act_Armor nat
  | Act_Shoot nat
  | Act_Regen nat bool

definition on_char :: "dm \<Rightarrow> nat \<Rightarrow> (dm_char \<Rightarrow> dm_char) \<Rightarrow> dm" where
  "on_char s i f =
     (case char_of_player s i of None \<Rightarrow> s | Some (p, c) \<Rightarrow> if ch_Alive c then set_char s i p (Some (f c)) else s)"

fun dm_act :: "dm \<Rightarrow> dm_action \<Rightarrow> dm" where
  "dm_act s (Act_Damage victim amount from weapon) = TakeDamage s victim amount from weapon"
| "dm_act s (Act_Fall i) = Die s i (int i) Weapon_World"
| "dm_act s (Act_Heal i) = on_char s i (\<lambda>c. fst (IncreaseHealth c 1))"
| "dm_act s (Act_Armor i) = on_char s i (\<lambda>c. fst (IncreaseArmor c 1))"
| "dm_act s (Act_Shoot i) = on_char s i gun_shot"
| "dm_act s (Act_Regen i ready) = on_char s i (gun_regen (dm_Tick s) ready)"

section \<open>Rounds\<close>

definition SetGamePaused :: "dm \<Rightarrow> bool \<Rightarrow> dm" where
  "SetGamePaused s paused = (if dm_GameOverTick s \<noteq> - 1 \<and> \<not> paused then s else s\<lparr>dm_Paused := paused\<rparr>)"

definition StartRound :: "dm \<Rightarrow> dm" where
  "StartRound s =
     SetGamePaused (s\<lparr>dm_ResetRequested := True, dm_RoundStartTick := dm_Tick s, dm_SuddenDeath := False, dm_GameOverTick := - 1\<rparr>) False"

definition EndRound :: "dm \<Rightarrow> dm" where
  "EndRound s =
     (if dm_Warmup s \<noteq> 0 then s
      else (SetGamePaused s True)\<lparr>dm_GameOverTick := dm_Tick s, dm_SuddenDeath := False\<rparr>)"

definition base_Tick :: "dm \<Rightarrow> dm" where
  "base_Tick s =
     (let s = (if dm_Warmup s \<noteq> 0 then
                 let s = s\<lparr>dm_Warmup := dm_Warmup s - 1\<rparr> in if dm_Warmup s = 0 then StartRound s else s
               else s)
      in if dm_GameOverTick s \<noteq> - 1 \<and> dm_Tick s > dm_GameOverTick s + TickSpeed * 10 then
           let s = StartRound s in s\<lparr>dm_RoundCount := dm_RoundCount s + 1\<rparr>
         else s)"

text \<open>The loop over the players: how many there are, how many lead and with which score.\<close>

fun count_player :: "dm \<Rightarrow> int \<times> int \<times> int \<Rightarrow> nat \<Rightarrow> int \<times> int \<times> int" where
  "count_player s (players, leaders, best) i =
     (case dm_Players s i of
        None \<Rightarrow> (players, leaders, best)
      | Some p \<Rightarrow>
          if \<not> pl_Ingame p \<or> pl_Spectator p then (players, leaders, best)
          else if dm_Scores s i > best then (players + 1, 1, dm_Scores s i)
          else if dm_Scores s i = best then (players + 1, leaders + 1, best)
          else (players + 1, leaders, best))"

definition INT_MIN :: int where "INT_MIN = - (2 ^ 31)"

definition count_players :: "dm \<Rightarrow> int \<times> int \<times> int" where
  "count_players s = foldl (count_player s) (0, 0, INT_MIN) [0..<MAX_CLIENTS]"

definition controller_Tick :: "dm_config \<Rightarrow> dm \<Rightarrow> dm" where
  "controller_Tick cfg s =
     (let s = base_Tick s;
          s = (if dm_Paused s \<and> dm_GameOverTick s = - 1 then s\<lparr>dm_RoundStartTick := dm_RoundStartTick s + 1\<rparr> else s)
      in if dm_GameOverTick s \<noteq> - 1 \<or> dm_Warmup s \<noteq> 0 \<or> dm_Paused s \<or> dm_ResetRequested s then s
         else
           let (players, leaders, best) = count_players s in
           if players < 2 then s\<lparr>dm_RoundStartTick := dm_RoundStartTick s + 1\<rparr>
           else
             case RoundResult players best leaders (dm_Tick s - dm_RoundStartTick s) (dmc_ScoreLimit cfg)
                    (dmc_TimeLimit cfg * 60 * TickSpeed) (dm_SuddenDeath s) of
               END \<Rightarrow> EndRound s
             | SUDDEN_DEATH \<Rightarrow> s\<lparr>dm_SuddenDeath := True\<rparr>
             | CONTINUE \<Rightarrow> s)"

section \<open>Players\<close>

definition Respawn :: "dm_player \<Rightarrow> dm_player" where
  "Respawn p = (if pl_Spectator p then p else p\<lparr>pl_Spawning := True\<rparr>)"

definition dm_OnReset :: "dm \<Rightarrow> dm" where
  "dm_OnReset s =
     s\<lparr>dm_Scores := (\<lambda>_. 0),
       dm_ClientScores := (\<lambda>i. if dm_Players s i = None then dm_ClientScores s i else Some 0),
       dm_Players := (\<lambda>i. map_option Respawn (dm_Players s i))\<rparr>"

definition World_Reset :: "dm \<Rightarrow> dm" where
  "World_Reset s =
     (let s = s\<lparr>dm_Players := (\<lambda>i. map_option
                (\<lambda>p. p\<lparr>pl_Character := map_option (\<lambda>c. c\<lparr>ch_Alive := False\<rparr>) (pl_Character p)\<rparr>) (dm_Players s i))\<rparr>
      in (dm_OnReset s)\<lparr>dm_ResetRequested := False\<rparr>)"

definition TryRespawn :: "int \<Rightarrow> bool \<Rightarrow> dm_player \<Rightarrow> dm_player" where
  "TryRespawn tick place p =
     (if tick < pl_DieTick p + TickSpeed div 2 then p
      else if pl_Spectator p \<or> \<not> place then p
      else p\<lparr>pl_Spawning := False, pl_Character := Some OnCharacterSpawn\<rparr>)"

text \<open>\<open>place i\<close> tells whether a spawn point is free for the player.\<close>

definition player_Tick :: "(nat \<Rightarrow> bool) \<Rightarrow> dm \<Rightarrow> nat \<Rightarrow> dm" where
  "player_Tick place s i =
     (case dm_Players s i of
        None \<Rightarrow> s
      | Some p \<Rightarrow>
          if \<not> pl_Ingame p then s
          else if dm_Paused s then set_player s i (Some (p\<lparr>pl_DieTick := pl_DieTick p + 1\<rparr>))
          else
            let p = (if pl_Character p = None \<and> pl_DieTick p + TickSpeed div 2 \<le> dm_Tick s then p\<lparr>pl_Spawning := True\<rparr> else p) in
            case pl_Character p of
              Some c \<Rightarrow> set_player s i (Some (if ch_Alive c then p else p\<lparr>pl_Character := None\<rparr>))
            | None \<Rightarrow> set_player s i (Some (if pl_Spawning p then TryRespawn (dm_Tick s) (place i) p else p)))"

definition dm_OnTick :: "dm_config \<Rightarrow> dm \<Rightarrow> dm_action list \<Rightarrow> (nat \<Rightarrow> bool) \<Rightarrow> dm" where
  "dm_OnTick cfg s acts place =
     (let s = s\<lparr>dm_Tick := dm_Tick s + 1\<rparr>;
          s = (if dm_ResetRequested s then World_Reset s else s);
          s = (if dm_Paused s then s else foldl dm_act s acts);
          s = controller_Tick cfg s
      in foldl (player_Tick place) s [0..<MAX_CLIENTS])"

definition dm_OnClientConnected :: "dm \<Rightarrow> nat \<Rightarrow> bool \<Rightarrow> dm" where
  "dm_OnClientConnected s i spectator =
     (set_player s i (Some \<lparr>pl_Ingame = False, pl_Spectator = spectator, pl_Spawning = False, pl_DieTick = dm_Tick s, pl_Character = None\<rparr>))
       \<lparr>dm_ClientScores := (dm_ClientScores s)(i := Some (- 1))\<rparr>"

definition OnPlayerConnect :: "dm \<Rightarrow> nat \<Rightarrow> dm" where
  "OnPlayerConnect s i =
     (let s = SetClientScore (s\<lparr>dm_Scores := (dm_Scores s)(i := 0)\<rparr>) i (Some 0) in
      set_player s i (map_option Respawn (dm_Players s i)))"

definition OnPlayerDisconnect :: "dm \<Rightarrow> nat \<Rightarrow> dm" where
  "OnPlayerDisconnect s i = (let s = KillCharacter s i Weapon_Game in s\<lparr>dm_Scores := (dm_Scores s)(i := 0)\<rparr>)"

definition DoTeamChange :: "dm \<Rightarrow> nat \<Rightarrow> bool \<Rightarrow> dm" where
  "DoTeamChange s i spectator =
     (case dm_Players s i of
        None \<Rightarrow> s
      | Some p \<Rightarrow>
          if pl_Spectator p = spectator then s
          else
            let s = KillCharacter s i Weapon_Game in
            set_player s i (map_option (\<lambda>p. p\<lparr>pl_Spectator := spectator\<rparr>) (dm_Players s i)))"

definition dm_OnClientEnter :: "dm \<Rightarrow> nat \<Rightarrow> dm" where
  "dm_OnClientEnter s i =
     (case dm_Players s i of
        None \<Rightarrow> s
      | Some p \<Rightarrow> if pl_Ingame p then s else OnPlayerConnect (set_player s i (Some (p\<lparr>pl_Ingame := True\<rparr>))) i)"

definition dm_OnClientDrop :: "dm \<Rightarrow> nat \<Rightarrow> dm" where
  "dm_OnClientDrop s i = (if dm_Players s i = None then s else set_player (OnPlayerDisconnect s i) i None)"

definition dm_OnChangeName :: "dm \<Rightarrow> nat \<Rightarrow> dm" where
  "dm_OnChangeName s i = SetClientScore s i None"

definition dm_OnFireInput :: "dm \<Rightarrow> nat \<Rightarrow> dm" where
  "dm_OnFireInput s i =
     (case dm_Players s i of
        None \<Rightarrow> s
      | Some p \<Rightarrow> if pl_Character p = None \<and> \<not> pl_Spectator p then set_player s i (Some (p\<lparr>pl_Spawning := True\<rparr>)) else s)"

definition dm_ConPause :: "dm \<Rightarrow> dm" where
  "dm_ConPause s = SetGamePaused s (\<not> dm_Paused s)"

definition dm_ConRestart :: "dm \<Rightarrow> int option \<Rightarrow> dm" where
  "dm_ConRestart s warmup = (case warmup of None \<Rightarrow> StartRound s | Some seconds \<Rightarrow> DoWarmup s seconds)"

lemmas dm_commands = dm_OnClientEnter_def dm_OnClientDrop_def dm_OnChangeName_def dm_OnFireInput_def dm_ConPause_def dm_ConRestart_def

declare dm_commands [simp]

section \<open>Runs\<close>

datatype dm_event =
    Dm_Tick "dm_action list" "nat \<Rightarrow> bool"
  | Dm_Join nat bool
  | Dm_Enter nat
  | Dm_Drop nat
  | Dm_Kill nat dm_weapon
  | Dm_Team nat bool
  | Dm_Rename nat
  | Dm_Fire nat
  | Dm_Pause
  | Dm_Restart "int option"

fun dm_step :: "dm_config \<Rightarrow> dm \<Rightarrow> dm_event \<Rightarrow> dm" where
  "dm_step cfg s (Dm_Tick acts place) = dm_OnTick cfg s acts place"
| "dm_step cfg s (Dm_Join i spectator) =
     (if i < MAX_CLIENTS \<and> dm_Players s i = None then dm_OnClientConnected s i spectator else s)"
| "dm_step cfg s (Dm_Enter i) = dm_OnClientEnter s i"
| "dm_step cfg s (Dm_Drop i) = dm_OnClientDrop s i"
| "dm_step cfg s (Dm_Kill i weapon) = KillCharacter s i weapon"
| "dm_step cfg s (Dm_Team i spectator) = DoTeamChange s i spectator"
| "dm_step cfg s (Dm_Rename i) = dm_OnChangeName s i"
| "dm_step cfg s (Dm_Fire i) = dm_OnFireInput s i"
| "dm_step cfg s Dm_Pause = dm_ConPause s"
| "dm_step cfg s (Dm_Restart warmup) = dm_ConRestart s warmup"

definition dm_run :: "dm_config \<Rightarrow> dm \<Rightarrow> dm_event list \<Rightarrow> dm" where
  "dm_run cfg s events = foldl (dm_step cfg) s events"

end
