(* ===== verification/DmSafety.thy ===== *)
theory DmSafety
  imports NeonDm
begin

text \<open>
  Correctness of the combat mode: what damage costs, the invariant of a game under every event, the accounts of
  the scores, when a round ends and how the next one starts.
\<close>

section \<open>Damage\<close>

definition effective :: "int \<Rightarrow> bool \<Rightarrow> int" where
  "effective amount self = (if self then max 1 (amount div 2) else amount)"

lemma Damage_loss:
  assumes "0 < health" "0 \<le> armor" "0 < amount"
  shows "0 \<le> dr_Health (Damage health armor amount self)" "dr_Health (Damage health armor amount self) \<le> health"
    "0 \<le> dr_Armor (Damage health armor amount self)" "dr_Armor (Damage health armor amount self) \<le> armor"
    "dr_Killed (Damage health armor amount self) \<longleftrightarrow> dr_Health (Damage health armor amount self) = 0"
    "health - dr_Health (Damage health armor amount self) + (armor - dr_Armor (Damage health armor amount self)) \<le> effective amount self"
    "dr_Killed (Damage health armor amount self) \<or>
     health - dr_Health (Damage health armor amount self) + (armor - dr_Armor (Damage health armor amount self)) = effective amount self"
  using assms by (auto simp: Damage_def effective_def Let_def)

text \<open>The hits that a character takes, up to the one that kills it.\<close>

fun take_hits :: "int \<Rightarrow> int \<Rightarrow> (int \<times> bool) list \<Rightarrow> int \<times> int \<times> bool" where
  "take_hits health armor [] = (health, armor, False)"
| "take_hits health armor ((amount, self) # hits) =
     (let r = Damage health armor amount self in
      if dr_Killed r then (dr_Health r, dr_Armor r, True) else take_hits (dr_Health r) (dr_Armor r) hits)"

lemma effective_pos: "0 < amount \<Longrightarrow> 0 < effective amount self"
  by (auto simp: effective_def)

lemma effective_sum_nonneg: "list_all (\<lambda>(amount, self). 0 < amount) hits \<Longrightarrow> 0 \<le> sum_list (map (\<lambda>(amount, self). effective amount self) hits)"
  by (induction hits) (auto intro!: add_nonneg_nonneg less_imp_le [OF effective_pos])

text \<open>C21. Damage is accounted for: over any sequence of hits, a character that survives has lost exactly the damage dealt
  (own damage halved), in health and armor together; it cannot die from less damage than its health, and cannot
  survive more than its health and armor. Health and armor never leave their range.\<close>

theorem damage_accounted:
  assumes "take_hits health armor hits = (health', armor', killed)"
    and "0 < health" "0 \<le> armor" "list_all (\<lambda>(amount, self). 0 < amount) hits"
  shows "0 \<le> health' \<and> health' \<le> health \<and> 0 \<le> armor' \<and> armor' \<le> armor \<and> (killed \<longleftrightarrow> health' = 0) \<and>
    (\<not> killed \<longrightarrow> health - health' + (armor - armor') = sum_list (map (\<lambda>(amount, self). effective amount self) hits)) \<and>
    health - health' + (armor - armor') \<le> sum_list (map (\<lambda>(amount, self). effective amount self) hits)"
  using assms
proof (induction hits arbitrary: health armor)
  case (Cons hit hits)
  obtain amount self where hit: "hit = (amount, self)" by force
  note d = Damage_loss [OF Cons.prems(2,3), of amount self]
  have rest: "0 \<le> sum_list (map (\<lambda>(amount, self). effective amount self) hits)"
    using effective_sum_nonneg [of hits] Cons.prems(4) by simp
  show ?case
  proof (cases "dr_Killed (Damage health armor amount self)")
    case True
    then show ?thesis using Cons.prems d rest by (auto simp: hit Let_def)
  next
    case False
    then have h: "0 < dr_Health (Damage health armor amount self)" using d Cons.prems(4) by (simp add: hit)
    have "take_hits (dr_Health (Damage health armor amount self)) (dr_Armor (Damage health armor amount self)) hits = (health', armor', killed)"
      using Cons.prems(1) False by (simp add: hit Let_def)
    from Cons.IH [OF this h] show ?thesis using Cons.prems(4) d False by (auto simp: hit)
  qed
qed simp

lemma damage_accounted_witness:
  "take_hits 10 5 [(4, False), (6, True), (20, False)] = (0, 0, True) \<and> (10 :: int) - 0 + (5 - 0) \<le> 27"
  using damage_accounted [of 10 5 "[(4, False), (6, True), (20, False)]" 0 0 True]
  by (simp add: Damage_def Let_def effective_def)

section \<open>The invariant\<close>

text \<open>The part of the state that the rounds use, and the part that the players use.\<close>

definition round_of :: "dm \<Rightarrow> int \<times> bool \<times> int \<times> int \<times> int \<times> bool \<times> bool \<times> int" where
  "round_of s = (dm_GameOverTick s, dm_SuddenDeath s, dm_Warmup s, dm_RoundStartTick s, dm_RoundCount s, dm_Paused s,
     dm_ResetRequested s, dm_Tick s)"

definition board_of :: "dm \<Rightarrow> (nat \<Rightarrow> int) \<times> (nat \<Rightarrow> dm_player option) \<times> (nat \<Rightarrow> int option)" where
  "board_of s = (dm_Scores s, dm_Players s, dm_ClientScores s)"

definition char_ok :: "dm_char \<Rightarrow> bool" where
  "char_ok c \<longleftrightarrow> 0 \<le> ch_Health c \<and> (ch_Alive c \<longrightarrow> 0 < ch_Health c) \<and> ch_Health c \<le> MAX_HEALTH \<and>
     0 \<le> ch_Armor c \<and> ch_Armor c \<le> MAX_ARMOR \<and> 0 \<le> ch_GunAmmo c \<and> ch_GunAmmo c \<le> MAX_AMMO"

text \<open>A player: its character is in order, a living one belongs to a player of the game; once it
  entered, the server list shows its score, or none after a change of name.\<close>

definition player_ok :: "int \<Rightarrow> int option \<Rightarrow> dm_player \<Rightarrow> bool" where
  "player_ok score shown p \<longleftrightarrow>
     (\<forall>c. pl_Character p = Some c \<longrightarrow> char_ok c \<and> pl_Ingame p \<and> (ch_Alive c \<longrightarrow> \<not> pl_Spectator p)) \<and>
     (pl_Ingame p \<longrightarrow> shown = None \<or> shown = Some score)"

definition slot_ok :: "nat \<Rightarrow> int \<Rightarrow> int option \<Rightarrow> dm_player option \<Rightarrow> bool" where
  "slot_ok i score shown p \<longleftrightarrow> (case p of None \<Rightarrow> score = 0 | Some p \<Rightarrow> i < MAX_CLIENTS \<and> player_ok score shown p)"

definition board_ok :: "dm \<Rightarrow> bool" where
  "board_ok s \<longleftrightarrow> (\<forall>i. slot_ok i (dm_Scores s i) (dm_ClientScores s i) (dm_Players s i))"

definition round_ok :: "dm \<Rightarrow> bool" where
  "round_ok s \<longleftrightarrow> 0 \<le> dm_Tick s \<and> dm_RoundStartTick s \<le> dm_Tick s \<and> 0 \<le> dm_Warmup s \<and>
     (dm_GameOverTick s \<noteq> - 1 \<longrightarrow> dm_Paused s \<and> 0 \<le> dm_GameOverTick s \<and> dm_GameOverTick s \<le> dm_Tick s)"

lemma char_of_player_Some:
  "char_of_player s i = Some (p, c) \<longleftrightarrow> dm_Players s i = Some p \<and> pl_Character p = Some c"
  by (auto simp: char_of_player_def split: option.splits)

lemma slot_ok_simps [simp]:
  "slot_ok i score shown None \<longleftrightarrow> score = 0"
  "slot_ok i score shown (Some p) \<longleftrightarrow> i < MAX_CLIENTS \<and> player_ok score shown p"
  by (simp_all add: slot_ok_def)

lemma board_okD: "board_ok s \<Longrightarrow> dm_Players s i = Some p \<Longrightarrow> i < MAX_CLIENTS \<and> player_ok (dm_Scores s i) (dm_ClientScores s i) p"
  unfolding board_ok_def by (metis slot_ok_simps(2))

lemma board_ok_cong: "board_of s = board_of s' \<Longrightarrow> board_ok s = board_ok s'"
  by (simp add: board_of_def board_ok_def)

lemma round_ok_cong: "round_of s = round_of s' \<Longrightarrow> round_ok s = round_ok s'"
  by (simp add: round_of_def round_ok_def)

lemma set_player_ok:
  assumes "board_ok s" "i < MAX_CLIENTS" "player_ok (dm_Scores s i) (dm_ClientScores s i) p"
  shows "board_ok (set_player s i (Some p))"
  using assms by (simp add: board_ok_def set_player_def)

lemma round_of_players [simp]:
  "round_of (set_player s i p) = round_of s" "round_of (SetClientScore s i x) = round_of s"
  "round_of (add_score s i d) = round_of s" "round_of (OnCharacterDeath s i k w) = round_of s"
  "round_of (set_char s i q c) = round_of s" "round_of (on_char s i f) = round_of s"
  by (auto simp: round_of_def set_player_def SetClientScore_def add_score_def OnCharacterDeath_def set_char_def on_char_def
      Let_def split: option.splits)

lemma round_of_Die [simp]: "round_of (Die s i k w) = round_of s"
  by (auto simp: Die_def Let_def split: option.splits)

lemma round_of_TakeDamage [simp]: "round_of (TakeDamage s i a f w) = round_of s"
  by (auto simp: TakeDamage_def Let_def split: option.splits)

lemma round_of_Kill [simp]: "round_of (KillCharacter s i w) = round_of s"
  by (auto simp: KillCharacter_def Let_def split: option.splits)

lemma round_of_act [simp]: "round_of (dm_act s a) = round_of s"
  by (cases a) simp_all

lemma round_of_acts [simp]: "round_of (foldl dm_act s acts) = round_of s"
  by (induction acts arbitrary: s) simp_all

lemma round_of_player_Tick [simp]: "round_of (player_Tick place s i) = round_of s"
  by (auto simp: player_Tick_def Let_def split: option.splits)

lemma round_of_player_Ticks [simp]: "round_of (foldl (player_Tick place) s is) = round_of s"
  by (induction "is" arbitrary: s) simp_all

subsection \<open>Players\<close>

lemma add_score_ok: "board_ok s \<Longrightarrow> dm_Players s i \<noteq> None \<Longrightarrow> board_ok (add_score s i d)"
  using board_okD [of s i] by (auto simp: board_ok_def add_score_def SetClientScore_def Let_def player_ok_def)

lemma OnCharacterDeath_players [simp]: "dm_Players (OnCharacterDeath s i k w) = dm_Players s"
  by (auto simp: OnCharacterDeath_def add_score_def SetClientScore_def Let_def split: option.splits)

lemma killer_of_Some: "killer_of s k = Some i \<Longrightarrow> dm_Players s i \<noteq> None"
  by (auto simp: killer_of_def split: if_splits)

lemma OnCharacterDeath_ok:
  "board_ok s \<Longrightarrow> dm_Players s i \<noteq> None \<Longrightarrow> board_ok (OnCharacterDeath s i (killer_of s k) w)"
  by (auto simp: OnCharacterDeath_def Let_def dest: killer_of_Some intro!: add_score_ok split: option.splits)

lemma set_char_ok:
  assumes "board_ok s" "dm_Players s i = Some q" "player_ok (dm_Scores s i) (dm_ClientScores s i) (p\<lparr>pl_Character := c\<rparr>)"
  shows "board_ok (set_char s i p c)"
  unfolding set_char_def using set_player_ok [OF assms(1)] board_okD [OF assms(1,2)] assms(3) by blast

lemma player_ok_char:
  "player_ok score shown p \<Longrightarrow> pl_Character p = Some c \<Longrightarrow> char_ok c' \<Longrightarrow> (ch_Alive c' \<longrightarrow> ch_Alive c) \<Longrightarrow>
   player_ok score shown (p\<lparr>pl_Character := Some c'\<rparr>)"
  by (simp add: player_ok_def)

lemma Die_ok:
  assumes "board_ok s"
  shows "board_ok (Die s i k w)"
proof (cases "char_of_player s i")
  case (Some pc)
  obtain p c where pc: "pc = (p, c)" by force
  then have p: "dm_Players s i = Some p" "pl_Character p = Some c" using Some by (simp_all add: char_of_player_Some)
  have ok: "board_ok (OnCharacterDeath s i (killer_of s k) w)" using OnCharacterDeath_ok [OF assms] p by simp
  have "player_ok score shown p \<Longrightarrow> player_ok score shown (p\<lparr>pl_DieTick := t, pl_Character := Some (c\<lparr>ch_Alive := False\<rparr>)\<rparr>)" for score shown t
    using p(2) by (simp add: player_ok_def char_ok_def)
  then show ?thesis
    using assms Some set_char_ok [OF ok] board_okD [OF ok] p by (simp add: Die_def pc Let_def)
qed (simp add: Die_def assms)

lemma damage_char_ok:
  assumes "char_ok c" "ch_Alive c"
  defines "c' \<equiv> \<lambda>amount self. c\<lparr>ch_Health := dr_Health (Damage (ch_Health c) (ch_Armor c) amount self),
    ch_Armor := dr_Armor (Damage (ch_Health c) (ch_Armor c) amount self)\<rparr>"
  shows "char_ok ((c' amount self)\<lparr>ch_Alive := False\<rparr>)"
    "\<not> dr_Killed (Damage (ch_Health c) (ch_Armor c) amount self) \<Longrightarrow> char_ok (c' amount self)"
proof -
  have "char_ok ((c' amount self)\<lparr>ch_Alive := False\<rparr>) \<and>
    (\<not> dr_Killed (Damage (ch_Health c) (ch_Armor c) amount self) \<longrightarrow> char_ok (c' amount self))"
  proof (cases "0 < amount")
    case True
    then show ?thesis using assms(1,2) Damage_loss [of "ch_Health c" "ch_Armor c" amount self] by (auto simp: char_ok_def c'_def)
  qed (use assms(1,2) in \<open>simp add: char_ok_def Damage_def c'_def\<close>)
  then show "char_ok ((c' amount self)\<lparr>ch_Alive := False\<rparr>)"
    "\<not> dr_Killed (Damage (ch_Health c) (ch_Armor c) amount self) \<Longrightarrow> char_ok (c' amount self)" by blast+
qed

text \<open>A death does not look at the characters, so it may come before the damage that caused it.\<close>

lemma add_score_set_player:
  assumes "dm_Players s i \<noteq> None"
  shows "add_score (set_player s i (Some q)) j d = set_player (add_score s j d) i (Some q)"
  using assms by (cases s) (auto simp: add_score_def set_player_def SetClientScore_def Let_def)

lemma death_set_player:
  assumes "dm_Players s i \<noteq> None"
  shows "OnCharacterDeath (set_player s i (Some q)) j k w = set_player (OnCharacterDeath s j k w) i (Some q)"
    "killer_of (set_player s i (Some q)) x = killer_of s x"
proof -
  have f: "dm_GameOverTick (set_player s i (Some q)) = dm_GameOverTick s" "dm_Warmup (set_player s i (Some q)) = dm_Warmup s"
    "dm_ResetRequested (set_player s i (Some q)) = dm_ResetRequested s"
    by (simp_all add: set_player_def)
  show "OnCharacterDeath (set_player s i (Some q)) j k w = set_player (OnCharacterDeath s j k w) i (Some q)"
    unfolding OnCharacterDeath_def f using add_score_set_player [OF assms] by (simp add: Let_def split: option.split)
  show "killer_of (set_player s i (Some q)) x = killer_of s x" using assms by (auto simp: killer_of_def set_player_def)
qed

lemma dm_Tick_round: "round_of s = round_of s' \<Longrightarrow> dm_Tick s = dm_Tick s'"
  by (simp add: round_of_def)

lemma Die_set_char:
  assumes "dm_Players s i = Some q" "ch_Alive c"
  shows "Die (set_char s i p (Some c)) i k w =
    set_char (OnCharacterDeath s i (killer_of s k) w) i (p\<lparr>pl_DieTick := dm_Tick s\<rparr>) (Some (c\<lparr>ch_Alive := False\<rparr>))"
proof -
  have t: "dm_Tick (OnCharacterDeath s i (killer_of s k) w) = dm_Tick s" by (rule dm_Tick_round) simp
  have "char_of_player (set_char s i p (Some c)) i = Some (p\<lparr>pl_Character := Some c\<rparr>, c)"
    by (simp add: char_of_player_def set_char_def set_player_def)
  then show ?thesis
    using assms death_set_player [of s i] t by (simp add: Die_def Let_def set_char_def) (simp add: set_player_def)
qed

lemma TakeDamage_cases:
  fixes a attacker :: int
  assumes "char_of_player s i = Some (p, c)" "ch_Alive c" "\<not> dm_Paused s"
  defines "r \<equiv> Damage (ch_Health c) (ch_Armor c) a (attacker = int i)"
  defines "c' \<equiv> c\<lparr>ch_Health := dr_Health r, ch_Armor := dr_Armor r\<rparr>"
  shows "TakeDamage s i a attacker w =
    (if dr_Killed r then set_char (OnCharacterDeath s i (killer_of s attacker) w) i (p\<lparr>pl_DieTick := dm_Tick s\<rparr>) (Some (c'\<lparr>ch_Alive := False\<rparr>))
     else set_char s i p (Some c'))"
proof -
  have "dm_Players s i = Some p" using assms(1) by (simp add: char_of_player_Some)
  moreover have "ch_Alive c'" using assms(2) by (simp add: c'_def)
  ultimately show ?thesis
    using Die_set_char [of s i p c' p attacker w]
    unfolding TakeDamage_def assms(1) by (simp add: Let_def assms(2,3) r_def c'_def)
qed

lemma TakeDamage_ok:
  assumes "board_ok s"
  shows "board_ok (TakeDamage s i a attacker w)"
proof (cases "char_of_player s i")
  case (Some pc)
  obtain p c where pc: "pc = (p, c)" by force
  then have p: "dm_Players s i = Some p" "pl_Character p = Some c" using Some by (simp_all add: char_of_player_Some)
  show ?thesis
  proof (cases "ch_Alive c \<and> \<not> dm_Paused s")
    case True
    note t = TakeDamage_cases [OF Some [unfolded pc] True [THEN conjunct1] True [THEN conjunct2]]
    have ok: "board_ok (OnCharacterDeath s i (killer_of s attacker) w)" using OnCharacterDeath_ok [OF assms] p by simp
    have "char_ok c" using board_okD [OF assms p(1)] p(2) by (simp add: player_ok_def)
    note d = damage_char_ok [OF this True [THEN conjunct1], of a "attacker = int i"]
    have dead: "player_ok score shown p \<Longrightarrow> char_ok c' \<Longrightarrow> \<not> ch_Alive c' \<Longrightarrow>
        player_ok score shown (p\<lparr>pl_DieTick := x, pl_Character := Some c'\<rparr>)" for score shown c' x
      using p(2) by (simp add: player_ok_def)
    show ?thesis
    proof (cases "dr_Killed (Damage (ch_Health c) (ch_Armor c) a (attacker = int i))")
      case True
      have "dm_Players (OnCharacterDeath s i (killer_of s attacker) w) i = Some p" using p by simp
      then show ?thesis using dead [OF _ d(1)] board_okD [OF ok] set_char_ok [OF ok] True unfolding t by simp
    next
      case False
      then show ?thesis
        using player_ok_char [OF _ p(2) d(2)] board_okD [OF assms p(1)] set_char_ok [OF assms p(1)] \<open>ch_Alive c \<and> \<not> dm_Paused s\<close>
        unfolding t by simp
    qed
  qed (use assms Some in \<open>auto simp: TakeDamage_def pc\<close>)
qed (simp add: TakeDamage_def assms)

lemma on_char_ok:
  assumes "board_ok s" "\<And>c. char_ok c \<Longrightarrow> ch_Alive c \<Longrightarrow> char_ok (f c) \<and> ch_Alive (f c)"
  shows "board_ok (on_char s i f)"
proof (cases "char_of_player s i")
  case (Some pc)
  obtain p c where pc: "pc = (p, c)" by force
  then have p: "dm_Players s i = Some p" "pl_Character p = Some c" using Some by (simp_all add: char_of_player_Some)
  have c: "char_ok c" using board_okD [OF assms(1) p(1)] p(2) by (simp add: player_ok_def)
  show ?thesis
    using assms(2) [OF c] set_char_ok [OF assms(1) p(1)] player_ok_char [OF _ p(2)] board_okD [OF assms(1) p(1)] assms(1) Some
    by (simp add: on_char_def pc)
qed (simp add: on_char_def assms)

lemma char_changes_ok:
  "char_ok c \<Longrightarrow> ch_Alive c \<Longrightarrow> char_ok (fst (IncreaseHealth c 1)) \<and> ch_Alive (fst (IncreaseHealth c 1))"
  "char_ok c \<Longrightarrow> ch_Alive c \<Longrightarrow> char_ok (fst (IncreaseArmor c 1)) \<and> ch_Alive (fst (IncreaseArmor c 1))"
  "char_ok c \<Longrightarrow> ch_Alive c \<Longrightarrow> char_ok (gun_shot c) \<and> ch_Alive (gun_shot c)"
  "char_ok c \<Longrightarrow> ch_Alive c \<Longrightarrow> char_ok (gun_regen t ready c) \<and> ch_Alive (gun_regen t ready c)"
  by (auto simp: IncreaseHealth_def IncreaseArmor_def gun_shot_def gun_regen_def char_ok_def MAX_HEALTH_def MAX_ARMOR_def MAX_AMMO_def Let_def)

lemma dm_act_ok: "board_ok s \<Longrightarrow> board_ok (dm_act s a)"
  by (cases a) (simp_all add: TakeDamage_ok Die_ok on_char_ok char_changes_ok)

lemma dm_acts_ok: "board_ok s \<Longrightarrow> board_ok (foldl dm_act s acts)"
  by (induction acts arbitrary: s) (simp_all add: dm_act_ok)

lemma KillCharacter_ok:
  assumes "board_ok s"
  shows "board_ok (KillCharacter s i w)"
proof -
  have ok: "board_ok (Die s i (int i) w)" by (rule Die_ok [OF assms])
  show ?thesis
    using ok set_char_ok [OF ok] board_okD [OF ok]
    by (auto simp: KillCharacter_def Let_def char_of_player_Some player_ok_def split: option.splits)
qed

subsection \<open>Rounds\<close>

lemma board_of_rounds [simp]:
  "board_of (SetGamePaused s b) = board_of s" "board_of (StartRound s) = board_of s" "board_of (EndRound s) = board_of s"
  "board_of (DoWarmup s n) = board_of s" "board_of (base_Tick s) = board_of s"
  by (auto simp: board_of_def SetGamePaused_def StartRound_def EndRound_def DoWarmup_def base_Tick_def Let_def)

lemma board_of_controller [simp]: "board_of (controller_Tick cfg s) = board_of s"
proof -
  have upd: "board_of (s\<lparr>dm_RoundStartTick := x\<rparr>) = board_of s" "board_of (s\<lparr>dm_SuddenDeath := b\<rparr>) = board_of s" for s x b
    by (simp_all add: board_of_def)
  show ?thesis by (auto simp: controller_Tick_def Let_def upd split: prod.splits round_result.splits)
qed

lemma base_Tick_idle: "dm_Warmup s = 0 \<Longrightarrow> dm_GameOverTick s = - 1 \<Longrightarrow> base_Tick s = s"
  by (simp add: base_Tick_def)

lemma base_Tick_round:
  assumes "round_ok s" "dm_RoundStartTick s < dm_Tick s"
  shows "round_ok (base_Tick s)" "dm_Tick (base_Tick s) = dm_Tick s"
    "dm_RoundStartTick (base_Tick s) < dm_Tick s \<or> dm_ResetRequested (base_Tick s) \<and> \<not> dm_Paused (base_Tick s)"
  using assms by (auto simp: base_Tick_def StartRound_def SetGamePaused_def round_ok_def Let_def)

lemma controller_round_ok:
  assumes "round_ok s" "dm_RoundStartTick s < dm_Tick s"
  shows "round_ok (controller_Tick cfg s)"
  using base_Tick_round [OF assms]
  by (auto simp: controller_Tick_def Let_def round_ok_def EndRound_def SetGamePaused_def split: prod.splits round_result.splits)

lemma tick_controller [simp]: "dm_Tick (controller_Tick cfg s) = dm_Tick s"
  by (auto simp: controller_Tick_def base_Tick_def StartRound_def EndRound_def SetGamePaused_def Let_def
      split: prod.splits round_result.splits)

lemma World_Reset_ok:
  assumes "board_ok s"
  shows "board_ok (World_Reset s)" "dm_Tick (World_Reset s) = dm_Tick s"
    "round_of (World_Reset s) = round_of (s\<lparr>dm_ResetRequested := False\<rparr>)"
proof -
  show "board_ok (World_Reset s)"
    unfolding board_ok_def
  proof
    fix i
    show "slot_ok i (dm_Scores (World_Reset s) i) (dm_ClientScores (World_Reset s) i) (dm_Players (World_Reset s) i)"
      using board_okD [OF assms, of i]
      by (cases "dm_Players s i") (auto simp: World_Reset_def dm_OnReset_def Let_def player_ok_def Respawn_def char_ok_def)
  qed
qed (simp_all add: World_Reset_def dm_OnReset_def Let_def round_of_def)

subsection \<open>Every event\<close>

lemma spawn_ok: "char_ok OnCharacterSpawn"
  by (simp add: OnCharacterSpawn_def IncreaseHealth_def char_ok_def MAX_HEALTH_def MAX_ARMOR_def MAX_AMMO_def)

lemma player_Tick_ok:
  assumes "board_ok s"
  shows "board_ok (player_Tick place s i)"
proof (cases "dm_Players s i")
  case (Some p)
  then show ?thesis
    using board_okD [OF assms Some] set_player_ok [OF assms, of i] assms spawn_ok
    by (auto simp: player_Tick_def Let_def player_ok_def TryRespawn_def split: option.splits)
qed (simp add: player_Tick_def assms)

lemma player_Ticks_ok: "board_ok s \<Longrightarrow> board_ok (foldl (player_Tick place) s is)"
  by (induction "is" arbitrary: s) (simp_all add: player_Tick_ok)

lemma OnTick_ok:
  assumes "board_ok s" "round_ok s"
  shows "board_ok (dm_OnTick cfg s acts place)" "round_ok (dm_OnTick cfg s acts place)"
    "dm_Tick (dm_OnTick cfg s acts place) = dm_Tick s + 1"
proof -
  define s1 where "s1 = s\<lparr>dm_Tick := dm_Tick s + 1\<rparr>"
  define s2 where "s2 = (if dm_ResetRequested s1 then World_Reset s1 else s1)"
  define s3 where "s3 = (if dm_Paused s2 then s2 else foldl dm_act s2 acts)"
  have on: "dm_OnTick cfg s acts place = foldl (player_Tick place) (controller_Tick cfg s3) [0..<MAX_CLIENTS]"
    by (simp add: dm_OnTick_def s1_def s2_def s3_def Let_def)
  have b1: "board_ok s1" using assms(1) board_ok_cong [of s1 s] by (simp add: board_of_def s1_def)
  have b3: "board_ok s3" using b1 World_Reset_ok [OF b1] by (simp add: s2_def s3_def dm_acts_ok)
  have r1: "round_ok s1" "dm_RoundStartTick s1 < dm_Tick s1" using assms(2) by (auto simp: s1_def round_ok_def)
  have "round_of s3 = round_of s1 \<or> round_of s3 = round_of (s1\<lparr>dm_ResetRequested := False\<rparr>)"
    using World_Reset_ok [OF b1] by (simp add: s2_def s3_def)
  then have r3: "round_ok s3" "dm_RoundStartTick s3 < dm_Tick s3" "dm_Tick s3 = dm_Tick s + 1"
    using r1 by (auto simp: round_of_def round_ok_def s1_def)
  have bc: "board_ok (controller_Tick cfg s3)" using board_ok_cong [of "controller_Tick cfg s3" s3] b3 by simp
  show "board_ok (dm_OnTick cfg s acts place)" unfolding on by (rule player_Ticks_ok [OF bc])
  show "round_ok (dm_OnTick cfg s acts place)"
    unfolding on using controller_round_ok [OF r3(1,2)] round_ok_cong [OF round_of_player_Ticks] by blast
  show "dm_Tick (dm_OnTick cfg s acts place) = dm_Tick s + 1"
    unfolding on using dm_Tick_round [OF round_of_player_Ticks] r3(3) by simp
qed

lemma player_ok_spectator:
  "player_ok score shown p \<Longrightarrow> pl_Character p = None \<Longrightarrow> player_ok score shown (p\<lparr>pl_Spectator := b\<rparr>)"
  by (simp add: player_ok_def)

lemma Kill_no_char: "dm_Players (KillCharacter s i w) i = Some p \<Longrightarrow> pl_Character p = None"
  by (auto simp: KillCharacter_def Let_def char_of_player_def set_char_def set_player_def split: option.splits)

lemma DoTeamChange_ok:
  assumes "board_ok s"
  shows "board_ok (DoTeamChange s i b)"
proof (cases "dm_Players (KillCharacter s i Weapon_Game) i")
  case None
  have "set_player (KillCharacter s i Weapon_Game) i None = KillCharacter s i Weapon_Game"
    using None by (cases "KillCharacter s i Weapon_Game") (simp add: set_player_def fun_upd_idem)
  then show ?thesis using KillCharacter_ok [OF assms, of i Weapon_Game] assms None by (simp add: DoTeamChange_def Let_def split: option.split)
next
  case (Some p)
  note ok = KillCharacter_ok [OF assms, of i Weapon_Game]
  show ?thesis
    using set_player_ok [OF ok, of i] board_okD [OF ok Some] Kill_no_char [OF Some] player_ok_spectator assms
    by (simp add: DoTeamChange_def Let_def Some split: option.split)
qed

lemma OnPlayerConnect_ok:
  assumes "board_ok s" "dm_Players s i = Some p"
  shows "board_ok (OnPlayerConnect (set_player s i (Some (p\<lparr>pl_Ingame := True\<rparr>))) i)"
  using board_okD [OF assms] assms(1)
  by (auto simp: board_ok_def OnPlayerConnect_def set_player_def SetClientScore_def Let_def player_ok_def Respawn_def)

lemma Kill_frame: "j \<noteq> i \<Longrightarrow> dm_Players (KillCharacter s i w) j = dm_Players s j"
  by (auto simp: KillCharacter_def Die_def set_char_def set_player_def Let_def split: option.splits)

lemma OnPlayerDisconnect_ok:
  assumes "board_ok s"
  shows "board_ok (set_player (OnPlayerDisconnect s i) i None)"
  using KillCharacter_ok [OF assms, of i Weapon_Game]
  by (simp add: board_ok_def OnPlayerDisconnect_def set_player_def Let_def)

lemma round_ok_commands:
  assumes "round_ok s"
  shows "round_ok (SetGamePaused s b)" "round_ok (StartRound s)" "round_ok (DoWarmup s n)"
  using assms by (auto simp: round_ok_def SetGamePaused_def StartRound_def DoWarmup_def TickSpeed_def)

lemma round_of_events [simp]:
  "round_of (s\<lparr>dm_Scores := x\<rparr>) = round_of s" "round_of (s\<lparr>dm_ClientScores := y\<rparr>) = round_of s"
  by (simp_all add: round_of_def)

lemma round_of_visits [simp]:
  "round_of (dm_OnClientConnected s i b) = round_of s" "round_of (OnPlayerConnect s i) = round_of s"
  "round_of (OnPlayerDisconnect s i) = round_of s" "round_of (DoTeamChange s i b) = round_of s"
  by (simp_all add: dm_OnClientConnected_def OnPlayerConnect_def OnPlayerDisconnect_def DoTeamChange_def Let_def split: option.split)

lemma dm_step_round_of:
  "round_of (dm_step cfg s e) = round_of s \<or> (\<exists>acts place. e = Dm_Tick acts place) \<or> e = Dm_Pause \<or> (\<exists>w. e = Dm_Restart w)"
  by (cases e) (auto split: option.splits)

lemma dm_step_ok:
  assumes "board_ok s" "round_ok s"
  shows "board_ok (dm_step cfg s e)" "round_ok (dm_step cfg s e)"
proof -
  consider "round_of (dm_step cfg s e) = round_of s" | acts place where "e = Dm_Tick acts place" | "e = Dm_Pause" | w where "e = Dm_Restart w"
    using dm_step_round_of by blast
  then show "round_ok (dm_step cfg s e)"
  proof cases
    case 1
    then show ?thesis using round_ok_cong assms(2) by blast
  qed (use OnTick_ok [OF assms] round_ok_commands [OF assms(2)] in \<open>simp_all split: option.split\<close>)
  have frame: "board_of s' = board_of s \<Longrightarrow> board_ok s'" for s' using assms(1) board_ok_cong by blast
  show "board_ok (dm_step cfg s e)"
  proof (cases e)
    case (Dm_Join i b)
    then show ?thesis using assms(1) by (simp add: board_ok_def dm_OnClientConnected_def set_player_def player_ok_def)
  next
    case (Dm_Enter i)
    then show ?thesis using OnPlayerConnect_ok [OF assms(1)] assms(1) by (simp split: option.split)
  next
    case (Dm_Rename i)
    then show ?thesis using board_okD [OF assms(1), of i] assms(1) by (auto simp: board_ok_def SetClientScore_def player_ok_def)
  next
    case (Dm_Fire i)
    have "board_ok (set_player s i (Some (p\<lparr>pl_Spawning := True\<rparr>)))" if "dm_Players s i = Some p" for p
      using set_player_ok [OF assms(1)] board_okD [OF assms(1) that] by (simp add: player_ok_def)
    then show ?thesis using assms(1) Dm_Fire by (simp split: option.split)
  next
    case Dm_Pause
    then show ?thesis by (simp add: frame)
  next
    case (Dm_Restart w)
    then show ?thesis by (cases w) (simp_all add: frame)
  qed (use assms(1) OnTick_ok(1) [OF assms] OnPlayerDisconnect_ok [OF assms(1)] KillCharacter_ok [OF assms(1)] DoTeamChange_ok [OF assms(1)]
      in simp_all)
qed

lemma new_dm_ok: "0 \<le> tick \<Longrightarrow> board_ok (new_dm warmup tick) \<and> round_ok (new_dm warmup tick)"
  by (simp add: new_dm_def DoWarmup_def board_ok_def round_ok_def TickSpeed_def)

lemma dm_run_ok: "board_ok s \<Longrightarrow> round_ok s \<Longrightarrow> board_ok (dm_run cfg s events) \<and> round_ok (dm_run cfg s events)"
  unfolding dm_run_def by (induction events arbitrary: s) (simp_all add: dm_step_ok)

text \<open>C18. Whatever happens on a server, in any order: a living character has 1 to 10 health, 0 to 10 armor and rounds in the
  gun, and belongs to a player who is in the game and not a spectator; the server list shows every player's score or,
  after a change of name, none; an empty slot has no score left over; a game that is over is paused, and the
  start of the round is never in the future.\<close>

theorem dm_invariant:
  assumes "s = dm_run cfg (new_dm warmup tick) events" "0 \<le> tick"
    and "dm_Players s i = Some p"
  shows "(\<forall>c. pl_Character p = Some c \<and> ch_Alive c \<longrightarrow>
      1 \<le> ch_Health c \<and> ch_Health c \<le> 10 \<and> 0 \<le> ch_Armor c \<and> ch_Armor c \<le> 10 \<and> 0 \<le> ch_GunAmmo c \<and> ch_GunAmmo c \<le> 10 \<and>
      pl_Ingame p \<and> \<not> pl_Spectator p) \<and>
    (pl_Ingame p \<longrightarrow> dm_ClientScores s i = None \<or> dm_ClientScores s i = Some (dm_Scores s i)) \<and>
    (\<forall>j. dm_Players s j = None \<longrightarrow> dm_Scores s j = 0) \<and>
    (dm_GameOverTick s \<noteq> - 1 \<longrightarrow> dm_Paused s) \<and> dm_RoundStartTick s \<le> dm_Tick s"
proof -
  have ok: "board_ok s" "round_ok s" using dm_run_ok new_dm_ok [OF assms(2)] assms(1) by blast+
  have none: "dm_Scores s j = 0" if "dm_Players s j = None" for j using ok(1) that unfolding board_ok_def by (metis slot_ok_simps(1))
  show ?thesis
    using board_okD [OF ok(1) assms(3)] ok(2) none
    by (auto simp: player_ok_def char_ok_def round_ok_def MAX_HEALTH_def MAX_ARMOR_def MAX_AMMO_def)
qed

lemma dm_invariant_witness:
  "dm_ClientScores (dm_run \<lparr>dmc_ScoreLimit = 20, dmc_TimeLimit = 10\<rparr> (new_dm 0 0) [Dm_Join 3 False, Dm_Enter 3]) 3 \<in> {None, Some 0}"
proof -
  let ?s = "dm_run \<lparr>dmc_ScoreLimit = 20, dmc_TimeLimit = 10\<rparr> (new_dm 0 0) [Dm_Join 3 False, Dm_Enter 3]"
  have "dm_Players ?s 3 = Some \<lparr>pl_Ingame = True, pl_Spectator = False, pl_Spawning = True, pl_DieTick = 0, pl_Character = None\<rparr>"
    "dm_Scores ?s 3 = 0"
    by (simp_all add: dm_run_def new_dm_def DoWarmup_def dm_OnClientConnected_def set_player_def OnPlayerConnect_def SetClientScore_def
        Let_def Respawn_def MAX_CLIENTS_def)
  then show ?thesis using dm_invariant [OF refl, of 0 "\<lparr>dmc_ScoreLimit = 20, dmc_TimeLimit = 10\<rparr>" 0 "[Dm_Join 3 False, Dm_Enter 3]" 3] by simp
qed

end
