(* ===== verification/DmRounds.thy ===== *)
theory DmRounds
  imports DmSafety
begin

text \<open>
  Scores and rounds of the combat mode: every counted death changes exactly one score by one, a round ends
  exactly when a single player leads at a limit, and the next round starts ten seconds later with a clean board.
\<close>

section \<open>The accounts of the scores\<close>

definition alive :: "dm \<Rightarrow> nat \<Rightarrow> bool" where
  "alive s i \<longleftrightarrow> (case char_of_player s i of None \<Rightarrow> False | Some (p, c) \<Rightarrow> ch_Alive c)"

text \<open>The death that an action causes: victim, killer and weapon.\<close>

fun death_of :: "dm \<Rightarrow> dm_action \<Rightarrow> (nat \<times> nat option \<times> dm_weapon) option" where
  "death_of s (Act_Damage victim amount from weapon) =
     (case char_of_player s victim of
        None \<Rightarrow> None
      | Some (p, c) \<Rightarrow>
          if ch_Alive c \<and> \<not> dm_Paused s \<and> dr_Killed (Damage (ch_Health c) (ch_Armor c) amount (from = int victim))
          then Some (victim, killer_of s from, weapon) else None)"
| "death_of s (Act_Fall i) = (if alive s i then Some (i, killer_of s (int i), Weapon_World) else None)"
| "death_of s _ = None"

fun death_log :: "dm \<Rightarrow> dm_action list \<Rightarrow> (nat \<times> nat option \<times> dm_weapon) list" where
  "death_log s [] = []"
| "death_log s (a # acts) = (case death_of s a of None \<Rightarrow> [] | Some d \<Rightarrow> [d]) @ death_log (dm_act s a) acts"

definition frag :: "nat \<Rightarrow> nat \<times> nat option \<times> dm_weapon \<Rightarrow> bool" where
  "frag i d \<longleftrightarrow> (case d of (victim, killer, weapon) \<Rightarrow> weapon \<noteq> Weapon_Game \<and> killer = Some i \<and> victim \<noteq> i)"

definition own_goal :: "nat \<Rightarrow> nat \<times> nat option \<times> dm_weapon \<Rightarrow> bool" where
  "own_goal i d \<longleftrightarrow>
     (case d of (victim, killer, weapon) \<Rightarrow> weapon \<noteq> Weapon_Game \<and> victim = i \<and> (killer = None \<or> killer = Some i))"

definition scoring :: "dm \<Rightarrow> bool" where
  "scoring s \<longleftrightarrow> dm_GameOverTick s = - 1 \<and> dm_Warmup s = 0 \<and> \<not> dm_ResetRequested s"

lemma scoring_cong: "round_of s = round_of s' \<Longrightarrow> scoring s = scoring s'"
  by (simp add: round_of_def scoring_def)

lemma scores_simps [simp]:
  "dm_Scores (set_player s i p) = dm_Scores s" "dm_Scores (set_char s i q c) = dm_Scores s" "dm_Scores (on_char s i f) = dm_Scores s"
  "dm_Scores (add_score s i d) = (dm_Scores s)(i := dm_Scores s i + d)"
  by (auto simp: set_player_def set_char_def on_char_def add_score_def SetClientScore_def Let_def split: option.splits)

lemma death_scores:
  assumes "scoring s"
  shows "dm_Scores (OnCharacterDeath s v k w) i = dm_Scores s i + of_bool (frag i (v, k, w)) - of_bool (own_goal i (v, k, w))"
  using assms by (cases k) (auto simp: OnCharacterDeath_def scoring_def ScoreDelta_def frag_def own_goal_def Let_def)

lemma alive_Some: "alive s i \<longleftrightarrow> (\<exists>p c. char_of_player s i = Some (p, c) \<and> ch_Alive c)"
  by (auto simp: alive_def split: option.splits)

lemma char_of_simps [simp]:
  "char_of_player (OnCharacterDeath s v k w) i = char_of_player s i"
  "char_of_player (set_char s j p c) i = (if i = j then map_option (Pair (p\<lparr>pl_Character := c\<rparr>)) c else char_of_player s i)"
  by (auto simp: char_of_player_def set_char_def set_player_def)

lemma Die_eq:
  "Die s i k w = (if alive s i then
     (case char_of_player s i of None \<Rightarrow> s | Some (p, c) \<Rightarrow>
        set_char (OnCharacterDeath s i (killer_of s k) w) i (p\<lparr>pl_DieTick := dm_Tick s\<rparr>) (Some (c\<lparr>ch_Alive := False\<rparr>))) else s)"
proof -
  have "dm_Tick (OnCharacterDeath s i k' w) = dm_Tick s" for k' by (rule dm_Tick_round) simp
  then show ?thesis by (auto simp: Die_def alive_def Let_def split: option.splits)
qed

lemma alive_on_char: "(\<And>c. ch_Alive c \<Longrightarrow> ch_Alive (f c)) \<Longrightarrow> alive (on_char s i f) j = alive s j"
  by (auto simp: alive_def on_char_def split: option.splits)

lemma gun_alive [simp]: "ch_Alive (gun_shot c) = ch_Alive c" "ch_Alive (gun_regen t r c) = ch_Alive c"
  "ch_Alive (fst (IncreaseHealth c n)) = ch_Alive c" "ch_Alive (fst (IncreaseArmor c n)) = ch_Alive c"
  by (auto simp: gun_shot_def gun_regen_def IncreaseHealth_def IncreaseArmor_def Let_def)

lemma act_alive:
  "alive (dm_act s a) i \<longleftrightarrow> alive s i \<and> (case death_of s a of None \<Rightarrow> True | Some d \<Rightarrow> fst d \<noteq> i)"
  "death_of s a = Some d \<Longrightarrow> alive s (fst d)"
proof -
  have "alive (dm_act s a) i \<longleftrightarrow> alive s i \<and> (case death_of s a of None \<Rightarrow> True | Some d \<Rightarrow> fst d \<noteq> i)"
  proof (cases a)
    case (Act_Damage v n attacker w)
    show ?thesis
    proof (cases "alive s v \<and> \<not> dm_Paused s")
      case True
      then obtain p c where c: "char_of_player s v = Some (p, c)" "ch_Alive c" by (auto simp: alive_Some)
      show ?thesis using True c TakeDamage_cases [OF c, of n attacker w] by (auto simp: Act_Damage alive_def)
    next
      case False
      then show ?thesis by (auto simp: Act_Damage alive_def TakeDamage_def split: option.splits)
    qed
  next
    case (Act_Fall v)
    then show ?thesis by (auto simp: Die_eq alive_def split: option.splits)
  qed (simp_all add: alive_on_char)
  then show "alive (dm_act s a) i \<longleftrightarrow> alive s i \<and> (case death_of s a of None \<Rightarrow> True | Some d \<Rightarrow> fst d \<noteq> i)" .
  show "death_of s a = Some d \<Longrightarrow> alive s (fst d)"
    by (cases a) (auto simp: alive_def split: option.splits if_splits)
qed

lemma act_scores:
  assumes "scoring s"
  shows "dm_Scores (dm_act s a) i = dm_Scores s i +
    (case death_of s a of None \<Rightarrow> 0 | Some d \<Rightarrow> of_bool (frag i d) - of_bool (own_goal i d))"
proof (cases a)
  case (Act_Damage v n attacker w)
  show ?thesis
  proof (cases "alive s v \<and> \<not> dm_Paused s")
    case True
    then obtain p c where c: "char_of_player s v = Some (p, c)" "ch_Alive c" by (auto simp: alive_Some)
    show ?thesis using True c TakeDamage_cases [OF c, of n attacker w] death_scores [OF assms] by (simp add: Act_Damage)
  next
    case False
    then show ?thesis by (auto simp: Act_Damage alive_def TakeDamage_def split: option.splits)
  qed
next
  case (Act_Fall v)
  then show ?thesis using death_scores [OF assms] by (auto simp: Die_eq alive_def split: option.splits)
qed simp_all

lemma log_alive: "d \<in> set (death_log s acts) \<Longrightarrow> alive s (fst d)"
proof (induction acts arbitrary: s)
  case (Cons a acts)
  then consider "death_of s a = Some d" | "d \<in> set (death_log (dm_act s a) acts)" by (auto split: option.splits)
  then show ?case using act_alive [of s a] Cons.IH by cases blast+
qed simp

lemma acts_alive: "alive (foldl dm_act s acts) i \<Longrightarrow> alive s i"
proof (induction acts arbitrary: s)
  case (Cons a acts)
  then have "alive (dm_act s a) i" by simp
  then show ?case using act_alive(1) by blast
qed simp

text \<open>C19. The scores keep the accounts of the deaths: in the actions of a tick that counts, nobody dies twice, those who die are
  those who were alive and no longer are, and the score of each player grows by one for every other player it killed and
  falls by one for every own death without another killer. Deaths by the administration count for nobody.\<close>

theorem deaths_accounted:
  assumes "scoring s" "s' = foldl dm_act s acts"
  shows "distinct (map fst (death_log s acts)) \<and>
    fst ` set (death_log s acts) = {i. alive s i \<and> \<not> alive s' i} \<and>
    dm_Scores s' i = dm_Scores s i + int (length (filter (frag i) (death_log s acts))) -
      int (length (filter (own_goal i) (death_log s acts)))"
  using assms
proof (induction acts arbitrary: s)
  case (Cons a acts)
  have "scoring (dm_act s a)" using Cons.prems(1) scoring_cong [OF round_of_act] by blast
  from Cons.IH [OF this] Cons.prems(2)
  have IH: "distinct (map fst (death_log (dm_act s a) acts))"
    "fst ` set (death_log (dm_act s a) acts) = {i. alive (dm_act s a) i \<and> \<not> alive s' i}"
    "dm_Scores s' i = dm_Scores (dm_act s a) i + int (length (filter (frag i) (death_log (dm_act s a) acts))) -
      int (length (filter (own_goal i) (death_log (dm_act s a) acts)))"
    by simp_all
  have mono: "alive s' j \<Longrightarrow> alive (dm_act s a) j" for j
    using Cons.prems(2) acts_alive [of "dm_act s a" acts] by simp
  show ?case
  proof (cases "death_of s a")
    case None
    then show ?thesis using IH act_alive(1) [of s a] act_scores [OF Cons.prems(1), of a i] by simp
  next
    case (Some d)
    have "\<not> alive (dm_act s a) (fst d)" "alive s (fst d)" using act_alive [of s a] Some by simp_all
    moreover have "\<not> alive s' (fst d)" using mono calculation(1) by blast
    ultimately have "{j. alive s j \<and> \<not> alive s' j} = insert (fst d) {j. alive (dm_act s a) j \<and> \<not> alive s' j}"
      "fst d \<notin> {j. alive (dm_act s a) j \<and> \<not> alive s' j}"
      using act_alive(1) [of s a] Some by auto
    then show ?thesis
      using IH act_scores [OF Cons.prems(1), of a i] Some by simp
  qed
qed simp

section \<open>The end of a round\<close>

definition contenders :: "dm \<Rightarrow> nat set" where
  "contenders s = {i. i < MAX_CLIENTS \<and> (\<exists>p. dm_Players s i = Some p \<and> pl_Ingame p \<and> \<not> pl_Spectator p)}"

definition limit_reached :: "dm_config \<Rightarrow> dm \<Rightarrow> int \<Rightarrow> bool" where
  "limit_reached cfg s score \<longleftrightarrow> 0 < dmc_ScoreLimit cfg \<and> dmc_ScoreLimit cfg \<le> score \<or>
     0 < dmc_TimeLimit cfg \<and> dmc_TimeLimit cfg * 3000 \<le> dm_Tick s - dm_RoundStartTick s"

text \<open>What the loop has found among the players of a set.\<close>

definition counted :: "dm \<Rightarrow> nat set \<Rightarrow> int \<times> int \<times> int \<Rightarrow> bool" where
  "counted s C r \<longleftrightarrow> (case r of (players, leaders, best) \<Rightarrow>
     players = int (card C) \<and> leaders = int (card {i \<in> C. dm_Scores s i = best}) \<and> (\<forall>i \<in> C. dm_Scores s i \<le> best) \<and>
     (C \<noteq> {} \<longrightarrow> (\<exists>i \<in> C. dm_Scores s i = best)) \<and> INT_MIN \<le> best)"

lemma count_step:
  assumes "counted s C (players, leaders, best)" "finite C" "x \<notin> C" "INT_MIN \<le> dm_Scores s x" "C = {} \<Longrightarrow> best = INT_MIN"
  shows "counted s (insert x C)
    (if dm_Scores s x > best then (players + 1, 1, dm_Scores s x)
     else if dm_Scores s x = best then (players + 1, leaders + 1, best) else (players + 1, leaders, best))"
proof -
  have above: "{i. (i = x \<or> i \<in> C) \<and> dm_Scores s i = dm_Scores s x} = {x}" if "best < dm_Scores s x"
    using assms(1) that by (auto simp: counted_def)
  have equal: "{i. (i = x \<or> i \<in> C) \<and> dm_Scores s i = best} = insert x {i \<in> C. dm_Scores s i = best}" if "dm_Scores s x = best"
    using that by auto
  have below: "{i. (i = x \<or> i \<in> C) \<and> dm_Scores s i = best} = {i \<in> C. dm_Scores s i = best}" if "dm_Scores s x \<noteq> best"
    using that by auto
  show ?thesis
    using assms above equal below by (auto simp: counted_def)
qed

lemma count_loop:
  assumes "\<forall>i. INT_MIN \<le> dm_Scores s i" "distinct xs" "\<forall>i \<in> set xs. i < MAX_CLIENTS"
  shows "counted s (contenders s \<inter> set xs) (foldl (count_player s) (0, 0, INT_MIN) xs) \<and>
    (contenders s \<inter> set xs = {} \<longrightarrow> snd (snd (foldl (count_player s) (0, 0, INT_MIN) xs)) = INT_MIN)"
  using assms(2,3)
proof (induction xs rule: rev_induct)
  case Nil
  show ?case by (simp add: counted_def)
next
  case (snoc x xs)
  obtain players leaders best where f: "foldl (count_player s) (0, 0, INT_MIN) xs = (players, leaders, best)"
    by (metis prod_cases3)
  have IH: "counted s (contenders s \<inter> set xs) (players, leaders, best)" "contenders s \<inter> set xs = {} \<Longrightarrow> best = INT_MIN"
    using snoc f by simp_all
  show ?case
  proof (cases "x \<in> contenders s")
    case True
    then obtain p where p: "dm_Players s x = Some p" "pl_Ingame p" "\<not> pl_Spectator p" by (auto simp: contenders_def)
    have "contenders s \<inter> set (xs @ [x]) = insert x (contenders s \<inter> set xs)" using True by auto
    moreover have "x \<notin> contenders s \<inter> set xs" using snoc.prems(1) by simp
    ultimately show ?thesis
      using count_step [OF IH(1), of x] IH(2) assms(1) by (simp add: f p)
  next
    case False
    then have "contenders s \<inter> set (xs @ [x]) = contenders s \<inter> set xs" by auto
    moreover have "count_player s (players, leaders, best) x = (players, leaders, best)"
      using False snoc.prems(2) by (auto simp: contenders_def split: option.split)
    ultimately show ?thesis using IH by (auto simp: f simp del: count_player.simps)
  qed
qed

lemma count_players:
  assumes "\<forall>i. INT_MIN \<le> dm_Scores s i" "count_players s = (players, leaders, best)"
  shows "counted s (contenders s) (players, leaders, best)"
proof -
  have "contenders s \<inter> set [0..<MAX_CLIENTS] = contenders s" by (auto simp: contenders_def)
  then show ?thesis using count_loop [OF assms(1), of "[0..<MAX_CLIENTS]"] assms(2) by (simp add: count_players_def)
qed

text \<open>A leader whom nobody equals.\<close>

lemma sole_leader:
  assumes "counted s C (players, leaders, best)" "finite C"
  shows "leaders = 1 \<longleftrightarrow> (\<exists>w \<in> C. dm_Scores s w = best \<and> (\<forall>i \<in> C - {w}. dm_Scores s i < best))"
proof -
  have fin: "finite {i \<in> C. dm_Scores s i = best}" using assms(2) by simp
  have "leaders = 1 \<longleftrightarrow> (\<exists>w. {i \<in> C. dm_Scores s i = best} = {w})"
    using assms(1) card_1_singleton_iff [of "{i \<in> C. dm_Scores s i = best}"] by (auto simp: counted_def)
  also have "\<dots> \<longleftrightarrow> (\<exists>w \<in> C. dm_Scores s w = best \<and> (\<forall>i \<in> C - {w}. dm_Scores s i < best))"
  proof -
    have le: "\<forall>i \<in> C. dm_Scores s i \<le> best" using assms(1) by (simp add: counted_def)
    have "{i \<in> C. dm_Scores s i = best} = {w} \<longleftrightarrow> w \<in> C \<and> dm_Scores s w = best \<and> (\<forall>i \<in> C - {w}. dm_Scores s i < best)" for w
      using le by (auto simp: set_eq_iff order_less_le)
    then show ?thesis by auto
  qed
  finally show ?thesis .
qed

lemma finite_contenders: "finite (contenders s)"
  by (rule finite_subset [of _ "{..<MAX_CLIENTS}"]) (auto simp: contenders_def)

lemma many_iff: "finite C \<Longrightarrow> w \<in> C \<Longrightarrow> card C \<ge> 2 \<longleftrightarrow> C \<noteq> {w}"
  by (metis One_nat_def card_1_singleton_iff card_gt_0_iff empty_iff insertE le_eq_less_or_eq less_2_cases_iff linorder_not_less not_less_eq)

text \<open>What the tick of the controller does while a round is running.\<close>

lemma running_Tick:
  assumes "dm_GameOverTick s = - 1" "dm_Warmup s = 0" "\<not> dm_Paused s" "\<not> dm_ResetRequested s"
  shows "controller_Tick cfg s =
    (let (players, leaders, best) = count_players s in
     if players < 2 then s\<lparr>dm_RoundStartTick := dm_RoundStartTick s + 1\<rparr>
     else if \<not> limit_reached cfg s best \<and> \<not> dm_SuddenDeath s then s
     else if leaders = 1 then s\<lparr>dm_Paused := True, dm_GameOverTick := dm_Tick s, dm_SuddenDeath := False\<rparr>
     else s\<lparr>dm_SuddenDeath := True\<rparr>)"
  using assms
  by (auto simp: controller_Tick_def base_Tick_idle RoundResult_def limit_reached_def EndRound_def SetGamePaused_def TickSpeed_def
      Let_def split: prod.split)

text \<open>C17. While a round runs, a tick ends it exactly when there are at least two players and one of them is ahead of all others
  with the score limit reached, the time over or sudden death begun; a tie at a limit starts sudden death; and
  without two players nothing is counted and the clock of the round stands still.\<close>

theorem round_ends:
  assumes "dm_GameOverTick s = - 1" "dm_Warmup s = 0" "\<not> dm_Paused s" "\<not> dm_ResetRequested s" "0 \<le> dm_Tick s"
    and "\<forall>i. INT_MIN \<le> dm_Scores s i" "s' = controller_Tick cfg s"
  shows "(dm_GameOverTick s' \<noteq> - 1 \<longleftrightarrow>
      (\<exists>w \<in> contenders s. contenders s \<noteq> {w} \<and> (\<forall>i \<in> contenders s - {w}. dm_Scores s i < dm_Scores s w) \<and>
        (dm_SuddenDeath s \<or> limit_reached cfg s (dm_Scores s w)))) \<and>
    (dm_GameOverTick s' \<noteq> - 1 \<longrightarrow> dm_Paused s' \<and> \<not> dm_SuddenDeath s') \<and>
    (dm_GameOverTick s' = - 1 \<longrightarrow> (dm_SuddenDeath s' \<longleftrightarrow> dm_SuddenDeath s \<or> card (contenders s) \<ge> 2 \<and>
        (\<exists>w \<in> contenders s. (\<forall>i \<in> contenders s. dm_Scores s i \<le> dm_Scores s w) \<and> limit_reached cfg s (dm_Scores s w)))) \<and>
    dm_RoundStartTick s' = dm_RoundStartTick s + (if card (contenders s) < 2 then 1 else 0) \<and> dm_Scores s' = dm_Scores s"
proof -
  obtain players leaders best where c: "count_players s = (players, leaders, best)" by (metis prod_cases3)
  note n = count_players [OF assms(6) c] and fin = finite_contenders [of s]
  note one = sole_leader [OF n fin]
  have top: "dm_Scores s w = best" if "w \<in> contenders s" "\<forall>i \<in> contenders s. dm_Scores s i \<le> dm_Scores s w" for w
    using n that by (auto simp: counted_def intro: order_antisym)
  have few: "players < 2 \<longleftrightarrow> card (contenders s) < 2" using n by (auto simp: counted_def)
  have best: "\<exists>w \<in> contenders s. dm_Scores s w = best" "\<forall>i \<in> contenders s. dm_Scores s i \<le> best" if "\<not> card (contenders s) < 2"
    using n that by (auto simp: counted_def)
  have lead: "(\<exists>w \<in> contenders s. contenders s \<noteq> {w} \<and> (\<forall>i \<in> contenders s - {w}. dm_Scores s i < dm_Scores s w) \<and> Q (dm_Scores s w)) \<longleftrightarrow>
      \<not> card (contenders s) < 2 \<and> leaders = 1 \<and> Q best" (is "?L \<longleftrightarrow> ?R") for Q
  proof
    assume ?L
    then obtain w where w: "w \<in> contenders s" "contenders s \<noteq> {w}" "\<forall>i \<in> contenders s - {w}. dm_Scores s i < dm_Scores s w" "Q (dm_Scores s w)"
      by blast
    moreover from this have "dm_Scores s w = best" by (intro top) (auto intro: less_imp_le)
    moreover have "\<not> card (contenders s) < 2" using many_iff [OF fin w(1)] w(2) by simp
    ultimately show ?R unfolding one by auto
  next
    assume ?R
    then obtain w where "w \<in> contenders s" "dm_Scores s w = best" "\<forall>i \<in> contenders s - {w}. dm_Scores s i < best" using one by blast
    then show ?L using many_iff [OF fin] \<open>?R\<close> by (intro bexI [of _ w]) auto
  qed
  have tops: "card (contenders s) \<ge> 2 \<and> (\<exists>w \<in> contenders s. (\<forall>i \<in> contenders s. dm_Scores s i \<le> dm_Scores s w) \<and> Q (dm_Scores s w)) \<longleftrightarrow>
      \<not> card (contenders s) < 2 \<and> Q best" for Q
    using top best by (metis linorder_not_less)
  note t = running_Tick [OF assms(1-4), of cfg, folded assms(7), unfolded c]
  show ?thesis
    unfolding lead [of "\<lambda>x. dm_SuddenDeath s \<or> limit_reached cfg s x"] tops
    using assms(1,3,5) t few by auto
qed

section \<open>The next round\<close>

definition over :: "int \<Rightarrow> int \<Rightarrow> dm \<Rightarrow> bool" where
  "over t n s \<longleftrightarrow> t \<noteq> - 1 \<and> dm_GameOverTick s = t \<and> dm_Paused s \<and> dm_Warmup s = 0 \<and> dm_RoundCount s = n"

lemma over_cong: "round_of s = round_of s' \<Longrightarrow> over t n s = over t n s'"
  by (simp add: round_of_def over_def)

lemma over_no_score: "over t n s \<Longrightarrow> OnCharacterDeath s i k w = s"
  by (simp add: over_def OnCharacterDeath_def)

lemma over_Kill: "over t n s \<Longrightarrow> dm_Scores (KillCharacter s i w) = dm_Scores s"
  by (auto simp: KillCharacter_def Die_eq over_no_score Let_def split: option.split)

lemma scores_player_Ticks [simp]: "dm_Scores (foldl (player_Tick place) s is) = dm_Scores s"
proof (induction "is" arbitrary: s)
  case (Cons i "is")
  have "dm_Scores (player_Tick place s i) = dm_Scores s" by (auto simp: player_Tick_def Let_def split: option.split)
  then show ?case using Cons.IH by simp
qed simp

lemma over_controller: "over t n s \<Longrightarrow> dm_Tick s \<le> t + 500 \<Longrightarrow> controller_Tick cfg s = s"
  by (simp add: over_def controller_Tick_def base_Tick_def TickSpeed_def)

text \<open>The tick up to the controller, while the game is over: no action counts.\<close>

lemma over_tick:
  assumes "over t n s"
  obtains s2 where "over t n s2" "dm_Tick s2 = dm_Tick s + 1" "dm_Scores s2 = dm_Scores s \<or> dm_Scores s2 = (\<lambda>_. 0)"
    "dm_OnTick cfg s acts place = foldl (player_Tick place) (controller_Tick cfg s2) [0..<MAX_CLIENTS]"
proof -
  define s1 where "s1 = s\<lparr>dm_Tick := dm_Tick s + 1\<rparr>"
  define s2 where "s2 = (if dm_ResetRequested s1 then World_Reset s1 else s1)"
  have "over t n s2" "dm_Tick s2 = dm_Tick s + 1" "dm_Scores s2 = dm_Scores s \<or> dm_Scores s2 = (\<lambda>_. 0)"
    using assms by (auto simp: s1_def s2_def over_def World_Reset_def dm_OnReset_def Let_def)
  moreover have "dm_OnTick cfg s acts place = foldl (player_Tick place) (controller_Tick cfg s2) [0..<MAX_CLIENTS]"
  proof -
    have "dm_OnTick cfg s acts place =
        foldl (player_Tick place) (controller_Tick cfg (if dm_Paused s2 then s2 else foldl dm_act s2 acts)) [0..<MAX_CLIENTS]"
      by (simp add: dm_OnTick_def s1_def s2_def Let_def)
    then show ?thesis using \<open>over t n s2\<close> by (simp add: over_def)
  qed
  ultimately show ?thesis using that by blast
qed

lemma over_step:
  assumes "over t n s" "\<And>w. e \<noteq> Dm_Restart w" "dm_Tick (dm_step cfg s e) \<le> t + 500"
  shows "over t n (dm_step cfg s e)" "dm_Scores (dm_step cfg s e) i = dm_Scores s i \<or> dm_Scores (dm_step cfg s e) i = 0"
proof -
  have "over t n (dm_step cfg s e) \<and> (dm_Scores (dm_step cfg s e) i = dm_Scores s i \<or> dm_Scores (dm_step cfg s e) i = 0)"
  proof (cases e)
    case (Dm_Tick acts place)
    obtain s2 where s2: "over t n s2" "dm_Tick s2 = dm_Tick s + 1" "dm_Scores s2 = dm_Scores s \<or> dm_Scores s2 = (\<lambda>_. 0)"
      "dm_OnTick cfg s acts place = foldl (player_Tick place) (controller_Tick cfg s2) [0..<MAX_CLIENTS]"
      using over_tick [OF assms(1)] by blast
    have "dm_Tick s2 \<le> t + 500"
      using assms(3) s2(4) dm_Tick_round [OF round_of_player_Ticks] by (simp add: Dm_Tick)
    then have "dm_OnTick cfg s acts place = foldl (player_Tick place) s2 [0..<MAX_CLIENTS]" using s2 over_controller by simp
    then show ?thesis using over_cong [OF round_of_player_Ticks] s2(1,3) by (auto simp: Dm_Tick)
  next
    case Dm_Pause
    then show ?thesis using assms(1) by (simp add: SetGamePaused_def over_def)
  next
    case (Dm_Restart w)
    then show ?thesis using assms(2) by blast
  qed (use assms(1) over_cong [of "dm_step cfg s e" s] dm_step_round_of [of cfg s e] over_Kill [OF assms(1)] in
      \<open>auto simp: dm_OnClientConnected_def OnPlayerConnect_def SetClientScore_def OnPlayerDisconnect_def DoTeamChange_def Let_def
        split: option.split\<close>)
  then show "over t n (dm_step cfg s e)" "dm_Scores (dm_step cfg s e) i = dm_Scores s i \<or> dm_Scores (dm_step cfg s e) i = 0"
    by blast+
qed

lemma OnTick_Tick: "dm_Tick (dm_OnTick cfg s acts place) = dm_Tick s + 1"
proof -
  have "dm_Tick (foldl dm_act s acts) = dm_Tick s" for s by (rule dm_Tick_round) simp
  moreover have "dm_Tick (foldl (player_Tick place) s is) = dm_Tick s" for s "is" by (rule dm_Tick_round) simp
  ultimately show ?thesis by (simp add: dm_OnTick_def Let_def World_Reset_def dm_OnReset_def)
qed

lemma step_Tick_mono: "dm_Tick s \<le> dm_Tick (dm_step cfg s e)"
proof -
  consider "round_of (dm_step cfg s e) = round_of s" | acts place where "e = Dm_Tick acts place" | "e = Dm_Pause" | w where "e = Dm_Restart w"
    using dm_step_round_of by blast
  then show ?thesis
  proof cases
    case 1
    then have "dm_Tick (dm_step cfg s e) = dm_Tick s" by (rule dm_Tick_round)
    then show ?thesis by simp
  next
    case (4 w)
    then show ?thesis by (cases w) (simp_all add: StartRound_def SetGamePaused_def DoWarmup_def)
  qed (simp_all add: OnTick_Tick SetGamePaused_def)
qed

lemma over_run:
  assumes "over t n s" "\<And>w. Dm_Restart w \<notin> set events" "dm_Tick (dm_run cfg s events) \<le> t + 500"
  shows "over t n (dm_run cfg s events) \<and> (dm_Scores (dm_run cfg s events) i = dm_Scores s i \<or> dm_Scores (dm_run cfg s events) i = 0)"
  using assms(2,3)
proof (induction events rule: rev_induct)
  case Nil
  show ?case using assms(1) by (simp add: dm_run_def)
next
  case (snoc e events)
  have run: "dm_run cfg s (events @ [e]) = dm_step cfg (dm_run cfg s events) e" by (simp add: dm_run_def)
  have "dm_Tick (dm_run cfg s events) \<le> t + 500"
    using step_Tick_mono [of "dm_run cfg s events" cfg e] snoc.prems(2) unfolding run by linarith
  then have IH: "over t n (dm_run cfg s events)" "dm_Scores (dm_run cfg s events) i = dm_Scores s i \<or> dm_Scores (dm_run cfg s events) i = 0"
    using snoc.IH snoc.prems(1) by auto
  have "e \<noteq> Dm_Restart w" for w using snoc.prems(1) by auto
  then show ?case using over_step(1) [OF IH(1), of e cfg] over_step(2) [OF IH(1), of e cfg i] snoc.prems(2) IH(2) unfolding run by auto
qed

lemma over_restart:
  assumes "over t n s" "dm_Tick s = t + 500"
  defines "s1 \<equiv> \<lambda>cfg acts place. dm_OnTick cfg s acts place"
  shows "dm_GameOverTick (s1 cfg acts place) = - 1 \<and> \<not> dm_Paused (s1 cfg acts place) \<and> dm_ResetRequested (s1 cfg acts place) \<and>
    dm_RoundCount (s1 cfg acts place) = n + 1 \<and> dm_RoundStartTick (s1 cfg acts place) = t + 501 \<and> \<not> dm_SuddenDeath (s1 cfg acts place)"
proof -
  obtain s2 where s2: "over t n s2" "dm_Tick s2 = dm_Tick s + 1"
    "dm_OnTick cfg s acts place = foldl (player_Tick place) (controller_Tick cfg s2) [0..<MAX_CLIENTS]"
    using over_tick [OF assms(1)] by blast
  have "round_of (dm_OnTick cfg s acts place) = round_of (controller_Tick cfg s2)" unfolding s2(3) by simp
  moreover have "controller_Tick cfg s2 = (StartRound s2)\<lparr>dm_RoundCount := n + 1\<rparr>"
    using s2(1,2) assms(2) by (simp add: controller_Tick_def base_Tick_def over_def TickSpeed_def StartRound_def SetGamePaused_def Let_def)
  ultimately show ?thesis
    using s2 assms(2) unfolding s1_def by (simp add: round_of_def StartRound_def SetGamePaused_def)
qed

lemma reset_scores:
  assumes "dm_ResetRequested s"
  shows "dm_Scores (dm_OnTick cfg s [] place) i = 0"
proof -
  have b: "dm_Scores (controller_Tick cfg s) = dm_Scores s" for s using board_of_controller [of cfg s] by (simp add: board_of_def)
  show ?thesis using assms by (simp add: dm_OnTick_def Let_def b) (simp add: World_Reset_def dm_OnReset_def)
qed


section \<open>The server list\<close>

lemma death_unshown:
  assumes "\<not> frag i (v, k, w)" "\<not> own_goal i (v, k, w)"
  shows "dm_ClientScores (OnCharacterDeath s v k w) i = dm_ClientScores s i"
    "dm_Scores (OnCharacterDeath s v k w) i = dm_Scores s i"
  using assms
  by (cases k; auto simp: OnCharacterDeath_def ScoreDelta_def frag_def own_goal_def add_score_def SetClientScore_def Let_def)+

lemma client_scores_simps [simp]:
  "dm_ClientScores (set_player s i p) = dm_ClientScores s" "dm_ClientScores (set_char s i q c) = dm_ClientScores s"
  "dm_ClientScores (on_char s i f) = dm_ClientScores s"
  by (auto simp: set_player_def set_char_def on_char_def split: option.splits)

lemma act_unshown:
  assumes "case death_of s a of None \<Rightarrow> True | Some d \<Rightarrow> \<not> frag i d \<and> \<not> own_goal i d"
  shows "dm_ClientScores (dm_act s a) i = dm_ClientScores s i \<and> dm_Scores (dm_act s a) i = dm_Scores s i"
proof (cases a)
  case (Act_Damage v n attacker w)
  show ?thesis
  proof (cases "alive s v \<and> \<not> dm_Paused s")
    case True
    then obtain p c where c: "char_of_player s v = Some (p, c)" "ch_Alive c" by (auto simp: alive_Some)
    have quiet: "\<not> frag i (v, killer_of s attacker, w)" "\<not> own_goal i (v, killer_of s attacker, w)"
      if "dr_Killed (Damage (ch_Health c) (ch_Armor c) n (attacker = int v))"
      using assms that c True by (simp_all add: Act_Damage)
    show ?thesis
      using TakeDamage_cases [OF c True [THEN conjunct2], of n attacker w] death_unshown [OF quiet] unfolding Act_Damage by simp
  next
    case False
    then show ?thesis by (auto simp: Act_Damage alive_def TakeDamage_def split: option.splits)
  qed
next
  case (Act_Fall v)
  then show ?thesis using assms death_unshown by (auto simp: Die_eq alive_def split: option.splits)
qed simp_all

lemma acts_unshown:
  assumes "list_all (\<lambda>d. \<not> frag i d \<and> \<not> own_goal i d) (death_log s acts)"
  shows "dm_ClientScores (foldl dm_act s acts) i = dm_ClientScores s i \<and> dm_Scores (foldl dm_act s acts) i = dm_Scores s i"
  using assms
proof (induction acts arbitrary: s)
  case (Cons a acts)
  then show ?case using act_unshown [where s = s and a = a and i = i] by (simp split: option.splits)
qed simp

text \<open>C39. A player who changes its name during a round keeps its score in the game, but the server list shows none, and it stays so
  whatever happens to the others, until the next death that counts for the player: the handler of the message clears the
  score as if it were a race time.\<close>

theorem rename_hides_score:
  assumes "dm_Players s i = Some p" "s1 = dm_OnChangeName s i"
    and "list_all (\<lambda>d. \<not> frag i d \<and> \<not> own_goal i d) (death_log s1 acts)"
  shows "dm_ClientScores (foldl dm_act s1 acts) i = None \<and> dm_Scores (foldl dm_act s1 acts) i = dm_Scores s i"
  using acts_unshown [OF assms(3)] assms(1,2) by (simp add: SetClientScore_def)

section \<open>Examples\<close>

definition some_fighter :: dm_player where
  "some_fighter = \<lparr>pl_Ingame = True, pl_Spectator = False, pl_Spawning = False, pl_DieTick = 0,
     pl_Character = Some (OnCharacterSpawn\<lparr>ch_Health := 3\<rparr>)\<rparr>"

text \<open>Two players, the first of them one frag short of the limit.\<close>

definition some_dm :: dm where
  "some_dm = (new_dm 0 100)\<lparr>dm_Players := (\<lambda>i. if i < 2 then Some some_fighter else None),
     dm_Scores := (\<lambda>i. if i = 0 then 19 else 0), dm_ClientScores := (\<lambda>i. if i = 0 then Some 19 else Some 0)\<rparr>"

definition some_cfg :: dm_config where "some_cfg = \<lparr>dmc_ScoreLimit = 20, dmc_TimeLimit = 10\<rparr>"

lemma some_dm_fields: "dm_GameOverTick some_dm = - 1" "dm_Warmup some_dm = 0" "\<not> dm_ResetRequested some_dm" "\<not> dm_Paused some_dm"
  "dm_Tick some_dm = 100" "dm_Scores some_dm i = (if i = 0 then 19 else 0)" "dm_SuddenDeath some_dm = False"
  "dm_Players some_dm i = (if i < 2 then Some some_fighter else None)" "dm_RoundStartTick some_dm = 100"
  by (simp_all add: some_dm_def new_dm_def DoWarmup_def)

lemma some_char: "char_of_player some_dm (Suc 0) = Some (some_fighter, OnCharacterSpawn\<lparr>ch_Health := 3\<rparr>)"
  by (simp add: char_of_player_def some_dm_fields some_fighter_def)

lemma some_log: "death_log some_dm [Act_Damage 1 5 0 (Weapon 1)] = [(1, Some 0, Weapon 1)]"
  by (simp add: some_char Damage_def Let_def OnCharacterSpawn_def IncreaseHealth_def killer_of_def some_dm_fields MAX_CLIENTS_def)

lemma deaths_accounted_witness:
  "dm_Scores (foldl dm_act some_dm [Act_Damage 1 5 0 (Weapon 1)]) 0 = 20"
  using deaths_accounted [of some_dm _ "[Act_Damage 1 5 0 (Weapon 1)]" 0, OF _ refl] some_log
  by (simp add: scoring_def some_dm_fields frag_def own_goal_def)

lemma rename_hides_score_witness:
  "dm_ClientScores (dm_OnChangeName some_dm 0) 0 = None \<and> dm_Scores (dm_OnChangeName some_dm 0) 0 = 19"
  using rename_hides_score [of some_dm 0 some_fighter "dm_OnChangeName some_dm 0" "[]"]
  by (simp add: some_dm_fields)

text \<open>The first player made the last frag.\<close>

definition won_dm :: dm where "won_dm = some_dm\<lparr>dm_Scores := (\<lambda>i. if i = 0 then 20 else 0)\<rparr>"

lemma won_contenders: "contenders won_dm = {0, 1}"
  by (auto simp: contenders_def won_dm_def some_dm_fields some_fighter_def MAX_CLIENTS_def split: if_splits)

lemma round_ends_witness: "dm_GameOverTick (controller_Tick some_cfg won_dm) \<noteq> - 1"
proof -
  have f: "dm_GameOverTick won_dm = - 1" "dm_Warmup won_dm = 0" "\<not> dm_Paused won_dm" "\<not> dm_ResetRequested won_dm" "0 \<le> dm_Tick won_dm"
    "\<forall>i. INT_MIN \<le> dm_Scores won_dm i"
    by (simp_all add: won_dm_def some_dm_fields INT_MIN_def)
  have "limit_reached some_cfg won_dm (dm_Scores won_dm 0)" "\<forall>i \<in> {0, 1} - {0}. dm_Scores won_dm i < dm_Scores won_dm 0"
    by (simp_all add: limit_reached_def some_cfg_def won_dm_def)
  then show ?thesis using round_ends [OF f refl, of some_cfg] unfolding won_contenders by auto
qed


end
