(* ===== verification/NeonProgress.thy ===== *)
theory NeonProgress
  imports Prelude
begin

text \<open>
  The local progress of a player, \<open>src/game/client/neon_progress.h\<close>: experience and levels, the streak of days, the three
  daily quests and the source of their counters. The saved variables of the configuration are one record; \<open>today\<close> is the
  value of \<open>TodayStamp\<close>. Titles and icons of the quests are left out, as is the bar between two levels, which is a float.

  The choice of the day's quests multiplies the day by a constant in the type \<open>int\<close>. The product overflows from the
  second day of the epoch on (\<open>quest_hash_overflows\<close>), which C++ leaves undefined; what the compiled code makes of it is
  the parameter \<open>hash\<close>.
\<close>

section \<open>Levels\<close>

definition MAX_LEVEL :: int where "MAX_LEVEL = 30"
definition XP_PER_LEVEL_STEP :: int where "XP_PER_LEVEL_STEP = 250"

definition XpForLevel :: "int \<Rightarrow> int" where
  "XpForLevel level =
     (if level \<le> 0 then 0
      else let clamped = min level MAX_LEVEL in XP_PER_LEVEL_STEP * clamped * (clamped + 1) div 2)"

function level_loop :: "int \<Rightarrow> int \<Rightarrow> int" where
  "level_loop xp level = (if level < MAX_LEVEL \<and> xp \<ge> XpForLevel (level + 1) then level_loop xp (level + 1) else level)"
  by pat_completeness auto

termination level_loop
  by (relation "measure (\<lambda>(xp, level). nat (MAX_LEVEL - level))") auto

declare level_loop.simps [simp del]

definition LevelFromXp :: "int \<Rightarrow> int" where "LevelFromXp xp = level_loop xp 0"

section \<open>The profile\<close>

record progress =
  np_Xp :: int
  np_Matches :: int
  np_Practices :: int
  np_Tries :: int
  np_Streak :: int
  np_StreakDay :: int
  np_QuestDay :: int
  np_QuestDone :: int
  np_BasePractices :: int
  np_BaseTries :: int
  np_BaseSessions :: int
  np_VerifiedSource :: bool

definition new_progress :: progress where
  "new_progress = \<lparr>np_Xp = 0, np_Matches = 0, np_Practices = 0, np_Tries = 0, np_Streak = 0, np_StreakDay = 0, np_QuestDay = 0,
     np_QuestDone = 0, np_BasePractices = 0, np_BaseTries = 0, np_BaseSessions = 0, np_VerifiedSource = False\<rparr>"

text \<open>\<open>TodayStamp\<close> of the value of \<open>std::time\<close>; -1 is its error.\<close>

definition TodayStamp :: "int \<Rightarrow> int" where
  "TodayStamp now = (if now = - 1 then 0 else now div 86400 + 1)"

definition DayDelta :: "int \<Rightarrow> int \<Rightarrow> int" where
  "DayDelta since until = (if since \<le> 0 \<or> until \<le> 0 \<or> until < since then 0 else until - since)"

definition TouchDay :: "int \<Rightarrow> progress \<Rightarrow> progress" where
  "TouchDay today g =
     (if np_StreakDay g = today then g
      else
        let delta = DayDelta (np_StreakDay g) today;
            g = g\<lparr>np_Streak := if delta = 1 then np_Streak g + 1 else 1, np_StreakDay := today\<rparr>
        in if np_QuestDay g \<noteq> today then
             g\<lparr>np_QuestDay := today, np_QuestDone := 0, np_BasePractices := np_Practices g, np_BaseTries := np_Tries g,
               np_BaseSessions := np_Matches g\<rparr>
           else g)"

definition AddXp :: "int \<Rightarrow> progress \<Rightarrow> progress" where
  "AddXp amount g = g\<lparr>np_Xp := min (np_Xp g + max 0 amount) 1000000000\<rparr>"

definition OnPracticeStarted :: "progress \<Rightarrow> progress" where
  "OnPracticeStarted g = AddXp 25 (g\<lparr>np_Practices := np_Practices g + 1\<rparr>)"

definition OnPracticeStopped :: "progress \<Rightarrow> progress" where
  "OnPracticeStopped g = AddXp 40 g"

definition OnCharacterTried :: "progress \<Rightarrow> progress" where
  "OnCharacterTried g = AddXp 10 (g\<lparr>np_Tries := np_Tries g + 1\<rparr>)"

definition OnSessionStarted :: "progress \<Rightarrow> progress" where
  "OnSessionStarted g = AddXp 15 (g\<lparr>np_Matches := np_Matches g + 1\<rparr>)"

section \<open>Counters\<close>

record verified_source =
  vs_PracticesToday :: int
  vs_SessionsToday :: int
  vs_FetchedDay :: int

definition ClearVerifiedSource :: verified_source where
  "ClearVerifiedSource = \<lparr>vs_PracticesToday = 0, vs_SessionsToday = 0, vs_FetchedDay = 0\<rparr>"

definition SetVerifiedSource :: "int \<Rightarrow> int \<Rightarrow> int \<Rightarrow> verified_source" where
  "SetVerifiedSource practices sessions day =
     \<lparr>vs_PracticesToday = max 0 (min practices 1000000), vs_SessionsToday = max 0 (min sessions 1000000), vs_FetchedDay = day\<rparr>"

definition VerifiedSourceUsable :: "int \<Rightarrow> verified_source \<Rightarrow> progress \<Rightarrow> bool" where
  "VerifiedSourceUsable today vs g \<longleftrightarrow>
     np_VerifiedSource g \<and> vs_FetchedDay vs = today \<and> (vs_PracticesToday vs > 0 \<or> vs_SessionsToday vs > 0)"

datatype quest_counter = COUNTER_PRACTICE | COUNTER_TRIES | COUNTER_SESSIONS | COUNTER_STREAK

fun local_counter :: "progress \<Rightarrow> quest_counter \<Rightarrow> int" where
  "local_counter g COUNTER_PRACTICE = max 0 (np_Practices g - np_BasePractices g)"
| "local_counter g COUNTER_TRIES = max 0 (np_Tries g - np_BaseTries g)"
| "local_counter g COUNTER_SESSIONS = max 0 (np_Matches g - np_BaseSessions g)"
| "local_counter g COUNTER_STREAK = np_Streak g"

definition Counter :: "int \<Rightarrow> verified_source \<Rightarrow> progress \<Rightarrow> quest_counter \<Rightarrow> int" where
  "Counter today vs g which =
     (if VerifiedSourceUsable today vs g \<and> which = COUNTER_PRACTICE then vs_PracticesToday vs
      else if VerifiedSourceUsable today vs g \<and> which = COUNTER_SESSIONS then vs_SessionsToday vs
      else local_counter g which)"

section \<open>Quests\<close>

definition QUEST_COUNT :: nat where "QUEST_COUNT = 3"
definition QUEST_POOL :: int where "QUEST_POOL = 12"

record quest =
  q_Target :: int
  q_Xp :: int
  q_Counter :: quest_counter

definition QuestDef :: "int \<Rightarrow> quest" where
  "QuestDef pool_index =
     [\<lparr>q_Target = 2, q_Xp = 60, q_Counter = COUNTER_PRACTICE\<rparr>,
      \<lparr>q_Target = 5, q_Xp = 150, q_Counter = COUNTER_PRACTICE\<rparr>,
      \<lparr>q_Target = 2, q_Xp = 45, q_Counter = COUNTER_TRIES\<rparr>,
      \<lparr>q_Target = 4, q_Xp = 90, q_Counter = COUNTER_TRIES\<rparr>,
      \<lparr>q_Target = 1, q_Xp = 40, q_Counter = COUNTER_SESSIONS\<rparr>,
      \<lparr>q_Target = 3, q_Xp = 110, q_Counter = COUNTER_SESSIONS\<rparr>,
      \<lparr>q_Target = 2, q_Xp = 70, q_Counter = COUNTER_STREAK\<rparr>,
      \<lparr>q_Target = 4, q_Xp = 160, q_Counter = COUNTER_STREAK\<rparr>,
      \<lparr>q_Target = 1, q_Xp = 55, q_Counter = COUNTER_PRACTICE\<rparr>,
      \<lparr>q_Target = 3, q_Xp = 100, q_Counter = COUNTER_PRACTICE\<rparr>,
      \<lparr>q_Target = 1, q_Xp = 20, q_Counter = COUNTER_TRIES\<rparr>,
      \<lparr>q_Target = 2, q_Xp = 75, q_Counter = COUNTER_SESSIONS\<rparr>] ! nat (pool_index mod QUEST_POOL)"

text \<open>The value of the first line of \<open>QuestPoolIndex\<close>, without the bounds of \<open>int\<close>.\<close>

definition hash_product :: "int \<Rightarrow> int" where "hash_product day = day * 1103515245 + 12345"

text \<open>What two's complement arithmetic makes of the hash.\<close>

definition wrapped_hash :: "int \<Rightarrow> int" where
  "wrapped_hash day = (let h = word_of_int (hash_product day) :: i32 in sint (h XOR signed_drop_bit 13 h))"

definition QuestPoolIndex :: "(int \<Rightarrow> int) \<Rightarrow> nat \<Rightarrow> int \<Rightarrow> int" where
  "QuestPoolIndex hash slot day = (\<bar>hash day\<bar> mod QUEST_POOL + int slot * 5) mod QUEST_POOL"

definition QuestClaimed :: "progress \<Rightarrow> nat \<Rightarrow> bool" where
  "QuestClaimed g slot \<longleftrightarrow> np_QuestDone g AND push_bit slot 1 \<noteq> 0"

definition QuestClaim :: "(int \<Rightarrow> int) \<Rightarrow> nat \<Rightarrow> progress \<Rightarrow> progress" where
  "QuestClaim hash slot g =
     (if QuestClaimed g slot then g
      else
        let g = g\<lparr>np_QuestDone := np_QuestDone g OR push_bit slot 1\<rparr> in
        AddXp (q_Xp (QuestDef (QuestPoolIndex hash slot (np_QuestDay g)))) g)"

record quest_state =
  qs_Quest :: quest
  qs_Progress :: int
  qs_Complete :: bool
  qs_Claimed :: bool

definition QuestState :: "(int \<Rightarrow> int) \<Rightarrow> int \<Rightarrow> verified_source \<Rightarrow> progress \<Rightarrow> nat \<Rightarrow> quest_state" where
  "QuestState hash today vs g slot =
     (let q = QuestDef (QuestPoolIndex hash slot (np_QuestDay g));
          p = min (Counter today vs g (q_Counter q)) (q_Target q)
      in \<lparr>qs_Quest = q, qs_Progress = p, qs_Complete = p \<ge> q_Target q, qs_Claimed = QuestClaimed g slot\<rparr>)"

section \<open>The level curve\<close>

lemma XpForLevel_eq: "0 \<le> level \<Longrightarrow> level \<le> 30 \<Longrightarrow> XpForLevel level = 125 * (level * (level + 1))"
  by (simp add: XpForLevel_def XP_PER_LEVEL_STEP_def MAX_LEVEL_def Let_def algebra_simps)

lemma XpForLevel_less: "0 \<le> a \<Longrightarrow> a < b \<Longrightarrow> b \<le> 30 \<Longrightarrow> XpForLevel a < XpForLevel b"
  by (simp add: XpForLevel_eq mult_strict_mono')

lemma level_loop_spec:
  assumes "0 \<le> level" "level \<le> 30" "XpForLevel level \<le> xp"
  shows "level \<le> level_loop xp level \<and> level_loop xp level \<le> 30 \<and> XpForLevel (level_loop xp level) \<le> xp \<and>
    (level_loop xp level < 30 \<longrightarrow> xp < XpForLevel (level_loop xp level + 1))"
  using assms
proof (induction xp level rule: level_loop.induct)
  case (1 xp level)
  show ?case
  proof (cases "level < MAX_LEVEL \<and> xp \<ge> XpForLevel (level + 1)")
    case True
    then have "level_loop xp level = level_loop xp (level + 1)" by (simp add: level_loop.simps [of xp level])
    then show ?thesis using 1 True by (simp add: MAX_LEVEL_def)
  next
    case False
    then have "level_loop xp level = level" by (auto simp: level_loop.simps [of xp level])
    then show ?thesis using 1(2-) False by (auto simp: MAX_LEVEL_def)
  qed
qed

lemma hash_overflow: "2 \<le> day \<Longrightarrow> 2 ^ 31 - 1 < hash_product day"
  by (simp add: hash_product_def)

text \<open>The level of a profile is the highest one that its experience pays for: a level from 0 to 30 is reached exactly when the
  experience is at least what the curve asks for it.\<close>

theorem level_curve:
  assumes "0 \<le> xp" "0 \<le> level" "level \<le> 30"
  shows "level \<le> LevelFromXp xp \<longleftrightarrow> XpForLevel level \<le> xp"
proof -
  have "XpForLevel 0 \<le> xp" using assms(1) by (simp add: XpForLevel_def)
  note l = level_loop_spec [of 0 xp, OF _ _ this, folded LevelFromXp_def, simplified]
  show ?thesis
  proof
    assume le: "level \<le> LevelFromXp xp"
    then have "XpForLevel level \<le> XpForLevel (LevelFromXp xp)"
      using XpForLevel_less [of level "LevelFromXp xp"] assms l by (cases "level = LevelFromXp xp") simp_all
    then show "XpForLevel level \<le> xp" using l by linarith
  next
    assume "XpForLevel level \<le> xp"
    show "level \<le> LevelFromXp xp"
    proof (rule ccontr)
      assume "\<not> level \<le> LevelFromXp xp"
      then have "XpForLevel (LevelFromXp xp + 1) \<le> XpForLevel level"
        using XpForLevel_less [of "LevelFromXp xp + 1" level] assms l by (cases "level = LevelFromXp xp + 1") simp_all
      then show False using l \<open>\<not> level \<le> LevelFromXp xp\<close> \<open>XpForLevel level \<le> xp\<close> assms(3) by linarith
    qed
  qed
qed

lemma level_curve_witness: "3 \<le> LevelFromXp 1500 \<longleftrightarrow> (1500 :: int) \<le> 1500"
  using level_curve [of 1500 3] by (simp add: XpForLevel_def XP_PER_LEVEL_STEP_def MAX_LEVEL_def)

section \<open>The streak\<close>

lemma TouchDay_streak:
  "np_StreakDay (TouchDay today g) = today"
  "np_Streak (TouchDay today g) =
     (if np_StreakDay g = today then np_Streak g
      else if DayDelta (np_StreakDay g) today = 1 then np_Streak g + 1 else 1)"
  by (simp_all add: TouchDay_def Let_def)

lemma streak_spec:
  assumes "days \<noteq> []" "sorted_wrt (<) days" "\<forall>d \<in> set days. 0 < d"
  shows "np_StreakDay (foldl (\<lambda>g d. TouchDay d g) new_progress days) = last days \<and>
    1 \<le> np_Streak (foldl (\<lambda>g d. TouchDay d g) new_progress days) \<and>
    (\<forall>k \<ge> 1. k \<le> np_Streak (foldl (\<lambda>g d. TouchDay d g) new_progress days) \<longleftrightarrow> (\<forall>j. 0 \<le> j \<and> j < k \<longrightarrow> last days - j \<in> set days))"
  using assms
proof (induction days rule: rev_induct)
  case (snoc d days)
  let ?g = "foldl (\<lambda>g d. TouchDay d g) new_progress days"
  have less: "\<forall>x \<in> set days. x < d" "sorted_wrt (<) days" using snoc.prems(2) by (simp_all add: sorted_wrt_append)
  have mem: "d - j \<in> set (days @ [d]) \<longleftrightarrow> j = 0 \<or> d - j \<in> set days" for j by auto
  show ?case
  proof (cases "days = []")
    case True
    have "(\<forall>j. 0 \<le> j \<and> j < k \<longrightarrow> j = 0) \<longleftrightarrow> k \<le> 1" if "1 \<le> k" for k :: int
      by (auto dest: spec [of _ 1])
    then show ?thesis using True snoc.prems by (auto simp: TouchDay_streak DayDelta_def new_progress_def)
  next
    case False
    then have IH: "np_StreakDay ?g = last days" "1 \<le> np_Streak ?g"
      "\<And>k. 1 \<le> k \<Longrightarrow> k \<le> np_Streak ?g \<longleftrightarrow> (\<forall>j. 0 \<le> j \<and> j < k \<longrightarrow> last days - j \<in> set days)"
      using snoc.IH less(2) snoc.prems(3) by auto
    have last: "last days < d" "0 < last days" "\<And>x. x \<in> set days \<Longrightarrow> x \<le> last days"
      using False less snoc.prems(3) sorted_wrt_append [of "(<)" "butlast days" "[last days]"]
      by (auto simp: append_butlast_last_id) (metis Un_iff append_butlast_last_id empty_iff empty_set insert_iff last_in_set less_imp_le
          list.simps(15) order_refl set_append)
    have d0: "last days \<noteq> d" using last by simp
    show ?thesis
    proof (cases "d = last days + 1")
      case True
      have "k \<le> np_Streak ?g + 1 \<longleftrightarrow> (\<forall>j. 0 \<le> j \<and> j < k \<longrightarrow> j = 0 \<or> d - j \<in> set days)" if k: "1 \<le> k" for k
      proof (cases "k = 1")
        case False
        have "(\<forall>j. 0 \<le> j \<and> j < k \<longrightarrow> j = 0 \<or> d - j \<in> set days) \<longleftrightarrow> (\<forall>j. 0 \<le> j \<and> j < k - 1 \<longrightarrow> last days - j \<in> set days)"
        proof safe
          fix j assume "\<forall>j. 0 \<le> j \<and> j < k \<longrightarrow> j = 0 \<or> d - j \<in> set days" "0 \<le> j" "j < k - 1"
          then show "last days - j \<in> set days" using True by (auto dest!: spec [of _ "j + 1"] simp: algebra_simps)
        next
          fix j assume "\<forall>j. 0 \<le> j \<and> j < k - 1 \<longrightarrow> last days - j \<in> set days" "0 \<le> j" "j < k" "d - j \<notin> set days"
          then show "j = 0" using True by (auto dest!: spec [of _ "j - 1"] simp: algebra_simps)
        qed
        then show ?thesis using IH(3) [of "k - 1"] k False by auto
      qed (use IH(2) in auto)
      then show ?thesis using True d0 last IH(1,2) by (auto simp: TouchDay_streak DayDelta_def mem)
    next
      case False
      have "k \<le> 1 \<longleftrightarrow> (\<forall>j. 0 \<le> j \<and> j < k \<longrightarrow> j = 0 \<or> d - j \<in> set days)" if "1 \<le> k" for k
      proof
        assume all: "\<forall>j. 0 \<le> j \<and> j < k \<longrightarrow> j = 0 \<or> d - j \<in> set days"
        have "d - 1 \<notin> set days" using last(1) last(3) [of "d - 1"] False by auto
        then show "k \<le> 1" using all by (auto dest!: spec [of _ 1])
      qed auto
      moreover have "DayDelta (last days) d \<noteq> 1" using last False by (simp add: DayDelta_def)
      ultimately show ?thesis using d0 IH(1) by (simp add: TouchDay_streak mem)
    qed
  qed
qed simp

text \<open>The streak is the number of days in a row, up to the last one, on which the game was opened: from a new profile,
  opened on any days, it is at least \<open>k\<close> exactly when the last \<open>k\<close> days are all among them.\<close>

theorem streak_days:
  assumes "days \<noteq> []" "sorted_wrt (<) days" "\<forall>d \<in> set days. 0 < d" "1 \<le> k"
  shows "k \<le> np_Streak (foldl (\<lambda>g d. TouchDay d g) new_progress days) \<longleftrightarrow> (\<forall>j. 0 \<le> j \<and> j < k \<longrightarrow> last days - j \<in> set days)"
  using streak_spec [OF assms(1-3)] assms(4) by blast

lemma streak_days_witness: "2 \<le> np_Streak (foldl (\<lambda>g d. TouchDay d g) new_progress [7, 9, 10])"
proof -
  have "(9 :: int) - j \<in> {8, 9} \<or> True" for j by simp
  have "(10 :: int) - j \<in> {7, 9, 10}" if "0 \<le> j" "j < 2" for j :: int using that by auto
  then show ?thesis using streak_days [of "[7, 9, 10]" 2] by auto
qed

section \<open>The accounts of a day\<close>

datatype progress_event = Ev_Practice | Ev_Stop | Ev_Try | Ev_Session | Ev_Claim nat | Ev_Touch

fun progress_step :: "(int \<Rightarrow> int) \<Rightarrow> int \<Rightarrow> progress \<Rightarrow> progress_event \<Rightarrow> progress" where
  "progress_step hash today g Ev_Practice = OnPracticeStarted g"
| "progress_step hash today g Ev_Stop = OnPracticeStopped g"
| "progress_step hash today g Ev_Try = OnCharacterTried g"
| "progress_step hash today g Ev_Session = OnSessionStarted g"
| "progress_step hash today g (Ev_Claim slot) = QuestClaim hash slot g"
| "progress_step hash today g Ev_Touch = TouchDay today g"

text \<open>The quest that a slot offers, and the experience of a list of events: that of a claim counts once for each slot.\<close>

definition quest_of :: "(int \<Rightarrow> int) \<Rightarrow> nat \<Rightarrow> int \<Rightarrow> quest" where
  "quest_of hash slot day = QuestDef (QuestPoolIndex hash slot day)"

definition claims :: "progress_event list \<Rightarrow> nat set" where "claims events = {slot. Ev_Claim slot \<in> set events}"

fun event_xp :: "progress_event \<Rightarrow> int" where
  "event_xp Ev_Practice = 25"
| "event_xp Ev_Stop = 40"
| "event_xp Ev_Try = 10"
| "event_xp Ev_Session = 15"
| "event_xp _ = 0"

definition earned :: "(int \<Rightarrow> int) \<Rightarrow> int \<Rightarrow> progress_event list \<Rightarrow> int" where
  "earned hash day events = sum_list (map event_xp events) + (\<Sum>slot \<in> claims events. q_Xp (quest_of hash slot day))"

lemma QuestClaimed_bit: "QuestClaimed g slot \<longleftrightarrow> bit (np_QuestDone g) slot"
  by (simp add: QuestClaimed_def bit_iff_and_push_bit_not_eq_0)

lemma QuestDef_xp: "0 \<le> q_Xp (QuestDef i)"
proof -
  have all: "list_all (\<lambda>n. 0 \<le> q_Xp (QuestDef (int n))) [0..<12]"
    by (simp add: upt_rec QuestDef_def QUEST_POOL_def)
  have "nat (i mod 12) \<in> set [0..<12]" by simp
  then have "0 \<le> q_Xp (QuestDef (int (nat (i mod 12))))" using all unfolding list_all_iff by blast
  then show ?thesis by (simp add: QuestDef_def QUEST_POOL_def)
qed

lemma claims_simps [simp]: "claims [] = {}" "claims (events @ [Ev_Claim slot]) = insert slot (claims events)"
  "\<forall>slot. e \<noteq> Ev_Claim slot \<Longrightarrow> claims (events @ [e]) = claims events"
  by (auto simp: claims_def)

lemma finite_claims: "finite (claims events)"
proof (induction events rule: rev_induct)
  case (snoc e events)
  then show ?case by (cases e) simp_all
qed simp

lemma earned_nonneg: "0 \<le> earned hash day events"
proof -
  have "0 \<le> event_xp e" for e by (cases e) simp_all
  then have "0 \<le> sum_list (map event_xp events)" by (induction events) (auto intro: add_nonneg_nonneg)
  then show ?thesis using sum_nonneg [of "claims events"] by (simp add: earned_def quest_of_def QuestDef_xp sum_nonneg)
qed

lemma AddXp_cap: "0 \<le> n \<Longrightarrow> np_Xp g = min x 1000000000 \<Longrightarrow> AddXp n g = g\<lparr>np_Xp := min (x + n) 1000000000\<rparr>"
  by (simp add: AddXp_def min_def)

lemma three_quests:
  assumes "i < j" "j < QUEST_COUNT"
  shows "QuestPoolIndex hash i day \<noteq> QuestPoolIndex hash j day"
proof -
  have "(x mod 12 + int i * 5) mod 12 \<noteq> (x mod 12 + int j * 5) mod 12" for x :: int
    using assms by (auto simp: QUEST_COUNT_def less_Suc_eq numeral_3_eq_3 mod_eq_dvd_iff)
  then show ?thesis by (simp add: QuestPoolIndex_def QUEST_POOL_def)
qed

definition day_ok :: "(int \<Rightarrow> int) \<Rightarrow> int \<Rightarrow> int \<Rightarrow> progress_event list \<Rightarrow> progress \<Rightarrow> bool" where
  "day_ok hash today xp events g \<longleftrightarrow> np_StreakDay g = today \<and> np_QuestDay g = today \<and>
     np_Practices g = np_BasePractices g + int (count_list events Ev_Practice) \<and>
     np_Tries g = np_BaseTries g + int (count_list events Ev_Try) \<and>
     np_Matches g = np_BaseSessions g + int (count_list events Ev_Session) \<and>
     (\<forall>slot. QuestClaimed g slot \<longleftrightarrow> slot \<in> claims events) \<and>
     np_Xp g = min (xp + earned hash today events) 1000000000"

lemma day_step:
  assumes "day_ok hash today xp events g"
  shows "day_ok hash today xp (events @ [e]) (progress_step hash today g e)"
proof -
  note d = assms [unfolded day_ok_def]
  have x: "np_Xp g = min (xp + earned hash today events) 1000000000" using d by blast
  have e: "\<forall>slot. e \<noteq> Ev_Claim slot \<Longrightarrow> earned hash today (events @ [e]) = earned hash today events + event_xp e"
    by (simp add: earned_def)
  show ?thesis
  proof (cases e)
    case (Ev_Claim slot)
    show ?thesis
    proof (cases "slot \<in> claims events")
      case True
      then show ?thesis using d by (simp add: day_ok_def Ev_Claim QuestClaim_def insert_absorb earned_def)
    next
      case False
      then have n: "earned hash today (events @ [Ev_Claim slot]) = earned hash today events + q_Xp (quest_of hash slot today)"
        by (simp add: earned_def finite_claims)
      let ?g = "g\<lparr>np_QuestDone := np_QuestDone g OR push_bit slot 1\<rparr>"
      have "QuestClaim hash slot g = AddXp (q_Xp (quest_of hash slot today)) ?g"
        using d False by (simp add: QuestClaim_def quest_of_def)
      also have "\<dots> = ?g\<lparr>np_Xp := min (xp + earned hash today events + q_Xp (quest_of hash slot today)) 1000000000\<rparr>"
        using x by (intro AddXp_cap) (simp_all add: quest_of_def QuestDef_xp)
      finally have g': "QuestClaim hash slot g = \<dots>" .
      have "bit (push_bit slot (1 :: int)) k \<longleftrightarrow> k = slot" for k by (auto simp: bit_exp_iff)
      moreover have "bit (np_QuestDone g) k \<longleftrightarrow> k \<in> claims events" for k using d unfolding QuestClaimed_bit by blast
      ultimately have "bit (np_QuestDone g OR push_bit slot 1) k \<longleftrightarrow> k = slot \<or> k \<in> claims events" for k
        unfolding bit_or_iff by blast
      then show ?thesis using d n unfolding day_ok_def QuestClaimed_bit Ev_Claim by (simp add: g')
    qed
  next
    case Ev_Practice
    have "OnPracticeStarted g = (g\<lparr>np_Practices := np_Practices g + 1\<rparr>)\<lparr>np_Xp := min (xp + earned hash today events + 25) 1000000000\<rparr>"
      unfolding OnPracticeStarted_def using x by (intro AddXp_cap) simp_all
    then show ?thesis using d e unfolding day_ok_def QuestClaimed_bit Ev_Practice by simp
  next
    case Ev_Stop
    have "OnPracticeStopped g = (g)\<lparr>np_Xp := min (xp + earned hash today events + 40) 1000000000\<rparr>"
      unfolding OnPracticeStopped_def using x by (intro AddXp_cap) simp_all
    then show ?thesis using d e unfolding day_ok_def QuestClaimed_bit Ev_Stop by simp
  next
    case Ev_Try
    have "OnCharacterTried g = (g\<lparr>np_Tries := np_Tries g + 1\<rparr>)\<lparr>np_Xp := min (xp + earned hash today events + 10) 1000000000\<rparr>"
      unfolding OnCharacterTried_def using x by (intro AddXp_cap) simp_all
    then show ?thesis using d e unfolding day_ok_def QuestClaimed_bit Ev_Try by simp
  next
    case Ev_Session
    have "OnSessionStarted g = (g\<lparr>np_Matches := np_Matches g + 1\<rparr>)\<lparr>np_Xp := min (xp + earned hash today events + 15) 1000000000\<rparr>"
      unfolding OnSessionStarted_def using x by (intro AddXp_cap) simp_all
    then show ?thesis using d e unfolding day_ok_def QuestClaimed_bit Ev_Session by simp
  next
    case Ev_Touch
    then show ?thesis using d e by (simp add: day_ok_def TouchDay_def)
  qed
qed

lemma day_begin:
  assumes "np_StreakDay g \<noteq> today" "np_QuestDay g \<noteq> today" "np_Xp g \<le> 1000000000"
  shows "day_ok hash today (np_Xp g) [] (TouchDay today g)"
  using assms by (simp add: day_ok_def TouchDay_def Let_def QuestClaimed_def earned_def)

lemma day_run:
  assumes "day_ok hash today xp [] g"
  shows "day_ok hash today xp events (foldl (progress_step hash today) g events)"
  using assms by (induction events rule: rev_induct) (simp_all add: day_step)

text \<open>C40. The accounts of a day: after a day's first visit the local counters start from zero and count exactly the events of
  that day; a quest counts as claimed exactly when its slot was claimed; each claim pays once, however often it is
  repeated; all experience earned is credited, up to the cap; and the three slots offer three different quests.\<close>

theorem day_accounts:
  assumes "np_StreakDay g \<noteq> today" "np_QuestDay g \<noteq> today" "np_Xp g \<le> 1000000000"
    and "g' = foldl (progress_step hash today) (TouchDay today g) events"
  shows "local_counter g' COUNTER_PRACTICE = int (count_list events Ev_Practice) \<and>
    local_counter g' COUNTER_TRIES = int (count_list events Ev_Try) \<and>
    local_counter g' COUNTER_SESSIONS = int (count_list events Ev_Session) \<and>
    (QuestClaimed g' slot \<longleftrightarrow> Ev_Claim slot \<in> set events) \<and>
    np_Xp g' = min (np_Xp g + sum_list (map event_xp events) + (\<Sum>slot \<in> claims events. q_Xp (quest_of hash slot today))) 1000000000 \<and>
    distinct (map (\<lambda>slot. QuestPoolIndex hash slot today) [0..<QUEST_COUNT])"
proof -
  have "day_ok hash today (np_Xp g) events g'" unfolding assms(4) by (rule day_run [OF day_begin [OF assms(1-3)]])
  moreover have "inj_on (\<lambda>slot. QuestPoolIndex hash slot today) (set [0..<QUEST_COUNT])"
    using three_quests [of _ _ hash today] by (intro inj_onI) (metis atLeastLessThan_iff linorder_neqE_nat set_upt)
  ultimately show ?thesis by (auto simp: day_ok_def claims_def earned_def distinct_map)
qed

lemma day_accounts_witness:
  "local_counter (foldl (progress_step wrapped_hash 20000) (TouchDay 20000 new_progress) [Ev_Practice, Ev_Claim 1, Ev_Practice, Ev_Claim 1])
     COUNTER_PRACTICE = 2"
  using day_accounts [of new_progress 20000 _ wrapped_hash "[Ev_Practice, Ev_Claim 1, Ev_Practice, Ev_Claim 1]" 1, OF _ _ _ refl]
  by (simp add: new_progress_def)

end
