(* ===== verification/Spec2Isabelle.thy ===== *)
theory Spec2Isabelle
  imports VarInt Strings CStrings Packer ConnSafety ConnDelivery SnapRoundtrip SnapIdPool BanSafety ConnResume ServerTokens Handshake
    PairingHttp WalletBridge DmRounds NeonProgress
begin

text \<open>
  Verification development of Neon Relay, a multiplayer game in C++ derived from DDNet.

  \<^bold>\<open>The program.\<close> A client and a server exchange UDP datagrams. Bottom up: integers, strings and raw bytes are packed
  into messages; messages become chunks of a packet, vital ones with a sequence number; a packet is compressed with a
  static Huffman code; a connection resends vital chunks from a ring buffer until they are acknowledged; the server
  keeps a slot per client, checks addresses with tokens before it gives out a slot, and refuses banned addresses; the
  state of the game travels as snapshots, of which only the difference to an acknowledged one is sent. Neon Relay adds
  wallets and rewards: a server signs match events and identity challenges, pairs a connection with an account over
  HTTPS, and the client talks to a platform wallet through a small text interface.

  \<^bold>\<open>Theories and code\<close> (paths below \<open>src/\<close>).

  \<^item> \<open>Prelude\<close>: machine types, \<open>base/bytes.cpp\<close>, named collections, and the locales \<open>codec\<close> (an encoding that can be
    read off the front of a text; lifted to sequences, prefix-free) and \<open>fifo\<close> (a bounded queue). \<open>codec\<close> is
    interpreted by variable-length integers (\<open>VarInt\<close>) and by escaped JSON text (\<open>MatchSigner\<close>), \<open>fifo\<close> by the
    ring buffer (\<open>RingBuffer\<close>).
  \<^item> \<open>VarInt\<close>: \<open>engine/shared/compression.cpp\<close>, \<open>CVariableInt\<close> over 32-bit words. Round trip of every integer and of
    sequences, within the space the code checks for.
  \<^item> \<open>Strings\<close>, \<open>CStrings\<close>: the UTF-8 routines and the bounded copies and clean-ups of \<open>base/str.cpp\<close>. The decoder
    accepts exactly the encodings of scalar values.
  \<^item> \<open>Packer\<close>: \<open>engine/shared/packer.cpp\<close>. Messages read back as written; \<open>AddString\<close> can write one byte too far.
  \<^item> \<open>Huffman\<close>, \<open>HuffmanTree\<close>, \<open>HuffmanCode\<close>, \<open>HuffmanRoundtrip\<close>: \<open>engine/shared/huffman.cpp\<close>: the construction of the
    tree by sorting, the table of codes, the look-up table, compression and decompression. The locale \<open>huffman_code\<close>
    states what the coder needs of the node array; it is interpreted on the game's frequency table.
  \<^item> \<open>NetPacket\<close>: \<open>engine/shared/network.cpp\<close>: packet and chunk headers for both protocol versions, tokens, packets.
  \<^item> \<open>RingBuffer\<close>: \<open>engine/shared/ringbuffer.cpp\<close> with blocks and headers at byte offsets, refined to a queue.
  \<^item> \<open>NetConn\<close> (\<open>CNetConnection\<close> of \<open>network_conn.cpp\<close> and the chunk unpacker), \<open>ConnSafety\<close> (invariant of all
    operations), \<open>ConnDelivery\<close> (vital chunks over a network that loses, repeats and reorders), \<open>ConnResume\<close>.
  \<^item> \<open>Uuid\<close>: \<open>uuid_manager.cpp\<close>, with \<open>linorder\<close> on UUIDs by byte comparison.
  \<^item> \<open>Snapshot\<close>, \<open>SnapBuild\<close>, \<open>SnapDelta\<close>, \<open>SnapSafety\<close>, \<open>SnapRoundtrip\<close>: \<open>snapshot.cpp\<close>: reading, building, storing
    snapshots, creating and applying deltas. \<open>SnapIdPool\<close>: \<open>engine/server/snap_id_pool.cpp\<close>.
  \<^item> \<open>NetBan\<close>, \<open>BanSafety\<close>: \<open>netban.cpp\<close>: hash table, expiry list; one proof in the locale \<open>ban_table\<close> for single
    addresses and for ranges, interpreted on both.
  \<^item> \<open>NetServer\<close>, \<open>ServerSafety\<close>, \<open>ServerTokens\<close>: \<open>network_server.cpp\<close>: slots, handshakes, the receive loop.
  \<^item> \<open>Stun\<close> (\<open>stun.cpp\<close>, \<open>network_stun.cpp\<close>), \<open>NetClient\<close> (\<open>network_client.cpp\<close>), \<open>Handshake\<close> (client with server).
  \<^item> \<open>MatchSigner\<close>, \<open>GameIdentity\<close>, \<open>GamePairing\<close>, \<open>GameSeal\<close>, \<open>GameConnection\<close>, \<open>PairingHttp\<close>, \<open>WalletBridge\<close>: the files
    of \<open>neonrelay/\<close> with the like names; \<open>PairingHttp\<close> includes the identity slots of \<open>CGameContext\<close>.
  \<^item> \<open>NeonDm\<close>, \<open>DmSafety\<close>, \<open>DmRounds\<close>: the combat mode, \<open>game/server/gamemodes/neon_dm.cpp\<close> and \<open>neon_dm_rules.h\<close>, on the parts
    of \<open>gamecontroller.cpp\<close>, \<open>player.cpp\<close>, \<open>character.cpp\<close> and \<open>gameworld.cpp\<close> that it runs: damage, death, respawn, scores, rounds.
  \<^item> \<open>NeonProgress\<close>: \<open>game/client/neon_progress.h\<close>: levels, streak and daily quests of the local profile.

  The definitions keep the names of the code; a method name that occurs in several classes carries a prefix
  (\<open>conn_Update\<close>, \<open>server_Send\<close>, \<open>gc_Begin\<close>). A field \<open>m_X\<close> of a class is the field \<open>X\<close> of a record with the prefix of
  the record. An operation takes the state and returns it updated; what it sends is appended to a list of outgoing
  datagrams in the state. An assertion that fails, or an access outside of an array, is the value \<open>None\<close>, so
  that a theorem that shows \<open>Some\<close> also shows that no assertion fails.

  \<^bold>\<open>What the lemmas show.\<close> For the wire formats, round trips and the exact set of accepted inputs; for the ring
  buffer, the snapshots' storage and the ban list, the refinement of a simpler structure; for connection, server, builder,
  identity and pairing, an invariant of all reachable states and what follows from it: vital chunks are delivered once
  and in order, no slot without a token, no signature and no identity except for the authenticated account; for the
  loops, that they end. Where the code deviates from what it means to do, the deviation is a theorem.

  \<^bold>\<open>Loops.\<close> Loops over lists are structural. The other loops take fuel, and a lemma shows that it is enough: the
  Huffman tree is at most 22 deep for the game's table (\<open>huffman_height\<close>), so its walks have the number of nodes as
  fuel; walks over the ring have the number of blocks and the allocation loop one round more than there are blocks;
  removing expired bans or snapshot ids has their number, and unpacking a packet has its length.
  The receive loops of server and client may run as long as packets arrive; they are \<open>partial_function\<close>, and the
  server's is shown to return.

  \<^bold>\<open>Parameters.\<close> Code from outside of the repository's own sources is an argument of the definitions: MD5, SHA-256, Ed25519, the
  functions of OpenSSL (each may fail), the JSON parser (a function from text to a value), the HTTP library (the state
  and reply of each request), the translation of message numbers that a build generates, the clock, random bytes and the datagrams that arrive.

  \<^bold>\<open>Not modelled.\<close> The physics and everything that computes with floating-point numbers, as the library has no model of
  them; user interface, graphics and sound; files, databases, threads, sockets and other system calls; the console; the
  race game's own rules, which are spread over entities that point to each other (of the combat mode the positions are left out); generated and third-party
  code. Log output is left out everywhere. Mutexes are left out: each operation that takes one is a single step.
\<close>

end
